(* ===== verification/Prelude.thy ===== *)
theory Prelude
  imports Main "HOL-Library.Word" "HOL-Library.Signed_Division"
    "HOL-Library.Code_Target_Nat" "HOL-Library.Code_Target_Int"
begin

text \<open>
  Shared vocabulary of the development: bytes and C strings, the idioms of C pointer code
  over strings, and the generic lemmas on lists the component theories use.

  A \<open>char *\<close> into a NUL terminated string is the list of bytes from the pointer up to (not
  including) the terminator, so a pointer that moves forward is a suffix. Reading through it
  at its end reads the terminator: \<open>deref []\<close> is \<open>NUL\<close>. The type \<open>char\<close> of HOL is a byte.
  Where the C code compares plain \<open>char\<close> values with \<open><\<close> or \<open>>\<close>, the model uses \<open>schar\<close>,
  since \<open>char\<close> is signed on the platforms the build targets (x86 with gcc, no
  \<open>-funsigned-char\<close>); where the code casts to \<open>unsigned char\<close>, it uses \<open>uchar\<close>.
\<close>

named_theorems cchar_simps "definitions of the character classes"
named_theorems wf_intros "preservation of well-formedness by the operations"

abbreviation NUL :: char where "NUL \<equiv> CHR 0x00"
abbreviation TAB :: char where "TAB \<equiv> CHR 0x09"
abbreviation LF :: char where "LF \<equiv> CHR 0x0A"
abbreviation CR :: char where "CR \<equiv> CHR 0x0D"
abbreviation DEL :: char where "DEL \<equiv> CHR 0x7F"
abbreviation SQUOTE :: char where "SQUOTE \<equiv> CHR 0x27"
abbreviation DQUOTE :: char where "DQUOTE \<equiv> CHR 0x22"
abbreviation BACKSLASH :: char where "BACKSLASH \<equiv> CHR 0x5C"

abbreviation uchar :: "char \<Rightarrow> nat" where "uchar c \<equiv> of_char c"

definition schar :: "char \<Rightarrow> int" where
  "schar c = (if uchar c < 128 then int (uchar c) else int (uchar c) - 256)"

definition deref :: "string \<Rightarrow> char" where
  "deref s = (case s of [] \<Rightarrow> NUL | c # _ \<Rightarrow> c)"

definition char_at :: "string \<Rightarrow> nat \<Rightarrow> char" where
  "char_at s n = (if n < length s then s ! n else NUL)"

text \<open>The C library's \<open>strcspn\<close>, \<open>strchr\<close> and \<open>strrchr\<close> on such strings.\<close>

definition strcspn :: "string \<Rightarrow> string \<Rightarrow> nat" where
  "strcspn s rej = length (takeWhile (\<lambda>c. c \<notin> set rej) s)"

fun strchr :: "string \<Rightarrow> char \<Rightarrow> nat option" where
  "strchr [] c = (if c = NUL then Some 0 else None)"
| "strchr (x # xs) c = (if x = c then Some 0 else map_option Suc (strchr xs c))"

definition cstring :: "string \<Rightarrow> bool" where
  "cstring s \<longleftrightarrow> NUL \<notin> set s"

lemma deref_simps [simp]: "deref [] = NUL" "deref (c # s) = c"
  by (simp_all add: deref_def)

lemma char_at_0 [simp]: "char_at s 0 = deref s"
  by (cases s) (simp_all add: char_at_def)

lemma char_at_Suc [simp]: "char_at (c # s) (Suc n) = char_at s n" "char_at [] n = NUL"
  by (simp_all add: char_at_def)

lemma deref_NUL_iff: "cstring s \<Longrightarrow> deref s = NUL \<longleftrightarrow> s = []"
  by (cases s) (auto simp: cstring_def)

lemma deref_not_NUL: "deref s \<noteq> NUL \<Longrightarrow> s \<noteq> []"
  by auto

lemma cstring_simps [simp]:
  "cstring []" "cstring (c # s) \<longleftrightarrow> c \<noteq> NUL \<and> cstring s"
  "cstring (s @ t) \<longleftrightarrow> cstring s \<and> cstring t"
  by (auto simp: cstring_def)

lemma cstring_take [intro]: "cstring s \<Longrightarrow> cstring (take n s)"
  by (auto simp: cstring_def dest: in_set_takeD)

lemma cstring_drop [intro]: "cstring s \<Longrightarrow> cstring (drop n s)"
  by (auto simp: cstring_def dest: in_set_dropD)

lemma uchar_less: "uchar c < 256"
  by simp

lemma uchar_char_of [simp]: "n < 256 \<Longrightarrow> uchar (char_of n) = n" for n :: nat
  by (simp add: of_char_of)

lemma uchar_NUL_iff [simp]: "uchar c = 0 \<longleftrightarrow> c = NUL"
proof -
  have "uchar NUL = 0" by simp
  then have "uchar c = 0 \<longleftrightarrow> uchar c = uchar NUL" by simp
  then show ?thesis by (simp only: of_char_eq_iff)
qed

lemma char_eqI: "uchar c = uchar d \<Longrightarrow> c = d"
  by (simp only: of_char_eq_iff)

subsection \<open>Lists\<close>

lemma takeWhile_length_le: "length (takeWhile P xs) \<le> length xs"
  by (rule length_takeWhile_le)

lemma strcspn_le [simp]: "strcspn s rej \<le> length s"
  by (simp add: strcspn_def length_takeWhile_le)

lemma strcspn_hit: "strcspn s rej < length s \<Longrightarrow> s ! strcspn s rej \<in> set rej"
  unfolding strcspn_def using nth_length_takeWhile [of "\<lambda>c. c \<notin> set rej" s] by auto

lemma strcspn_before: "i < strcspn s rej \<Longrightarrow> s ! i \<notin> set rej"
proof -
  assume i: "i < strcspn s rej"
  then have "takeWhile (\<lambda>c. c \<notin> set rej) s ! i \<in> set (takeWhile (\<lambda>c. c \<notin> set rej) s)"
    by (simp add: strcspn_def)
  then have "takeWhile (\<lambda>c. c \<notin> set rej) s ! i \<notin> set rej"
    using set_takeWhileD by fastforce
  moreover have "takeWhile (\<lambda>c. c \<notin> set rej) s ! i = s ! i"
    using i by (simp add: strcspn_def takeWhile_nth)
  ultimately show ?thesis by simp
qed

lemma strchr_less: "strchr s c = Some n \<Longrightarrow> c \<noteq> NUL \<Longrightarrow> n < length s \<and> s ! n = c"
  by (induction s arbitrary: n) (auto split: if_splits)

lemma sum_list_map_update:
  "i < length xs \<Longrightarrow>
   sum_list (map f (xs[i := y])) + f (xs ! i) = sum_list (map f xs) + (f y :: 'a :: comm_monoid_add)"
proof (induction xs arbitrary: i)
  case Nil
  then show ?case by simp
next
  case (Cons x xs)
  show ?case
  proof (cases i)
    case 0
    then show ?thesis by (simp add: add.commute add.left_commute)
  next
    case (Suc j)
    with Cons show ?thesis by (simp add: add.assoc)
  qed
qed

subsection \<open>Arithmetic form of shifts and masks\<close>

unbundle bit_operations_syntax

lemma or_disjoint_nat: "b < 2 ^ n \<Longrightarrow> push_bit n a OR b = a * 2 ^ n + b" for a b n :: nat
proof -
  assume b: "b < 2 ^ n"
  have "push_bit n a AND b = 0"
  proof (rule bit_eqI)
    fix k
    have "\<not> bit b k" if "n \<le> k"
    proof -
      have "b < 2 ^ k" using b that by (meson less_le_trans one_le_numeral power_increasing)
      then show ?thesis by (simp add: bit_iff_odd)
    qed
    then show "bit (push_bit n a AND b) k = bit 0 k"
      by (auto simp: bit_simps)
  qed
  then have "push_bit n a OR b = push_bit n a + b" by (simp add: disjunctive_add_eq_or)
  then show ?thesis by (simp add: push_bit_eq_mult)
qed

lemma and_63: "n AND 63 = n mod 64" for n :: nat
  using take_bit_eq_mask [of 6 n] by (simp add: take_bit_eq_mod mask_eq_exp_minus_1)

lemma and_255: "n AND 255 = n mod 256" for n :: nat
  using take_bit_eq_mask [of 8 n] by (simp add: take_bit_eq_mod mask_eq_exp_minus_1)

lemma and_mask_nat: "n AND 31 = n mod 32" "n AND 15 = n mod 16" "n AND 1 = n mod 2" "n AND 127 = n mod 128" for n :: nat
  using take_bit_eq_mask [of 5 n] take_bit_eq_mask [of 4 n] take_bit_eq_mask [of 1 n] take_bit_eq_mask [of 7 n]
  by (simp_all add: take_bit_eq_mod mask_eq_exp_minus_1)

lemma and_push_bit_nat: "n AND push_bit k m = push_bit k (drop_bit k n AND m)" for n m k :: nat
  by (rule bit_eqI) (auto simp: bit_simps)

lemma and_high_bits: "n AND 192 = n div 64 mod 4 * 64" "n AND 128 = n div 128 mod 2 * 128"
  "n AND 224 = n div 32 mod 8 * 32" for n :: nat
  using and_push_bit_nat [of n 6 3] and_push_bit_nat [of n 7 1] and_push_bit_nat [of n 5 7]
    take_bit_eq_mask [of 2 "n div 64"] take_bit_eq_mask [of 1 "n div 128"] take_bit_eq_mask [of 3 "n div 32"]
  by (simp_all add: take_bit_eq_mod mask_eq_exp_minus_1 push_bit_eq_mult drop_bit_eq_div)

subsection \<open>Signed division\<close>

lemma sdiv_nonneg: "0 \<le> a \<Longrightarrow> 0 < b \<Longrightarrow> a sdiv b = a div b" for a b :: int
  by (auto simp: signed_divide_int_def sgn_if)

lemma smod_nonneg: "0 \<le> a \<Longrightarrow> 0 < b \<Longrightarrow> a smod b = a mod b" for a b :: int
  by (cases "a = 0") (simp_all add: signed_modulo_int_def)

end
