(* ===== verification/Util_String.thy ===== *)
theory Util_String
  imports Prelude
begin

text \<open>
  \<open>src/util/string.h\<close>, \<open>src/util/string.c\<close> and the ASCII case functions of
  \<open>src/util/conv.c\<close>: the character classes every parser of the program is written with, and
  the locale independent case-insensitive comparisons. \<open>c_tolower\<close> and \<open>c_toupper\<close> are
  \<open>switch\<close> statements over the 26 letters; the model writes the same mapping as a range test.
\<close>

subsection \<open>Character classes\<close>

definition isdigit :: "char \<Rightarrow> bool" where
  "isdigit c \<longleftrightarrow> 0x30 \<le> uchar c \<and> uchar c \<le> 0x39"

definition isquote :: "char \<Rightarrow> bool" where
  "isquote c \<longleftrightarrow> c = DQUOTE \<or> c = SQUOTE"

definition isasciialpha :: "char \<Rightarrow> bool" where
  "isasciialpha c \<longleftrightarrow>
     (0x41 \<le> uchar c \<and> uchar c \<le> 0x5A) \<or> (0x61 \<le> uchar c \<and> uchar c \<le> 0x7A)"

definition isasciialnum :: "char \<Rightarrow> bool" where
  "isasciialnum c \<longleftrightarrow> isasciialpha c \<or> isdigit c"

definition isident :: "char \<Rightarrow> bool" where
  "isident c \<longleftrightarrow> isasciialnum c \<or> c = CHR ''_'' \<or> c = CHR ''-''"

definition elinks_isspace :: "char \<Rightarrow> bool" where
  "elinks_isspace c \<longleftrightarrow>
     c = TAB \<or> c = LF \<or> c = CHR 0x0B \<or> c = CHR 0x0C \<or> c = CR \<or> c = CHR '' ''"

definition c_isupper :: "char \<Rightarrow> bool" where
  "c_isupper c \<longleftrightarrow> 0x41 \<le> uchar c \<and> uchar c \<le> 0x5A"

definition c_islower :: "char \<Rightarrow> bool" where
  "c_islower c \<longleftrightarrow> 0x61 \<le> uchar c \<and> uchar c \<le> 0x7A"

definition c_tolower :: "char \<Rightarrow> char" where
  "c_tolower c = (if 0x41 \<le> uchar c \<and> uchar c \<le> 0x5A then char_of (uchar c + 32) else c)"

definition c_toupper :: "char \<Rightarrow> char" where
  "c_toupper c = (if 0x61 \<le> uchar c \<and> uchar c \<le> 0x7A then char_of (uchar c - 32) else c)"

text \<open>\<open>skip_space\<close> and \<open>skip_nonspace\<close>; both stop at the terminator.\<close>

definition skip_space :: "string \<Rightarrow> string" where
  "skip_space s = dropWhile elinks_isspace s"

definition skip_nonspace :: "string \<Rightarrow> string" where
  "skip_nonspace s = dropWhile (\<lambda>c. c \<noteq> NUL \<and> \<not> elinks_isspace c) s"

lemmas cchar_defs [cchar_simps] =
  isdigit_def isquote_def isasciialpha_def isasciialnum_def isident_def elinks_isspace_def
  c_isupper_def c_islower_def c_tolower_def c_toupper_def schar_def

lemma uchar_c_tolower:
  "uchar (c_tolower c) = (if c_isupper c then uchar c + 32 else uchar c)"
  by (simp add: c_tolower_def c_isupper_def)

lemma uchar_c_toupper:
  "uchar (c_toupper c) = (if c_islower c then uchar c - 32 else uchar c)"
proof (cases "c_islower c")
  case True
  have "uchar c - 32 < 256" using uchar_less [of c] by linarith
  with True show ?thesis by (simp add: c_toupper_def c_islower_def del: of_char_of)
next
  case False
  then show ?thesis by (auto simp: c_toupper_def c_islower_def)
qed

lemma c_tolower_NUL_iff [simp]: "c_tolower c = NUL \<longleftrightarrow> c = NUL"
  by (simp only: uchar_NUL_iff [symmetric] uchar_c_tolower) (auto simp: c_isupper_def)

lemma c_tolower_NUL [simp]: "c_tolower NUL = NUL"
  by simp

lemma NUL_c_tolower_iff [simp]: "NUL = c_tolower c \<longleftrightarrow> c = NUL"
  using c_tolower_NUL_iff [of c] by metis

lemma not_c_isupper_c_tolower [simp]: "\<not> c_isupper (c_tolower c)"
  by (simp add: c_isupper_def uchar_c_tolower)

lemma c_tolower_idem [simp]: "c_tolower (c_tolower c) = c_tolower c"
  by (rule char_eqI) (simp only: uchar_c_tolower not_c_isupper_c_tolower if_False)

lemma c_toupper_c_tolower: "c_toupper (c_tolower c) = c_toupper c"
  by (rule char_eqI) (auto simp: uchar_c_tolower uchar_c_toupper c_isupper_def c_islower_def
      simp del: of_char_eq_iff)

lemma c_tolower_c_toupper: "c_tolower (c_toupper c) = c_tolower c"
  by (rule char_eqI) (auto simp: uchar_c_tolower uchar_c_toupper c_isupper_def c_islower_def
      simp del: of_char_eq_iff)

lemma c_tolower_eq_iff_c_toupper: "c_tolower a = c_tolower b \<longleftrightarrow> c_toupper a = c_toupper b"
  by (metis c_tolower_c_toupper c_toupper_c_tolower)

subsection \<open>Case-insensitive comparison\<close>

function c_strcasecmp :: "string \<Rightarrow> string \<Rightarrow> int" where
  "c_strcasecmp s1 s2 =
     (let c1 = c_tolower (deref s1); c2 = c_tolower (deref s2)
      in if c1 \<noteq> c2 then (if uchar c1 < uchar c2 then -1 else 1)
         else if c1 = NUL then 0
         else c_strcasecmp (tl s1) (tl s2))"
  by pat_completeness auto
termination
proof (relation "measure (\<lambda>(s1, s2). length s1)")
  fix s1 s2 :: string and x y
  assume "x = c_tolower (deref s1)" and "x \<noteq> NUL"
  then have "s1 \<noteq> []" by auto
  then show "((tl s1, tl s2), s1, s2) \<in> measure (\<lambda>(s1, s2). length s1)" by simp
qed simp

declare c_strcasecmp.simps [simp del]

primrec c_strncasecmp :: "string \<Rightarrow> string \<Rightarrow> nat \<Rightarrow> int" where
  "c_strncasecmp s1 s2 0 = 0"
| "c_strncasecmp s1 s2 (Suc n) =
     (let c1 = c_tolower (deref s1); c2 = c_tolower (deref s2)
      in if c1 \<noteq> c2 then (if uchar c1 < uchar c2 then -1 else 1)
         else if c1 = NUL then 0
         else c_strncasecmp (tl s1) (tl s2) n)"

text \<open>The abstract meaning: equality of the lower-cased strings.\<close>

definition lower :: "string \<Rightarrow> string" where
  "lower s = map c_tolower s"

lemma c_strcasecmp_0_iff:
  "cstring s \<Longrightarrow> cstring t \<Longrightarrow> c_strcasecmp s t = 0 \<longleftrightarrow> lower s = lower t"
proof (induction s arbitrary: t)
  case Nil
  then show ?case
    by (cases t; subst c_strcasecmp.simps) (simp_all add: lower_def Let_def)
next
  case (Cons a s)
  then show ?case
    by (cases t; subst c_strcasecmp.simps) (simp_all add: lower_def Let_def)
qed

lemma c_strncasecmp_0_iff:
  "cstring s \<Longrightarrow> cstring t \<Longrightarrow>
   c_strncasecmp s t n = 0 \<longleftrightarrow> lower (take n s) = lower (take n t)"
proof (induction n arbitrary: s t)
  case 0
  then show ?case by (simp add: lower_def)
next
  case (Suc n)
  then show ?case
    by (cases s; cases t) (simp_all add: lower_def Let_def)
qed

lemma lower_append [simp]: "lower (s @ t) = lower s @ lower t"
  by (simp add: lower_def)

lemma length_lower [simp]: "length (lower s) = length s"
  by (simp add: lower_def)

lemma lower_idem [simp]: "lower (lower s) = lower s"
  by (simp add: lower_def)

lemma cstring_lower [simp]: "cstring (lower s) \<longleftrightarrow> cstring s"
  by (induction s) (simp_all add: lower_def)


text \<open>
  \<open>strlcmp_device\<close> of \<open>src/util/string.c\<close>, as \<open>c_strlcasecmp\<close> uses it: strings with a length, where
  the length \<open>-1\<close> asks for \<open>strlen\<close>. A NUL byte inside ends the comparison with equality.
\<close>

fun strlcase_loop :: "nat \<Rightarrow> string \<Rightarrow> string \<Rightarrow> int" where
  "strlcase_loop 0 s1 s2 = 0"
| "strlcase_loop (Suc n) s1 s2 =
     (if deref s1 = NUL \<or> deref s2 = NUL then 0
      else let d = schar (c_toupper (deref s1)) - schar (c_toupper (deref s2))
           in if d \<noteq> 0 then d else strlcase_loop n (tl s1) (tl s2))"

definition c_strlcasecmp :: "string \<Rightarrow> int \<Rightarrow> string \<Rightarrow> int \<Rightarrow> int" where
  "c_strlcasecmp s1 n1 s2 n2 =
     (let m1 = (if n1 = -1 then int (length (takeWhile (\<lambda>c. c \<noteq> NUL) s1)) else n1);
          m2 = (if n2 = -1 then int (length (takeWhile (\<lambda>c. c \<noteq> NUL) s2)) else n2)
      in if m1 - m2 \<noteq> 0 then m1 - m2 else strlcase_loop (nat m1) s1 s2)"

lemma schar_eq_iff: "schar a = schar b \<longleftrightarrow> a = b"
proof
  assume "schar a = schar b"
  moreover have "int (uchar a) < 256" "int (uchar b) < 256" using uchar_less [of a] uchar_less [of b] by linarith+
  ultimately have "int (uchar a) = int (uchar b)" unfolding schar_def by (simp only: split: if_splits)
  then have "uchar a = uchar b" by linarith
  then show "a = b" by (rule char_eqI)
qed simp

lemma strlcase_loop_0_iff:
  "cstring s \<Longrightarrow> cstring t \<Longrightarrow> n \<le> length s \<Longrightarrow> n \<le> length t \<Longrightarrow>
     strlcase_loop n s t = 0 \<longleftrightarrow> lower (take n s) = lower (take n t)"
proof (induction n s t rule: strlcase_loop.induct)
  case (2 n s1 s2)
  then show ?case
    by (cases s1; cases s2) (auto simp: Let_def lower_def schar_eq_iff c_tolower_eq_iff_c_toupper)
qed (simp add: lower_def)

lemma c_strlcasecmp_0_iff:
  assumes "cstring s" "cstring t" "n \<le> length s"
  shows "c_strlcasecmp s (int n) t (-1) = 0 \<longleftrightarrow> lower (take n s) = lower t"
proof -
  have t: "takeWhile (\<lambda>c. c \<noteq> NUL) t = t" using assms(2) by (auto simp: cstring_def)
  have "length (lower (take n s)) = n" using assms(3) by simp
  moreover have "strlcase_loop n s t = 0 \<longleftrightarrow> lower (take n s) = lower t" if "n = length t"
    using strlcase_loop_0_iff [OF assms(1,2,3)] that by simp
  ultimately show ?thesis unfolding c_strlcasecmp_def Let_def t by (auto dest: arg_cong [where f = length])
qed

end
