(* ===== verification/Conv.thy ===== *)
theory Conv
  imports Util_String
begin

unbundle bit_operations_syntax

text \<open>
  \<open>src/util/conv.c\<close> and the inline functions of \<open>src/util/conv.h\<close>: number to text
  conversions, the encoders that append an escaped copy of a string, and the in-place string
  cleaners. A \<open>struct string\<close> is the list of its bytes, so the \<open>add_..._to_string\<close>
  functions return the extended list; allocations succeed. A buffer written at \<open>[*slen]\<close> is
  modelled by the bytes before \<open>*slen\<close>, and the function returns these followed by what it
  wrote; the pointer \<open>slen\<close> being NULL is the empty prefix. Numbers are mathematical integers:
  the conversions only divide and negate, so nothing can overflow below \<open>2 ^ 63\<close>, except
  for the product in \<open>add_xnum_to_string\<close>, which needs \<open>xnum < 2 ^ 63 / 10\<close>.
\<close>

subsection \<open>Hexadecimal digits\<close>

definition hx :: "nat \<Rightarrow> char" where
  "hx a = (if a \<ge> 10 then char_of (a + 0x61 - 10) else char_of (a + 0x30))"

definition Hx :: "nat \<Rightarrow> char" where
  "Hx a = (if a \<ge> 10 then char_of (a + 0x41 - 10) else char_of (a + 0x30))"

definition unhx :: "char \<Rightarrow> int" where
  "unhx c =
     (if isdigit c then int (uchar c) - 0x30
      else if 0x61 \<le> uchar c \<and> uchar c \<le> 0x66 then int (uchar c) - 0x61 + 10
      else if 0x41 \<le> uchar c \<and> uchar c \<le> 0x46 then int (uchar c) - 0x41 + 10
      else -1)"

definition is_safe_in_shell :: "char \<Rightarrow> bool" where
  "is_safe_in_shell c \<longleftrightarrow>
     isasciialnum c \<or> c = CHR ''@'' \<or> c = CHR ''+'' \<or> c = CHR ''.''
     \<or> c = CHR ''/'' \<or> c = CHR '':'' \<or> c = CHR ''_''"

lemma uchar_hx: "n < 16 \<Longrightarrow> uchar (hx n) = (if n \<ge> 10 then n + 87 else n + 48)"
  by (simp add: hx_def)

lemma uchar_Hx: "n < 16 \<Longrightarrow> uchar (Hx n) = (if n \<ge> 10 then n + 55 else n + 48)"
  by (simp add: Hx_def)

lemma unhx_hx [simp]: "n < 16 \<Longrightarrow> unhx (hx n) = int n"
  by (simp add: unhx_def isdigit_def uchar_hx)

lemma unhx_Hx [simp]: "n < 16 \<Longrightarrow> unhx (Hx n) = int n"
  by (simp add: unhx_def isdigit_def uchar_Hx)

lemma unhx_bounds: "-1 \<le> unhx c \<and> unhx c < 16"
  by (auto simp: unhx_def isdigit_def)

subsection \<open>Numbers to text\<close>

text \<open>The loop that counts digits needs \<open>base > 1\<close>, which the caller has checked.\<close>

function ulong_nlen :: "nat \<Rightarrow> nat \<Rightarrow> nat \<Rightarrow> nat" where
  "ulong_nlen base q nlen =
     (if 2 \<le> base \<and> q > base - 1 then ulong_nlen base (q div base) (nlen + 1) else nlen)"
  by pat_completeness auto
termination
  by (relation "measure (\<lambda>(base, q, nlen). q)") auto

declare ulong_nlen.simps [simp del]

text \<open>The loop that writes \<open>nlen\<close> digits from the last to the first.\<close>

primrec ulong_write :: "nat \<Rightarrow> bool \<Rightarrow> nat \<Rightarrow> nat \<Rightarrow> string \<Rightarrow> string" where
  "ulong_write base upper 0 number acc = acc"
| "ulong_write base upper (Suc nlen) number acc =
     ulong_write base upper nlen (number div base)
       ((if upper then Hx (number mod base) else hx (number mod base)) # acc)"

definition elinks_ulongcat ::
  "string \<Rightarrow> nat \<Rightarrow> nat \<Rightarrow> char \<Rightarrow> nat \<Rightarrow> bool \<Rightarrow> int \<times> string" where
  "elinks_ulongcat s number width fillchar base upper =
     (if width < 1 \<or> base < 2 \<or> base > 16 then (-1, s)
      else
        let nlen0 = ulong_nlen base number 1;
            ret = (if nlen0 > width then int nlen0 else 0);
            nlen = (if nlen0 > width then width else nlen0);
            pad = (if fillchar \<noteq> NUL then replicate (width - nlen) fillchar else [])
        in (ret, s @ pad @ ulong_write base upper nlen number []))"

definition elinks_longcat ::
  "string \<Rightarrow> int \<Rightarrow> nat \<Rightarrow> char \<Rightarrow> nat \<Rightarrow> bool \<Rightarrow> int \<times> string" where
  "elinks_longcat s number width fillchar base upper =
     (if number < 0 \<and> width > 0
      then elinks_ulongcat (s @ ''-'') (nat (- number)) (width - 1) fillchar base upper
      else elinks_ulongcat s (nat number) width fillchar base upper)"

abbreviation ulongcat :: "string \<Rightarrow> nat \<Rightarrow> nat \<Rightarrow> char \<Rightarrow> int \<times> string" where
  "ulongcat s number width fillchar \<equiv> elinks_ulongcat s number width fillchar 10 False"

abbreviation longcat :: "string \<Rightarrow> int \<Rightarrow> nat \<Rightarrow> char \<Rightarrow> int \<times> string" where
  "longcat s number width fillchar \<equiv> elinks_longcat s number width fillchar 10 False"

definition add_long_to_string :: "string \<Rightarrow> int \<Rightarrow> string option" where
  "add_long_to_string str number =
     (let (width, buffer) = longcat [] number 63 NUL
      in if width < 0 \<or> buffer = [] then None else Some (str @ buffer))"

definition add_knum_to_string :: "string \<Rightarrow> int \<Rightarrow> string option" where
  "add_knum_to_string str num =
     (let (ret, t) =
        (if num \<noteq> 0 \<and> (num sdiv (1024 * 1024)) * (1024 * 1024) = num
         then (let (r, t) = longcat [] (num sdiv (1024 * 1024)) 62 NUL in (r, t @ ''M''))
         else if num \<noteq> 0 \<and> (num sdiv 1024) * 1024 = num
         then (let (r, t) = longcat [] (num sdiv 1024) 62 NUL in (r, t @ ''k''))
         else longcat [] num 63 NUL)
      in if ret < 0 \<or> t = [] then None else Some (str @ t))"

text \<open>
  \<open>add_long_to_string\<close> returns NULL without touching the string on failure, and this
  caller ignores the result.
\<close>

definition add_long_or_not :: "string \<Rightarrow> int \<Rightarrow> string" where
  "add_long_or_not str number = (case add_long_to_string str number of None \<Rightarrow> str | Some s \<Rightarrow> s)"

definition add_xnum_to_string :: "string \<Rightarrow> int \<Rightarrow> string" where
  "add_xnum_to_string str xnum =
     (let (suff, d, n) =
        (if xnum \<ge> 1024 * 1024
         then (''Mi'', ((xnum * 10) sdiv (1024 * 1024)) smod 10, xnum sdiv (1024 * 1024))
         else if xnum \<ge> 1024
         then (''Ki'', ((xnum * 10) sdiv 1024) smod 10, xnum sdiv 1024)
         else ('''', -1, xnum));
        s1 = add_long_or_not str n;
        s2 = (if d \<noteq> -1 then add_long_or_not (s1 @ ''.'') d else s1)
      in s2 @ '' '' @ suff @ ''B'')"

definition add_duration_to_string :: "string \<Rightarrow> int \<Rightarrow> string" where
  "add_duration_to_string str seconds0 =
     (let seconds = nat (if seconds0 < 0 then 0 else seconds0);
        q1 = (if seconds \<ge> 24 * 3600
              then snd (ulongcat [] (seconds div (24 * 3600)) 5 NUL) @ ''d '' else []);
        (sec2, q2) =
          (if seconds \<ge> 3600
           then let sec = seconds mod (24 * 3600);
                    h = snd (ulongcat q1 (sec div 3600) 4 NUL) @ '':''
                in (sec, snd (ulongcat h ((sec div 60) mod 60) 2 (CHR ''0'')))
           else (seconds, snd (ulongcat q1 (seconds div 60) 2 NUL)));
        q3 = snd (ulongcat (q2 @ '':'') (sec2 mod 60) 2 (CHR ''0''))
      in str @ q3)"

text \<open>Reading digits back: the value a digit string denotes.\<close>

definition digits_value :: "nat \<Rightarrow> string \<Rightarrow> nat" where
  "digits_value base ds = fold (\<lambda>c v. v * base + nat (unhx c)) ds 0"

lemma digits_value_Nil [simp]: "digits_value base [] = 0"
  by (simp add: digits_value_def)

lemma digits_value_snoc [simp]:
  "digits_value base (ds @ [c]) = digits_value base ds * base + nat (unhx c)"
  by (simp add: digits_value_def)

lemma ulong_write_acc:
  "ulong_write base upper n number acc = ulong_write base upper n number [] @ acc"
proof (induction n arbitrary: number acc)
  case 0
  then show ?case by simp
next
  case (Suc n)
  let ?c = "if upper then Hx (number mod base) else hx (number mod base)"
  show ?case
    using Suc [of "number div base" "?c # acc"] Suc [of "number div base" "[?c]"] by simp
qed

lemma length_ulong_write [simp]:
  "length (ulong_write base upper n number acc) = n + length acc"
  by (induction n arbitrary: number acc) simp_all

lemma mod_pow_Suc:
  fixes b n :: nat
  shows "n mod b ^ Suc k = ((n div b) mod b ^ k) * b + n mod b"
  by (metis add.commute mod_mult2_eq mult.commute power_Suc)

lemma digits_value_ulong_write:
  assumes "2 \<le> base" "base \<le> 16"
  shows "digits_value base (ulong_write base upper n number []) = number mod base ^ n"
proof (induction n arbitrary: number)
  case 0
  then show ?case by simp
next
  case (Suc n)
  let ?c = "if upper then Hx (number mod base) else hx (number mod base)"
  have "number mod base < 16"
    using assms mod_less_divisor [of base number] by linarith
  then have c: "nat (unhx ?c) = number mod base" by simp
  have "ulong_write base upper (Suc n) number [] =
      ulong_write base upper n (number div base) [] @ [?c]"
    by (simp add: ulong_write_acc [of _ _ _ _ "[_]"])
  then have "digits_value base (ulong_write base upper (Suc n) number []) =
      ((number div base) mod base ^ n) * base + number mod base"
    using c Suc by simp
  then show ?case by (simp only: mod_pow_Suc)
qed

lemma ulong_nlen_spec:
  assumes "2 \<le> base"
  shows "\<exists>k. ulong_nlen base q n = n + k \<and> q < base ^ Suc k \<and> (k = 0 \<or> base ^ k \<le> q)"
  using assms
proof (induction base q n rule: ulong_nlen.induct)
  case (1 base q n)
  show ?case
  proof (cases "q > base - 1")
    case True
    with 1 obtain k where k: "ulong_nlen base (q div base) (n + 1) = n + 1 + k"
      "q div base < base ^ Suc k" "k = 0 \<or> base ^ k \<le> q div base"
      by auto
    have "q < base ^ Suc (Suc k)"
      using k(2) 1(2) by (simp add: div_less_iff_less_mult mult.commute)
    moreover have "base ^ Suc k \<le> q"
    proof -
      have "base ^ k \<le> q div base"
        using k(3) True 1(2) by (cases k) (auto simp: Suc_le_eq div_greater_zero_iff)
      then have "base ^ k * base \<le> q div base * base" by simp
      also have "\<dots> \<le> q" by simp
      finally show ?thesis by (simp add: mult.commute)
    qed
    ultimately show ?thesis
      using True k(1) 1(2) by (intro exI [of _ "Suc k"]) (simp add: ulong_nlen.simps [of base q n])
  next
    case False
    with 1(2) show ?thesis
      by (intro exI [of _ 0]) (simp add: ulong_nlen.simps [of base q n])
  qed
qed

lemma ulong_nlen_fits:
  assumes "2 \<le> base" "1 \<le> width"
  shows "ulong_nlen base q 1 \<le> width \<longleftrightarrow> q < base ^ width"
proof -
  obtain k where k: "ulong_nlen base q 1 = 1 + k" "q < base ^ Suc k" "k = 0 \<or> base ^ k \<le> q"
    using ulong_nlen_spec [OF assms(1)] by blast
  show ?thesis
  proof
    assume "ulong_nlen base q 1 \<le> width"
    then have "base ^ Suc k \<le> base ^ width"
      using k(1) assms(1) by (intro power_increasing) auto
    with k(2) show "q < base ^ width" by simp
  next
    assume "q < base ^ width"
    show "ulong_nlen base q 1 \<le> width"
    proof (rule ccontr)
      assume "\<not> ?thesis"
      then have "width \<le> k" "0 < k" using k(1) assms(2) by auto
      then have "base ^ width \<le> base ^ k" using assms(1) by (intro power_increasing) auto
      with k(3) \<open>0 < k\<close> \<open>q < base ^ width\<close> show False by auto
    qed
  qed
qed


text \<open>
  \<open>elinks_ulongcat\<close> appends to the buffer a padding and a digit string that denotes
  the number modulo \<open>base ^ width\<close>; it reports 0 exactly when the whole number fits, and with a
  fill character the field is exactly \<open>width\<close> characters wide.
\<close>

lemma elinks_ulongcat_spec:
  assumes "1 \<le> width" "2 \<le> base" "base \<le> 16"
  shows "\<exists>pad ds. snd (elinks_ulongcat s number width fillchar base upper) = s @ pad @ ds
    \<and> digits_value base ds = number mod base ^ width
    \<and> (fst (elinks_ulongcat s number width fillchar base upper) = 0 \<longleftrightarrow> number < base ^ width)
    \<and> pad = (if fillchar = NUL then [] else replicate (width - length ds) fillchar)
    \<and> 0 < length ds \<and> length ds \<le> width"
proof -
  let ?full = "ulong_nlen base number 1"
  let ?n = "if ?full > width then width else ?full"
  let ?ds = "ulong_write base upper ?n number []"
  obtain k where k: "?full = 1 + k" "number < base ^ Suc k"
    using ulong_nlen_spec [OF assms(2)] by blast
  have fits: "?full \<le> width \<longleftrightarrow> number < base ^ width"
    using assms by (intro ulong_nlen_fits)
  have "number mod base ^ ?n = number mod base ^ width"
  proof (cases "?full > width")
    case False
    then have "number < base ^ ?n" "number < base ^ width" using k fits by auto
    then show ?thesis by simp
  qed simp
  then have v: "digits_value base ?ds = number mod base ^ width"
    using digits_value_ulong_write [OF assms(2,3)] by metis
  have guard: "\<not> (width < 1 \<or> base < 2 \<or> base > 16)" using assms by simp
  show ?thesis
  proof (intro exI conjI)
    show "snd (elinks_ulongcat s number width fillchar base upper) =
        s @ (if fillchar = NUL then [] else replicate (width - length ?ds) fillchar) @ ?ds"
      using guard by (auto simp: elinks_ulongcat_def Let_def)
    show "(fst (elinks_ulongcat s number width fillchar base upper) = 0) = (number < base ^ width)"
      using guard fits k(1) by (auto simp: elinks_ulongcat_def Let_def)
  qed (use v assms(1) k(1) in auto)
qed

lemma elinks_ulongcat_spec_witness:
  "snd (elinks_ulongcat ''x='' 255 4 (CHR ''*'') 16 True) = ''x=**FF''
   \<and> (\<exists>pad ds. snd (elinks_ulongcat ''x='' 255 4 (CHR ''*'') 16 True) = ''x='' @ pad @ ds
        \<and> digits_value 16 ds = 255)"
proof -
  have "snd (elinks_ulongcat ''x='' 255 4 (CHR ''*'') 16 True) = ''x=**FF''"
    by code_simp
  moreover have "(255::nat) mod 16 ^ 4 = 255" by simp
  ultimately show ?thesis
    using elinks_ulongcat_spec [of 4 16 "''x=''" 255 "CHR ''*''" True] by auto
qed

end
