(* ===== verification/Conv_Text.thy ===== *)
theory Conv_Text
  imports Conv
begin

text \<open>
  The second half of \<open>src/util/conv.c\<close>: the encoders that append an escaped copy of a byte
  string, \<open>strtolx\<close>, \<open>month2num\<close>, and the functions that clean a string in place
  (\<open>trim_chars\<close>, \<open>clr_spaces\<close>, \<open>sanitize_title\<close>, \<open>sanitize_url\<close>).
\<close>

subsection \<open>Encoders\<close>

definition add_string_replace :: "string \<Rightarrow> string \<Rightarrow> char \<Rightarrow> char \<Rightarrow> string" where
  "add_string_replace str src replaceable replacement =
     str @ map (\<lambda>c. if c = replaceable then replacement else c) src"

definition html_special :: "char \<Rightarrow> bool" where
  "html_special c \<longleftrightarrow> uchar c < 0x20 \<or> c = CHR ''<'' \<or> c = CHR ''>'' \<or> c = CHR ''&''
     \<or> c = DQUOTE \<or> c = SQUOTE"

fun add_html_to_string :: "string \<Rightarrow> string \<Rightarrow> string option" where
  "add_html_to_string str [] = Some str"
| "add_html_to_string str (c # src) =
     (if html_special c
      then (case add_long_to_string (str @ ''&#'') (int (uchar c)) of
              None \<Rightarrow> None
            | Some s \<Rightarrow> add_html_to_string (s @ '';'') src)
      else add_html_to_string (str @ [c]) src)"

fun add_quoted_to_string :: "string \<Rightarrow> string \<Rightarrow> string" where
  "add_quoted_to_string str [] = str"
| "add_quoted_to_string str (c # src) =
     add_quoted_to_string
       ((if isquote c \<or> c = BACKSLASH then str @ [BACKSLASH] else str) @ [c]) src"

fun shell_quote_loop :: "string \<Rightarrow> string \<Rightarrow> string" where
  "shell_quote_loop str [] = str"
| "shell_quote_loop str (c # src) =
     (if c = SQUOTE then shell_quote_loop (str @ [SQUOTE, BACKSLASH, SQUOTE, SQUOTE]) src
      else shell_quote_loop (str @ [c]) src)"

definition add_shell_quoted_to_string :: "string \<Rightarrow> string \<Rightarrow> string" where
  "add_shell_quoted_to_string str src = shell_quote_loop (str @ [SQUOTE]) src @ [SQUOTE]"

text \<open>
  The condition \<open>(*cmd == '-' && prev_safe) || (prev_safe = is_safe_in_shell( *cmd))\<close>
  assigns \<open>prev_safe\<close> only when its left side is false.
\<close>

fun shell_safe_loop :: "bool \<Rightarrow> string \<Rightarrow> string \<Rightarrow> string" where
  "shell_safe_loop prev_safe str [] = str"
| "shell_safe_loop prev_safe str (c # cmd) =
     (if c = CHR ''-'' \<and> prev_safe then shell_safe_loop prev_safe (str @ [c]) cmd
      else if is_safe_in_shell c then shell_safe_loop True (str @ [c]) cmd
      else shell_safe_loop False
             (str @ [CHR ''%'', hx (uchar c div 16), hx (uchar c mod 16)]) cmd)"

definition add_shell_safe_to_string :: "string \<Rightarrow> string \<Rightarrow> string" where
  "add_shell_safe_to_string str cmd = shell_safe_loop False str cmd"

subsection \<open>Parsers\<close>

text \<open>
  The C library's \<open>strtol\<close> in base 10 on a 64-bit \<open>long\<close>: the value, the rest of the
  string, and whether \<open>errno\<close> was set.
\<close>

definition LONG_MAX :: int where "LONG_MAX = 2 ^ 63 - 1"
definition LONG_MIN :: int where "LONG_MIN = - (2 ^ 63)"
definition INT_MAX :: int where "INT_MAX = 2147483647"

definition strtol10 :: "string \<Rightarrow> int \<times> string \<times> bool" where
  "strtol10 str =
     (let s = skip_space str;
          neg = (deref s = CHR ''-'');
          s1 = (if deref s = CHR ''-'' \<or> deref s = CHR ''+'' then tl s else s);
          ds = takeWhile isdigit s1;
          v = (if neg then - int (digits_value 10 ds) else int (digits_value 10 ds))
      in if ds = [] then (0, str, False)
         else if v > LONG_MAX then (LONG_MAX, drop (length ds) s1, True)
         else if v < LONG_MIN then (LONG_MIN, drop (length ds) s1, True)
         else (v, drop (length ds) s1, False))"

definition strtolx :: "string \<Rightarrow> int \<times> string" where
  "strtolx str =
     (case strtol10 str of (num, endp, err) \<Rightarrow>
        if err then (0, endp)
        else
          let postfix = c_toupper (deref endp)
          in if postfix = CHR ''K'' then
               ((if num < (- INT_MAX) sdiv 1024 then - INT_MAX
                 else if num > INT_MAX sdiv 1024 then INT_MAX
                 else num * 1024), tl endp)
             else if postfix = CHR ''M'' then
               ((if num < (- INT_MAX) sdiv (1024 * 1024) then - INT_MAX
                 else if num > INT_MAX sdiv (1024 * 1024) then INT_MAX
                 else num * (1024 * 1024)), tl endp)
             else (num, endp))"

definition month2num :: "string \<Rightarrow> int" where
  "month2num str =
     (let m0 = char_of (uchar (char_at str 0) OR 32) :: char;
          m1 = char_of (uchar (char_at str 1) OR 32) :: char;
          m2 = char_of (uchar (char_at str 2) OR 32) :: char
      in if m0 = CHR ''j'' then
           (if m1 = CHR ''a'' then (if m2 = CHR ''n'' then 0 else -1)
            else if m1 = CHR ''u'' then
              (if m2 = CHR ''n'' then 5 else if m2 = CHR ''l'' then 6 else -1)
            else -1)
         else if m0 = CHR ''m'' then
           (if m1 = CHR ''a'' then
              (if m2 = CHR ''r'' then 2 else if m2 = CHR ''y'' then 4 else -1)
            else -1)
         else if m0 = CHR ''a'' then
           (if m1 = CHR ''p'' then (if m2 = CHR ''r'' then 3 else -1)
            else if m1 = CHR ''u'' \<and> m2 = CHR ''g'' then 7 else -1)
         else if m0 = CHR ''s'' then (if m1 = CHR ''e'' \<and> m2 = CHR ''p'' then 8 else -1)
         else if m0 = CHR ''o'' then (if m1 = CHR ''c'' \<and> m2 = CHR ''t'' then 9 else -1)
         else if m0 = CHR ''n'' then (if m1 = CHR ''o'' \<and> m2 = CHR ''v'' then 10 else -1)
         else if m0 = CHR ''d'' then (if m1 = CHR ''e'' \<and> m2 = CHR ''c'' then 11 else -1)
         else if m0 = CHR ''f'' then (if m1 = CHR ''e'' \<and> m2 = CHR ''b'' then 1 else -1)
         else -1)"

subsection \<open>Cleaning in place\<close>

definition trim_chars :: "string \<Rightarrow> char \<Rightarrow> string" where
  "trim_chars s c = rev (dropWhile (\<lambda>x. x = c) (rev (dropWhile (\<lambda>x. x = c) s)))"

abbreviation NBSP_CHAR :: char where "NBSP_CHAR \<equiv> CHR 0x01"

fun clr_spaces_loop :: "string \<Rightarrow> string \<Rightarrow> string" where
  "clr_spaces_loop dest [] = dest"
| "clr_spaces_loop dest (c # s) =
     (if c = CHR '' '' \<and> (dest = [] \<or> deref s = CHR '' '' \<or> deref s = NUL)
      then clr_spaces_loop dest s
      else clr_spaces_loop (dest @ [c]) s)"

definition clr_spaces :: "string \<Rightarrow> string" where
  "clr_spaces str =
     clr_spaces_loop []
       (map (\<lambda>c. if uchar c < 0x20 \<or> c = NBSP_CHAR then CHR '' '' else c) str)"

definition sanitize_title :: "string \<Rightarrow> string" where
  "sanitize_title title =
     (if title = [] then title
      else trim_chars
        (map (\<lambda>c. if uchar c < 0x20 \<or> c = NBSP_CHAR then CHR '' '' else c) title) (CHR '' ''))"

definition sanitize_url :: "string \<Rightarrow> bool \<times> string" where
  "sanitize_url url =
     (if url = [] then (True, url)
      else if \<exists>c \<in> set url. uchar c < 0x20 then (False, url)
      else (True, trim_chars url (CHR '' '')))"

subsection \<open>Correctness of the encoders\<close>

text \<open>
  How a POSIX shell reads one word: outside quotes a backslash quotes the next character and a
  single quote opens a quotation, in which everything up to the next single quote is literal.
  Characters that mean something to the shell outside quotes are not accepted.
\<close>

fun sh_word :: "bool \<Rightarrow> string \<Rightarrow> string option" where
  "sh_word True [] = None"
| "sh_word True (c # s) =
     (if c = SQUOTE then sh_word False s else map_option ((#) c) (sh_word True s))"
| "sh_word False [] = Some []"
| "sh_word False (c # s) =
     (if c = SQUOTE then sh_word True s
      else if c = BACKSLASH then (case s of [] \<Rightarrow> None | d # t \<Rightarrow> map_option ((#) d) (sh_word False t))
      else if is_safe_in_shell c \<or> c = CHR ''-'' \<or> c = CHR ''%''
      then map_option ((#) c) (sh_word False s) else None)"

lemma shell_quote_loop_acc: "shell_quote_loop str src = str @ shell_quote_loop [] src"
proof (induction src arbitrary: str)
  case Nil
  then show ?case by simp
next
  case (Cons c src)
  show ?case
    by (simp add: Cons [of "str @ _"] Cons [of "[_]"] Cons [of "[_, _, _, _]"])
qed

lemma sh_word_shell_quote:
  "sh_word True (shell_quote_loop [] src @ [SQUOTE]) = Some src"
proof (induction src)
  case Nil
  then show ?case by simp
next
  case (Cons c src)
  then show ?case
    by (simp add: shell_quote_loop_acc [of "[_]"] shell_quote_loop_acc [of "[_, _, _, _]"])
qed

text \<open>
  C10: whatever bytes a command argument holds, the shell reads the quoted form the browser
  builds back as exactly that argument: nothing escapes the quotes.
\<close>

theorem add_shell_quoted_round_trip:
  "\<exists>word. add_shell_quoted_to_string str src = str @ word \<and> sh_word False word = Some src"
  by (simp add: add_shell_quoted_to_string_def shell_quote_loop_acc [of "str @ _"] sh_word_shell_quote)

lemma shell_safe_loop_acc: "shell_safe_loop p str cmd = str @ shell_safe_loop p [] cmd"
proof (induction cmd arbitrary: p str)
  case Nil
  then show ?case by simp
next
  case (Cons c cmd)
  show ?case
    by (simp add: Cons [of _ "str @ _"] Cons [of _ "[_]"] Cons [of _ "[_, _, _]"])
qed

lemma hx_safe: "n < 16 \<Longrightarrow> is_safe_in_shell (hx n)"
  by (simp add: is_safe_in_shell_def isasciialnum_def isasciialpha_def isdigit_def uchar_hx)

text \<open>
  The other encoder: the result holds only characters that are safe outside quotes, and it
  does not start with a dash, so it is never taken for an option.
\<close>

lemma shell_safe_chars:
  "c \<in> set (shell_safe_loop p [] cmd) \<Longrightarrow> is_safe_in_shell c \<or> c = CHR ''-'' \<or> c = CHR ''%''"
proof (induction cmd arbitrary: p)
  case Nil
  then show ?case by simp
next
  case (Cons d cmd)
  have "uchar d div 16 < 16" using uchar_less [of d] by linarith
  then show ?case
    using Cons
    by (auto simp: shell_safe_loop_acc [of _ "[_]"] shell_safe_loop_acc [of _ "[_, _, _]"] hx_safe
        split: if_splits)
qed

lemma shell_safe_no_option: "deref (shell_safe_loop False [] cmd) \<noteq> CHR ''-''"
proof (cases cmd)
  case (Cons c cs)
  have "\<not> is_safe_in_shell (CHR ''-'')"
    by (simp add: is_safe_in_shell_def isasciialnum_def isasciialpha_def isdigit_def)
  with Cons show ?thesis
    by (auto simp: shell_safe_loop_acc [of _ "[_]"] shell_safe_loop_acc [of _ "[_, _, _]"])
qed simp

text \<open>
  A string passed through \<open>add_shell_safe_to_string\<close> is made of letters, digits and the
  characters the shell does not interpret, and never starts with a dash.
\<close>

lemma add_shell_safe_spec:
  "\<exists>word. add_shell_safe_to_string str cmd = str @ word
    \<and> list_all (\<lambda>c. is_safe_in_shell c \<or> c = CHR ''-'' \<or> c = CHR ''%'') word
    \<and> deref word \<noteq> CHR ''-''"
  by (auto simp: add_shell_safe_to_string_def shell_safe_loop_acc [of _ str] list_all_iff
      shell_safe_chars shell_safe_no_option)

subsection \<open>HTML escaping\<close>

text \<open>Decoding the numeric character references of the encoder, and nothing else.\<close>

function html_decode :: "string \<Rightarrow> string" where
  "html_decode [] = []"
| "html_decode (c # s) =
     (if c = CHR ''&'' \<and> deref s = CHR ''#''
      then let ds = takeWhile isdigit (tl s)
           in char_of (digits_value 10 ds) # html_decode (drop (length ds + 2) s)
      else c # html_decode s)"
  by pat_completeness auto
termination by (relation "measure length") auto

lemma isdigit_ulong_write: "c \<in> set (ulong_write 10 up n number []) \<Longrightarrow> isdigit c"
proof (induction n arbitrary: number)
  case 0
  then show ?case by simp
next
  case (Suc n)
  have "number mod 10 < 16" "number mod 10 < 10" by simp_all
  with Suc show ?case
    by (auto simp: ulong_write_acc [of _ _ _ _ "[_]"] isdigit_def uchar_hx uchar_Hx split: if_splits)
qed

lemma add_long_small:
  assumes "n < 1000"
  shows "\<exists>ds. add_long_to_string str (int n) = Some (str @ ds) \<and> list_all isdigit ds
    \<and> digits_value 10 ds = n \<and> ds \<noteq> []"
proof -
  let ?k = "ulong_nlen 10 n 1"
  have "n < 10 ^ 63" using assms by (rule less_trans) simp
  then have k: "?k \<le> 63" using ulong_nlen_fits [of 10 63 n] by simp
  obtain j where j: "?k = 1 + j" "n < 10 ^ Suc j"
    using ulong_nlen_spec [of 10 n 1] by auto
  let ?ds = "ulong_write 10 False ?k n []"
  have "elinks_longcat [] (int n) 63 NUL 10 False = (0, ?ds)"
    using k by (simp add: elinks_longcat_def elinks_ulongcat_def Let_def)
  moreover have "digits_value 10 ?ds = n mod 10 ^ ?k"
    by (rule digits_value_ulong_write) simp_all
  then have "digits_value 10 ?ds = n"
    using j by (metis mod_less plus_1_eq_Suc)
  moreover have "length ?ds = 1 + j" using j(1) by simp
  then have "?ds \<noteq> []" by (metis list.size(3) add_is_0 zero_neq_one)
  ultimately show ?thesis
    by (auto simp: add_long_to_string_def list_all_iff isdigit_ulong_write simp del: ulong_write.simps)
qed

lemma html_decode_digits:
  "list_all isdigit ds \<Longrightarrow>
   html_decode (''&#'' @ ds @ CHR '';'' # s) = char_of (digits_value 10 ds) # html_decode s"
proof -
  assume ds: "list_all isdigit ds"
  have semi: "\<not> isdigit (CHR '';'')" by (simp add: isdigit_def)
  have "takeWhile isdigit (ds @ CHR '';'' # s) = ds"
    using ds semi by (simp add: list_all_iff takeWhile_append2)
  then show ?thesis by simp
qed

lemma html_escape_step:
  "\<exists>out. add_html_to_string str src = Some (str @ out) \<and> html_decode out = src
     \<and> (\<forall>c \<in> set out. html_special c \<longrightarrow> c = CHR ''&'')"
proof (induction src arbitrary: str)
  case Nil
  then show ?case by simp
next
  case (Cons c src)
  show ?case
  proof (cases "html_special c")
    case False
    then have "c \<noteq> CHR ''&''" by (auto simp: html_special_def)
    moreover obtain out where "add_html_to_string (str @ [c]) src = Some ((str @ [c]) @ out)"
      "html_decode out = src" "\<forall>c \<in> set out. html_special c \<longrightarrow> c = CHR ''&''"
      using Cons by blast
    ultimately show ?thesis
      using False by (intro exI [of _ "c # out"]) simp
  next
    case True
    obtain ds where ds: "add_long_to_string (str @ ''&#'') (int (uchar c)) = Some ((str @ ''&#'') @ ds)"
      "list_all isdigit ds" "digits_value 10 ds = uchar c"
      using add_long_small [of "uchar c" "str @ ''&#''"] uchar_less [of c] by auto
    obtain out where out: "add_html_to_string (str @ ''&#'' @ ds @ '';'') src
        = Some ((str @ ''&#'' @ ds @ '';'') @ out)"
      "html_decode out = src" "\<forall>c \<in> set out. html_special c \<longrightarrow> c = CHR ''&''"
      using Cons by blast
    let ?o = "''&#'' @ ds @ '';'' @ out"
    have "add_html_to_string str (c # src) = Some (str @ ?o)"
      using True ds(1) out(1) by simp
    moreover have "html_decode ?o = html_decode (''&#'' @ ds @ CHR '';'' # out)"
      by (simp only: append.simps append_assoc)
    then have "html_decode ?o = c # src"
      by (simp only: html_decode_digits [OF ds(2), of out] ds(3) out(2) char_of_char)
    moreover have "\<forall>d \<in> set ?o. html_special d \<longrightarrow> d = CHR ''&''"
    proof
      fix d assume "d \<in> set ?o"
      then have "d \<in> {CHR ''&'', CHR ''#'', CHR '';''} \<or> d \<in> set ds \<or> d \<in> set out"
        by auto
      moreover have "\<not> html_special x" if "isdigit x \<or> x = CHR ''#'' \<or> x = CHR '';''" for x
        using that by (auto simp: html_special_def isdigit_def)
      ultimately show "html_special d \<longrightarrow> d = CHR ''&''"
        using out(3) ds(2) by (metis insert_iff empty_iff list_all_iff)
    qed
    ultimately show ?thesis by blast
  qed
qed

text \<open>
  Escaping always succeeds, its output never contains a control character, angle bracket
  or quote (an ampersand only as part of a reference), and decoding the references gives the
  original bytes back.
\<close>

lemma add_html_to_string_round_trip:
  "\<exists>out. add_html_to_string str src = Some (str @ out) \<and> html_decode out = src
     \<and> list_all (\<lambda>c. html_special c = (c = CHR ''&'')) out"
  using html_escape_step [of str src] by (auto simp: list_all_iff html_special_def)

end
