(* ===== verification/Base64.thy ===== *)
theory Base64
  imports Conv
begin

text \<open>
  \<open>src/util/base64.c\<close>: the Base64 encoder and decoder. \<open>base64_encode_bin\<close> encodes the
  \<open>inlen\<close> bytes it is given, which may hold NUL bytes; \<open>base64_encode\<close> encodes the string up to
  its first NUL. The decoder reads a NUL terminated string and returns \<open>None\<close> where the code
  returns NULL, else the bytes it has written (\<open>outlen\<close> of them). It asserts a non-empty input;
  the model returns \<open>None\<close> there. Allocations succeed.
\<close>

definition base64_chars :: string where
  "base64_chars = ''ABCDEFGHIJKLMNOPQRSTUVWXYZabcdefghijklmnopqrstuvwxyz0123456789+/''"

fun base64_encode_bin :: "string \<Rightarrow> string" where
  "base64_encode_bin (a # b # c # rest) =
     base64_chars ! (drop_bit 2 (uchar a))
     # base64_chars ! ((push_bit 4 (uchar a) OR drop_bit 4 (uchar b)) AND 63)
     # base64_chars ! ((push_bit 2 (uchar b) OR drop_bit 6 (uchar c)) AND 63)
     # base64_chars ! (uchar c AND 63)
     # base64_encode_bin rest"
| "base64_encode_bin [a] =
     [base64_chars ! (drop_bit 2 (uchar a)), base64_chars ! (push_bit 4 (uchar a) AND 63),
      CHR ''='', CHR ''='']"
| "base64_encode_bin [a, b] =
     [base64_chars ! (drop_bit 2 (uchar a)),
      base64_chars ! ((push_bit 4 (uchar a) OR drop_bit 4 (uchar b)) AND 63),
      base64_chars ! (push_bit 2 (uchar b) AND 63), CHR ''='']"
| "base64_encode_bin [] = []"

definition base64_encode :: "string \<Rightarrow> string" where
  "base64_encode s = base64_encode_bin (takeWhile (\<lambda>c. c \<noteq> NUL) s)"

text \<open>The static tables \<open>is_base64_char\<close> and \<open>decode\<close>, built from the alphabet on the first call.\<close>

definition is_base64_char :: "char \<Rightarrow> bool" where
  "is_base64_char c \<longleftrightarrow> c \<in> set base64_chars \<or> c = NUL"

definition decode_table :: "char \<Rightarrow> nat" where
  "decode_table c = (case strchr base64_chars c of Some i \<Rightarrow> i | None \<Rightarrow> 0)"

text \<open>
  The loop of the decoder with its locals \<open>bits\<close>, \<open>count\<close> and the bytes written so far. It
  returns the locals and the rest of the input where it stopped, \<open>None\<close> for the jump to
  \<open>decode_error\<close>.
\<close>

fun base64_loop :: "nat \<Rightarrow> nat \<Rightarrow> string \<Rightarrow> string \<Rightarrow> (nat \<times> nat \<times> string \<times> string) option" where
  "base64_loop bits count out [] = Some (bits, count, out, [])"
| "base64_loop bits count out (c # s) =
     (if c = CHR ''='' then Some (bits, count, out, c # s)
      else if \<not> is_base64_char c then None
      else
        let bits = bits + decode_table c; count = count + 1
        in if count = 4
           then base64_loop 0 0
                  (out @ [char_of (drop_bit 16 bits), char_of (drop_bit 8 bits AND 0xff),
                          char_of (bits AND 0xff)]) s
           else base64_loop (push_bit 6 bits) count out s)"

definition base64_decode_bin :: "string \<Rightarrow> string option" where
  "base64_decode_bin s =
     (if takeWhile (\<lambda>c. c \<noteq> NUL) s = [] then None
      else case base64_loop 0 0 [] (takeWhile (\<lambda>c. c \<noteq> NUL) s) of
        None \<Rightarrow> None
      | Some (bits, count, out, rest) \<Rightarrow>
          if rest = [] then (if count \<noteq> 0 then None else Some out)
          else if count = 1 then None
          else if count = 2 then Some (out @ [char_of (drop_bit 10 bits)])
          else if count = 3
          then Some (out @ [char_of (drop_bit 16 bits), char_of (drop_bit 8 bits AND 0xff)])
          else Some out)"

definition base64_decode :: "string \<Rightarrow> string option" where
  "base64_decode s = base64_decode_bin s"

subsection \<open>The alphabet\<close>

lemma length_base64_chars: "length base64_chars = 64"
  by (simp add: base64_chars_def)

lemma distinct_base64_chars: "distinct base64_chars"
  by (simp add: base64_chars_def)

lemma eq_not_base64_char: "CHR ''='' \<notin> set base64_chars" "NUL \<notin> set base64_chars"
  by (simp_all add: base64_chars_def)

lemma strchr_nth: "distinct s \<Longrightarrow> i < length s \<Longrightarrow> strchr s (s ! i) = Some i"
proof (induction s arbitrary: i)
  case Nil
  then show ?case by simp
next
  case (Cons x xs)
  then show ?case by (cases i) (auto simp: nth_mem)
qed

lemma base64_char_ok:
  assumes "i < 64"
  shows "is_base64_char (base64_chars ! i)" "decode_table (base64_chars ! i) = i"
    "base64_chars ! i \<noteq> CHR ''=''" "base64_chars ! i \<noteq> NUL"
proof -
  have m: "base64_chars ! i \<in> set base64_chars"
    using assms by (simp add: length_base64_chars nth_mem)
  show "is_base64_char (base64_chars ! i)" using m by (simp add: is_base64_char_def)
  show "decode_table (base64_chars ! i) = i"
    using assms distinct_base64_chars length_base64_chars
    by (simp add: decode_table_def strchr_nth)
  show "base64_chars ! i \<noteq> CHR ''=''" "base64_chars ! i \<noteq> NUL"
    using m eq_not_base64_char by metis+
qed

subsection \<open>Arithmetic form of the shifts and masks\<close>

lemma mod_mult_add: "r < m \<Longrightarrow> (a * m + r) mod (m * k) = (a mod k) * m + r" for a m r k :: nat
  by (simp add: mod_mult2_eq)

lemma encode_digit2: "b < 256 \<Longrightarrow> (push_bit 4 a OR drop_bit 4 b) AND 63 = (a mod 4) * 16 + b div 16"
  for a b :: nat
proof -
  assume "b < 256"
  then have "b div 16 < 16" by linarith
  then have "push_bit 4 a OR b div 16 = a * 16 + b div 16"
    using or_disjoint_nat [of "b div 16" 4 a] by simp
  then show ?thesis
    using mod_mult_add [OF \<open>b div 16 < 16\<close>, of a 4] by (simp add: and_63 drop_bit_eq_div)
qed

lemma encode_digit3: "c < 256 \<Longrightarrow> (push_bit 2 b OR drop_bit 6 c) AND 63 = (b mod 16) * 4 + c div 64"
  for b c :: nat
proof -
  assume "c < 256"
  then have "c div 64 < 4" by linarith
  then have "push_bit 2 b OR c div 64 = b * 4 + c div 64"
    using or_disjoint_nat [of "c div 64" 2 b] by simp
  then show ?thesis
    using mod_mult_add [OF \<open>c div 64 < 4\<close>, of b 16] by (simp add: and_63 drop_bit_eq_div)
qed

lemma encode_digit2_last: "push_bit 4 a AND 63 = (a mod 4) * 16" for a :: nat
  using mod_mult_add [of 0 16 a 4] by (simp add: and_63 push_bit_eq_mult)

lemma encode_digit3_last: "push_bit 2 b AND 63 = (b mod 16) * 4" for b :: nat
  using mod_mult_add [of 0 4 b 16] by (simp add: and_63 push_bit_eq_mult)

text \<open>The encoder in terms of division and remainder.\<close>

lemma base64_encode_bin_arith:
  "base64_encode_bin (a # b # c # rest) =
     base64_chars ! (uchar a div 4)
     # base64_chars ! ((uchar a mod 4) * 16 + uchar b div 16)
     # base64_chars ! ((uchar b mod 16) * 4 + uchar c div 64)
     # base64_chars ! (uchar c mod 64) # base64_encode_bin rest"
  "base64_encode_bin [a] =
     [base64_chars ! (uchar a div 4), base64_chars ! ((uchar a mod 4) * 16), CHR ''='', CHR ''='']"
  "base64_encode_bin [a, b] =
     [base64_chars ! (uchar a div 4), base64_chars ! ((uchar a mod 4) * 16 + uchar b div 16),
      base64_chars ! ((uchar b mod 16) * 4), CHR ''='']"
proof -
  have "drop_bit 2 n = n div 4" for n :: nat by (simp add: drop_bit_eq_div)
  note eqs = this encode_digit2 [OF uchar_less] encode_digit3 [OF uchar_less] encode_digit2_last
    encode_digit3_last and_63 [of "uchar c"]
  show "base64_encode_bin (a # b # c # rest) =
     base64_chars ! (uchar a div 4)
     # base64_chars ! ((uchar a mod 4) * 16 + uchar b div 16)
     # base64_chars ! ((uchar b mod 16) * 4 + uchar c div 64)
     # base64_chars ! (uchar c mod 64) # base64_encode_bin rest"
    by (simp only: base64_encode_bin.simps eqs)
  show "base64_encode_bin [a] =
     [base64_chars ! (uchar a div 4), base64_chars ! ((uchar a mod 4) * 16), CHR ''='', CHR ''='']"
    by (simp only: base64_encode_bin.simps eqs)
  show "base64_encode_bin [a, b] =
     [base64_chars ! (uchar a div 4), base64_chars ! ((uchar a mod 4) * 16 + uchar b div 16),
      base64_chars ! ((uchar b mod 16) * 4), CHR ''='']"
    by (simp only: base64_encode_bin.simps eqs)
qed

declare base64_encode_bin.simps(1-3) [simp del]

subsection \<open>Round trip\<close>

text \<open>One group of four characters of the alphabet is decoded to three bytes.\<close>

lemma group_value:
  fixes a b c :: nat
  assumes "a < 256" "b < 256" "c < 256"
  shows "a div 4 * 262144 + ((a mod 4) * 16 + b div 16) * 4096
    + ((b mod 16) * 4 + c div 64) * 64 + c mod 64 = a * 65536 + b * 256 + c"
proof -
  define a1 a2 b1 b2 c1 c2
    where d: "a1 = a div 4" "a2 = a mod 4" "b1 = b div 16" "b2 = b mod 16" "c1 = c div 64" "c2 = c mod 64"
  then have "a = a1 * 4 + a2" "b = b1 * 16 + b2" "c = c1 * 64 + c2" by simp_all
  then show ?thesis unfolding d [symmetric] by simp
qed

lemma div_mult_add: "r < m \<Longrightarrow> (a * m + r) div m = a" for a m r :: nat
  by simp

lemma three_bytes:
  fixes x y z :: nat
  assumes "x < 256" "y < 256" "z < 256"
  shows "(x * 65536 + y * 256 + z) div 65536 = x"
    "(x * 65536 + y * 256 + z) div 256 mod 256 = y"
    "(x * 65536 + y * 256 + z) mod 256 = z"
proof -
  have e: "x * 65536 + y * 256 + z = (x * 256 + y) * 256 + z"
    "x * 65536 + y * 256 + z = x * 65536 + (y * 256 + z)" by simp_all
  show "(x * 65536 + y * 256 + z) div 65536 = x"
    unfolding e(2) using assms by (intro div_mult_add) simp
  show "(x * 65536 + y * 256 + z) div 256 mod 256 = y"
    unfolding e(1) div_mult_add [OF assms(3)] using assms by simp
  show "(x * 65536 + y * 256 + z) mod 256 = z"
    unfolding e(1) mod_mult_self3 using assms by simp
qed

lemma char_of_mod: "char_of n = char_of (n mod 256)" for n :: nat
  by simp

lemma three_chars:
  fixes n :: nat
  assumes "n = uchar a * 65536 + uchar b * 256 + uchar c"
  shows "char_of (n div 65536) = a" "char_of (n div 256) = b" "char_of n = c"
  by (simp_all only: assms three_bytes [OF uchar_less uchar_less uchar_less] char_of_char
      char_of_mod [of "_ div 256"] char_of_mod [of "_ + uchar c"])

lemma base64_loop_group:
  assumes "d1 < 64" "d2 < 64" "d3 < 64" "d4 < 64"
    and "d1 * 262144 + d2 * 4096 + d3 * 64 + d4 = uchar a * 65536 + uchar b * 256 + uchar c"
  shows "base64_loop 0 0 out (base64_chars ! d1 # base64_chars ! d2 # base64_chars ! d3
      # base64_chars ! d4 # rest) = base64_loop 0 0 (out @ [a, b, c]) rest"
proof -
  have n: "262144 * d1 + 4096 * d2 + d3 * 64 + d4 = uchar a * 65536 + uchar b * 256 + uchar c"
    using assms(5) by simp
  show ?thesis
    using assms(1-4) base64_char_ok
    by (simp add: Let_def push_bit_eq_mult drop_bit_eq_div and_255 three_chars [OF n])
qed

lemma base64_loop_two:
  assumes "d1 < 64" "d2 < 64" "d3 < 64"
  shows "base64_loop 0 0 out (base64_chars ! d1 # base64_chars ! d2 # base64_chars ! d3 # ''='')
    = Some (d1 * 262144 + d2 * 4096 + d3 * 64, 3, out, ''='')"
  using assms base64_char_ok by (simp add: Let_def push_bit_eq_mult)

lemma base64_loop_encode:
  "\<exists>bits count out' rest. base64_loop 0 0 out (base64_encode_bin s) = Some (bits, count, out', rest)
     \<and> (if rest = [] then count = 0 \<and> out' = out @ s
        else count = 2 \<and> out' @ [char_of (drop_bit 10 bits)] = out @ s
          \<or> count = 3 \<and> out' @ [char_of (drop_bit 16 bits), char_of (drop_bit 8 bits AND 0xff)]
               = out @ s)"
proof (induction s arbitrary: out rule: base64_encode_bin.induct)
  case (1 a b c rest)
  have "uchar a div 4 < 64" using uchar_less [of a] by linarith
  moreover have "(uchar a mod 4) * 16 + uchar b div 16 < 64"
    using uchar_less [of b] mod_less_divisor [of 4 "uchar a"] by linarith
  moreover have "(uchar b mod 16) * 4 + uchar c div 64 < 64"
    using uchar_less [of c] mod_less_divisor [of 16 "uchar b"] by linarith
  moreover have "uchar c mod 64 < 64" by simp
  ultimately have "base64_loop 0 0 out (base64_encode_bin (a # b # c # rest))
      = base64_loop 0 0 (out @ [a, b, c]) (base64_encode_bin rest)"
    using group_value [OF uchar_less uchar_less uchar_less, of a b c]
    by (simp only: base64_encode_bin_arith base64_loop_group)
  then show ?case using 1 [of "out @ [a, b, c]"] by (simp only: append_assoc append.simps)
next
  case (2 a)
  have "uchar a div 4 < 64" using uchar_less [of a] by linarith
  moreover have "(uchar a mod 4) * 16 < 64"
    using mod_less_divisor [of 4 "uchar a"] by linarith
  moreover have "((uchar a div 4) * 64 + (uchar a mod 4) * 16) * 64 div 1024 = uchar a"
    by simp
  ultimately show ?case
    using base64_char_ok
    by (simp add: base64_encode_bin_arith Let_def push_bit_eq_mult drop_bit_eq_div and_255)
next
  case (3 a b)
  have "uchar a div 4 < 64" using uchar_less [of a] by linarith
  moreover have "(uchar a mod 4) * 16 + uchar b div 16 < 64"
    using uchar_less [of b] mod_less_divisor [of 4 "uchar a"] by linarith
  moreover have "(uchar b mod 16) * 4 < 64"
    using mod_less_divisor [of 16 "uchar b"] by linarith
  ultimately have loop: "base64_loop 0 0 out (base64_encode_bin [a, b])
      = Some (uchar a * 65536 + uchar b * 256 + uchar NUL, 3, out, ''='')"
    using group_value [OF uchar_less uchar_less uchar_less, of a b NUL]
    by (simp only: base64_encode_bin_arith base64_loop_two) simp
  show ?case
    unfolding loop drop_bit_eq_div and_255 using three_chars [OF refl, of a b NUL]
    by (simp del: uchar_NUL_iff of_char_eq_iff add: drop_bit_eq_div and_255)
next
  case 4
  then show ?case by simp
qed


lemma base64_char_not_NUL: "i < 64 \<Longrightarrow> NUL \<noteq> base64_chars ! i"
  using base64_char_ok(4) [of i] by metis

lemma base64_encode_no_NUL: "NUL \<notin> set (base64_encode_bin s)"
proof (induction s rule: base64_encode_bin.induct)
  case (1 a b c rest)
  have b: "uchar x div 4 < 64" "(uchar x mod 4) * 16 + uchar y div 16 < 64"
    "(uchar x mod 16) * 4 + uchar y div 64 < 64" "uchar x mod 64 < 64" for x y
    using uchar_less [of x] uchar_less [of y] mod_less_divisor [of 4 "uchar x"] mod_less_divisor [of 16 "uchar x"]
    by linarith+
  show ?case using 1 base64_char_not_NUL b by (simp add: base64_encode_bin_arith)
next
  case (2 a)
  have "uchar a div 4 < 64" "(uchar a mod 4) * 16 < 64"
    using uchar_less [of a] mod_less_divisor [of 4 "uchar a"] by linarith+
  then show ?case using base64_char_not_NUL by (simp add: base64_encode_bin_arith)
next
  case (3 a b)
  have "uchar a div 4 < 64" "(uchar a mod 4) * 16 + uchar b div 16 < 64" "(uchar b mod 16) * 4 < 64"
    using uchar_less [of a] uchar_less [of b] mod_less_divisor [of 4 "uchar a"] mod_less_divisor [of 16 "uchar b"]
    by linarith+
  then show ?case using base64_char_not_NUL by (simp add: base64_encode_bin_arith)
qed simp

lemma base64_bin_round_trip: "s \<noteq> [] \<Longrightarrow> base64_decode_bin (base64_encode_bin s) = Some s"
proof -
  assume s: "s \<noteq> []"
  obtain bits count out' rest where loop:
    "base64_loop 0 0 [] (base64_encode_bin s) = Some (bits, count, out', rest)"
    "if rest = [] then count = 0 \<and> out' = s
     else count = 2 \<and> out' @ [char_of (drop_bit 10 bits)] = s
       \<or> count = 3 \<and> out' @ [char_of (drop_bit 16 bits), char_of (drop_bit 8 bits AND 0xff)] = s"
    using base64_loop_encode [of "[]" s, unfolded append_Nil] by blast
  have ne: "base64_encode_bin s \<noteq> []"
    using s by (cases s rule: base64_encode_bin.cases) (simp_all add: base64_encode_bin_arith)
  have tw: "takeWhile (\<lambda>c. c \<noteq> NUL) (base64_encode_bin s) = base64_encode_bin s"
    unfolding takeWhile_eq_all_conv using base64_encode_no_NUL [of s] by metis
  show ?thesis
    unfolding base64_decode_bin_def tw using loop ne by (auto split: if_splits)
qed

text \<open>
  C4: decoding what \<open>base64_encode_bin\<close> makes of a non-empty array of bytes gives the bytes back,
  whatever bytes there are, NUL included, and whatever their number modulo three. Decoding what
  \<open>base64_encode\<close> makes of a non-empty string gives the string back, that is the characters
  before its NUL.
\<close>

theorem base64_round_trip:
  "(s \<noteq> [] \<longrightarrow> base64_decode_bin (base64_encode_bin s) = Some s)
   \<and> (takeWhile (\<lambda>c. c \<noteq> NUL) s \<noteq> [] \<longrightarrow> base64_decode (base64_encode s) = Some (takeWhile (\<lambda>c. c \<noteq> NUL) s))"
  using base64_bin_round_trip by (simp add: base64_encode_def base64_decode_def)

theorem base64_round_trip_witness:
  "base64_encode (''user:pw'' @ [NUL] @ ''x'') = ''dXNlcjpwdw==''
   \<and> base64_decode (base64_encode (''user:pw'' @ [NUL] @ ''x'')) = Some ''user:pw''
   \<and> base64_decode_bin (base64_encode_bin [NUL, CHR ''a'']) = Some [NUL, CHR ''a'']"
proof (intro conjI)
  show "base64_encode (''user:pw'' @ [NUL] @ ''x'') = ''dXNlcjpwdw==''"
    by (simp add: base64_encode_def base64_encode_bin_arith base64_chars_def)
  show "base64_decode (base64_encode (''user:pw'' @ [NUL] @ ''x'')) = Some ''user:pw''"
    using base64_round_trip [of "''user:pw'' @ [NUL] @ ''x''"] by simp
  show "base64_decode_bin (base64_encode_bin [NUL, CHR ''a'']) = Some [NUL, CHR ''a'']"
    using base64_round_trip [of "[NUL, CHR ''a'']"] by simp
qed

end
