(* ===== verification/Protocol.thy ===== *)
theory Protocol
  imports Util_String
begin

text \<open>
  \<open>src/protocol/protocol.h\<close> and \<open>src/protocol/protocol.c\<close>: the protocols, the table of
  their properties and the binary search that finds the protocol of a name. A protocol is its
  number, as in the code. The handlers of the table are left out, except whether there is one.
  \<open>get_user_program\<close> reads the option tree and is the parameter \<open>user_program\<close> of the
  search: whether a program is configured for the protocol name.
\<close>

type_synonym protocol_T = nat

abbreviation (input) "PROTOCOL_ABOUT \<equiv> 0 :: protocol_T"
abbreviation (input) "PROTOCOL_BITTORRENT \<equiv> 1 :: protocol_T"
abbreviation (input) "PROTOCOL_BITTORRENT_PEER \<equiv> 2 :: protocol_T"
abbreviation (input) "PROTOCOL_DATA \<equiv> 3 :: protocol_T"
abbreviation (input) "PROTOCOL_DGI \<equiv> 4 :: protocol_T"
abbreviation (input) "PROTOCOL_FILE \<equiv> 5 :: protocol_T"
abbreviation (input) "PROTOCOL_FINGER \<equiv> 6 :: protocol_T"
abbreviation (input) "PROTOCOL_FSP \<equiv> 7 :: protocol_T"
abbreviation (input) "PROTOCOL_FTP \<equiv> 8 :: protocol_T"
abbreviation (input) "PROTOCOL_FTPES \<equiv> 9 :: protocol_T"
abbreviation (input) "PROTOCOL_GEMINI \<equiv> 10 :: protocol_T"
abbreviation (input) "PROTOCOL_GOPHER \<equiv> 11 :: protocol_T"
abbreviation (input) "PROTOCOL_HTTP \<equiv> 12 :: protocol_T"
abbreviation (input) "PROTOCOL_HTTPS \<equiv> 13 :: protocol_T"
abbreviation (input) "PROTOCOL_JAVASCRIPT \<equiv> 14 :: protocol_T"
abbreviation (input) "PROTOCOL_MAILCAP \<equiv> 15 :: protocol_T"
abbreviation (input) "PROTOCOL_MAILCAP_HTML \<equiv> 16 :: protocol_T"
abbreviation (input) "PROTOCOL_NEWS \<equiv> 17 :: protocol_T"
abbreviation (input) "PROTOCOL_NNTP \<equiv> 18 :: protocol_T"
abbreviation (input) "PROTOCOL_NNTPS \<equiv> 19 :: protocol_T"
abbreviation (input) "PROTOCOL_PROXY \<equiv> 20 :: protocol_T"
abbreviation (input) "PROTOCOL_SFTP \<equiv> 21 :: protocol_T"
abbreviation (input) "PROTOCOL_SMB \<equiv> 22 :: protocol_T"
abbreviation (input) "PROTOCOL_SNEWS \<equiv> 23 :: protocol_T"
abbreviation (input) "PROTOCOL_SPARTAN \<equiv> 24 :: protocol_T"
abbreviation (input) "PROTOCOL_UNKNOWN \<equiv> 25 :: protocol_T"
abbreviation (input) "PROTOCOL_USER \<equiv> 26 :: protocol_T"
abbreviation (input) "PROTOCOL_LUA \<equiv> 27 :: protocol_T"
abbreviation (input) "PROTOCOL_BACKENDS \<equiv> 28 :: protocol_T"

record protocol_backend =
  pname :: "string option"
  pport :: nat
  has_handler :: bool
  need_slashes :: bool
  need_slash_after_host :: bool
  free_syntax :: bool
  need_ssl :: bool
  keep_double_slashes :: bool

definition backend ::
  "string option \<Rightarrow> nat \<Rightarrow> bool \<Rightarrow> nat \<Rightarrow> nat \<Rightarrow> nat \<Rightarrow> nat \<Rightarrow> nat \<Rightarrow> protocol_backend" where
  "backend name port handler slashes host_slash free ssl double =
     \<lparr>pname = name, pport = port, has_handler = handler, need_slashes = (slashes = 1),
      need_slash_after_host = (host_slash = 1), free_syntax = (free = 1), need_ssl = (ssl = 1),
      keep_double_slashes = (double = 1)\<rparr>"

definition protocol_backends :: "protocol_backend list" where
  "protocol_backends = [
     backend (Some ''about'') 0 True 0 0 1 0 1,
     backend (Some ''bittorrent'') 0 True 0 0 1 0 1,
     backend (Some ''bittorrent-peer'') 0 True 1 1 0 0 1,
     backend (Some ''data'') 0 True 0 0 1 0 1,
     backend (Some ''dgi'') 0 True 0 0 0 0 0,
     backend (Some ''file'') 0 True 1 0 0 0 0,
     backend (Some ''finger'') 79 True 1 1 0 0 1,
     backend (Some ''fsp'') 21 True 1 1 0 0 1,
     backend (Some ''ftp'') 21 True 1 1 0 0 0,
     backend (Some ''ftpes'') 21 True 1 1 0 0 0,
     backend (Some ''gemini'') 1965 True 1 1 0 1 1,
     backend (Some ''gopher'') 70 True 1 1 0 0 1,
     backend (Some ''http'') 80 True 1 1 0 0 1,
     backend (Some ''https'') 443 True 1 1 0 1 1,
     backend (Some ''javascript'') 0 False 0 0 1 0 1,
     backend (Some ''mailcap'') 0 True 0 0 1 0 0,
     backend (Some ''mailcaphtml'') 0 True 0 0 1 0 0,
     backend (Some ''news'') 0 True 0 0 1 0 1,
     backend (Some ''nntp'') 119 True 1 1 0 0 0,
     backend (Some ''nntps'') 563 True 1 1 0 1 0,
     backend (Some ''proxy'') 3128 True 1 1 0 0 1,
     backend (Some ''sftp'') 22 True 1 1 0 0 0,
     backend (Some ''smb'') 139 True 1 1 0 0 1,
     backend (Some ''snews'') 0 True 0 0 1 0 1,
     backend (Some ''spartan'') 300 True 1 1 0 0 1,
     backend None 0 False 0 0 1 0 1,
     backend (Some ''user'') 0 False 0 0 0 0 1,
     backend (Some ''custom'') 0 False 0 0 1 0 1]"

definition get_protocol_port :: "protocol_T \<Rightarrow> nat" where
  "get_protocol_port p = pport (protocol_backends ! p)"

definition get_protocol_need_slashes :: "protocol_T \<Rightarrow> bool" where
  "get_protocol_need_slashes p = need_slashes (protocol_backends ! p)"

definition get_protocol_keep_double_slashes :: "protocol_T \<Rightarrow> bool" where
  "get_protocol_keep_double_slashes p = keep_double_slashes (protocol_backends ! p)"

definition get_protocol_need_slash_after_host :: "protocol_T \<Rightarrow> bool" where
  "get_protocol_need_slash_after_host p = need_slash_after_host (protocol_backends ! p)"

definition get_protocol_free_syntax :: "protocol_T \<Rightarrow> bool" where
  "get_protocol_free_syntax p = free_syntax (protocol_backends ! p)"

definition get_protocol_need_ssl :: "protocol_T \<Rightarrow> bool" where
  "get_protocol_need_ssl p = need_ssl (protocol_backends ! p)"

definition get_protocol_handler :: "protocol_T \<Rightarrow> bool" where
  "get_protocol_handler p = has_handler (protocol_backends ! p)"

text \<open>The name of a built-in protocol; every entry below \<open>PROTOCOL_UNKNOWN\<close> has one.\<close>

definition protocol_name :: "protocol_T \<Rightarrow> string" where
  "protocol_name p = the (pname (protocol_backends ! p))"

text \<open>
  The search, with the guard the code asserts before the loop and which the midpoints keep.
\<close>

function protocol_search :: "string \<Rightarrow> nat \<Rightarrow> int \<Rightarrow> int \<Rightarrow> int \<Rightarrow> protocol_T option" where
  "protocol_search name namelen start stop protocol =
     (if start \<le> stop \<and> start \<le> protocol \<and> protocol \<le> stop
      then
        let pn = protocol_name (nat protocol);
            pnamelen = length pn;
            minlen = min pnamelen namelen;
            compare0 = c_strncasecmp pn name minlen
        in if compare0 = 0 \<and> pnamelen = namelen then Some (nat protocol)
           else
             let compare = (if compare0 = 0 then (if pnamelen > namelen then 1 else -1) else compare0)
             in if compare > 0
                then protocol_search name namelen start (protocol - 1) ((start + (protocol - 1)) div 2)
                else protocol_search name namelen (protocol + 1) stop ((protocol + 1 + stop) div 2)
      else None)"
  by pat_completeness auto
termination by (relation "measure (\<lambda>(name, n, start, stop, p). nat (stop - start + 1))") auto

declare protocol_search.simps [simp del]

definition get_protocol :: "(string \<Rightarrow> bool) \<Rightarrow> string \<Rightarrow> nat \<Rightarrow> protocol_T" where
  "get_protocol user_program name namelen =
     (case protocol_search name namelen 0 (int PROTOCOL_UNKNOWN - 1) (int PROTOCOL_HTTP) of
        Some p \<Rightarrow> p
      | None \<Rightarrow> if user_program (take namelen name) then PROTOCOL_USER else PROTOCOL_UNKNOWN)"

subsection \<open>Correctness of the search\<close>

lemma c_strncasecmp_lower: "c_strncasecmp s (lower t) n = c_strncasecmp s t n"
proof (induction n arbitrary: s t)
  case (Suc n)
  then show ?case by (cases t) (simp_all add: lower_def Let_def)
qed simp

lemma c_strncasecmp_take: "c_strncasecmp s (take m t) n = c_strncasecmp s t n" if "n \<le> m"
  using that
proof (induction n arbitrary: s t m)
  case (Suc n)
  then show ?case by (cases t; cases m) (simp_all add: Let_def)
qed simp

lemma protocol_search_cong:
  assumes "\<And>s k. k \<le> n \<Longrightarrow> c_strncasecmp s name' k = c_strncasecmp s name k"
  shows "protocol_search name' n a b p = protocol_search name n a b p"
proof (induction "nat (b - a + 1)" arbitrary: a b p rule: less_induct)
  case less
  show ?case
  proof (cases "a \<le> b \<and> a \<le> p \<and> p \<le> b")
    case True
    have left: "protocol_search name' n a (p - 1) q = protocol_search name n a (p - 1) q" for q
      using True by (intro less) auto
    have right: "protocol_search name' n (p + 1) b q = protocol_search name n (p + 1) b q" for q
      using True by (intro less) auto
    have eq: "c_strncasecmp s name' (min k n) = c_strncasecmp s name (min k n)" for s k
      by (rule assms) simp
    show ?thesis
      unfolding protocol_search.simps [of name' n a b p] protocol_search.simps [of name n a b p]
      by (simp only: left right eq Let_def)
  next
    case False
    then show ?thesis
      unfolding protocol_search.simps [of name' n a b p] protocol_search.simps [of name n a b p]
      by (simp only: if_False)
  qed
qed

lemma protocol_search_normal:
  "protocol_search (lower (take n name)) n a b p = protocol_search name n a b p"
  by (rule protocol_search_cong) (simp add: c_strncasecmp_lower c_strncasecmp_take)

text \<open>A protocol that is found has the name searched for.\<close>

lemma protocol_search_sound:
  assumes "protocol_search name n a b p = Some q" "0 \<le> a" "b < int PROTOCOL_UNKNOWN"
    and "\<And>i. i < PROTOCOL_UNKNOWN \<Longrightarrow> cstring (protocol_name i)" "cstring name" "n \<le> length name"
  shows "lower (take n name) = lower (protocol_name q) \<and> q < PROTOCOL_UNKNOWN"
  using assms(1-3)
proof (induction "nat (b - a + 1)" arbitrary: a b p rule: less_induct)
  case less
  have range: "a \<le> b \<and> a \<le> p \<and> p \<le> b"
    using less(2) unfolding protocol_search.simps [of name n a b p] by (metis option.distinct(1))
  let ?pn = "protocol_name (nat p)"
  let ?c = "c_strncasecmp ?pn name (min (length ?pn) n)"
  let ?cmp = "if ?c = 0 then if length ?pn > n then 1 else -1 else ?c"
  note unfolded = less(2) [unfolded protocol_search.simps [of name n a b p] if_P [OF range] Let_def]
  show ?case
  proof (cases "?c = 0 \<and> length ?pn = n")
    case True
    have "q = nat p" using unfolded unfolding if_P [OF True] by simp
    moreover have "cstring ?pn" using range less(3,4) assms(4) by auto
    then have "lower ?pn = lower (take n name)"
      using True assms(5) by (auto simp: c_strncasecmp_0_iff)
    ultimately show ?thesis using range less(3,4) by auto
  next
    case False
    note unfolded = unfolded [unfolded if_not_P [OF False]]
    show ?thesis
    proof (cases "0 < ?cmp")
      case True
      then show ?thesis
        using less(1) [of "p - 1" a] range less(3,4) unfolded [unfolded if_P [OF True]] by auto
    next
      case False
      then show ?thesis
        using less(1) [of b "p + 1"] range less(3,4) unfolded [unfolded if_not_P [OF False]] by auto
    qed
  qed
qed

lemma protocol_names_cstring: "list_all (\<lambda>i. cstring (protocol_name i)) [0..<PROTOCOL_UNKNOWN]"
  by (simp add: upt_rec protocol_name_def protocol_backends_def backend_def)

lemma protocol_search_names:
  "list_all (\<lambda>q. protocol_search (protocol_name q) (length (protocol_name q)) 0 24 12 = Some q)
     [0..<PROTOCOL_UNKNOWN]"
  by code_simp


lemma get_protocol_spec:
  assumes "cstring name" "namelen \<le> length name"
  shows "(\<forall>q < PROTOCOL_UNKNOWN. get_protocol user_program name namelen = q
      \<longleftrightarrow> lower (take namelen name) = lower (protocol_name q))
    \<and> (get_protocol user_program name namelen < PROTOCOL_UNKNOWN
      \<or> get_protocol user_program name namelen
          = (if user_program (take namelen name) then PROTOCOL_USER else PROTOCOL_UNKNOWN))"
proof -
  let ?s = "protocol_search name namelen 0 24 12"
  have names: "cstring (protocol_name i)" if "i < PROTOCOL_UNKNOWN" for i
    using protocol_names_cstring that by (simp add: list_all_iff)
  have sound: "lower (take namelen name) = lower (protocol_name q) \<and> q < PROTOCOL_UNKNOWN"
    if "?s = Some q" for q
    using protocol_search_sound [OF that] names assms by simp
  have complete: "?s = Some q"
    if "q < PROTOCOL_UNKNOWN" "lower (take namelen name) = lower (protocol_name q)" for q
  proof -
    have "length (protocol_name q) = namelen"
      using that(2) assms(2) by (metis length_lower length_take min_absorb2)
    then have "?s = protocol_search (protocol_name q) (length (protocol_name q)) 0 24 12"
      using protocol_search_normal [of namelen name] protocol_search_normal [of namelen "protocol_name q"]
        that(2) by (metis order_refl take_all)
    then show ?thesis using protocol_search_names that(1) by (simp add: list_all_iff)
  qed
  show ?thesis
  proof (cases ?s)
    case None
    then have "lower (take namelen name) \<noteq> lower (protocol_name q)" if "q < PROTOCOL_UNKNOWN" for q
      using complete that by fastforce
    with None show ?thesis by (auto simp: get_protocol_def)
  next
    case (Some q)
    then have "get_protocol user_program name namelen = q" by (simp add: get_protocol_def)
    then show ?thesis using sound [OF Some] complete Some by (metis option.inject)
  qed
qed

text \<open>
  C3: the dichotomic search is exact. For every name of \<open>namelen\<close> characters it returns a
  built-in protocol if and only if the name is that protocol's name up to ASCII case, and
  otherwise \<open>PROTOCOL_USER\<close> or \<open>PROTOCOL_UNKNOWN\<close>, depending on the configured programs.
\<close>

theorem get_protocol_exact:
  assumes "cstring name" "namelen \<le> length name"
  shows "(\<forall>q < PROTOCOL_UNKNOWN. get_protocol user_program name namelen = q
      \<longleftrightarrow> lower (take namelen name) = lower (protocol_name q))
    \<and> (get_protocol user_program name namelen < PROTOCOL_UNKNOWN
      \<or> get_protocol user_program name namelen
          = (if user_program (take namelen name) then PROTOCOL_USER else PROTOCOL_UNKNOWN))"
  using get_protocol_spec [OF assms] .

theorem get_protocol_exact_witness:
  "get_protocol (\<lambda>_. False) ''HTTPS://x/'' 5 = PROTOCOL_HTTPS
   \<and> get_protocol (\<lambda>_. False) ''httpx://x/'' 5 = PROTOCOL_UNKNOWN"
proof
  have "lower (take 5 ''HTTPS://x/'') = lower (protocol_name PROTOCOL_HTTPS)" by code_simp
  then show "get_protocol (\<lambda>_. False) ''HTTPS://x/'' 5 = PROTOCOL_HTTPS"
    using get_protocol_exact [of "''HTTPS://x/''" 5 "\<lambda>_. False"] by simp
  show "get_protocol (\<lambda>_. False) ''httpx://x/'' 5 = PROTOCOL_UNKNOWN" by code_simp
qed

end
