(* ===== verification/Uri.thy ===== *)
theory Uri
  imports Protocol Conv
begin

text \<open>
  \<open>src/protocol/uri.h\<close> and the first part of \<open>src/protocol/uri.c\<close>: \<open>struct uri\<close>, the parser
  and the component comparison. All the string members of \<open>struct uri\<close> point into the one
  string the URI was parsed from, so they are offsets into \<open>ustring\<close>, \<open>None\<close> for NULL; the
  lengths are the bit fields of the structure (16 bits, 8 bits for the port), the wrap-around
  is written out. \<open>isalnum\<close> is the C library's in a locale where bytes above 127 are no
  letters. The side effect on the map of document positions (\<open>save_in_uri_map\<close>) is left out;
  that the parser cuts the string at \<open>POSITION_CHAR\<close> is modelled.
\<close>

abbreviation POST_CHAR :: char where "POST_CHAR \<equiv> CHR 0x01"
abbreviation FILE_CHAR :: char where "FILE_CHAR \<equiv> CHR 0x02"
abbreviation POSITION_CHAR :: char where "POSITION_CHAR \<equiv> CHR 0x03"

record uri =
  ustring :: string
  protocol :: protocol_T
  ip_family :: nat
  user :: "nat option"
  password :: "nat option"
  host :: "nat option"
  port :: "nat option"
  data :: "nat option"
  fragment :: "nat option"
  post :: "nat option"
  protocollen :: nat
  userlen :: nat
  passwordlen :: nat
  hostlen :: nat
  portlen :: nat
  datalen :: nat
  fragmentlen :: nat
  ipv6 :: bool

datatype uri_errno =
    URI_ERRNO_OK | URI_ERRNO_EMPTY | URI_ERRNO_INVALID_PROTOCOL | URI_ERRNO_NO_SLASHES
  | URI_ERRNO_TOO_MANY_SLASHES | URI_ERRNO_TRAILING_DOTS | URI_ERRNO_NO_HOST
  | URI_ERRNO_NO_PORT_COLON | URI_ERRNO_NO_HOST_SLASH | URI_ERRNO_IPV6_SECURITY
  | URI_ERRNO_INVALID_PORT | URI_ERRNO_INVALID_PORT_RANGE

text \<open>The structure after \<open>memset\<close>.\<close>

definition uri_zero :: uri where
  "uri_zero = \<lparr>ustring = [], protocol = 0, ip_family = 0, user = None, password = None, host = None,
     port = None, data = None, fragment = None, post = None, protocollen = 0, userlen = 0,
     passwordlen = 0, hostlen = 0, portlen = 0, datalen = 0, fragmentlen = 0, ipv6 = False\<rparr>"

definition ptr :: "nat option \<Rightarrow> nat" where
  "ptr p = (case p of Some n \<Rightarrow> n | None \<Rightarrow> 0)"

text \<open>The bytes of a component.\<close>

definition part :: "uri \<Rightarrow> nat option \<Rightarrow> nat \<Rightarrow> string" where
  "part u p len = take len (drop (ptr p) (ustring u))"

definition dir_sep :: "char \<Rightarrow> bool" where
  "dir_sep c \<longleftrightarrow> c = CHR ''/''"

definition end_of_dir :: "char \<Rightarrow> bool" where
  "end_of_dir c \<longleftrightarrow> c = POST_CHAR \<or> c = CHR ''#'' \<or> c = CHR ''?''"

definition is_uri_dir_sep :: "uri \<Rightarrow> char \<Rightarrow> bool" where
  "is_uri_dir_sep u pos = (if protocol u = PROTOCOL_FILE then dir_sep pos else pos = CHR ''/'')"

definition is_in_domain :: "string \<Rightarrow> string \<Rightarrow> nat \<Rightarrow> bool" where
  "is_in_domain domain server server_len =
     (let domain_len = length domain in
      if domain_len > server_len then False
      else if domain_len = server_len then c_strncasecmp domain server server_len = 0
      else
        let len = server_len - domain_len
        in if char_at server (len - 1) \<noteq> CHR ''.'' then False
           else c_strncasecmp domain (drop len server) domain_len = 0)"

definition tlds :: "string list" where
  "tlds = [''com'', ''edu'', ''net'', ''org'', ''gov'', ''mil'', ''int'', ''biz'', ''arpa'',
     ''aero'', ''coop'', ''club'', ''info'', ''museum'', ''expert'', ''name'', ''pro'']"

text \<open>The loop over the table, on a length that is positive.\<close>

fun tld_loop :: "string \<Rightarrow> nat \<Rightarrow> string list \<Rightarrow> int" where
  "tld_loop s slen [] = -1"
| "tld_loop s slen (t # ts) =
     (if length t \<le> slen \<and> c_strncasecmp (drop (slen - length t) s) t (length t) = 0
      then int (slen - length t) else tld_loop s slen ts)"

definition end_with_known_tld :: "string \<Rightarrow> int \<Rightarrow> int" where
  "end_with_known_tld s slen =
     (if slen = 0 then -1 else tld_loop s (if slen < 0 then length s else nat slen) tlds)"

subsection \<open>The parser\<close>

definition is_protocol_char :: "char \<Rightarrow> bool" where
  "is_protocol_char c \<longleftrightarrow> isasciialnum c \<or> c = CHR ''+'' \<or> c = CHR ''-'' \<or> c = CHR ''.''"

definition get_protocol_length :: "string \<Rightarrow> nat" where
  "get_protocol_length url =
     (let e0 = length (takeWhile is_protocol_char url);
          e = (if e0 \<noteq> 0 \<and> isdigit (char_at url (e0 - 1)) then e0 - 1 else e0)
      in if char_at url e = CHR '':'' \<or> isdigit (char_at url e) then e else 0)"

text \<open>
  The parser in the phases of the code. Each phase returns the error so far, the structure and
  the position reached (\<open>prefix_end\<close> or \<open>host_end\<close>).
\<close>

definition parse_protocol :: "(string \<Rightarrow> bool) \<Rightarrow> string \<Rightarrow> uri_errno \<times> uri \<times> nat" where
  "parse_protocol up s =
     (let u = uri_zero\<lparr>ustring := s, protocollen := get_protocol_length s mod 65536\<rparr>
      in if protocollen u = 0 then (URI_ERRNO_INVALID_PROTOCOL, u, 0)
         else
           let u = u\<lparr>protocol := get_protocol up s (protocollen u)\<rparr>;
               pe = protocollen u;
               digit = isdigit (char_at s pe);
               u = (if digit then u\<lparr>ip_family := uchar (char_at s pe) - 0x30\<rparr> else u);
               pe = (if digit then pe + 1 else pe)
           in if char_at s pe \<noteq> CHR '':'' then (URI_ERRNO_INVALID_PROTOCOL, u, pe)
              else
                let pe = pe + 1
                in if char_at s pe = CHR ''/'' \<and> char_at s (pe + 1) = CHR ''/''
                   then if char_at s (pe + 2) = CHR ''/''
                           \<and> get_protocol_need_slash_after_host (protocol u)
                        then (URI_ERRNO_TOO_MANY_SLASHES, u, pe)
                        else (URI_ERRNO_OK, u, pe + 2)
                   else if get_protocol_need_slashes (protocol u) then (URI_ERRNO_NO_SLASHES, u, pe)
                   else (URI_ERRNO_OK, u, pe))"

text \<open>The fragment and the POST data, at the end of the data; the same code for both forms.\<close>

definition parse_fragment_post :: "uri \<Rightarrow> nat \<Rightarrow> uri" where
  "parse_fragment_post u pos =
     (let s = ustring u;
          flen = strcspn (drop (pos + 1) s) [POST_CHAR] mod 65536;
          hash = (char_at s pos = CHR ''#'');
          u = (if hash then u\<lparr>fragment := Some (pos + 1), fragmentlen := flen\<rparr> else u);
          pos = (if hash then pos + 1 + flen else pos)
      in if char_at s pos = POST_CHAR then u\<lparr>post := Some (pos + 1)\<rparr> else u)"

definition parse_file_data :: "uri \<Rightarrow> nat \<Rightarrow> uri" where
  "parse_file_data u pe =
     (let s = ustring u;
          len = strcspn (drop pe s) [CHR ''#'', POST_CHAR];
          u = parse_fragment_post u (pe + len);
          localhost = (len > 9 \<and> c_strncasecmp (drop pe s) ''localhost/'' 10 = 0)
      in if localhost then u\<lparr>data := Some (pe + 9), datalen := len - 9\<rparr>
         else u\<lparr>data := Some pe, datalen := len\<rparr>)"

text \<open>The brackets of an IPv6 address, when they come before the first slash.\<close>

definition find_brackets :: "string \<Rightarrow> nat \<Rightarrow> (nat \<times> nat) option" where
  "find_brackets s pe =
     (case strchr (drop pe s) (CHR ''['') of
        None \<Rightarrow> None
      | Some l \<Rightarrow>
          (case strchr (drop (pe + l) s) (CHR '']'') of
             None \<Rightarrow> None
           | Some r \<Rightarrow> if l + r < strcspn (drop pe s) ''/'' then Some (pe + l, pe + l + r) else None))"

text \<open>The loop that allows an at sign in the password.\<close>

function auth_end :: "string \<Rightarrow> nat \<Rightarrow> nat" where
  "auth_end s host_end =
     (if strcspn (drop (host_end + 1) s) ''@'' < strcspn (drop (host_end + 1) s) ''/?''
      then auth_end s (host_end + 1 + strcspn (drop (host_end + 1) s) ''@'')
      else host_end)"
  by pat_completeness auto
termination
proof (relation "measure (\<lambda>(s, n). length s - n)")
  fix s :: string and n
  assume "strcspn (drop (n + 1) s) ''@'' < strcspn (drop (n + 1) s) ''/?''"
  moreover have "strcspn (drop (n + 1) s) ''/?'' \<le> length (drop (n + 1) s)" by (rule strcspn_le)
  ultimately have "n + 1 < length s" by simp
  then show "((s, n + 1 + strcspn (drop (n + 1) s) ''@''), s, n) \<in> measure (\<lambda>(s, n). length s - n)"
    by simp
qed simp

declare auth_end.simps [simp del]

definition parse_auth :: "uri \<Rightarrow> nat \<Rightarrow> uri \<times> nat" where
  "parse_auth u pe =
     (let s = ustring u; at = pe + strcspn (drop pe s) ''@''
      in if pe + strcspn (drop pe s) ''/'' > at \<and> char_at s at \<noteq> NUL
         then
           let host_end = auth_end s at
           in (case strchr (drop pe s) (CHR '':'') of
                 Some c \<Rightarrow>
                   if pe + c > host_end
                   then u\<lparr>user := Some pe, userlen := (host_end - pe) mod 65536\<rparr>
                   else u\<lparr>user := Some pe, userlen := c mod 65536,
                          password := Some (pe + c + 1),
                          passwordlen := (host_end - (pe + c) - 1) mod 65536\<rparr>
               | None \<Rightarrow> u\<lparr>user := Some pe, userlen := (host_end - pe) mod 65536\<rparr>,
               host_end + 1)
         else (u, pe))"

definition NI_MAXHOST :: nat where "NI_MAXHOST = 1025"

definition parse_host :: "uri \<Rightarrow> (nat \<times> nat) option \<Rightarrow> nat \<Rightarrow> uri_errno \<times> uri \<times> nat" where
  "parse_host u brackets pe =
     (let s = ustring u
      in case brackets of
           Some (l, r) \<Rightarrow>
             let host_end = r + strcspn (drop r s) '':/?''; addrlen = r - l - 1
             in if addrlen \<ge> NI_MAXHOST then (URI_ERRNO_IPV6_SECURITY, u, host_end)
                else (URI_ERRNO_OK, u\<lparr>host := Some (l + 1), hostlen := addrlen mod 65536\<rparr>, host_end)
         | None \<Rightarrow>
             let host_end = pe + strcspn (drop pe s) '':/?'';
                 u = u\<lparr>host := Some pe, hostlen := (host_end - pe) mod 65536\<rparr>
             in if hostlen u \<noteq> 0 \<and> char_at s (pe + hostlen u - 1) = CHR ''.''
                then (URI_ERRNO_TRAILING_DOTS, u, host_end)
                else (URI_ERRNO_OK, u, host_end))"

text \<open>
  The C library's \<open>strtol\<close> on a string that starts with a digit (the code has checked that the
  whole port is digits), assigned to an \<open>int\<close>: the value and whether \<open>errno\<close> was set.
\<close>

definition to_int32 :: "int \<Rightarrow> int" where
  "to_int32 v = (v + 2 ^ 31) mod 2 ^ 32 - 2 ^ 31"

definition strtol_digits :: "string \<Rightarrow> int \<times> bool" where
  "strtol_digits s =
     (let v = int (digits_value 10 (takeWhile isdigit s))
      in if v > 2 ^ 63 - 1 then (2 ^ 63 - 1, True) else (v, False))"

definition uri_port_is_valid :: "int \<Rightarrow> bool" where
  "uri_port_is_valid p \<longleftrightarrow> 0 \<le> p \<and> p \<le> 65535"

definition parse_port :: "uri \<Rightarrow> nat \<Rightarrow> uri_errno \<times> uri \<times> nat" where
  "parse_port u host_end =
     (let s = ustring u
      in if char_at s host_end \<noteq> CHR '':'' then (URI_ERRNO_OK, u, host_end)
         else
           let start = host_end + 1;
               port_end = start + strcspn (drop start s) ''/'';
               u = u\<lparr>port := Some start, portlen := (port_end - start) mod 256\<rparr>
           in if portlen u = 0 then (URI_ERRNO_NO_PORT_COLON, u, start)
              else if portlen u \<noteq> port_end - start then (URI_ERRNO_INVALID_PORT, u, start)
              else if \<not> list_all isdigit (take (port_end - start) (drop start s))
              then (URI_ERRNO_INVALID_PORT, u, start)
              else
                let (v, err) = strtol_digits (drop start s)
                in if err \<or> \<not> uri_port_is_valid (to_int32 v) then (URI_ERRNO_INVALID_PORT, u, port_end)
                   else (URI_ERRNO_OK, u, port_end))"

definition parse_data :: "uri \<Rightarrow> nat \<Rightarrow> uri_errno \<times> uri" where
  "parse_data u host_end =
     (let s = ustring u
      in if char_at s host_end \<noteq> CHR ''/'' \<and> get_protocol_need_slash_after_host (protocol u)
         then (if hostlen u = 0 then URI_ERRNO_NO_HOST else URI_ERRNO_NO_HOST_SLASH, u)
         else
           let start = (if char_at s host_end = CHR ''/'' then host_end + 1 else host_end);
               len = strcspn (drop start s) [CHR ''#'', POST_CHAR]
           in (URI_ERRNO_OK, parse_fragment_post (u\<lparr>data := Some start, datalen := len\<rparr>) (start + len)))"

definition parse_hierarchical :: "uri \<Rightarrow> nat \<Rightarrow> uri_errno \<times> uri" where
  "parse_hierarchical u pe =
     (let brackets = find_brackets (ustring u) pe;
          (u, pe) = parse_auth (u\<lparr>ipv6 := (brackets \<noteq> None)\<rparr>) pe
      in case parse_host u brackets pe of (err, u, host_end) \<Rightarrow>
           if err \<noteq> URI_ERRNO_OK then (err, u)
           else case parse_port u host_end of (err, u, host_end) \<Rightarrow>
             if err \<noteq> URI_ERRNO_OK then (err, u)
             else parse_data u host_end)"

definition parse_uri :: "(string \<Rightarrow> bool) \<Rightarrow> string \<Rightarrow> uri_errno \<times> uri" where
  "parse_uri up uristring =
     (if uristring = [] then (URI_ERRNO_EMPTY, uri_zero)
      else
        let s = takeWhile (\<lambda>c. c \<noteq> POSITION_CHAR) uristring
        in case parse_protocol up s of (err, u, pe) \<Rightarrow>
             if err \<noteq> URI_ERRNO_OK then (err, u)
             else if get_protocol_free_syntax (protocol u)
             then (URI_ERRNO_OK, u\<lparr>data := Some pe, datalen := length s - pe\<rparr>)
             else if protocol u = PROTOCOL_FILE then (URI_ERRNO_OK, parse_file_data u pe)
             else parse_hierarchical u pe)"

definition get_uri_port :: "uri \<Rightarrow> int" where
  "get_uri_port u =
     (if port u \<noteq> None \<and> portlen u \<noteq> 0 \<and> isdigit (char_at (ustring u) (ptr (port u)))
      then to_int32 (fst (strtol_digits (drop (ptr (port u)) (ustring u))))
      else int (get_protocol_port (protocol u)))"

end
