(* ===== verification/Uri_String.thy ===== *)
theory Uri_String
  imports Uri
begin

unbundle bit_operations_syntax

text \<open>
  The component masks of \<open>src/protocol/uri.h\<close>, and of \<open>src/protocol/uri.c\<close> the comparison and
  recomposition of URIs, the extension of a URI's file, and the percent encoding.
  \<open>add_uri_to_string\<close> is one function of the code; the model has a definition for each of its
  sections and composes them in the code's order. The conversion of a host name to ASCII
  (libidn2, after a charset conversion) is the parameter \<open>idn\<close>: \<open>None\<close> when it fails.
\<close>

type_synonym uri_component_T = "32 word"

abbreviation (input) "URI_NONE \<equiv> 0 :: uri_component_T"
abbreviation (input) "URI_PROTOCOL \<equiv> 1 :: uri_component_T"
abbreviation (input) "URI_IP_FAMILY \<equiv> 2 :: uri_component_T"
abbreviation (input) "URI_USER \<equiv> 4 :: uri_component_T"
abbreviation (input) "URI_PASSWORD \<equiv> 8 :: uri_component_T"
abbreviation (input) "URI_HOST \<equiv> 16 :: uri_component_T"
abbreviation (input) "URI_PORT \<equiv> 32 :: uri_component_T"
abbreviation (input) "URI_DEFAULT_PORT \<equiv> 64 :: uri_component_T"
abbreviation (input) "URI_DATA \<equiv> 128 :: uri_component_T"
abbreviation (input) "URI_FRAGMENT \<equiv> 256 :: uri_component_T"
abbreviation (input) "URI_POST \<equiv> 512 :: uri_component_T"
abbreviation (input) "URI_POST_INFO \<equiv> 1024 :: uri_component_T"
abbreviation (input) "URI_IDN \<equiv> 2048 :: uri_component_T"
abbreviation (input) "URI_PATH \<equiv> 4096 :: uri_component_T"
abbreviation (input) "URI_FILENAME \<equiv> 8192 :: uri_component_T"
abbreviation (input) "URI_QUERY \<equiv> 16384 :: uri_component_T"

abbreviation (input) "URI_SPECIAL \<equiv> URI_DEFAULT_PORT OR URI_PATH OR URI_FILENAME OR URI_QUERY"
abbreviation (input) "URI_RARE \<equiv> URI_SPECIAL OR URI_POST OR URI_POST_INFO OR URI_IDN"
abbreviation (input) "URI_PUBLIC \<equiv> NOT (URI_PASSWORD OR URI_RARE) OR URI_POST_INFO"
abbreviation (input) "URI_ORIGINAL \<equiv> NOT URI_RARE"
abbreviation (input) "URI_BASE \<equiv> NOT (URI_RARE OR URI_FRAGMENT) OR URI_POST"
abbreviation (input) "URI_BASE_FRAGMENT \<equiv> URI_BASE OR URI_FRAGMENT"
abbreviation (input) "URI_SERVER \<equiv> NOT (URI_RARE OR URI_DATA OR URI_FRAGMENT)"
abbreviation (input) "URI_HTTP_AUTH \<equiv>
  NOT (URI_RARE OR URI_USER OR URI_PASSWORD OR URI_DATA OR URI_FRAGMENT)"
abbreviation (input) "URI_HTTP_HOST \<equiv> URI_HOST OR URI_PORT OR URI_IDN"
abbreviation (input) "URI_HTTP_REFERRER_HOST \<equiv> URI_PROTOCOL OR URI_HOST OR URI_PORT"
abbreviation (input) "URI_HTTP_REFERRER \<equiv> URI_HTTP_REFERRER_HOST OR URI_DATA"
abbreviation (input) "URI_HTTP_CONNECT \<equiv> URI_HOST OR URI_PORT OR URI_DEFAULT_PORT"
abbreviation (input) "URI_DNS_HOST \<equiv> URI_HOST OR URI_IDN"
abbreviation (input) "URI_HOST_PORT \<equiv> URI_HOST OR URI_PORT"
abbreviation (input) "URI_PROXY \<equiv> NOT (URI_RARE OR URI_FRAGMENT) OR URI_IDN"
abbreviation (input) "URI_KEEPALIVE \<equiv> URI_PROTOCOL OR URI_USER OR URI_PASSWORD OR URI_HOST OR URI_PORT"

definition wants :: "uri_component_T \<Rightarrow> uri_component_T \<Rightarrow> bool" where
  "wants components x \<longleftrightarrow> components AND x \<noteq> 0"

subsection \<open>Comparison\<close>

definition compare_component :: "string option \<Rightarrow> string option \<Rightarrow> bool" where
  "compare_component a b \<longleftrightarrow>
     (case (a, b) of
        (None, None) \<Rightarrow> True
      | (Some s, Some t) \<Rightarrow> length s = length t \<and> (s = [] \<or> s = t)
      | _ \<Rightarrow> False)"

text \<open>
  A component as \<open>compare_component\<close> gets it: a pointer and a length. An unset pointer comes
  with the length zero.
\<close>

definition component :: "uri \<Rightarrow> nat option \<Rightarrow> nat \<Rightarrow> string option" where
  "component u p len = map_option (\<lambda>_. part u p len) p"

definition post_string :: "uri \<Rightarrow> string option" where
  "post_string u = map_option (\<lambda>p. drop p (ustring u)) (post u)"

text \<open>The test whether both pointers are the same is the parameter \<open>same\<close>.\<close>

definition compare_uri :: "bool \<Rightarrow> uri \<Rightarrow> uri \<Rightarrow> uri_component_T \<Rightarrow> bool" where
  "compare_uri same a b components =
     (if same then True
      else if components = 0 then False
      else
        (\<not> wants components URI_PROTOCOL \<or> protocol a = protocol b)
        \<and> (\<not> wants components URI_IP_FAMILY \<or> ip_family a = ip_family b)
        \<and> (\<not> wants components URI_USER
            \<or> compare_component (component a (user a) (userlen a)) (component b (user b) (userlen b)))
        \<and> (\<not> wants components URI_PASSWORD
            \<or> compare_component (component a (password a) (passwordlen a))
                (component b (password b) (passwordlen b)))
        \<and> (\<not> wants components URI_HOST
            \<or> compare_component (component a (host a) (hostlen a)) (component b (host b) (hostlen b)))
        \<and> (\<not> wants components URI_PORT
            \<or> compare_component (component a (port a) (portlen a)) (component b (port b) (portlen b)))
        \<and> (\<not> wants components URI_DATA
            \<or> compare_component (component a (data a) (datalen a)) (component b (data b) (datalen b)))
        \<and> (\<not> wants components URI_FRAGMENT
            \<or> compare_component (component a (fragment a) (fragmentlen a))
                (component b (fragment b) (fragmentlen b)))
        \<and> (\<not> wants components URI_POST \<or> compare_component (post_string a) (post_string b)))"

subsection \<open>The extension of a URI's file\<close>

definition data_extension :: "string \<Rightarrow> string \<Rightarrow> string \<Rightarrow> string option" where
  "data_extension s type ext =
     (if take (length type + 1) s = type @ '';'' \<or> take (length type + 1) s = type @ '',''
      then Some (CHR ''.'' # ext) else None)"

definition data_types :: "(string \<times> string) list" where
  "data_types = [(''image/bmp'', ''bmp''), (''image/pnm'', ''pnm''), (''image/gif'', ''gif''),
     (''image/jpeg'', ''jpg''), (''image/png'', ''png''), (''image/webp'', ''webp''),
     (''image/avif'', ''avif''), (''text/plain'', ''txt''), (''text/html'', ''html''),
     (''image/svg+xml'', ''svg''), (''image/x-tga'', ''tga''), (''image/jxl'', ''jxl'')]"

fun first_extension :: "string \<Rightarrow> (string \<times> string) list \<Rightarrow> string" where
  "first_extension s [] = []"
| "first_extension s ((t, e) # ts) =
     (case data_extension s t e of Some x \<Rightarrow> x | None \<Rightarrow> first_extension s ts)"

text \<open>
  The scan for the first dot after the last slash: the position, \<open>afterslash\<close> and the position
  of \<open>extension\<close>; it returns the extension and the end.
\<close>

fun extension_scan :: "nat \<Rightarrow> bool \<Rightarrow> nat option \<Rightarrow> string \<Rightarrow> nat option \<times> nat" where
  "extension_scan pos afterslash ext [] = (ext, pos)"
| "extension_scan pos afterslash ext (c # s) =
     (if end_of_dir c then (ext, pos)
      else if \<not> afterslash \<and> ext = None \<and> c = CHR ''.''
      then extension_scan (pos + 1) afterslash (Some pos) s
      else if dir_sep c then extension_scan (pos + 1) True None s
      else extension_scan (pos + 1) False ext s)"

definition get_extension_from_uri :: "uri \<Rightarrow> string option" where
  "get_extension_from_uri u =
     (let s = drop (ptr (data u)) (ustring u)
      in if protocol u = PROTOCOL_DATA then Some (first_extension s data_types)
         else case extension_scan 0 True None s of
           (Some e, pos) \<Rightarrow> (if e < pos then Some (take (pos - e) (drop e s)) else None)
         | (None, _) \<Rightarrow> None)"

subsection \<open>Recomposition\<close>

definition add_uri_protocol :: "uri \<Rightarrow> uri_component_T \<Rightarrow> string" where
  "add_uri_protocol u c =
     (if wants c URI_PROTOCOL
      then take (protocollen u) (ustring u)
           @ (if wants c URI_IP_FAMILY \<and> ip_family u \<noteq> 0
              then add_long_or_not [] (int (ip_family u)) else [])
           @ '':''
           @ (if get_protocol_need_slashes (protocol u) then ''//'' else [])
      else [])"

definition add_uri_auth :: "uri \<Rightarrow> uri_component_T \<Rightarrow> string" where
  "add_uri_auth u c =
     (if wants c URI_USER \<and> userlen u \<noteq> 0
      then part u (user u) (userlen u)
           @ (if wants c URI_PASSWORD \<and> passwordlen u \<noteq> 0
              then '':'' @ part u (password u) (passwordlen u) else [])
           @ ''@''
      else if wants c URI_PASSWORD \<and> passwordlen u \<noteq> 0
      then part u (password u) (passwordlen u)
      else [])"

definition add_uri_host :: "(string \<Rightarrow> string option) \<Rightarrow> uri \<Rightarrow> uri_component_T \<Rightarrow> string" where
  "add_uri_host idn u c =
     (if wants c URI_HOST \<and> hostlen u \<noteq> 0
      then let h = part u (host u) (hostlen u)
           in (if ipv6 u \<and> wants c URI_PORT then ''['' else [])
              @ (if wants c URI_IDN then (case idn h of Some n \<Rightarrow> n | None \<Rightarrow> h) else h)
              @ (if ipv6 u \<and> wants c URI_PORT then '']'' else [])
      else [])"

definition add_uri_port :: "uri \<Rightarrow> uri_component_T \<Rightarrow> string" where
  "add_uri_port u c =
     (if wants c URI_PORT \<or> wants c URI_DEFAULT_PORT
      then if portlen u \<noteq> 0 then '':'' @ part u (port u) (portlen u)
           else if wants c URI_DEFAULT_PORT \<and> protocol u \<noteq> PROTOCOL_USER
           then '':'' @ add_long_or_not [] (int (get_protocol_port (protocol u)))
           else []
      else [])"

definition add_uri_slash :: "uri \<Rightarrow> uri_component_T \<Rightarrow> string" where
  "add_uri_slash u c =
     (if (wants c URI_DATA \<or> wants c URI_POST \<or> c = URI_HTTP_REFERRER_HOST)
         \<and> wants c (NOT (URI_DATA OR URI_PORT))
         \<and> get_protocol_need_slash_after_host (protocol u)
      then ''/'' else [])"

text \<open>The path, or the file name after the last slash, up to the query or fragment.\<close>

definition path_end :: "string \<Rightarrow> string" where
  "path_end s = takeWhile (\<lambda>c. \<not> end_of_dir c) s"

definition file_name :: "string \<Rightarrow> string" where
  "file_name p = rev (takeWhile (\<lambda>c. \<not> dir_sep c) (rev p))"

text \<open>A second component of the result says that the function returned here.\<close>

definition add_uri_path :: "uri \<Rightarrow> uri_component_T \<Rightarrow> string \<times> bool" where
  "add_uri_path u c =
     (if wants c URI_PATH \<or> wants c URI_FILENAME
      then
        let s = drop (ptr (data u)) (ustring u);
            slash = (if wants c URI_PATH \<and> \<not> is_uri_dir_sep u (deref s) then ''/'' else [])
        in if datalen u = 0 then (slash, False)
           else if protocol u = PROTOCOL_DATA
           then (slash @ ''data'' @ (case get_extension_from_uri u of Some e \<Rightarrow> e | None \<Rightarrow> []), True)
           else (slash @ (if wants c URI_FILENAME then file_name (path_end s) else path_end s), False)
      else ([], False))"

definition add_uri_query :: "uri \<Rightarrow> uri_component_T \<Rightarrow> string \<times> bool" where
  "add_uri_query u c =
     (if wants c URI_QUERY \<and> datalen u \<noteq> 0
      then (case strchr (part u (data u) (datalen u)) (CHR ''?'') of
              None \<Rightarrow> ([], True)
            | Some i \<Rightarrow> (takeWhile (\<lambda>c. c \<noteq> CHR ''#'' \<and> c \<noteq> POST_CHAR)
                          (drop (ptr (data u) + i + 1) (ustring u)), True))
      else ([], False))"

definition strncmp_eq :: "string \<Rightarrow> string \<Rightarrow> bool" where
  "strncmp_eq s t = (take (length t) s = t)"

definition add_uri_rest :: "uri \<Rightarrow> uri_component_T \<Rightarrow> string" where
  "add_uri_rest u c =
     (if wants c URI_FRAGMENT \<and> fragmentlen u \<noteq> 0
      then ''#'' @ part u (fragment u) (fragmentlen u) else [])
     @ (case post u of
          None \<Rightarrow> []
        | Some p \<Rightarrow>
            let ps = drop p (ustring u)
            in if wants c URI_POST then [POST_CHAR] @ ps
               else if wants c URI_POST_INFO
               then if strncmp_eq ps ''text/plain'' then '' (PLAIN TEXT DATA)''
                    else if strncmp_eq ps ''multipart/form-data;'' then '' (MULTIPART FORM DATA)''
                    else '' (POST DATA)''
               else [])"

definition add_uri_to_string ::
  "(string \<Rightarrow> string option) \<Rightarrow> string \<Rightarrow> uri \<Rightarrow> uri_component_T \<Rightarrow> string" where
  "add_uri_to_string idn str u c =
     (if protocol u = PROTOCOL_UNKNOWN then str @ ustring u
      else
        let s1 = str @ add_uri_protocol u c @ add_uri_auth u c @ add_uri_host idn u c
                 @ add_uri_port u c @ add_uri_slash u c
                 @ (if wants c URI_DATA \<and> datalen u \<noteq> 0 then part u (data u) (datalen u) else []);
            (p, stop) = add_uri_path u c
        in if stop then s1 @ p
           else
             let (q, stop) = add_uri_query u c
             in if stop then s1 @ p @ q else s1 @ p @ q @ add_uri_rest u c)"

definition get_uri_string :: "(string \<Rightarrow> string option) \<Rightarrow> uri \<Rightarrow> uri_component_T \<Rightarrow> string" where
  "get_uri_string idn u c = add_uri_to_string idn [] u c"

definition add_string_uri_to_string ::
  "(string \<Rightarrow> bool) \<Rightarrow> (string \<Rightarrow> string option) \<Rightarrow> string \<Rightarrow> string \<Rightarrow> uri_component_T \<Rightarrow> string option" where
  "add_string_uri_to_string up idn str uristring c =
     (case parse_uri up uristring of
        (URI_ERRNO_OK, u) \<Rightarrow> Some (add_uri_to_string idn str u c)
      | _ \<Rightarrow> None)"

end
