(* ===== verification/Uri_Encode.thy ===== *)
theory Uri_Encode
  imports Uri_String
begin

text \<open>
  The percent encoding of \<open>src/protocol/uri.c\<close>. The name to encode is the list of its
  \<open>namelen\<close> bytes. \<open>decode_uri\<close> works in place with a destination that never overtakes the
  source, so its model maps the string to the decoded one. \<open>isprint\<close> and \<open>iscntrl\<close> are the C
  library's in a locale where bytes above 127 are not printable.
\<close>

definition safe_char :: "char \<Rightarrow> bool" where
  "safe_char c \<longleftrightarrow> isident c \<or> c = CHR ''.'' \<or> c = CHR ''!'' \<or> c = CHR ''~''
     \<or> c = CHR ''*'' \<or> c = SQUOTE \<or> c = CHR ''('' \<or> c = CHR '')''"

fun encode_uri_string :: "string \<Rightarrow> string \<Rightarrow> bool \<Rightarrow> string" where
  "encode_uri_string str [] convert_slashes = str"
| "encode_uri_string str (c # name) convert_slashes =
     (if safe_char c \<or> \<not> convert_slashes \<and> c = CHR ''/''
      then encode_uri_string (str @ [c]) name convert_slashes
      else encode_uri_string (str @ [CHR ''%'', hx (uchar c div 16), hx (uchar c mod 16)]) name
             convert_slashes)"

fun encode_uri_string_percent :: "string \<Rightarrow> string \<Rightarrow> string" where
  "encode_uri_string_percent str [] = str"
| "encode_uri_string_percent str (c # name) =
     (if uchar c < 128 then encode_uri_string_percent (str @ [c]) name
      else encode_uri_string_percent (str @ [CHR ''%'', Hx (uchar c div 16), Hx (uchar c mod 16)]) name)"

fun encode_win32_uri_string :: "string \<Rightarrow> string \<Rightarrow> string" where
  "encode_win32_uri_string str [] = str"
| "encode_win32_uri_string str (c # name) =
     (if safe_char c \<or> c = CHR '':'' \<or> c = BACKSLASH then encode_win32_uri_string (str @ [c]) name
      else encode_win32_uri_string
             (str @ [CHR ''%'', hx (uchar c div 16), hx (uchar c mod 16)]) name)"

text \<open>The value of the escape after a percent sign, when it is one that is decoded.\<close>

definition escape_value :: "string \<Rightarrow> nat option" where
  "escape_value s =
     (let x1 = unhx (char_at s 0)
      in if x1 < 0 then None
         else let x2 = unhx (char_at s 1)
              in if x2 < 0 \<or> x1 * 16 + x2 = 0 then None else Some (nat (x1 * 16 + x2)))"

function decode_uri :: "string \<Rightarrow> string" where
  "decode_uri [] = []"
| "decode_uri (c # s) =
     (case (if c = CHR ''%'' then escape_value s else None) of
        Some x \<Rightarrow> char_of x # decode_uri (drop 2 s)
      | None \<Rightarrow> c # decode_uri s)"
  by pat_completeness auto
termination by (relation "measure length") auto

definition c_isprint :: "char \<Rightarrow> bool" where
  "c_isprint c \<longleftrightarrow> 0x20 \<le> uchar c \<and> uchar c \<le> 0x7E"

definition decode_uri_for_display :: "string \<Rightarrow> string" where
  "decode_uri_for_display src = map (\<lambda>c. if c_isprint c then c else CHR ''*'') (decode_uri src)"

subsection \<open>Correctness\<close>

lemma encode_uri_string_acc:
  "encode_uri_string str name conv = str @ encode_uri_string [] name conv"
proof (induction name arbitrary: str)
  case (Cons c name)
  show ?case by (simp add: Cons [of "str @ _"] Cons [of "[_]"] Cons [of "[_, _, _]"])
qed simp

lemma percent_not_safe: "\<not> safe_char (CHR ''%'')" "\<not> safe_char (CHR ''/'')"
  by (simp_all add: safe_char_def isident_def isasciialnum_def isasciialpha_def isdigit_def)

lemma safe_hx: "n < 16 \<Longrightarrow> safe_char (hx n)"
  by (simp add: safe_char_def isident_def isasciialnum_def isasciialpha_def isdigit_def uchar_hx)

lemma escape_value_hx:
  assumes "c \<noteq> NUL"
  shows "escape_value (hx (uchar c div 16) # hx (uchar c mod 16) # s) = Some (uchar c)"
proof -
  have lt: "uchar c div 16 < 16" "uchar c mod 16 < 16"
    using uchar_less [of c] by (simp_all add: less_mult_imp_div_less)
  have v: "int (uchar c div 16) * 16 + int (uchar c mod 16) = int (uchar c)"
    by (metis div_mult_mod_eq of_nat_add of_nat_mult of_nat_numeral)
  have "uchar c \<noteq> 0" using assms by simp
  with lt v show ?thesis by (simp add: escape_value_def Let_def del: uchar_NUL_iff)
qed

lemma escape_value_bounds: "escape_value s = Some x \<Longrightarrow> 0 < x \<and> x < 256 \<and> 2 \<le> length s"
proof -
  assume e: "escape_value s = Some x"
  have nul: "unhx NUL = -1" by (simp add: unhx_def isdigit_def)
  show ?thesis
    using e unhx_bounds [of "char_at s 0"] unhx_bounds [of "char_at s 1"] nul
    by (cases s rule: list.exhaust; cases "tl s")
       (auto simp: escape_value_def Let_def split: if_splits)
qed

text \<open>
  C6: percent encoding is invertible: for every C string and both settings of the slash flag,
  the encoded form holds only unreserved characters, percent signs and unconverted slashes, and
  decoding it gives the original string.
\<close>

theorem encode_decode_uri:
  assumes "cstring name"
  shows "decode_uri (encode_uri_string [] name conv) = name
    \<and> list_all (\<lambda>c. safe_char c \<or> c = CHR ''%'' \<or> \<not> conv \<and> c = CHR ''/'') (encode_uri_string [] name conv)"
  using assms
proof (induction name)
  case Nil
  then show ?case by simp
next
  case (Cons c name)
  show ?case
  proof (cases "safe_char c \<or> \<not> conv \<and> c = CHR ''/''")
    case True
    then have "c \<noteq> CHR ''%''" using percent_not_safe by auto
    with True Cons show ?thesis by (auto simp: encode_uri_string_acc [of "[_]"])
  next
    case False
    have "uchar c div 16 < 16" "uchar c mod 16 < 16"
      using uchar_less [of c] by (simp_all add: less_mult_imp_div_less)
    then have "safe_char (hx (uchar c div 16))" "safe_char (hx (uchar c mod 16))"
      by (simp_all add: safe_hx)
    with False Cons escape_value_hx [of c] show ?thesis
      by (auto simp: encode_uri_string_acc [of "[_, _, _]"])
  qed
qed

theorem encode_decode_uri_witness:
  "cstring ''a b/c'' \<and> encode_uri_string [] ''a b/c'' False = ''a%20b/c''
   \<and> decode_uri (encode_uri_string [] ''a b/c'' False) = ''a b/c''"
proof (intro conjI)
  show "cstring ''a b/c''" by simp
  then show "decode_uri (encode_uri_string [] ''a b/c'' False) = ''a b/c''"
    using encode_decode_uri by blast
  show "encode_uri_string [] ''a b/c'' False = ''a%20b/c''" by code_simp
qed

text \<open>
  Decoding never lengthens a string and never produces a NUL byte, whatever escapes the
  input holds (\<open>%00\<close> is left as it is), so a decoded C string is a C string that fits in the
  buffer of the original.
\<close>

lemma decode_uri_in_place:
  assumes "cstring s"
  shows "cstring (decode_uri s) \<and> length (decode_uri s) \<le> length s"
  using assms
proof (induction s rule: decode_uri.induct)
  case 1
  then show ?case by simp
next
  case (2 c s)
  show ?case
  proof (cases "if c = CHR ''%'' then escape_value s else None")
    case None
    with 2 show ?thesis by simp
  next
    case (Some x)
    then have "0 < x" "x < 256" "2 \<le> length s"
      using escape_value_bounds by (auto split: if_splits)
    then have "char_of x \<noteq> NUL" by (metis neq0_conv uchar_NUL_iff uchar_char_of)
    moreover have "cstring (drop 2 s)" using 2(3) by auto
    ultimately show ?thesis using 2(2) [OF Some] Some \<open>2 \<le> length s\<close> by auto
  qed
qed

lemma decode_uri_in_place_witness:
  "cstring ''%41%00%'' \<and> decode_uri ''%41%00%'' = ''A%00%''
   \<and> length (decode_uri ''%41%00%'') \<le> length ''%41%00%''"
proof -
  have c: "cstring ''%41%00%''" by simp
  have "decode_uri ''%41%00%'' = ''A%00%''" by code_simp
  with c decode_uri_in_place [OF c] show ?thesis by blast
qed

end
