(* ===== verification/Uri_Paths.thy ===== *)
theory Uri_Paths
  imports Uri_Normalize
begin

text \<open>
  Correctness of the dot segment removal of \<open>normalize_uri\<close>. First the in-place loop is
  shown to compute a function on the bytes read and the bytes written (\<open>norm_path\<close>), which
  also shows that the destination never overtakes the source; then that function is shown to
  compute the resolution of \<open>.\<close> and \<open>..\<close> on a stack of path segments (\<open>resolve\<close>).
\<close>

subsection \<open>The loop as a function on strings\<close>

definition pop_segment :: "(char \<Rightarrow> bool) \<Rightarrow> string \<Rightarrow> string" where
  "pop_segment sep out = rev (tl (dropWhile (\<lambda>c. \<not> sep c) (rev out)))"

function norm_path :: "(char \<Rightarrow> bool) \<Rightarrow> bool \<Rightarrow> string \<Rightarrow> string \<Rightarrow> string" where
  "norm_path sep keep out [] = out"
| "norm_path sep keep out (c # s) =
     (if end_of_dir c then out @ c # s
      else if \<not> sep c then norm_path sep keep (out @ [c]) s
      else if deref s = CHR ''.'' then
        (if char_at s 1 = NUL then out @ [c]
         else if sep (char_at s 1) then norm_path sep keep out (drop 1 s)
         else if char_at s 1 = CHR ''.'' \<and> (sep (char_at s 2) \<or> char_at s 2 = NUL)
         then (if char_at s 2 = NUL then pop_segment sep out @ [c]
               else norm_path sep keep (pop_segment sep out) (drop 2 s))
         else norm_path sep keep (out @ [c]) s)
      else if sep (deref s) \<and> \<not> keep then norm_path sep keep out s
      else norm_path sep keep (out @ [c]) s)"
  by pat_completeness auto
termination by (relation "measure (\<lambda>(sep, keep, out, s). length s)") auto

lemma pop_segment_prefix: "\<exists>more. out = pop_segment sep out @ more"
proof -
  let ?r = "dropWhile (\<lambda>c. \<not> sep c) (rev out)"
  have "rev out = takeWhile (\<lambda>c. \<not> sep c) (rev out) @ ?r" by simp
  then have "rev out = (takeWhile (\<lambda>c. \<not> sep c) (rev out) @ take 1 ?r) @ tl ?r"
    by (metis append.assoc append_take_drop_id drop_Suc One_nat_def drop0)
  then have "out = rev (tl ?r) @ rev (takeWhile (\<lambda>c. \<not> sep c) (rev out) @ take 1 ?r)"
    by (metis rev_append rev_rev_ident)
  then show ?thesis unfolding pop_segment_def by blast
qed

lemma pop_segment_snoc:
  "pop_segment sep (out @ [c]) = (if sep c then out else pop_segment sep out)"
  by (simp add: pop_segment_def)

lemma pop_segment_Nil [simp]: "pop_segment sep [] = []"
  by (simp add: pop_segment_def)

lemma step_back_spec:
  "step_back sep (pre @ out @ rest) (length pre) (length pre + length out)
    = length pre + length (pop_segment sep out)"
proof (induction out arbitrary: rest rule: rev_induct)
  case Nil
  then show ?case by (cases "length pre") simp_all
next
  case (snoc c out)
  have "char_at (pre @ (out @ [c]) @ rest) (length pre + length out) = c"
    by (simp add: char_at_def nth_append)
  then show ?case
    using snoc [of "c # rest"] by (simp add: pop_segment_snoc)
qed

lemma char_at_append:
  "char_at (xs @ ys) (length xs + i) = char_at ys i"
  by (simp add: char_at_def nth_append)

lemma char_at_prefix: "i \<le> length s \<Longrightarrow> char_at (s @ NUL # junk) i = char_at s i"
  by (auto simp: char_at_def nth_append)

lemma cstr_at_prefix: "cstring s \<Longrightarrow> cstr_at (s @ NUL # junk) 0 = s"
  unfolding cstr_at_def cstring_def by (subst drop0, subst takeWhile_append2) auto

lemma copy_step:
  assumes "cstring gap" "c \<noteq> NUL"
  shows "\<exists>gap'. (pre @ out @ gap @ c # s)[length pre + length out := c] = pre @ (out @ [c]) @ gap' @ s
    \<and> cstring gap' \<and> length gap' = length gap"
proof (cases gap)
  case Nil
  then show ?thesis by (intro exI [of _ "[]"]) (simp add: list_update_append)
next
  case (Cons g gs)
  with assms show ?thesis by (intro exI [of _ "gs @ [c]"]) (simp add: list_update_append)
qed

lemma write_end:
  assumes "cstring (pre @ out)" "c \<noteq> NUL" "2 \<le> length rest"
  shows "cstr_at ((pre @ out @ rest)[length (pre @ out) := c, length (pre @ out) + 1 := NUL]) 0 = pre @ out @ [c]"
proof -
  obtain x y ys where "rest = x # y # ys" using assms(3) by (metis Suc_le_length_iff numeral_2_eq_2)
  then have "(pre @ out @ rest)[length (pre @ out) := c, length (pre @ out) + 1 := NUL]
      = (pre @ out @ [c]) @ NUL # ys"
    by (simp add: list_update_append)
  then show ?thesis using assms cstr_at_prefix [of "pre @ out @ [c]" ys] by simp
qed

lemma move_end:
  assumes "cstring (pre @ out @ s)"
  shows "cstr_at (move_string (pre @ out @ gap @ s @ NUL # junk) (length (pre @ out)) (length (pre @ out @ gap))) 0
    = pre @ out @ s"
proof -
  have "cstr_at (pre @ out @ gap @ s @ NUL # junk) (length (pre @ out @ gap)) = s"
    using assms cstr_at_prefix [of s junk] by (simp add: cstr_at_def)
  then have "move_string (pre @ out @ gap @ s @ NUL # junk) (length (pre @ out)) (length (pre @ out @ gap))
      = (pre @ out @ s) @ NUL # drop (length (pre @ out) + length (s @ [NUL])) (pre @ out @ gap @ s @ NUL # junk)"
    by (simp add: move_string_def Let_def)
  then show ?thesis using cstr_at_prefix [OF assms] by simp
qed

text \<open>The invariant of the loop: the memory is what was before the path, the bytes written, a gap of bytes
  already read, and the rest of the source.\<close>

lemma normalize_loop_spec:
  assumes "cstring pre" "cstring out" "cstring gap" "cstring s" "\<not> sep NUL"
  shows "cstr_at (normalize_loop sep keep (length pre) (length (pre @ out @ gap)) (length (pre @ out))
      (pre @ out @ gap @ s @ NUL # junk)) 0 = pre @ norm_path sep keep out s"
  using assms(2-4)
proof (induction "length s" arbitrary: out gap s rule: less_induct)
  case less
  let ?b = "pre @ out @ gap @ s @ NUL # junk"
  let ?src = "length (pre @ out @ gap)" and ?dest = "length (pre @ out)"
  have at: "char_at ?b (?src + i) = char_at (s @ NUL # junk) i" for i
    using char_at_append [of "pre @ out @ gap" "s @ NUL # junk" i] by simp
  have src: "char_at ?b ?src = char_at s 0" using at [of 0] char_at_prefix [of 0 s junk] by simp
  have len: "\<not> length ?b \<le> ?src" by simp
  have dest: "char_at ?b ?dest = deref (gap @ s)"
    using char_at_append [of "pre @ out" "gap @ s @ NUL # junk" 0]
    by (cases gap; cases s) auto
  show ?case
  proof (cases s)
    case Nil
    show ?thesis
    proof (cases gap)
      case Nil
      then show ?thesis
        using \<open>s = []\<close> dest less.prems assms(1) cstr_at_prefix [of "pre @ out" junk]
        by (subst normalize_loop.simps) simp
    next
      case (Cons g gs)
      let ?b' = "pre @ out @ NUL # gs @ NUL # junk"
      have g: "g \<noteq> NUL" using Cons less.prems by simp
      have b': "?b[?dest := NUL] = ?b'" using Cons \<open>s = []\<close> by (simp add: list_update_append)
      have "normalize_loop sep keep (length pre) (?src + 1) ?dest ?b' = ?b'"
        using char_at_append [of "pre @ out" "NUL # gs @ NUL # junk" 0]
        by (subst normalize_loop.simps) simp
      moreover have "\<not> end_of_dir NUL" by (simp add: end_of_dir_def)
      ultimately have "normalize_loop sep keep (length pre) ?src ?dest ?b = ?b'"
        using src dest len g \<open>s = []\<close> Cons assms(5) b'
        by (subst normalize_loop.simps) (simp add: Let_def)
      then show ?thesis
        using \<open>s = []\<close> less.prems assms(1) cstr_at_prefix [of "pre @ out" "gs @ NUL # junk"] by simp
    qed
  next
    case (Cons c t)
    have c: "c \<noteq> NUL" and t: "cstring t" using Cons less.prems by auto
    have dnz: "char_at ?b ?dest \<noteq> NUL" using dest Cons less.prems by (cases gap) auto
    have at0: "char_at ?b ?src = c" using src Cons by simp
    have at1: "char_at ?b (?src + 1) = deref t"
      using at [of 1] char_at_prefix [of 1 s junk] Cons by simp
    have at2: "char_at ?b (?src + 2) = char_at t 1" if "t \<noteq> []"
      using at [of 2] char_at_prefix [of 2 s junk] Cons that
      by (cases t) (simp_all add: numeral_2_eq_2)
    have at3: "char_at ?b (?src + 3) = char_at t 2" if "1 < length t"
      using at [of 3] char_at_prefix [of 3 s junk] Cons that
      by (simp add: numeral_3_eq_3 numeral_2_eq_2 Suc_le_eq)
    have copy: "cstr_at (normalize_loop sep keep (length pre) (?src + 1) (?dest + 1) (?b[?dest := c])) 0
        = pre @ norm_path sep keep (out @ [c]) t"
    proof -
      obtain gap' where g: "(pre @ out @ gap @ c # t @ NUL # junk)[length pre + length out := c]
          = pre @ (out @ [c]) @ gap' @ t @ NUL # junk" "cstring gap'" "length gap' = length gap"
        using copy_step [of gap c pre out "t @ NUL # junk"] less.prems c by blast
      then have "?b[?dest := c] = pre @ (out @ [c]) @ gap' @ t @ NUL # junk" using Cons by simp
      then show ?thesis
        using less.hyps [of t "out @ [c]" gap'] less.prems Cons g(2,3) c t by simp
    qed
    have skip: "cstr_at (normalize_loop sep keep (length pre) (?src + k) (length (pre @ o')) ?b) 0
        = pre @ norm_path sep keep o' (drop k s)"
      if "0 < k" "k \<le> length s" "out = o' @ more" for k o' more
    proof -
      have b: "?b = pre @ o' @ (more @ gap @ take k s) @ drop k s @ NUL # junk"
        using that by simp
      have src: "?src + k = length (pre @ o' @ (more @ gap @ take k s))" using that by simp
      have "cstring (take k s)" "cstring (drop k s)" using less.prems by auto
      moreover have "length (drop k s) < length s" using that by simp
      moreover have "cstring o'" "cstring more" using less.prems that(3) by simp_all
      ultimately show ?thesis
        unfolding b src using less.hyps [of "drop k s" o' "more @ gap @ take k s"] less.prems by simp
    qed
    have stop: "cstr_at (?b[length (pre @ o') := c, length (pre @ o') + 1 := NUL]) 0 = pre @ o' @ [c]"
      if "out = o' @ more" for o' more
      using write_end [of pre o' c "more @ gap @ s @ NUL # junk"] that Cons c less.prems assms(1) by simp
    obtain more where more: "out = pop_segment sep out @ more" using pop_segment_prefix by blast
    have backed: "step_back sep ?b (length pre) ?dest = length (pre @ pop_segment sep out)"
      using step_back_spec [of sep pre out "gap @ s @ NUL # junk"] by simp
    note unfolded = normalize_loop.simps [of sep keep "length pre" ?src ?dest ?b]
    note facts = dnz len at0 at1 c backed
    consider (stop) "end_of_dir c" | (plain) "\<not> end_of_dir c" "\<not> sep c"
      | (dot) "\<not> end_of_dir c" "sep c" "deref t = CHR ''.''"
      | (nodot) "\<not> end_of_dir c" "sep c" "deref t \<noteq> CHR ''.''" by blast
    then show ?thesis
    proof cases
      case stop
      have "normalize_loop sep keep (length pre) ?src ?dest ?b = move_string ?b ?dest ?src"
        using facts stop by (subst unfolded) (simp only: Let_def simp_thms if_True if_False)
      then show ?thesis
        using move_end [of pre out s gap junk] stop Cons less.prems assms(1) by simp
    next
      case plain
      then show ?thesis
        using facts copy Cons by (subst unfolded) (simp only: Let_def simp_thms if_True if_False norm_path.simps)
    next
      case nodot
      show ?thesis
        using facts copy nodot Cons skip [of 1 out "[]"]
        by (subst unfolded) (cases keep; simp add: Let_def)
    next
      case dot
      then obtain t' where t': "t = CHR ''.'' # t'" using c by (cases t) auto
      have at2': "char_at ?b (?src + 2) = char_at t 1" using at2 t' by simp
      consider "char_at t 1 = NUL" | "char_at t 1 \<noteq> NUL" "sep (char_at t 1)"
        | "char_at t 1 \<noteq> NUL" "\<not> sep (char_at t 1)" by blast
      then show ?thesis
      proof cases
        case 1
        show ?thesis
          using facts at2' 1 dot Cons stop [of out "[]"] by (subst unfolded) (simp add: Let_def)
      next
        case 2
        then have "2 \<le> length s" using Cons t' by simp
        then show ?thesis
          using facts at2' 2 dot Cons skip [of 2 out "[]"] t' by (subst unfolded) (simp add: Let_def)
      next
        case 3
        then have len3: "3 \<le> length s" "1 < length t" using Cons t' by (cases t', auto)+
        then have at3': "char_at ?b (?src + 3) = char_at t 2" using at3 by simp
        show ?thesis
          using facts at2' at3' 3 dot Cons copy skip [OF _ len3(1) more] stop [OF more]
          by (subst unfolded) (simp add: Let_def)
      qed
    qed
  qed
qed


subsection \<open>Dot segments on a stack of segments\<close>

text \<open>
  A path is its segments, each with the slash in front of it. \<open>resolve\<close> is the textbook
  resolution: a dot segment is dropped, a double dot drops the last kept segment, either leaves
  an empty segment at the end of a path; with \<open>keep\<close> off, empty segments inside are dropped.
\<close>

definition join_path :: "string list \<Rightarrow> string" where
  "join_path segs = concat (map (\<lambda>s. CHR ''/'' # s) segs)"

fun resolve :: "bool \<Rightarrow> string list \<Rightarrow> string list \<Rightarrow> string list" where
  "resolve keep st [] = rev st"
| "resolve keep st [s] =
     (if s = ''.'' then rev ([] # st) else if s = ''..'' then rev ([] # tl st) else rev (s # st))"
| "resolve keep st (s # t # ss) =
     (if s = ''.'' then resolve keep st (t # ss)
      else if s = ''..'' then resolve keep (tl st) (t # ss)
      else if s = [] \<and> \<not> keep then resolve keep st (t # ss)
      else resolve keep (s # st) (t # ss))"

definition segment :: "string \<Rightarrow> bool" where
  "segment s \<longleftrightarrow> (\<forall>c \<in> set s. \<not> end_of_dir c \<and> c \<noteq> CHR ''/'' \<and> c \<noteq> NUL)"

lemma segment_simps [simp]: "segment []" "segment (c # s) \<longleftrightarrow>
  \<not> end_of_dir c \<and> c \<noteq> CHR ''/'' \<and> c \<noteq> NUL \<and> segment s"
  by (auto simp: segment_def)

lemma slash_not_end [simp]: "\<not> end_of_dir (CHR ''/'')" "\<not> end_of_dir (CHR ''.'')"
  by (simp_all add: end_of_dir_def)

lemma join_path_simps [simp]: "join_path [] = []"
  "join_path (s # ss) = CHR ''/'' # s @ join_path ss" "join_path (xs @ ys) = join_path xs @ join_path ys"
  by (simp_all add: join_path_def)

lemma norm_path_segment:
  "segment s \<Longrightarrow> norm_path dir_sep keep out (s @ rest) = norm_path dir_sep keep (out @ s) rest"
  by (induction s arbitrary: out) (simp_all add: dir_sep_def)

lemma pop_segment_join:
  assumes "segment s"
  shows "pop_segment dir_sep (out @ CHR ''/'' # s) = out"
  using assms
  by (induction s rule: rev_induct)
     (auto simp: pop_segment_snoc dir_sep_def segment_def simp flip: append_assoc append_Cons)

lemma pop_stack:
  "list_all segment st \<Longrightarrow> pop_segment dir_sep (join_path (rev st)) = join_path (rev (tl st))"
  by (cases st) (simp_all add: pop_segment_join)

lemma deref_join [simp]: "deref (join_path ss) = (if ss = [] then NUL else CHR ''/'')"
  by (cases ss) simp_all

text \<open>One segment after its slash, with the rest of the path empty or starting with a slash.\<close>

lemma norm_path_slash:
  assumes "segment s"
  shows "norm_path dir_sep keep out (CHR ''/'' # s @ join_path ss) =
     (if s = ''.'' then (if ss = [] then out @ ''/'' else norm_path dir_sep keep out (join_path ss))
      else if s = ''..'' then (if ss = [] then pop_segment dir_sep out @ ''/''
        else norm_path dir_sep keep (pop_segment dir_sep out) (join_path ss))
      else if s = [] \<and> \<not> keep \<and> ss \<noteq> [] then norm_path dir_sep keep out (join_path ss)
      else norm_path dir_sep keep (out @ CHR ''/'' # s) (join_path ss))"
proof -
  have copied: "norm_path dir_sep keep (out @ ''/'') (s @ join_path ss)
      = norm_path dir_sep keep (out @ CHR ''/'' # s) (join_path ss)"
    using norm_path_segment [OF assms] by simp
  have d: "dir_sep (CHR ''/'')" "\<not> dir_sep (CHR ''.'')" "\<not> dir_sep NUL" by (simp_all add: dir_sep_def)
  show ?thesis
  proof (cases s)
    case Nil
    then show ?thesis using copied d by auto
  next
    case (Cons c t)
    show ?thesis
    proof (cases "c = CHR ''.''")
      case False
      then show ?thesis using Cons copied d assms by (auto simp: dir_sep_def)
    next
      case True
      then show ?thesis
        using Cons copied d assms
        by (cases t; cases "tl t"; cases ss) (auto simp: dir_sep_def char_at_def numeral_2_eq_2)
    qed
  qed
qed

lemma norm_path_resolve:
  "list_all segment ss \<Longrightarrow> list_all segment st \<Longrightarrow>
   norm_path dir_sep keep (join_path (rev st)) (join_path ss) = join_path (resolve keep st ss)"
proof (induction keep st ss rule: resolve.induct)
  case (1 keep st)
  then show ?case by simp
next
  case (2 keep st s)
  then show ?case using norm_path_slash [of s keep "join_path (rev st)" "[]"] by (simp add: pop_stack)
next
  case (3 keep st s t ss)
  have tl: "list_all segment (tl st)" using 3(6) by (cases st) simp_all
  show ?case
    using 3 tl norm_path_slash [of s keep "join_path (rev st)" "t # ss"]
    by (auto simp: pop_stack)
qed


definition keeps_dslash :: "uri \<Rightarrow> bool" where
  "keeps_dslash u \<longleftrightarrow> protocol u = PROTOCOL_UNKNOWN \<or> get_protocol_keep_double_slashes (protocol u)"

definition path_start :: "uri \<Rightarrow> nat" where
  "path_start u = ptr (data u)
     - (if protocol u \<noteq> PROTOCOL_UNKNOWN \<and> get_protocol_need_slash_after_host (protocol u) then 1 else 0)"

lemma normalize_path_norm:
  assumes "\<not> get_protocol_free_syntax (protocol u)" "cstring pre" "cstring s" "path_start u = length pre"
  shows "normalize_path u (pre @ s) = pre @ norm_path dir_sep (keeps_dslash u) [] s"
proof -
  have sep: "is_uri_dir_sep u = dir_sep" by (rule ext) (simp add: is_uri_dir_sep_def dir_sep_def)
  have "normalize_path u (pre @ s) = cstr_at (normalize_loop dir_sep (keeps_dslash u) (length pre)
      (length pre) (length pre) ((pre @ s) @ [NUL])) 0"
    using assms(1,4) unfolding normalize_path_def Let_def sep keeps_dslash_def path_start_def
    by (simp add: disj_imp)
  moreover have "\<not> dir_sep NUL" by (simp add: dir_sep_def)
  ultimately show ?thesis
    using normalize_loop_spec [of pre "[]" "[]" s dir_sep "keeps_dslash u" "[]"] assms(2,3) by simp
qed

lemma cstring_join_path: "list_all segment ss \<Longrightarrow> cstring (join_path ss)"
  by (induction ss) (auto simp: segment_def cstring_def)

text \<open>
  C5: the in-place path normalisation implements the resolution of dot segments: a path of any
  segments, after the protocol and host, becomes the resolved segments, whatever the
  protocol's flags say about double slashes, and what precedes the path is untouched.
\<close>

theorem normalize_path_resolves:
  assumes "\<not> get_protocol_free_syntax (protocol u)" "cstring pre" "path_start u = length pre"
    and "list_all segment segs"
  shows "normalize_path u (pre @ join_path segs) = pre @ join_path (resolve (keeps_dslash u) [] segs)"
  using normalize_path_norm [OF assms(1,2) cstring_join_path [OF assms(4)] assms(3)]
    norm_path_resolve [of segs "[]" "keeps_dslash u"] assms(4) by simp

definition http_uri :: uri where
  "http_uri = uri_zero\<lparr>ustring := ''http://h/a/./b/../c'', protocol := PROTOCOL_HTTP, protocollen := 4,
     host := Some 7, hostlen := 1, data := Some 9, datalen := 10\<rparr>"

theorem normalize_path_resolves_witness:
  "normalize_path http_uri (''http://h'' @ join_path [''a'', ''.'', ''b'', ''..'', ''c'']) = ''http://h/a/c''"
proof -
  have "\<not> get_protocol_free_syntax (protocol http_uri)" "path_start http_uri = length ''http://h''"
    by (simp_all add: http_uri_def get_protocol_free_syntax_def protocol_backends_def backend_def
        path_start_def ptr_def get_protocol_need_slash_after_host_def)
  moreover have "list_all segment [''a'', ''.'', ''b'', ''..'', ''c'']"
    by (simp add: end_of_dir_def)
  ultimately show ?thesis
    using normalize_path_resolves [of http_uri "''http://h''" "[''a'', ''.'', ''b'', ''..'', ''c'']"] by simp
qed

definition resolved :: "bool \<Rightarrow> string list \<Rightarrow> bool" where
  "resolved keep ss \<longleftrightarrow> list_all (\<lambda>s. s \<noteq> ''.'' \<and> s \<noteq> ''..'') ss
     \<and> (keep \<or> list_all (\<lambda>s. s \<noteq> []) (butlast ss))"

lemma list_all_tl: "list_all P xs \<Longrightarrow> list_all P (tl xs)"
  by (cases xs) simp_all

lemma resolve_resolved:
  "list_all (\<lambda>s. s \<noteq> ''.'' \<and> s \<noteq> ''..'') st \<Longrightarrow> keep \<or> list_all (\<lambda>s. s \<noteq> []) st \<Longrightarrow>
   resolved keep (resolve keep st ss)"
proof (induction keep st ss rule: resolve.induct)
  case (1 keep st)
  have "set (butlast (rev st)) \<subseteq> set st" using in_set_butlastD by fastforce
  with 1 show ?case by (auto simp: resolved_def list_all_iff)
next
  case (2 keep st s)
  then show ?case by (cases st) (auto simp: resolved_def list_all_iff butlast_append)
next
  case (3 keep st s t ss)
  have tl: "list_all (\<lambda>s. s \<noteq> ''.'' \<and> s \<noteq> ''..'') (tl st)" "keep \<or> list_all (\<lambda>s. s \<noteq> []) (tl st)"
    using 3(5,6) list_all_tl by blast+
  consider "s = ''.''" | "s \<noteq> ''.''" "s = ''..''" | "s \<noteq> ''.''" "s \<noteq> ''..''" "s = []" "\<not> keep"
    | "s \<noteq> ''.''" "s \<noteq> ''..''" "s \<noteq> [] \<or> keep" by blast
  then show ?case
    using 3 tl by cases (simp_all, blast?)
qed

lemma resolve_segments:
  "list_all segment ss \<Longrightarrow> list_all segment st \<Longrightarrow> list_all segment (resolve keep st ss)"
proof (induction keep st ss rule: resolve.induct)
  case (3 keep st s t ss)
  moreover have "list_all segment (tl st)" using 3(6) by (cases st) simp_all
  ultimately show ?case by auto
next
  case (2 keep st s)
  then show ?case by (cases st) simp_all
qed simp_all

lemma resolve_id: "resolved keep ss \<Longrightarrow> resolve keep st ss = rev st @ ss"
proof (induction keep st ss rule: resolve.induct)
  case (3 keep st s t ss)
  then show ?case by (auto simp: resolved_def)
qed (simp_all add: resolved_def)

text \<open>
  A normalised path has no dot segments left, and normalising it again changes nothing.
\<close>

lemma normalize_path_idempotent:
  assumes "\<not> get_protocol_free_syntax (protocol u)" "cstring pre" "path_start u = length pre"
    and "list_all segment segs"
  shows "\<exists>out. normalize_path u (pre @ join_path segs) = pre @ join_path out
    \<and> list_all (\<lambda>s. s \<noteq> ''.'' \<and> s \<noteq> ''..'') out
    \<and> normalize_path u (normalize_path u (pre @ join_path segs)) = normalize_path u (pre @ join_path segs)"
proof -
  let ?k = "keeps_dslash u" and ?out = "resolve (keeps_dslash u) [] segs"
  have n: "normalize_path u (pre @ join_path ss) = pre @ join_path (resolve ?k [] ss)"
    if "list_all segment ss" for ss
    using normalize_path_norm [OF assms(1,2) cstring_join_path [OF that] assms(3)]
      norm_path_resolve [OF that, of "[]" ?k] by simp
  have r: "resolved ?k ?out" by (rule resolve_resolved) simp_all
  moreover have "list_all segment ?out" using assms(4) by (simp add: resolve_segments)
  ultimately have "normalize_path u (pre @ join_path ?out) = pre @ join_path ?out"
    using n resolve_id [OF r, of "[]"] by simp
  then have "normalize_path u (normalize_path u (pre @ join_path segs)) = normalize_path u (pre @ join_path segs)"
    unfolding n [OF assms(4)] .
  moreover have "list_all (\<lambda>s. s \<noteq> ''.'' \<and> s \<noteq> ''..'') ?out"
    using r unfolding resolved_def by blast
  ultimately show ?thesis using n [OF assms(4)] by blast
qed

lemma normalize_path_idempotent_witness:
  "normalize_path http_uri (normalize_path http_uri (''http://h'' @ join_path [''..'', ''b'', ''.'']))
     = normalize_path http_uri (''http://h'' @ join_path [''..'', ''b'', ''.''])"
proof -
  have "\<not> get_protocol_free_syntax (protocol http_uri)" "path_start http_uri = length ''http://h''"
    by (simp_all add: http_uri_def get_protocol_free_syntax_def protocol_backends_def backend_def
        path_start_def ptr_def get_protocol_need_slash_after_host_def)
  moreover have "list_all segment [''..'', ''b'', ''.'']" by (simp add: end_of_dir_def)
  ultimately show ?thesis
    using normalize_path_idempotent [of http_uri "''http://h''" "[''..'', ''b'', ''.'']"] by fastforce
qed

end
