(* ===== verification/Uri_Translate.thy ===== *)
theory Uri_Translate
  imports Uri_Paths
begin

text \<open>
  The rest of \<open>src/protocol/uri.c\<close> that makes URIs out of what the user or a document gives:
  guessing a missing protocol, repairing a URI that does not parse (\<open>translate_url\<close>, a loop of
  at most 33 attempts) and resolving a relative reference (\<open>join_urls\<close>). What these read outside
  the string is the parameter \<open>env\<close>: the configured programs, the file system, tilde expansion
  and two options. Translating a \<open>proxy:\<close> URI translates its data, a recursion that the fuel
  bounds; the outer \<open>None\<close> is running out of fuel, the inner one the code's NULL.
\<close>

record env =
  user_program :: "string \<Rightarrow> bool"
  file_exists :: "string \<Rightarrow> bool"
  expand_tilde :: "string \<Rightarrow> string"
  default_protocol :: string
  https_by_default :: bool

definition insert_in_string :: "string \<Rightarrow> nat \<Rightarrow> string \<Rightarrow> string" where
  "insert_in_string dst pos seq = take pos dst @ seq @ drop pos dst"

subsection \<open>Guessing the protocol\<close>

fun file_prefix_loop :: "(string \<Rightarrow> bool) \<Rightarrow> string \<Rightarrow> char list \<Rightarrow> int" where
  "file_prefix_loop exists name [] = -1"
| "file_prefix_loop exists name (c # cs) =
     (case strchr name c of
        None \<Rightarrow> file_prefix_loop exists name cs
      | Some pos \<Rightarrow> if exists (take pos name) then int pos else file_prefix_loop exists name cs)"

definition check_whether_file_exists :: "(string \<Rightarrow> bool) \<Rightarrow> string \<Rightarrow> int" where
  "check_whether_file_exists exists name =
     (if exists name then int (length name)
      else file_prefix_loop exists name [POST_CHAR, CHR ''#'', CHR ''?''])"

definition encode_file_uri_string :: "(string \<Rightarrow> bool) \<Rightarrow> string \<Rightarrow> string \<Rightarrow> string" where
  "encode_file_uri_string exists str uristring =
     (let n = check_whether_file_exists exists uristring
      in if n < 0 then encode_uri_string str uristring False
         else encode_uri_string str (take (nat n) uristring) False
              @ (if n > 0 then drop (nat n) uristring else []))"

text \<open>The last component of the host name: the loop over the dots.\<close>

function last_domain :: "string \<Rightarrow> nat \<Rightarrow> nat" where
  "last_domain s domain =
     (let e = domain + strcspn (drop domain s) ''.:/?''
      in if char_at s e = CHR ''.'' then last_domain s (e + 1) else domain)"
  by pat_completeness auto
termination
proof (relation "measure (\<lambda>(s, d). length s - d)")
  fix s :: string and d e
  assume "e = d + strcspn (drop d s) ''.:/?''" "char_at s e = CHR ''.''"
  then have "d \<le> e" "e < length s" by (auto simp: char_at_def split: if_splits)
  then show "((s, e + 1), s, d) \<in> measure (\<lambda>(s, d). length s - d)" by simp
qed simp

declare last_domain.simps [simp del]

definition find_uri_protocol :: "(string \<Rightarrow> bool) \<Rightarrow> string \<Rightarrow> protocol_T" where
  "find_uri_protocol exists newurl =
     (if check_whether_file_exists exists newurl \<ge> 0 then PROTOCOL_FILE
      else
        let ch = strcspn newurl ''.:/@''; c = char_at newurl ch
        in if c = CHR ''@''
              \<or> c = CHR '':'' \<and> deref newurl \<noteq> CHR ''['' \<and> strchr newurl (CHR ''@'') \<noteq> None
              \<or> c_strncasecmp newurl ''ftp.'' 4 = 0
           then PROTOCOL_FTP
           else if c_strncasecmp newurl ''gopher.'' 7 = 0 then PROTOCOL_GOPHER
           else if deref newurl = CHR ''['' \<and> c = CHR '':'' then
             (case (strchr (drop (ch + 1) newurl) (CHR '']''), strchr (drop (ch + 1) newurl) (CHR '':'')) of
                (Some bracket2, Some colon2) \<Rightarrow> if bracket2 > colon2 then PROTOCOL_HTTP else PROTOCOL_UNKNOWN
              | _ \<Rightarrow> PROTOCOL_UNKNOWN)
           else if deref newurl \<noteq> CHR ''.'' \<and> c = CHR ''.'' then
             (let domain = last_domain newurl (ch + 1);
                  host_end = domain + strcspn (drop domain newurl) ''.:/?'';
                  ipscan = dropWhile (\<lambda>x. isdigit x \<or> x = CHR ''.'') (drop ch newurl)
              in if ipscan = [] \<or> deref ipscan = CHR '':'' \<or> deref ipscan = CHR ''/'' then PROTOCOL_HTTP
                 else if host_end - domain = 2
                         \<or> end_with_known_tld (drop domain newurl) (int (host_end - domain)) \<ge> 0
                 then PROTOCOL_HTTP else PROTOCOL_UNKNOWN)
           else PROTOCOL_UNKNOWN)"

subsection \<open>Translating what the user typed\<close>

text \<open>\<open>transform_file_url\<close>: the string of the URI afterwards; only called with a directory.\<close>

definition transform_file_url :: "uri \<Rightarrow> string \<Rightarrow> string" where
  "transform_file_url u cwd =
     (let s = ustring u; path = ptr (data u); c = char_at s path
      in if c = CHR ''.'' \<or> c = NUL
         then insert_in_string (if c = CHR ''.'' then s[path := CHR ''/''] else s) 7
                (encode_uri_string [] cwd False)
         else take path s @ dropWhile (\<lambda>c. \<not> dir_sep c) (drop path s))"

text \<open>
  One round of the loop on the result of parsing \<open>newurl\<close>: try again with another string (with
  the flag that \<open>prev_errno\<close> is reset), go on with the parsed URI, or give up.
\<close>

datatype attempt = Reparse string bool | Parsed uri | Give_up

definition with_protocol :: "env \<Rightarrow> protocol_T \<Rightarrow> string \<Rightarrow> string" where
  "with_protocol env p newurl =
     (if p = PROTOCOL_FTP then encode_uri_string ''ftp://'' newurl False
      else if p = PROTOCOL_GOPHER then ''gopher://'' @ newurl
      else if p = PROTOCOL_HTTP then ''http://'' @ newurl
      else ''file://'' @ (if dir_sep (deref newurl) then [] else ''./'') @ newurl)"

definition guess_protocol :: "env \<Rightarrow> string \<Rightarrow> string" where
  "guess_protocol env newurl =
     (let p = find_uri_protocol (file_exists env) newurl;
          file = ''file://'' @ (if dir_sep (deref newurl) then [] else ''./'')
      in if p = PROTOCOL_FTP then encode_uri_string ''ftp://'' newurl False
         else if p = PROTOCOL_GOPHER then ''gopher://'' @ newurl
         else if p = PROTOCOL_HTTP
         then (if https_by_default env then ''https://'' else ''http://'') @ newurl
         else if p = PROTOCOL_UNKNOWN \<and> default_protocol env \<noteq> ''file://''
         then default_protocol env @ newurl
         else encode_file_uri_string (file_exists env) file newurl)"

definition translate_step :: "env \<Rightarrow> uri_errno \<Rightarrow> uri \<Rightarrow> attempt" where
  "translate_step env err u =
     (let newurl = ustring u
      in case err of
        URI_ERRNO_OK \<Rightarrow>
          (let p = find_uri_protocol (file_exists env) newurl
           in if protocol u = PROTOCOL_UNKNOWN \<and> p \<noteq> PROTOCOL_UNKNOWN
              then Reparse (with_protocol env p newurl) True else Parsed u)
      | URI_ERRNO_TOO_MANY_SLASHES \<Rightarrow>
          (let to = protocollen u + 3
           in Reparse (take to newurl @ dropWhile (\<lambda>c. c = CHR ''/'') (drop to newurl)) False)
      | URI_ERRNO_NO_SLASHES \<Rightarrow>
          (let slashes = (if char_at newurl (protocollen u + 1) = CHR ''/'' then 1 else 2)
           in Reparse (insert_in_string newurl (protocollen u + 1) (take slashes ''//'')) False)
      | URI_ERRNO_TRAILING_DOTS \<Rightarrow>
          (let from = ptr (host u) + hostlen u;
               hostname = part u (host u) (hostlen u)
           in Reparse (take (ptr (host u)) newurl
                @ rev (dropWhile (\<lambda>c. c = CHR ''.'') (rev hostname)) @ drop from newurl) False)
      | URI_ERRNO_NO_PORT_COLON \<Rightarrow>
          Reparse (take (ptr (port u) - 1) newurl @ drop (ptr (port u)) newurl) False
      | URI_ERRNO_NO_HOST_SLASH \<Rightarrow>
          (let offset = (case port u of
                Some p \<Rightarrow> p + portlen u
              | None \<Rightarrow> ptr (host u) + hostlen u + (if ipv6 u then 1 else 0))
           in Reparse (insert_in_string newurl offset ''/'') False)
      | URI_ERRNO_INVALID_PROTOCOL \<Rightarrow> Reparse (guess_protocol env newurl) False
      | _ \<Rightarrow> Give_up)"

abbreviation MAX_TRANSLATION_ATTEMPTS :: nat where "MAX_TRANSLATION_ATTEMPTS \<equiv> 32"

function translate_loop :: "env \<Rightarrow> uri_errno \<Rightarrow> nat \<Rightarrow> string \<Rightarrow> uri option" where
  "translate_loop env prev retries newurl =
     (case parse_uri (user_program env) newurl of (err, u) \<Rightarrow>
        if err = prev \<or> retries > MAX_TRANSLATION_ATTEMPTS then None
        else case translate_step env err u of
               Give_up \<Rightarrow> None
             | Parsed u \<Rightarrow> Some u
             | Reparse s reset \<Rightarrow>
                 translate_loop env (if reset then URI_ERRNO_EMPTY else err) (retries + 1) s)"
  by pat_completeness auto
termination by (relation "measure (\<lambda>(env, prev, n, s). 34 - n)") auto

declare translate_loop.simps [simp del]

fun translate_url :: "nat \<Rightarrow> env \<Rightarrow> string \<Rightarrow> string option \<Rightarrow> string option option" where
  "translate_url 0 env url cwd = None"
| "translate_url (Suc fuel) env url0 cwd =
     (let url = dropWhile (\<lambda>c. c = CHR '' '') url0
      in if url = [] then Some None
         else case translate_loop env URI_ERRNO_EMPTY 0 (expand_tilde env url) of
           None \<Rightarrow> Some None
         | Some u \<Rightarrow>
             if protocol u = PROTOCOL_FILE \<and> cwd \<noteq> None \<and> cwd \<noteq> Some []
             then Some (Some (normalize_uri_reparse (user_program env) (transform_file_url u (the cwd))))
             else if protocol u = PROTOCOL_PROXY then
               (case translate_url fuel env (drop (ptr (data u)) (ustring u)) cwd of
                  None \<Rightarrow> None
                | Some None \<Rightarrow> Some None
                | Some (Some d) \<Rightarrow>
                    Some (Some (normalize_uri_reparse (user_program env)
                                  (take (ptr (data u)) (ustring u) @ d))))
             else Some (Some (normalize_uri_noparse (user_program env) u)))"

subsection \<open>Resolving a relative reference\<close>

definition get_real_uri_length :: "uri \<Rightarrow> nat" where
  "get_real_uri_length u = (case post u of Some p \<Rightarrow> p - 1 | None \<Rightarrow> length (ustring u))"

text \<open>
  The length of the part of the base that is kept when the reference starts with \<open>#\<close>, \<open>?\<close> or
  \<open>//\<close>, and zero otherwise; the code's early return of NULL is \<open>None\<close>.
\<close>

definition join_prefix :: "uri \<Rightarrow> string \<Rightarrow> (nat \<times> bool) option" where
  "join_prefix base rel =
     (let real = (case fragment base of Some f \<Rightarrow> f - 1 | None \<Rightarrow> get_real_uri_length base)
      in if deref rel = CHR ''#'' then Some (real, False)
         else if deref rel = CHR ''?''
         then Some (case strchr (part base (data base) (datalen base)) (CHR ''?'') of
                      Some q \<Rightarrow> ptr (data base) + q
                    | None \<Rightarrow> real, False)
         else if deref rel = CHR ''/'' \<and> char_at rel 1 = CHR ''/''
         then (if get_protocol_need_slashes (protocol base)
               then Some (protocollen base + 1, True) else None)
         else Some (0, False))"

text \<open>Where the path of the base starts, counting the slash before the data when it has one.\<close>

definition join_path_start :: "uri \<Rightarrow> nat" where
  "join_path_start base =
     (let s = ustring base; p = ptr (data base)
      in if char_at s p \<noteq> NUL
         then (if is_uri_dir_sep base (char_at s p) then p else p - 1)
         else (if is_uri_dir_sep base (char_at s (p - 1)) then p - 1 else p))"

text \<open>The position above the last slash of the path.\<close>

definition join_path_length :: "uri \<Rightarrow> nat" where
  "join_path_length base =
     (let start = join_path_start base; path = path_end (drop start (ustring base))
      in start + (length path - length (takeWhile (\<lambda>c. \<not> is_uri_dir_sep base c) (rev path))))"

definition join_urls :: "nat \<Rightarrow> env \<Rightarrow> uri \<Rightarrow> string \<Rightarrow> string option option" where
  "join_urls fuel env base rel =
     (case join_prefix base rel of
        None \<Rightarrow> Some None
      | Some (len, translate) \<Rightarrow>
          if len \<noteq> 0
          then let uristring = take len (ustring base) @ rel
               in if translate then translate_url fuel env uristring None
                  else Some (Some (normalize_uri_reparse (user_program env) uristring))
          else
            let plen = get_protocol_length rel;
                p = get_protocol (user_program env) rel plen;
                full = (if plen \<noteq> 0 \<and> p \<noteq> PROTOCOL_UNKNOWN \<and> p \<noteq> PROTOCOL_PROXY
                        then translate_url fuel env rel None else Some None)
            in case full of
                 None \<Rightarrow> None
               | Some (Some t) \<Rightarrow> Some (Some t)
               | Some None \<Rightarrow>
                   let start = join_path_start base;
                       relative = \<not> is_uri_dir_sep base (deref rel);
                       add_slash = relative \<and> char_at (ustring base) start = NUL;
                       path = (if relative then join_path_length base else start)
                   in Some (Some (normalize_uri_reparse (user_program env)
                        (take path (ustring base) @ (if add_slash then ''/'' else []) @ rel))))"

end
