(* ===== verification/Uri_Roundtrip.thy ===== *)
theory Uri_Roundtrip
  imports Uri_String
begin

text \<open>
  Parsing a well-formed URI gives back the components it was built from, and recomposing the
  parsed structure gives back the string. The well-formedness conditions are those under which
  the parser's scans cannot be confused; they cover every protocol of the table with a host.
\<close>

subsection \<open>Scanning lemmas\<close>

lemma strcspn_append: "(\<And>c. c \<in> set xs \<Longrightarrow> c \<notin> set rej) \<Longrightarrow> strcspn (xs @ ys) rej = length xs + strcspn ys rej"
  by (simp add: strcspn_def takeWhile_append2)

lemma strcspn_Cons: "strcspn (c # s) rej = (if c \<in> set rej then 0 else Suc (strcspn s rej))"
  by (simp add: strcspn_def)

lemma strcspn_Nil [simp]: "strcspn [] rej = 0"
  by (simp add: strcspn_def)

lemma strchr_append: "c \<notin> set xs \<Longrightarrow> c \<noteq> NUL \<Longrightarrow>
   strchr (xs @ ys) c = map_option ((+) (length xs)) (strchr ys c)"
proof (induction xs)
  case Nil
  then show ?case by (cases "strchr ys c") simp_all
next
  case (Cons x xs)
  then show ?case by (cases "strchr ys c") auto
qed

lemma char_at_append_right: "char_at (xs @ ys) (length xs + i) = char_at ys i"
  by (simp add: char_at_def nth_append)

lemma char_at_append_len: "char_at (xs @ ys) (length xs) = deref ys"
  using char_at_append_right [of xs ys 0] by simp

definition no_chars :: "string \<Rightarrow> string \<Rightarrow> bool" where
  "no_chars bad s \<longleftrightarrow> (\<forall>c \<in> set s. c \<notin> set bad)"

lemma no_charsD: "no_chars bad s \<Longrightarrow> c \<in> set s \<Longrightarrow> c \<notin> set bad"
  by (simp add: no_chars_def)

lemma no_chars_mono: "no_chars bad s \<Longrightarrow> set bad' \<subseteq> set bad \<Longrightarrow> no_chars bad' s"
  by (auto simp: no_chars_def)

lemma no_chars_append [simp]: "no_chars bad (s @ t) \<longleftrightarrow> no_chars bad s \<and> no_chars bad t"
  by (auto simp: no_chars_def)

lemma no_chars_simps [simp]: "no_chars bad []" "no_chars bad (c # s) \<longleftrightarrow> c \<notin> set bad \<and> no_chars bad s"
  by (auto simp: no_chars_def)

lemma strcspn_no_chars: "no_chars rej xs \<Longrightarrow> strcspn (xs @ ys) rej = length xs + strcspn ys rej"
  by (rule strcspn_append) (simp add: no_chars_def)

subsection \<open>Building a URI\<close>

record uri_parts =
  u_protocol :: protocol_T
  u_family :: nat
  u_auth :: "(string \<times> string option) option"
  u_host :: string
  u_port :: "string option"
  u_data :: string
  u_fragment :: "string option"
  u_post :: "string option"

definition auth_str :: "uri_parts \<Rightarrow> string" where
  "auth_str p = (case u_auth p of
     None \<Rightarrow> []
   | Some (us, pw) \<Rightarrow> us @ (case pw of None \<Rightarrow> [] | Some w \<Rightarrow> CHR '':'' # w) @ ''@'')"

definition port_str :: "uri_parts \<Rightarrow> string" where
  "port_str p = (case u_port p of None \<Rightarrow> [] | Some ds \<Rightarrow> CHR '':'' # ds)"

definition family_str :: "uri_parts \<Rightarrow> string" where
  "family_str p = (if u_family p = 0 then [] else [char_of (48 + u_family p)])"

definition tail_str :: "uri_parts \<Rightarrow> string" where
  "tail_str p = (case u_fragment p of None \<Rightarrow> [] | Some f \<Rightarrow> CHR ''#'' # f)
     @ (case u_post p of None \<Rightarrow> [] | Some q \<Rightarrow> POST_CHAR # q)"

definition build_uri :: "uri_parts \<Rightarrow> string" where
  "build_uri p = protocol_name (u_protocol p) @ family_str p @ ''://'' @ auth_str p @ u_host p
     @ port_str p @ ''/'' @ u_data p @ tail_str p"

definition uri_parts_ok :: "uri_parts \<Rightarrow> bool" where
  "uri_parts_ok p \<longleftrightarrow>
     u_protocol p < PROTOCOL_UNKNOWN \<and> get_protocol_need_slashes (u_protocol p)
     \<and> get_protocol_need_slash_after_host (u_protocol p)
     \<and> \<not> get_protocol_free_syntax (u_protocol p) \<and> u_family p < 10
     \<and> cstring (build_uri p) \<and> POSITION_CHAR \<notin> set (build_uri p)
     \<and> (case u_auth p of None \<Rightarrow> True
        | Some (us, pw) \<Rightarrow> us \<noteq> [] \<and> length us < 65536 \<and> no_chars '':@/?['' us
            \<and> (case pw of None \<Rightarrow> True
               | Some w \<Rightarrow> w \<noteq> [] \<and> length w < 65536 \<and> no_chars ''@/?['' w))
     \<and> u_host p \<noteq> [] \<and> length (u_host p) < 65536 \<and> no_chars '':/?@['' (u_host p)
     \<and> last (u_host p) \<noteq> CHR ''.''
     \<and> (case u_port p of None \<Rightarrow> True
        | Some ds \<Rightarrow> ds \<noteq> [] \<and> length ds < 256 \<and> list_all isdigit ds \<and> digits_value 10 ds \<le> 65535)
     \<and> no_chars [CHR ''#'', POST_CHAR] (u_data p)
     \<and> (case u_fragment p of None \<Rightarrow> True
        | Some f \<Rightarrow> f \<noteq> [] \<and> length f < 65536 \<and> no_chars [POST_CHAR] f)"

lemma uri_parts_okD:
  assumes "uri_parts_ok p"
  shows "u_protocol p < PROTOCOL_UNKNOWN" "get_protocol_need_slashes (u_protocol p)"
    "get_protocol_need_slash_after_host (u_protocol p)" "\<not> get_protocol_free_syntax (u_protocol p)"
    "u_family p < 10" "cstring (build_uri p)" "POSITION_CHAR \<notin> set (build_uri p)"
    "u_host p \<noteq> []" "length (u_host p) < 65536" "no_chars '':/?@['' (u_host p)"
    "last (u_host p) \<noteq> CHR ''.''" "no_chars [CHR ''#'', POST_CHAR] (u_data p)"
  using assms unfolding uri_parts_ok_def by blast+

lemma uri_parts_ok_auth:
  assumes "uri_parts_ok p" "u_auth p = Some (us, pw)"
  shows "us \<noteq> []" "length us < 65536" "no_chars '':@/?['' us"
    "pw = Some w \<Longrightarrow> w \<noteq> [] \<and> length w < 65536 \<and> no_chars ''@/?['' w"
  using assms unfolding uri_parts_ok_def by (simp_all only: option.case prod.case simp_thms)

lemma uri_parts_ok_port:
  assumes "uri_parts_ok p" "u_port p = Some ds"
  shows "ds \<noteq> []" "length ds < 256" "list_all isdigit ds" "digits_value 10 ds \<le> 65535"
  using assms unfolding uri_parts_ok_def by (simp_all only: option.case simp_thms)

lemma uri_parts_ok_fragment:
  assumes "uri_parts_ok p" "u_fragment p = Some f"
  shows "f \<noteq> []" "length f < 65536" "no_chars [POST_CHAR] f"
  using assms unfolding uri_parts_ok_def by (simp_all only: option.case simp_thms)

lemma digit_no_chars: "list_all isdigit ds \<Longrightarrow> no_chars '':/?@[#'' ds"
  by (auto simp: no_chars_def list_all_iff isdigit_def)

lemma port_no_chars:
  assumes "uri_parts_ok p"
  shows "no_chars ''/?@['' (port_str p)"
proof (cases "u_port p")
  case (Some ds)
  have "no_chars ''/?@['' ds"
    using digit_no_chars [OF uri_parts_ok_port(3) [OF assms Some]] by (rule no_chars_mono) auto
  with Some show ?thesis by (simp add: port_str_def)
qed (simp add: port_str_def)

lemma auth_no_chars:
  assumes "uri_parts_ok p"
  shows "no_chars ''/?['' (auth_str p)"
proof (cases "u_auth p")
  case (Some a)
  then obtain us pw where a: "u_auth p = Some (us, pw)" by (cases a) auto
  have us: "no_chars ''/?['' us"
    using uri_parts_ok_auth(3) [OF assms a] by (rule no_chars_mono) auto
  show ?thesis
  proof (cases pw)
    case None
    with a us show ?thesis by (simp add: auth_str_def)
  next
    case (Some w)
    then have "no_chars ''@/?['' w" using uri_parts_ok_auth(4) [OF assms a Some] by blast
    then have "no_chars ''/?['' w" by (rule no_chars_mono) auto
    with a us Some show ?thesis by (simp add: auth_str_def)
  qed
qed (simp add: auth_str_def)

subsection \<open>The phases of the parser\<close>

text \<open>The names of the protocols with a host.\<close>

lemma protocol_names_ok:
  "list_all (\<lambda>q. list_all is_protocol_char (protocol_name q) \<and> protocol_name q \<noteq> []
     \<and> \<not> isdigit (last (protocol_name q)) \<and> length (protocol_name q) < 65536) [0..<PROTOCOL_UNKNOWN]"
  by (simp add: upt_rec protocol_name_def protocol_backends_def backend_def is_protocol_char_def
      isasciialnum_def isasciialpha_def isdigit_def)

lemma protocol_name_ok:
  assumes "q < PROTOCOL_UNKNOWN"
  shows "list_all is_protocol_char (protocol_name q)" "protocol_name q \<noteq> []"
    "\<not> isdigit (last (protocol_name q))" "length (protocol_name q) < 65536"
  using protocol_names_ok assms by (simp_all add: list_all_iff)

lemma get_protocol_name:
  assumes "q < PROTOCOL_UNKNOWN" "cstring (protocol_name q @ rest)"
  shows "get_protocol up (protocol_name q @ rest) (length (protocol_name q)) = q"
  using get_protocol_spec [OF assms(2), of "length (protocol_name q)" up] assms(1) by simp

lemma family_digit:
  assumes "0 < n" "n < 10"
  shows "isdigit (char_of (48 + n))" "is_protocol_char (char_of (48 + n))" "uchar (char_of (48 + n)) = 48 + n"
proof -
  show u: "uchar (char_of (48 + n)) = 48 + n" using assms by simp
  show "isdigit (char_of (48 + n))" using assms u by (simp add: isdigit_def del: of_char_of)
  then show "is_protocol_char (char_of (48 + n))" by (simp add: is_protocol_char_def isasciialnum_def)
qed

lemma colon_not_protocol_char: "\<not> is_protocol_char (CHR '':'')" "\<not> isdigit (CHR '':'')"
  by (simp_all add: is_protocol_char_def isasciialnum_def isasciialpha_def isdigit_def)

lemma get_protocol_length_build:
  fixes fam :: nat
  assumes "list_all is_protocol_char ps" "ps \<noteq> []" "\<not> isdigit (last ps)" "fam < 10"
  shows "get_protocol_length (ps @ (if fam = 0 then [] else [char_of (48 + fam)]) @ CHR '':'' # rest) = length ps"
proof (cases "fam = 0")
  case True
  have "takeWhile is_protocol_char (ps @ CHR '':'' # rest) = ps"
    using assms(1) colon_not_protocol_char by (simp add: takeWhile_append2 list_all_iff)
  moreover have "char_at (ps @ CHR '':'' # rest) (length ps - 1) = last ps"
    using assms(2) by (cases ps rule: rev_cases) (simp_all add: char_at_def nth_append)
  moreover have "char_at (ps @ CHR '':'' # rest) (length ps) = CHR '':''"
    using char_at_append_len [of ps "CHR '':'' # rest"] by simp
  ultimately show ?thesis using assms(2,3) True by (simp add: get_protocol_length_def Let_def)
next
  case False
  let ?d = "char_of (48 + fam) :: char"
  have d: "isdigit ?d" "is_protocol_char ?d" using family_digit False assms(4) by simp_all
  have "takeWhile is_protocol_char ((ps @ [?d]) @ CHR '':'' # rest) = ps @ [?d]"
    using assms(1) colon_not_protocol_char d by (subst takeWhile_append2) (auto simp: list_all_iff)
  moreover have "char_at (ps @ ?d # CHR '':'' # rest) (length ps) = ?d"
    using char_at_append_len [of ps "?d # CHR '':'' # rest"] by simp
  ultimately show ?thesis using d False by (simp add: get_protocol_length_def Let_def)
qed


lemma parse_protocol_build:
  assumes ok: "uri_parts_ok p" and R: "R \<noteq> []" "hd R \<noteq> CHR ''/''"
    and s: "s = protocol_name (u_protocol p) @ family_str p @ ''://'' @ R" "cstring s"
  shows "parse_protocol up s = (URI_ERRNO_OK,
    uri_zero\<lparr>ustring := s, protocollen := length (protocol_name (u_protocol p)),
      protocol := u_protocol p, ip_family := u_family p\<rparr>,
    length (protocol_name (u_protocol p) @ family_str p @ ''://''))"
proof -
  let ?ps = "protocol_name (u_protocol p)" and ?f = "family_str p"
  note q = uri_parts_okD(1) [OF ok]
  note name = protocol_name_ok [OF q]
  have f: "?f = (if u_family p = 0 then [] else [char_of (48 + u_family p)])"
    by (simp add: family_str_def)
  have len: "get_protocol_length s = length ?ps"
    using get_protocol_length_build [OF name(1-3) uri_parts_okD(5) [OF ok], of "''//'' @ R"] s(1) f by simp
  have proto: "get_protocol up s (length ?ps) = u_protocol p"
    using get_protocol_name [OF q] s by simp
  have at: "char_at s (length (?ps @ ?f) + i) = char_at (''://'' @ R) i" for i
    using char_at_append_right [of "?ps @ ?f" "''://'' @ R" i] s(1) by simp
  have R2: "char_at (''://'' @ R) 3 \<noteq> CHR ''/''"
    using R by (cases R) (simp_all add: char_at_def)
  have colon: "char_at s (length (?ps @ ?f)) = CHR '':''" "char_at s (length (?ps @ ?f) + 1) = CHR ''/''"
    "char_at s (length (?ps @ ?f) + 2) = CHR ''/''" "char_at s (length (?ps @ ?f) + 3) \<noteq> CHR ''/''"
    using at [of 0] at [of 1] at [of 2] at [of 3] R2 by (simp_all add: char_at_def)
  show ?thesis
  proof (cases "u_family p = 0")
    case True
    then show ?thesis
      using len proto name(2,4) colon f colon_not_protocol_char(2)
      by (simp add: parse_protocol_def Let_def uri_zero_def numeral_2_eq_2 numeral_3_eq_3)
  next
    case False
    let ?d = "char_of (48 + u_family p) :: char"
    have d: "isdigit ?d" "uchar ?d = 48 + u_family p"
      using family_digit [of "u_family p"] False uri_parts_okD(5) [OF ok] by simp_all
    have "char_at s (length ?ps) = ?d"
      using char_at_append_len [of ?ps "?f @ ''://'' @ R"] s(1) f False by simp
    then show ?thesis
      using len proto name(2,4) colon f False d
      by (simp add: parse_protocol_def Let_def uri_zero_def numeral_2_eq_2 numeral_3_eq_3 del: of_char_of)
  qed
qed

text \<open>What follows the host and the port: a slash and more, or nothing.\<close>

definition slash_tail :: "string \<Rightarrow> bool" where
  "slash_tail rest \<longleftrightarrow> rest = [] \<or> hd rest = CHR ''/''"

lemma slash_tail_simps [simp]: "slash_tail []" "slash_tail (c # s) \<longleftrightarrow> c = CHR ''/''"
  by (simp_all add: slash_tail_def)

lemma strcspn_slash_tail: "slash_tail rest \<Longrightarrow> CHR ''/'' \<in> set rej \<Longrightarrow> strcspn rest rej = 0"
  by (cases rest) (simp_all add: strcspn_Cons)

lemma strcspn_slash:
  "no_chars rej xs \<Longrightarrow> CHR ''/'' \<in> set rej \<Longrightarrow> slash_tail rest \<Longrightarrow> strcspn (xs @ rest) rej = length xs"
  by (simp add: strcspn_no_chars strcspn_slash_tail)

lemma find_brackets_build:
  assumes "no_chars ''/['' xs" "s = A @ xs @ rest" "slash_tail rest"
  shows "find_brackets s (length A) = None"
proof -
  have d: "drop (length A) s = xs @ rest" using assms by simp
  have slash: "strcspn (xs @ rest) ''/'' = length xs"
    by (rule strcspn_slash [OF no_chars_mono [OF assms(1)] _ assms(3)]) auto
  have "length xs \<le> l" if "strchr (xs @ rest) (CHR ''['') = Some l" for l
  proof -
    have "CHR ''['' \<notin> set xs" using no_charsD [OF assms(1)] by force
    then show ?thesis using that strchr_append [of "CHR ''[''" xs rest] by auto
  qed
  then show ?thesis
    unfolding find_brackets_def d slash
    by (cases "strchr (xs @ rest) (CHR ''['')") (fastforce split: option.split)+
qed

text \<open>The at sign that ends the user information is the last one before the first slash.\<close>

lemma auth_end_build:
  assumes "no_chars ''@/?'' R1" "s = A @ CHR ''@'' # R1 @ rest" "slash_tail rest"
  shows "auth_end s (length A) = length A"
proof -
  have d: "drop (length A + 1) s = R1 @ rest" using assms by simp
  have "strcspn (R1 @ rest) ''/?'' = length R1"
    by (rule strcspn_slash [OF no_chars_mono [OF assms(1)] _ assms(3)]) auto
  moreover have "length R1 \<le> strcspn (R1 @ rest) ''@''"
    using strcspn_no_chars [OF no_chars_mono [OF assms(1)], of "''@''" rest] by simp
  ultimately have "\<not> strcspn (drop (length A + 1) s) ''@'' < strcspn (drop (length A + 1) s) ''/?''"
    unfolding d by linarith
  then show ?thesis by (subst auth_end.simps) (simp only: if_False)
qed

lemma host_port_chars:
  assumes "uri_parts_ok p"
  shows "no_chars ''@/?['' (u_host p @ port_str p)"
  using no_chars_mono [OF uri_parts_okD(10) [OF assms], of "''@/?[''"]
    no_chars_mono [OF port_no_chars [OF assms], of "''@/?[''"] by simp

definition set_auth :: "uri_parts \<Rightarrow> nat \<Rightarrow> uri \<Rightarrow> uri" where
  "set_auth p pe u = (case u_auth p of
     None \<Rightarrow> u
   | Some (us, None) \<Rightarrow> u\<lparr>user := Some pe, userlen := length us\<rparr>
   | Some (us, Some w) \<Rightarrow> u\<lparr>user := Some pe, userlen := length us,
       password := Some (pe + length us + 1), passwordlen := length w\<rparr>)"

lemma strcspn_at:
  "no_chars ''@'' xs \<Longrightarrow> strcspn (xs @ CHR ''@'' # rest) ''@'' = length xs"
  by (simp add: strcspn_no_chars strcspn_Cons)

lemma parse_auth_build:
  assumes ok: "uri_parts_ok p"
    and s: "ustring u = A @ auth_str p @ H @ rest" "slash_tail rest" and H: "no_chars ''@/?['' H"
  shows "parse_auth u (length A) = (set_auth p (length A) u, length (A @ auth_str p))"
proof -
  have H1: "no_chars ''/'' H" "no_chars ''@/?'' H" "no_chars ''@'' H"
    by (rule no_chars_mono [OF H]; simp)+
  show ?thesis
  proof (cases "u_auth p")
    case None
    then have d: "drop (length A) (ustring u) = H @ rest" using s(1) by (simp add: auth_str_def)
    have "strcspn (H @ rest) ''/'' = length H" by (rule strcspn_slash [OF H1(1) _ s(2)]) simp
    moreover have "length H \<le> strcspn (H @ rest) ''@''"
      using strcspn_no_chars [OF H1(3), of "rest"] by simp
    ultimately have "\<not> length A + strcspn (drop (length A) (ustring u)) ''/''
        > length A + strcspn (drop (length A) (ustring u)) ''@''"
      unfolding d by linarith
    then show ?thesis using None by (simp add: parse_auth_def Let_def set_auth_def auth_str_def)
  next
    case (Some a)
    then obtain us pw where a: "u_auth p = Some (us, pw)" by (cases a) auto
    define P where "P = us @ (case pw of None \<Rightarrow> [] | Some w \<Rightarrow> CHR '':'' # w)"
    have auth: "auth_str p = P @ ''@''" using a by (simp add: auth_str_def P_def)
    have d: "drop (length A) (ustring u) = P @ CHR ''@'' # H @ rest"
      using s(1) auth by simp
    have us: "no_chars ''@/:'' us" "us \<noteq> []" "length us < 65536"
      using uri_parts_ok_auth [OF ok a] no_chars_mono [of "'':@/?[''" us "''@/:''"] by auto
    have P: "no_chars ''@'' P" "no_chars ''/'' P"
      using no_chars_mono [OF us(1), of "''@''"] no_chars_mono [OF us(1), of "''/''"]
        uri_parts_ok_auth(4) [OF ok a] no_chars_mono [of "''@/?[''" _ "''@''"]
        no_chars_mono [of "''@/?[''" _ "''/''"]
      by (auto simp: P_def split: option.splits)
    have at: "strcspn (drop (length A) (ustring u)) ''@'' = length P"
      unfolding d by (rule strcspn_at [OF P(1)])
    have slash: "strcspn (drop (length A) (ustring u)) ''/'' = length P + 1 + length H"
      using strcspn_slash [of "''/''" "P @ CHR ''@'' # H" rest] P(2) H1(1) s(2) unfolding d by simp
    have charat: "char_at (ustring u) (length A + length P) = CHR ''@''"
      using char_at_append_right [of A "P @ CHR ''@'' # H @ rest" "length P"]
        char_at_append_len [of P "CHR ''@'' # H @ rest"] s(1) auth by simp
    have ends: "auth_end (ustring u) (length A + length P) = length A + length P"
      using auth_end_build [OF H1(2) _ s(2), of "ustring u" "A @ P"] s auth by simp
    have guard: "length A + strcspn (drop (length A) (ustring u)) ''/''
        > length A + strcspn (drop (length A) (ustring u)) ''@''
      \<and> char_at (ustring u) (length A + strcspn (drop (length A) (ustring u)) ''@'') \<noteq> NUL"
      using at slash charat by simp
    have colon: "CHR '':'' \<notin> set us" using no_charsD [OF us(1)] by force
    show ?thesis
    proof (cases pw)
      case None
      then have P': "P = us" by (simp add: P_def)
      have "strchr (drop (length A) (ustring u)) (CHR '':'') = None
        \<or> (\<exists>c > length us. strchr (drop (length A) (ustring u)) (CHR '':'') = Some c)"
        unfolding d P' using strchr_append [OF colon, of "CHR ''@'' # H @ rest"]
        by (cases "strchr (H @ rest) (CHR '':'')") auto
      then show ?thesis
        unfolding parse_auth_def Let_def if_P [OF guard] at ends
        using a None us(3) P' auth slash charat by (auto simp: set_auth_def)
    next
      case (Some w)
      then have P': "P = us @ CHR '':'' # w" by (simp add: P_def)
      have "strchr (drop (length A) (ustring u)) (CHR '':'') = Some (length us)"
        unfolding d P' using strchr_append [OF colon, of "CHR '':'' # w @ CHR ''@'' # H @ rest"]
        by simp
      moreover have "length w < 65536" using uri_parts_ok_auth(4) [OF ok a Some] by blast
      ultimately show ?thesis
        unfolding parse_auth_def Let_def if_P [OF guard] at ends
        using a Some us(3) P' auth slash charat by (simp add: set_auth_def)
    qed
  qed
qed


text \<open>The host as it is written may end in dots; then parsing stops there.\<close>

lemma parse_host_at:
  assumes H: "H \<noteq> []" "length H < 65536" "no_chars '':/?'' H"
    and s: "ustring u = A @ H @ R" "R = [] \<or> hd R \<in> set '':/?''"
  shows "parse_host u None (length A)
    = (if last H = CHR ''.'' then URI_ERRNO_TRAILING_DOTS else URI_ERRNO_OK,
       u\<lparr>host := Some (length A), hostlen := length H\<rparr>, length (A @ H))"
proof -
  have "strcspn R '':/?'' = 0" using s(2) by (cases R) (simp_all add: strcspn_Cons)
  then have end': "strcspn (drop (length A) (ustring u)) '':/?'' = length H"
    using strcspn_no_chars [OF H(3), of R] s(1) by simp
  have "char_at (ustring u) (length A + (length H - 1)) = char_at (H @ R) (length H - 1)"
    using char_at_append_right [of A "H @ R" "length H - 1"] s(1) by simp
  also have "\<dots> = last H"
    using H(1) by (cases H rule: rev_cases) (simp_all add: char_at_def nth_append)
  finally have "char_at (ustring u) (length A + length H - 1) = last H"
    using H(1) by (cases H) auto
  then show ?thesis using H(1,2) end' by (simp add: parse_host_def Let_def)
qed

lemma port_end: "slash_tail rest \<Longrightarrow> port_str p @ rest = [] \<or> hd (port_str p @ rest) \<in> set '':/?''"
  by (cases "u_port p"; cases rest) (auto simp: port_str_def)

lemma parse_host_build:
  assumes ok: "uri_parts_ok p" and s: "ustring u = A @ u_host p @ port_str p @ rest" "slash_tail rest"
  shows "parse_host u None (length A)
    = (URI_ERRNO_OK, u\<lparr>host := Some (length A), hostlen := length (u_host p)\<rparr>, length (A @ u_host p))"
proof -
  have "no_chars '':/?'' (u_host p)" by (rule no_chars_mono [OF uri_parts_okD(10) [OF ok]]) simp
  from parse_host_at [OF uri_parts_okD(8,9) [OF ok] this s(1) port_end [OF s(2)]]
  show ?thesis using uri_parts_okD(11) [OF ok] by simp
qed

definition set_port :: "uri_parts \<Rightarrow> nat \<Rightarrow> uri \<Rightarrow> uri" where
  "set_port p pos u = (case u_port p of
     None \<Rightarrow> u | Some ds \<Rightarrow> u\<lparr>port := Some (pos + 1), portlen := length ds\<rparr>)"

lemma slash_not_digit [simp]: "\<not> isdigit (CHR ''/'')"
  by (simp add: isdigit_def)

lemma takeWhile_digits: "list_all isdigit ds \<Longrightarrow> slash_tail rest \<Longrightarrow> takeWhile isdigit (ds @ rest) = ds"
  by (subst takeWhile_append2) (cases rest; auto simp: list_all_iff)+

lemma parse_port_build:
  assumes ok: "uri_parts_ok p" and s: "ustring u = A @ port_str p @ rest" "slash_tail rest"
  shows "parse_port u (length A) = (URI_ERRNO_OK, set_port p (length A) u, length (A @ port_str p))"
proof (cases "u_port p")
  case None
  then have "char_at (ustring u) (length A) \<noteq> CHR '':''"
    using char_at_append_len [of A rest] s by (cases rest) (auto simp: port_str_def)
  with None show ?thesis by (simp add: parse_port_def Let_def set_port_def port_str_def)
next
  case (Some ds)
  note ds = uri_parts_ok_port [OF ok Some]
  have colon: "char_at (ustring u) (length A) = CHR '':''"
    using char_at_append_len [of A "CHR '':'' # ds @ rest"] s Some by (simp add: port_str_def)
  have d: "drop (length A + 1) (ustring u) = ds @ rest"
    using s Some by (simp add: port_str_def)
  have len: "strcspn (drop (length A + 1) (ustring u)) ''/'' = length ds"
    unfolding d by (rule strcspn_slash [OF no_chars_mono [OF digit_no_chars [OF ds(3)]] _ s(2)]) auto
  have tw: "takeWhile isdigit (ds @ rest) = ds" by (rule takeWhile_digits [OF ds(3) s(2)])
  let ?v = "int (digits_value 10 ds)"
  have v: "strtol_digits (drop (length A + 1) (ustring u)) = (?v, False)"
    using ds(4) tw unfolding d strtol_digits_def Let_def by simp
  have valid: "uri_port_is_valid (to_int32 ?v)"
  proof -
    have "(?v + 2 ^ 31) mod 2 ^ 32 = ?v + 2 ^ 31" using ds(4) by (intro mod_pos_pos_trivial) simp_all
    then show ?thesis using ds(4) by (simp add: to_int32_def uri_port_is_valid_def)
  qed
  have digits: "list_all isdigit (take (length ds) (drop (length A + 1) (ustring u)))"
    unfolding d using ds(3) by simp
  show ?thesis
    unfolding parse_port_def Let_def len v
    using colon valid digits ds(1,2) Some by (simp add: set_port_def port_str_def)
qed

definition set_tail :: "uri_parts \<Rightarrow> nat \<Rightarrow> uri \<Rightarrow> uri" where
  "set_tail p pos u =
     (let u1 = (case u_fragment p of
            None \<Rightarrow> u | Some f \<Rightarrow> u\<lparr>fragment := Some (pos + 1), fragmentlen := length f\<rparr>);
          pos1 = (case u_fragment p of None \<Rightarrow> pos | Some f \<Rightarrow> pos + 1 + length f)
      in case u_post p of None \<Rightarrow> u1 | Some q \<Rightarrow> u1\<lparr>post := Some (pos1 + 1)\<rparr>)"

lemma parse_fragment_post_build:
  assumes ok: "uri_parts_ok p" and s: "ustring u = A @ tail_str p"
  shows "parse_fragment_post u (length A) = set_tail p (length A) u"
proof -
  let ?post = "case u_post p of None \<Rightarrow> [] | Some q \<Rightarrow> POST_CHAR # q"
  have post_at: "char_at (B @ ?post) (length B) = POST_CHAR \<longleftrightarrow> u_post p \<noteq> None" for B
    using char_at_append_len [of B ?post] by (auto split: option.splits)
  show ?thesis
  proof (cases "u_fragment p")
    case None
    have "char_at (ustring u) (length A) \<noteq> CHR ''#''"
      using char_at_append_len [of A ?post] s None by (auto simp: tail_str_def split: option.splits)
    then show ?thesis
      using None s post_at [of A] unfolding parse_fragment_post_def Let_def set_tail_def
      by (auto simp: tail_str_def split: option.splits)
  next
    case (Some f)
    note f = uri_parts_ok_fragment [OF ok Some]
    have hash: "char_at (ustring u) (length A) = CHR ''#''"
      using char_at_append_len [of A "CHR ''#'' # f @ ?post"] s Some by (simp add: tail_str_def)
    have d: "drop (length A + 1) (ustring u) = f @ ?post" using s Some by (simp add: tail_str_def)
    have "strcspn ?post [POST_CHAR] = 0" by (auto simp: strcspn_Cons split: option.splits)
    then have len: "strcspn (drop (length A + 1) (ustring u)) [POST_CHAR] mod 65536 = length f"
      unfolding d using strcspn_no_chars [OF f(3), of ?post] f(2) by simp
    have "char_at (ustring u) (length A + 1 + length f) = POST_CHAR \<longleftrightarrow> u_post p \<noteq> None"
      using post_at [of "A @ CHR ''#'' # f"] s Some by (simp add: tail_str_def)
    then show ?thesis
      using Some hash unfolding parse_fragment_post_def Let_def set_tail_def len
      by (auto split: option.splits)
  qed
qed


subsection \<open>Putting the phases together\<close>

definition pos_auth :: "uri_parts \<Rightarrow> nat" where
  "pos_auth p = length (protocol_name (u_protocol p) @ family_str p @ ''://'')"

definition pos_host :: "uri_parts \<Rightarrow> nat" where
  "pos_host p = pos_auth p + length (auth_str p)"

definition pos_port :: "uri_parts \<Rightarrow> nat" where
  "pos_port p = pos_host p + length (u_host p)"

definition pos_data :: "uri_parts \<Rightarrow> nat" where
  "pos_data p = pos_port p + length (port_str p) + 1"

definition pos_tail :: "uri_parts \<Rightarrow> nat" where
  "pos_tail p = pos_data p + length (u_data p)"

lemma drop_build:
  "drop (pos_auth p) (build_uri p) = auth_str p @ u_host p @ port_str p @ ''/'' @ u_data p @ tail_str p"
  "drop (pos_host p) (build_uri p) = u_host p @ port_str p @ ''/'' @ u_data p @ tail_str p"
  "drop (pos_port p) (build_uri p) = port_str p @ ''/'' @ u_data p @ tail_str p"
  "drop (pos_port p + length (port_str p)) (build_uri p) = ''/'' @ u_data p @ tail_str p"
  "drop (pos_data p) (build_uri p) = u_data p @ tail_str p"
  "drop (pos_tail p) (build_uri p) = tail_str p"
proof -
  have plus: "drop (n + k) s = drop k (drop n s)" for n k and s :: string by (simp add: add.commute)
  show a: "drop (pos_auth p) (build_uri p) = auth_str p @ u_host p @ port_str p @ ''/'' @ u_data p @ tail_str p"
    by (simp add: build_uri_def pos_auth_def)
  show h: "drop (pos_host p) (build_uri p) = u_host p @ port_str p @ ''/'' @ u_data p @ tail_str p"
    unfolding pos_host_def plus a by simp
  show p: "drop (pos_port p) (build_uri p) = port_str p @ ''/'' @ u_data p @ tail_str p"
    unfolding pos_port_def plus h by simp
  show s: "drop (pos_port p + length (port_str p)) (build_uri p) = ''/'' @ u_data p @ tail_str p"
    unfolding plus p by simp
  show d: "drop (pos_data p) (build_uri p) = u_data p @ tail_str p"
    unfolding pos_data_def plus [of _ 1] s by simp
  show "drop (pos_tail p) (build_uri p) = tail_str p"
    unfolding pos_tail_def plus d by simp
qed

lemma char_at_drop: "char_at s n = deref (drop n s)"
  by (auto simp: char_at_def deref_def hd_drop_conv_nth [symmetric] split: list.split)

definition parsed_uri :: "uri_parts \<Rightarrow> uri" where
  "parsed_uri p =
     set_tail p (pos_tail p)
       ((set_port p (pos_port p)
          ((set_auth p (pos_auth p)
             (uri_zero\<lparr>ustring := build_uri p, protocollen := length (protocol_name (u_protocol p)),
                protocol := u_protocol p, ip_family := u_family p\<rparr>))
           \<lparr>host := Some (pos_host p), hostlen := length (u_host p)\<rparr>))
        \<lparr>data := Some (pos_data p), datalen := length (u_data p)\<rparr>)"

lemma set_parts_simps [simp]:
  "ustring (set_auth p n u) = ustring u" "protocol (set_auth p n u) = protocol u"
  "protocollen (set_auth p n u) = protocollen u" "ip_family (set_auth p n u) = ip_family u"
  "ipv6 (set_auth p n u) = ipv6 u"
  "ustring (set_port p n u) = ustring u" "protocol (set_port p n u) = protocol u"
  "protocollen (set_port p n u) = protocollen u" "ip_family (set_port p n u) = ip_family u"
  "ipv6 (set_port p n u) = ipv6 u" "host (set_port p n u) = host u" "hostlen (set_port p n u) = hostlen u"
  "user (set_port p n u) = user u" "userlen (set_port p n u) = userlen u"
  "password (set_port p n u) = password u" "passwordlen (set_port p n u) = passwordlen u"
  "ustring (set_tail p n u) = ustring u" "protocol (set_tail p n u) = protocol u"
  "protocollen (set_tail p n u) = protocollen u" "ip_family (set_tail p n u) = ip_family u"
  "ipv6 (set_tail p n u) = ipv6 u" "host (set_tail p n u) = host u" "hostlen (set_tail p n u) = hostlen u"
  "user (set_tail p n u) = user u" "userlen (set_tail p n u) = userlen u"
  "password (set_tail p n u) = password u" "passwordlen (set_tail p n u) = passwordlen u"
  "port (set_tail p n u) = port u" "portlen (set_tail p n u) = portlen u"
  "data (set_tail p n u) = data u" "datalen (set_tail p n u) = datalen u"
  by (simp_all add: set_auth_def set_port_def set_tail_def Let_def split: option.splits prod.splits)

lemma parse_data_build:
  assumes ok: "uri_parts_ok p" and u: "ustring u = build_uri p" "hostlen u = length (u_host p)"
  shows "parse_data u (pos_port p + length (port_str p))
    = (URI_ERRNO_OK, set_tail p (pos_tail p) (u\<lparr>data := Some (pos_data p), datalen := length (u_data p)\<rparr>))"
proof -
  have slash: "char_at (ustring u) (pos_port p + length (port_str p)) = CHR ''/''"
    unfolding char_at_drop u(1) drop_build by simp
  have start: "Suc (pos_port p + length (port_str p)) = pos_data p" by (simp add: pos_data_def)
  have "strcspn (tail_str p) [CHR ''#'', POST_CHAR] = 0"
    by (auto simp: tail_str_def strcspn_Cons split: option.splits)
  then have len: "strcspn (drop (pos_data p) (ustring u)) [CHR ''#'', POST_CHAR] = length (u_data p)"
    unfolding u(1) drop_build using strcspn_no_chars [OF uri_parts_okD(12) [OF ok]] by simp
  let ?A = "protocol_name (u_protocol p) @ family_str p @ ''://'' @ auth_str p @ u_host p @ port_str p
    @ ''/'' @ u_data p"
  have A: "length ?A = pos_tail p"
    by (simp add: pos_tail_def pos_data_def pos_port_def pos_host_def pos_auth_def)
  have "parse_fragment_post (u\<lparr>data := Some (pos_data p), datalen := length (u_data p)\<rparr>) (pos_tail p)
      = set_tail p (pos_tail p) (u\<lparr>data := Some (pos_data p), datalen := length (u_data p)\<rparr>)"
    using parse_fragment_post_build [OF ok, of _ ?A] u(1) A by (simp add: build_uri_def)
  then show ?thesis
    using slash len start by (simp add: parse_data_def Let_def pos_tail_def)
qed

lemma parse_hierarchical_build:
  assumes ok: "uri_parts_ok p"
    and u: "u = uri_zero\<lparr>ustring := build_uri p, protocollen := length (protocol_name (u_protocol p)),
      protocol := u_protocol p, ip_family := u_family p\<rparr>"
  shows "parse_hierarchical u (pos_auth p) = (URI_ERRNO_OK, parsed_uri p)"
proof -
  let ?A = "protocol_name (u_protocol p) @ family_str p @ ''://''"
  let ?rest = "u_data p @ tail_str p"
  have b: "build_uri p = ?A @ auth_str p @ u_host p @ port_str p @ CHR ''/'' # ?rest"
    by (simp add: build_uri_def)
  have us: "ustring u = build_uri p" using u by simp
  have A: "length ?A = pos_auth p" by (simp add: pos_auth_def)
  have "no_chars ''/['' (auth_str p @ u_host p @ port_str p)"
    using no_chars_mono [OF auth_no_chars [OF ok], of "''/[''"]
      no_chars_mono [OF uri_parts_okD(10) [OF ok], of "''/[''"]
      no_chars_mono [OF port_no_chars [OF ok], of "''/[''"] by simp
  then have br: "find_brackets (ustring u) (pos_auth p) = None"
    using find_brackets_build [of "auth_str p @ u_host p @ port_str p" "build_uri p" ?A "CHR ''/'' # ?rest"] b A us by simp
  have u6: "u\<lparr>ipv6 := ((None :: (nat \<times> nat) option) \<noteq> None)\<rparr> = u" using u by (simp add: uri_zero_def)
  have auth: "parse_auth u (pos_auth p) = (set_auth p (pos_auth p) u, pos_host p)"
    using parse_auth_build [OF ok, of u ?A "u_host p @ port_str p" "CHR ''/'' # ?rest"] host_port_chars [OF ok] us b A
    by (simp add: pos_host_def pos_auth_def)
  let ?u1 = "set_auth p (pos_auth p) u"
  let ?u2 = "?u1\<lparr>host := Some (pos_host p), hostlen := length (u_host p)\<rparr>"
  have host: "parse_host ?u1 None (pos_host p) = (URI_ERRNO_OK, ?u2, pos_port p)"
    using parse_host_build [OF ok, of ?u1 "?A @ auth_str p" "CHR ''/'' # ?rest"] us b A
    by (simp add: pos_host_def pos_port_def pos_auth_def add.assoc)
  let ?u3 = "set_port p (pos_port p) ?u2"
  have port: "parse_port ?u2 (pos_port p) = (URI_ERRNO_OK, ?u3, pos_port p + length (port_str p))"
    using parse_port_build [OF ok, of ?u2 "?A @ auth_str p @ u_host p" "CHR ''/'' # ?rest"] us b A
    by (simp add: pos_host_def pos_port_def pos_auth_def add.assoc)
  have data: "parse_data ?u3 (pos_port p + length (port_str p)) = (URI_ERRNO_OK,
      set_tail p (pos_tail p) (?u3\<lparr>data := Some (pos_data p), datalen := length (u_data p)\<rparr>))"
    using us by (intro parse_data_build [OF ok]) simp_all
  show ?thesis
    unfolding parse_hierarchical_def Let_def br u6 auth prod.case host port
    using data u by (simp add: parsed_uri_def)
qed

lemma parse_uri_build:
  assumes ok: "uri_parts_ok p"
  shows "parse_uri up (build_uri p) = (URI_ERRNO_OK, parsed_uri p)"
proof -
  let ?R = "auth_str p @ u_host p @ port_str p @ CHR ''/'' # u_data p @ tail_str p"
  have b: "build_uri p = protocol_name (u_protocol p) @ family_str p @ ''://'' @ ?R"
    by (simp add: build_uri_def)
  have tw: "takeWhile (\<lambda>c. c \<noteq> POSITION_CHAR) (build_uri p) = build_uri p"
    using uri_parts_okD(7) [OF ok] by (simp add: takeWhile_eq_all_conv) metis
  have R: "?R \<noteq> []" "hd ?R \<noteq> CHR ''/''"
  proof -
    have "no_chars ''/'' (auth_str p @ u_host p)"
      using no_chars_mono [OF auth_no_chars [OF ok], of "''/''"]
        no_chars_mono [OF uri_parts_okD(10) [OF ok], of "''/''"] by simp
    moreover have "auth_str p @ u_host p \<noteq> []" using uri_parts_okD(8) [OF ok] by simp
    ultimately show "hd ?R \<noteq> CHR ''/''"
      by (metis append.assoc hd_append2 hd_in_set list.set_intros(1) no_charsD)
  qed simp
  have nofile: "u_protocol p \<noteq> PROTOCOL_FILE"
    using uri_parts_okD(3) [OF ok]
    by (auto simp: get_protocol_need_slash_after_host_def protocol_backends_def backend_def)
  note pp = parse_protocol_build [OF ok R b uri_parts_okD(6) [OF ok], of up]
  have ne: "build_uri p \<noteq> []" by (simp add: build_uri_def)
  show ?thesis
    unfolding parse_uri_def Let_def if_not_P [OF ne] tw pp prod.case
    using nofile uri_parts_okD(4) [OF ok] parse_hierarchical_build [OF ok refl] by (simp add: pos_auth_def)
qed


subsection \<open>Recomposing\<close>

lemma wants_base:
  "wants URI_BASE_FRAGMENT URI_PROTOCOL" "wants URI_BASE_FRAGMENT URI_IP_FAMILY"
  "wants URI_BASE_FRAGMENT URI_USER" "wants URI_BASE_FRAGMENT URI_PASSWORD"
  "wants URI_BASE_FRAGMENT URI_HOST" "wants URI_BASE_FRAGMENT URI_PORT"
  "\<not> wants URI_BASE_FRAGMENT URI_DEFAULT_PORT" "wants URI_BASE_FRAGMENT URI_DATA"
  "wants URI_BASE_FRAGMENT URI_FRAGMENT" "wants URI_BASE_FRAGMENT URI_POST"
  "\<not> wants URI_BASE_FRAGMENT URI_IDN" "\<not> wants URI_BASE_FRAGMENT URI_PATH"
  "\<not> wants URI_BASE_FRAGMENT URI_FILENAME" "\<not> wants URI_BASE_FRAGMENT URI_QUERY"
  "wants URI_BASE_FRAGMENT (NOT (URI_DATA OR URI_PORT))"
  by (simp_all add: wants_def)

lemma add_long_digit:
  "0 < n \<Longrightarrow> n < 10 \<Longrightarrow> add_long_or_not [] (int n) = [char_of (48 + n)]"
proof -
  assume n: "0 < n" "n < 10"
  have "ulong_nlen 10 n 1 = 1" using n by (subst ulong_nlen.simps) simp
  then have "elinks_longcat [] (int n) 63 NUL 10 False = (0, [hx n])"
    using n by (simp add: elinks_longcat_def elinks_ulongcat_def Let_def)
  moreover have "hx n = char_of (48 + n)" using n by (simp add: hx_def add.commute)
  ultimately show ?thesis by (simp add: add_long_or_not_def add_long_to_string_def)
qed

lemma part_build:
  "drop n (ustring u) = x @ rest \<Longrightarrow> len = length x \<Longrightarrow> part u (Some n) len = x"
  by (simp add: part_def ptr_def)

lemma ustring_parsed [simp]: "ustring (parsed_uri p) = build_uri p"
  by (simp add: parsed_uri_def)

lemma parsed_simps [simp]:
  "protocol (parsed_uri p) = u_protocol p" "protocollen (parsed_uri p) = length (protocol_name (u_protocol p))"
  "ip_family (parsed_uri p) = u_family p" "\<not> ipv6 (parsed_uri p)"
  "host (parsed_uri p) = Some (pos_host p)" "hostlen (parsed_uri p) = length (u_host p)"
  "data (parsed_uri p) = Some (pos_data p)" "datalen (parsed_uri p) = length (u_data p)"
  by (simp_all add: parsed_uri_def uri_zero_def)

lemma recompose_protocol:
  assumes ok: "uri_parts_ok p"
  shows "add_uri_protocol (parsed_uri p) URI_BASE_FRAGMENT
    = protocol_name (u_protocol p) @ family_str p @ ''://''"
  using uri_parts_okD(2,5) [OF ok] add_long_digit [of "u_family p"] wants_base(1,2)
  unfolding add_uri_protocol_def by (auto simp: build_uri_def family_str_def)

lemma recompose_auth:
  assumes ok: "uri_parts_ok p"
  shows "add_uri_auth (parsed_uri p) URI_BASE_FRAGMENT = auth_str p"
proof (cases "u_auth p")
  case None
  then have "userlen (parsed_uri p) = 0" "passwordlen (parsed_uri p) = 0"
    by (simp_all add: parsed_uri_def set_auth_def uri_zero_def)
  then show ?thesis using None by (simp add: add_uri_auth_def auth_str_def)
next
  case (Some a)
  then obtain us pw where a: "u_auth p = Some (us, pw)" by (cases a) auto
  note us = uri_parts_ok_auth [OF ok a]
  have user: "user (parsed_uri p) = Some (pos_auth p)" "userlen (parsed_uri p) = length us"
    using a by (auto simp: parsed_uri_def set_auth_def split: option.splits)
  have pu: "part (parsed_uri p) (user (parsed_uri p)) (userlen (parsed_uri p)) = us"
    unfolding user using drop_build(1) [of p] a
    by (intro part_build) (auto simp: auth_str_def)
  show ?thesis
  proof (cases pw)
    case None
    then have "passwordlen (parsed_uri p) = 0"
      using a by (simp add: parsed_uri_def set_auth_def uri_zero_def)
    then show ?thesis
      using pu user us(1) a None wants_base(3,4) unfolding add_uri_auth_def by (simp add: auth_str_def)
  next
    case (Some w)
    have w: "w \<noteq> []" using us(4) [OF Some] by blast
    have pass: "password (parsed_uri p) = Some (pos_auth p + length us + 1)" "passwordlen (parsed_uri p) = length w"
      using a Some by (simp_all add: parsed_uri_def set_auth_def)
    have "drop (pos_auth p + length us + 1) (build_uri p)
        = drop (length us + 1) (drop (pos_auth p) (build_uri p))" by (simp add: add.commute add.left_commute)
    also have "\<dots> = w @ ''@'' @ u_host p @ port_str p @ ''/'' @ u_data p @ tail_str p"
      unfolding drop_build using a Some by (simp add: auth_str_def)
    finally have pp: "part (parsed_uri p) (password (parsed_uri p)) (passwordlen (parsed_uri p)) = w"
      unfolding pass by (intro part_build) simp_all
    show ?thesis
      using pu pp user pass us(1) w a Some wants_base(3,4) unfolding add_uri_auth_def by (simp add: auth_str_def)
  qed
qed

lemma recompose_host:
  assumes ok: "uri_parts_ok p"
  shows "add_uri_host idn (parsed_uri p) URI_BASE_FRAGMENT = u_host p"
proof -
  have "part (parsed_uri p) (host (parsed_uri p)) (hostlen (parsed_uri p)) = u_host p"
    unfolding parsed_simps by (intro part_build) (simp_all add: drop_build)
  then show ?thesis
    using uri_parts_okD(8) [OF ok] wants_base(5,11) unfolding add_uri_host_def by (simp add: Let_def)
qed

lemma recompose_port:
  assumes ok: "uri_parts_ok p"
  shows "add_uri_port (parsed_uri p) URI_BASE_FRAGMENT = port_str p"
proof (cases "u_port p")
  case None
  then have "portlen (parsed_uri p) = 0"
    by (auto simp: parsed_uri_def set_port_def set_auth_def uri_zero_def split: option.splits)
  then show ?thesis using None wants_base(6,7) unfolding add_uri_port_def by (simp add: port_str_def)
next
  case (Some ds)
  have port: "port (parsed_uri p) = Some (pos_port p + 1)" "portlen (parsed_uri p) = length ds"
    using Some by (simp_all add: parsed_uri_def set_port_def)
  have "drop (pos_port p + 1) (build_uri p) = drop 1 (drop (pos_port p) (build_uri p))" by simp
  also have "\<dots> = ds @ ''/'' @ u_data p @ tail_str p"
    unfolding drop_build using Some by (simp add: port_str_def)
  finally have "part (parsed_uri p) (port (parsed_uri p)) (portlen (parsed_uri p)) = ds"
    unfolding port by (intro part_build) simp_all
  then show ?thesis
    using uri_parts_ok_port(1) [OF ok Some] port Some wants_base(6) unfolding add_uri_port_def
    by (simp add: port_str_def)
qed


lemma recompose_rest:
  assumes ok: "uri_parts_ok p"
  shows "add_uri_rest (parsed_uri p) URI_BASE_FRAGMENT = tail_str p"
proof -
  let ?f = "case u_fragment p of None \<Rightarrow> [] | Some f \<Rightarrow> CHR ''#'' # f"
  let ?q = "case u_post p of None \<Rightarrow> [] | Some q \<Rightarrow> POST_CHAR # q"
  have tail: "drop (pos_tail p) (build_uri p) = ?f @ ?q" unfolding drop_build by (simp add: tail_str_def)
  have frag: "(if wants URI_BASE_FRAGMENT URI_FRAGMENT \<and> fragmentlen (parsed_uri p) \<noteq> 0
      then ''#'' @ part (parsed_uri p) (fragment (parsed_uri p)) (fragmentlen (parsed_uri p)) else []) = ?f"
  proof (cases "u_fragment p")
    case None
    then have "fragmentlen (parsed_uri p) = 0"
      by (auto simp: parsed_uri_def set_tail_def set_port_def set_auth_def uri_zero_def Let_def split: option.splits)
    then show ?thesis using None by simp
  next
    case (Some f)
    have fr: "fragment (parsed_uri p) = Some (pos_tail p + 1)" "fragmentlen (parsed_uri p) = length f"
      using Some by (auto simp: parsed_uri_def set_tail_def Let_def split: option.splits)
    have "drop (pos_tail p + 1) (build_uri p) = drop 1 (drop (pos_tail p) (build_uri p))" by simp
    also have "\<dots> = f @ ?q" unfolding tail using Some by simp
    finally have "part (parsed_uri p) (fragment (parsed_uri p)) (fragmentlen (parsed_uri p)) = f"
      unfolding fr by (intro part_build) simp_all
    then show ?thesis using Some fr uri_parts_ok_fragment(1) [OF ok Some] wants_base(9) by simp
  qed
  have q: "(case post (parsed_uri p) of None \<Rightarrow> []
      | Some n \<Rightarrow> [POST_CHAR] @ drop n (build_uri p)) = ?q"
  proof (cases "u_post p")
    case None
    then have "post (parsed_uri p) = None"
      by (auto simp: parsed_uri_def set_tail_def set_port_def set_auth_def uri_zero_def Let_def split: option.splits)
    then show ?thesis using None by simp
  next
    case (Some q)
    have "post (parsed_uri p) = Some (pos_tail p + length ?f + 1)"
      using Some by (auto simp: parsed_uri_def set_tail_def Let_def split: option.splits)
    moreover have "drop (pos_tail p + length ?f + 1) (build_uri p)
        = drop (length ?f + 1) (drop (pos_tail p) (build_uri p))" by (simp add: add.commute)
    then have "drop (pos_tail p + length ?f + 1) (build_uri p) = q"
      unfolding tail using Some by simp
    ultimately show ?thesis using Some by simp
  qed
  show ?thesis
    unfolding add_uri_rest_def Let_def frag using q wants_base(10)
    by (auto simp: tail_str_def split: option.splits)
qed

lemma recompose:
  assumes ok: "uri_parts_ok p"
  shows "get_uri_string idn (parsed_uri p) URI_BASE_FRAGMENT = build_uri p"
proof -
  have known: "protocol (parsed_uri p) \<noteq> PROTOCOL_UNKNOWN" using uri_parts_okD(1) [OF ok] by simp
  have data: "(if wants URI_BASE_FRAGMENT URI_DATA \<and> datalen (parsed_uri p) \<noteq> 0
      then part (parsed_uri p) (data (parsed_uri p)) (datalen (parsed_uri p)) else []) = u_data p"
    using part_build [of "pos_data p" "parsed_uri p" "u_data p" "tail_str p"] drop_build(5) [of p] wants_base(8)
    by simp
  have slash: "add_uri_slash (parsed_uri p) URI_BASE_FRAGMENT = ''/''"
    using wants_base(8,15) uri_parts_okD(3) [OF ok] unfolding add_uri_slash_def by simp
  have path: "add_uri_path (parsed_uri p) URI_BASE_FRAGMENT = ([], False)"
    using wants_base(12,13) unfolding add_uri_path_def by simp
  have query: "add_uri_query (parsed_uri p) URI_BASE_FRAGMENT = ([], False)"
    using wants_base(14) unfolding add_uri_query_def by simp
  show ?thesis
    unfolding get_uri_string_def add_uri_to_string_def if_not_P [OF known] Let_def data slash path query
      recompose_protocol [OF ok] recompose_auth [OF ok] recompose_host [OF ok] recompose_port [OF ok]
      recompose_rest [OF ok]
    by (simp add: build_uri_def)
qed

text \<open>The components of the parsed structure, read back through their pointers and lengths.\<close>

lemma parsed_auth:
  "component (parsed_uri p) (user (parsed_uri p)) (userlen (parsed_uri p)) = map_option fst (u_auth p)"
  "component (parsed_uri p) (password (parsed_uri p)) (passwordlen (parsed_uri p)) = Option.bind (u_auth p) snd"
proof -
  have "component (parsed_uri p) (user (parsed_uri p)) (userlen (parsed_uri p)) = map_option fst (u_auth p)
    \<and> component (parsed_uri p) (password (parsed_uri p)) (passwordlen (parsed_uri p)) = Option.bind (u_auth p) snd"
  proof (cases "u_auth p")
    case None
    then have "user (parsed_uri p) = None" "password (parsed_uri p) = None"
      by (simp_all add: parsed_uri_def set_auth_def uri_zero_def)
    then show ?thesis using None by (simp add: component_def)
  next
    case (Some a)
    then obtain us pw where a: "u_auth p = Some (us, pw)" by (cases a) auto
    have user: "user (parsed_uri p) = Some (pos_auth p)" "userlen (parsed_uri p) = length us"
      using a by (auto simp: parsed_uri_def set_auth_def split: option.splits)
    have us: "part (parsed_uri p) (user (parsed_uri p)) (userlen (parsed_uri p)) = us"
      unfolding user using drop_build(1) [of p] a by (intro part_build) (auto simp: auth_str_def)
    show ?thesis
    proof (cases pw)
      case None
      then have "password (parsed_uri p) = None" using a by (simp add: parsed_uri_def set_auth_def uri_zero_def)
      then show ?thesis using a None us user by (simp add: component_def)
    next
      case (Some w)
      have pass: "password (parsed_uri p) = Some (pos_auth p + length us + 1)" "passwordlen (parsed_uri p) = length w"
        using a Some by (simp_all add: parsed_uri_def set_auth_def)
      have "drop (pos_auth p + length us + 1) (build_uri p)
          = drop (length us + 1) (drop (pos_auth p) (build_uri p))" by (simp add: add.commute add.left_commute)
      also have "\<dots> = w @ ''@'' @ u_host p @ port_str p @ ''/'' @ u_data p @ tail_str p"
        unfolding drop_build using a Some by (simp add: auth_str_def)
      finally have "part (parsed_uri p) (password (parsed_uri p)) (passwordlen (parsed_uri p)) = w"
        unfolding pass by (intro part_build) simp_all
      then show ?thesis using a Some us user pass by (simp add: component_def)
    qed
  qed
  then show "component (parsed_uri p) (user (parsed_uri p)) (userlen (parsed_uri p)) = map_option fst (u_auth p)"
    "component (parsed_uri p) (password (parsed_uri p)) (passwordlen (parsed_uri p)) = Option.bind (u_auth p) snd"
    by blast+
qed

lemma parsed_port: "component (parsed_uri p) (port (parsed_uri p)) (portlen (parsed_uri p)) = u_port p"
proof (cases "u_port p")
  case None
  then have "port (parsed_uri p) = None"
    by (simp add: parsed_uri_def set_port_def set_auth_def uri_zero_def split: option.splits)
  then show ?thesis using None by (simp add: component_def)
next
  case (Some ds)
  then have port: "port (parsed_uri p) = Some (pos_port p + 1)" "portlen (parsed_uri p) = length ds"
    by (simp_all add: parsed_uri_def set_port_def)
  have "drop (pos_port p + 1) (build_uri p) = drop 1 (drop (pos_port p) (build_uri p))" by simp
  also have "\<dots> = ds @ ''/'' @ u_data p @ tail_str p" unfolding drop_build using Some by (simp add: port_str_def)
  finally have "part (parsed_uri p) (port (parsed_uri p)) (portlen (parsed_uri p)) = ds"
    unfolding port by (intro part_build) simp_all
  then show ?thesis using Some port by (simp add: component_def)
qed

lemma no_tail:
  "fragment (set_auth p n u) = fragment u" "fragment (set_port p n u) = fragment u"
  "post (set_auth p n u) = post u" "post (set_port p n u) = post u"
  by (simp_all add: set_auth_def set_port_def split: option.splits prod.splits)

lemma parsed_tail:
  "component (parsed_uri p) (fragment (parsed_uri p)) (fragmentlen (parsed_uri p)) = u_fragment p"
  "post_string (parsed_uri p) = u_post p"
proof -
  have d: "drop (pos_tail p + n) (build_uri p) = drop n (tail_str p)" for n
    unfolding drop_build(6) [symmetric] by (simp add: add.commute)
  have f: "fragment (parsed_uri p) = map_option (\<lambda>_. pos_tail p + 1) (u_fragment p)"
    "u_fragment p = Some fr \<Longrightarrow> fragmentlen (parsed_uri p) = length fr"
    "post (parsed_uri p) = map_option (\<lambda>_. pos_tail p + (case u_fragment p of None \<Rightarrow> 1 | Some f \<Rightarrow> length f + 2)) (u_post p)" for fr
    by (simp_all add: parsed_uri_def set_tail_def Let_def no_tail uri_zero_def split: option.splits)
  show "component (parsed_uri p) (fragment (parsed_uri p)) (fragmentlen (parsed_uri p)) = u_fragment p"
    using d [of 1] f(1,2) by (cases "u_fragment p") (simp_all add: component_def part_def ptr_def tail_str_def)
  show "post_string (parsed_uri p) = u_post p"
    unfolding post_string_def f(3) using d [of 1] d [of "case u_fragment p of None \<Rightarrow> 1 | Some f \<Rightarrow> length f + 2"]
    by (cases "u_post p"; cases "u_fragment p") (simp_all add: tail_str_def)
qed

text \<open>
  C1: parsing a URI that was put together from components (a known protocol with a host that is
  a name, an optional address family digit, user, password, port, fragment and POST data, each
  without the characters that end it) succeeds, and reading the parsed structure gives exactly
  these components: the user and the password, the host, the port, the path with its query, the
  fragment and the POST data, each absent exactly when it was absent. Recomposing the structure
  gives the string back.
\<close>

theorem parse_uri_round_trip:
  assumes "uri_parts_ok p"
  shows "\<exists>u. parse_uri up (build_uri p) = (URI_ERRNO_OK, u)
    \<and> protocol u = u_protocol p \<and> ip_family u = u_family p \<and> \<not> ipv6 u
    \<and> component u (user u) (userlen u) = map_option fst (u_auth p)
    \<and> component u (password u) (passwordlen u) = Option.bind (u_auth p) snd
    \<and> component u (host u) (hostlen u) = Some (u_host p)
    \<and> component u (port u) (portlen u) = u_port p
    \<and> component u (data u) (datalen u) = Some (u_data p)
    \<and> component u (fragment u) (fragmentlen u) = u_fragment p
    \<and> post_string u = u_post p
    \<and> get_uri_string idn u URI_BASE_FRAGMENT = build_uri p"
proof (intro exI conjI)
  show "parse_uri up (build_uri p) = (URI_ERRNO_OK, parsed_uri p)" by (rule parse_uri_build [OF assms])
  have "part (parsed_uri p) (Some (pos_host p)) (length (u_host p)) = u_host p"
    "part (parsed_uri p) (Some (pos_data p)) (length (u_data p)) = u_data p"
    by (intro part_build; simp add: drop_build)+
  then show "component (parsed_uri p) (host (parsed_uri p)) (hostlen (parsed_uri p)) = Some (u_host p)"
    "component (parsed_uri p) (data (parsed_uri p)) (datalen (parsed_uri p)) = Some (u_data p)"
    by (simp_all add: component_def)
  show "get_uri_string idn (parsed_uri p) URI_BASE_FRAGMENT = build_uri p" by (rule recompose [OF assms])
qed (simp_all add: parsed_auth parsed_port parsed_tail)

definition example_parts :: uri_parts where
  "example_parts = \<lparr>u_protocol = PROTOCOL_HTTP, u_family = 6, u_auth = Some (''me'', Some ''p:w''),
     u_host = ''h.org'', u_port = Some ''80'', u_data = ''d/f?q'', u_fragment = Some ''x'', u_post = None\<rparr>"

lemma example_parts_build: "build_uri example_parts = ''http6://me:p:w@h.org:80/d/f?q#x''"
  by (simp add: build_uri_def example_parts_def protocol_name_def protocol_backends_def backend_def
      family_str_def auth_str_def port_str_def tail_str_def) code_simp

lemma example_parts_ok: "uri_parts_ok example_parts"
  unfolding uri_parts_ok_def example_parts_build
  by (simp add: example_parts_def get_protocol_need_slashes_def get_protocol_need_slash_after_host_def
      get_protocol_free_syntax_def protocol_backends_def backend_def isdigit_def digits_value_def unhx_def)

theorem parse_uri_round_trip_witness:
  "\<exists>u. parse_uri (\<lambda>_. False) ''http6://me:p:w@h.org:80/d/f?q#x'' = (URI_ERRNO_OK, u)
    \<and> component u (user u) (userlen u) = Some ''me'' \<and> component u (password u) (passwordlen u) = Some ''p:w''
    \<and> component u (host u) (hostlen u) = Some ''h.org'' \<and> component u (port u) (portlen u) = Some ''80''
    \<and> component u (fragment u) (fragmentlen u) = Some ''x'' \<and> post_string u = None
    \<and> get_uri_string (\<lambda>_. None) u URI_BASE_FRAGMENT = ''http6://me:p:w@h.org:80/d/f?q#x''"
  using parse_uri_round_trip [OF example_parts_ok, of "\<lambda>_. False" "\<lambda>_. None"] example_parts_build
  by (auto simp: example_parts_def)

end
