(* ===== verification/Uri_Repair.thy ===== *)
theory Uri_Repair
  imports Uri_Roundtrip Uri_Translate
begin

text \<open>
  The repair loop of \<open>translate_url\<close>: a URI that the user mistyped in its punctuation is taken for
  the URI that was meant.
\<close>

subsection \<open>Parsing up to the host\<close>










subsection \<open>What the loop repairs\<close>












definition typing_env :: env where
  "typing_env = \<lparr>user_program = (\<lambda>_. False), file_exists = (\<lambda>_. False), expand_tilde = (\<lambda>s. s),
     default_protocol = ''https://'', https_by_default = True\<rparr>"


text \<open>
  With a digit for the address family, the slashes are put behind the name of the protocol and not
  behind the digit, and the string ends as one with another host.
\<close>

lemma family_slashes_lost:
  "map_option (\<lambda>u. (ustring u, component u (host u) (hostlen u)))
     (translate_loop typing_env URI_ERRNO_EMPTY 0 ''http6:h.org/'') = Some (''https://http6//:h.org/'', Some ''http6'')"
  by code_simp

end
