(* ===== verification/Uri_Edge_Cases.thy ===== *)
theory Uri_Edge_Cases
  imports Uri_Translate
begin

text \<open>
  Properties of the smaller functions of \<open>src/protocol/uri.c\<close>, and inputs on which the parser
  and the translation do something else than the code's comments say.
\<close>

subsection \<open>Domains\<close>

lemma lower_eq_length: "lower s = lower t \<Longrightarrow> length s = length t"
  by (metis length_lower)

text \<open>
  A server is in a domain exactly when, ignoring ASCII case, it is the domain itself or
  ends in a dot and the domain; a longer label that only ends in the domain's text is rejected.
\<close>

theorem is_in_domain_spec:
  assumes "cstring domain" "cstring server" "n \<le> length server" "domain \<noteq> []"
  shows "is_in_domain domain server n \<longleftrightarrow>
    lower (take n server) = lower domain
    \<or> (\<exists>sub. take n server = sub @ CHR ''.'' # drop (n - length domain) (take n server)
         \<and> lower (drop (n - length domain) (take n server)) = lower domain)"
proof -
  let ?d = "length domain" and ?s = "take n server"
  have len: "length ?s = n" using assms(3) by simp
  show ?thesis
  proof (cases "?d \<ge> n")
    case True
    have "\<not> (\<exists>sub. ?s = sub @ CHR ''.'' # drop (n - ?d) ?s)"
    proof
      assume "\<exists>sub. ?s = sub @ CHR ''.'' # drop (n - ?d) ?s"
      then obtain sub where "?s = sub @ CHR ''.'' # ?s" using True by auto
      then have "length ?s = length sub + Suc (length ?s)" by (metis length_Cons length_append)
      then show False by simp
    qed
    moreover have "is_in_domain domain server n \<longleftrightarrow> lower ?s = lower domain"
    proof (cases "?d = n")
      case True
      then have "c_strncasecmp domain server n = 0 \<longleftrightarrow> lower (take n domain) = lower ?s"
        using assms(1,2) by (simp add: c_strncasecmp_0_iff)
      then show ?thesis using True by (auto simp: is_in_domain_def)
    next
      case False
      then have "?d > n" using True by simp
      moreover have "lower ?s \<noteq> lower domain" using lower_eq_length [of ?s domain] len False by auto
      ultimately show ?thesis by (simp add: is_in_domain_def)
    qed
    ultimately show ?thesis by blast
  next
    case False
    let ?k = "n - ?d"
    have k: "0 < ?k" "?k \<le> n" "?k - 1 < length server" using False assms(3) by auto
    have ne: "lower ?s \<noteq> lower domain" using lower_eq_length [of ?s domain] len False by auto
    have "c_strncasecmp domain (drop ?k server) ?d = 0 \<longleftrightarrow> lower (take ?d (drop ?k server)) = lower domain"
      using assms(1,2) c_strncasecmp_0_iff [of domain "drop ?k server" ?d] cstring_drop by auto
    moreover have "take ?d (drop ?k server) = drop ?k ?s"
      using False by (simp add: drop_take)
    ultimately have cmp: "is_in_domain domain server n \<longleftrightarrow>
        server ! (?k - 1) = CHR ''.'' \<and> lower (drop ?k ?s) = lower domain"
      using False k by (simp add: is_in_domain_def Let_def char_at_def)
    have "(\<exists>sub. ?s = sub @ CHR ''.'' # drop ?k ?s) \<longleftrightarrow> server ! (?k - 1) = CHR ''.''"
    proof
      assume "\<exists>sub. ?s = sub @ CHR ''.'' # drop ?k ?s"
      then obtain sub where sub: "?s = sub @ CHR ''.'' # drop ?k ?s" by blast
      then have "length ?s = length sub + Suc (n - ?k)" using len by (metis length_Cons length_append length_drop)
      then have "length sub = ?k - 1" using len k by linarith
      then have "?s ! (?k - 1) = CHR ''.''" using sub by (metis nth_append_length)
      then show "server ! (?k - 1) = CHR ''.''" using k by simp
    next
      assume "server ! (?k - 1) = CHR ''.''"
      then have "?s ! (?k - 1) = CHR ''.''" using k by simp
      then have "?s = take (?k - 1) ?s @ CHR ''.'' # drop ?k ?s"
        using k len id_take_nth_drop [of "?k - 1" ?s] Suc_diff_1 [OF k(1)] by simp
      then show "\<exists>sub. ?s = sub @ CHR ''.'' # drop ?k ?s" by blast
    qed
    then show ?thesis using cmp ne by auto
  qed
qed

theorem is_in_domain_spec_witness:
  "is_in_domain ''Example.com'' ''www.example.COM/'' 15 \<and> \<not> is_in_domain ''ample.com'' ''www.example.com'' 15"
proof
  have "lower (drop 4 (take 15 ''www.example.COM/'')) = lower ''Example.com''" by code_simp
  moreover have "take 15 ''www.example.COM/'' = ''www'' @ CHR ''.'' # drop (15 - length ''Example.com'') (take 15 ''www.example.COM/'')"
    by simp
  ultimately show "is_in_domain ''Example.com'' ''www.example.COM/'' 15"
    using is_in_domain_spec [of "''Example.com''" "''www.example.COM/''" 15] by fastforce
  show "\<not> is_in_domain ''ample.com'' ''www.example.com'' 15" by code_simp
qed

subsection \<open>Evaluating the parser\<close>

lemma get_protocol_http:
  "get_protocol up (CHR ''h'' # CHR ''t'' # CHR ''t'' # CHR ''p'' # rest) 4 = PROTOCOL_HTTP"
  by (simp add: get_protocol_def protocol_search.simps protocol_name_def protocol_backends_def
      backend_def Let_def c_tolower_def)

lemma http_flags:
  "get_protocol_need_slashes PROTOCOL_HTTP" "get_protocol_need_slash_after_host PROTOCOL_HTTP"
  "\<not> get_protocol_free_syntax PROTOCOL_HTTP" "get_protocol_keep_double_slashes PROTOCOL_HTTP"
  by (simp_all add: get_protocol_need_slashes_def get_protocol_need_slash_after_host_def
      get_protocol_free_syntax_def get_protocol_keep_double_slashes_def protocol_backends_def backend_def)

lemmas uri_eval = parse_uri_def parse_protocol_def get_protocol_length_def is_protocol_char_def
  isasciialnum_def isasciialpha_def isdigit_def get_protocol_http http_flags parse_hierarchical_def
  find_brackets_def strcspn_def parse_auth_def auth_end.simps parse_host_def NI_MAXHOST_def
  parse_port_def parse_data_def parse_fragment_post_def uri_zero_def ptr_def part_def Let_def char_at_def

definition plain_env :: env where
  "plain_env = \<lparr>user_program = (\<lambda>_. False), file_exists = (\<lambda>_. False), expand_tilde = (\<lambda>s. s),
     default_protocol = ''https://'', https_by_default = True\<rparr>"

lemma translate_plain:
  "map_option (\<lambda>u. (protocol u, part u (host u) (hostlen u)))
     (translate_loop plain_env URI_ERRNO_EMPTY 0 ''http://h/'') = Some (PROTOCOL_HTTP, ''h'')"
  by (subst translate_loop.simps) (simp add: translate_step_def plain_env_def uri_eval)

subsection \<open>Inputs on which the code and its comments differ\<close>

text \<open>
  The port is read with \<open>strtol\<close> into an \<open>int\<close> before its range is checked, so a port that is
  \<open>2 ^ 32\<close> too large is accepted and truncated.
\<close>

lemma port_truncated:
  "(case parse_uri (\<lambda>_. False) ''http://h:4294967376/'' of (err, u) \<Rightarrow> (err, get_uri_port u))
     = (URI_ERRNO_OK, 80)"
  by (simp add: uri_eval get_uri_port_def strtol_digits_def digits_value_def unhx_def to_int32_def
      uri_port_is_valid_def)

text \<open>Brackets in the user information are taken for the host.\<close>

lemma bracket_in_user:
  "(case parse_uri (\<lambda>_. False) ''http://[x]y@good/'' of (err, u) \<Rightarrow> (err, part u (host u) (hostlen u)))
     = (URI_ERRNO_OK, ''x'')"
  by (simp add: uri_eval)

text \<open>A final double dot segment stays when a query follows.\<close>

lemma dots_before_query:
  "normalize_uri_reparse (\<lambda>_. False) ''http://h/a/..?q'' = ''http://h/a/..?q''"
  by (simp add: normalize_uri_reparse.simps normalize_path_def lowercased_def lowercase_range_def
      c_isupper_def cstr_at_def normalize_loop.simps is_uri_dir_sep_def end_of_dir_def
      move_string_def uri_eval)

text \<open>With an address family digit in the base, a network-path reference loses the colon.\<close>

lemma family_network_path:
  "join_prefix (snd (parse_uri (\<lambda>_. False) ''http4://a/'')) ''//b/'' = Some (5, True)
   \<and> take 5 ''http4://a/'' = ''http4''"
  by (simp add: join_prefix_def get_real_uri_length_def uri_eval)

end
