(* ===== verification/Hash.thy ===== *)
theory Hash
  imports Prelude "HOL-Library.Multiset"
begin

unbundle bit_operations_syntax

text \<open>
  \<open>src/util/hash.c\<close>: the hash table with chaining that the URI cache, the table cache, the
  bookmarks and others share. A bucket is the list of its items from the head; \<open>add_to_list\<close>
  puts an item in front. The address of a \<open>struct hash_item\<close> is the field \<open>item_addr\<close>, which
  the caller of the model supplies as a fresh number where the code allocates. The hash
  function is \<open>strhash\<close> in the configured variant (\<open>X31_HASH\<close>), on 64-bit \<open>unsigned long\<close>
  values; its eight-fold unrolled loop is the loop over the bytes.
\<close>

type_synonym hash_value_T = "64 word"

record 'v hash_item =
  item_addr :: nat
  hkey :: string
  keylen :: nat
  hvalue :: 'v

record 'v hash =
  hwidth :: nat
  hash_func :: "string \<Rightarrow> nat \<Rightarrow> hash_value_T \<Rightarrow> hash_value_T"
  buckets :: "'v hash_item list list"

definition strhash :: "string \<Rightarrow> nat \<Rightarrow> hash_value_T \<Rightarrow> hash_value_T" where
  "strhash k len initval =
     fold (\<lambda>c h. push_bit 5 h - h + word_of_int (schar c)) (take len k) initval"

definition hash_size :: "nat \<Rightarrow> nat" where "hash_size n = 2 ^ n"
definition hash_mask :: "nat \<Rightarrow> hash_value_T" where "hash_mask n = 2 ^ n - 1"
definition HASH_MAGIC :: hash_value_T where "HASH_MAGIC = 0xdeadbeef"

definition init_hash ::
  "nat \<Rightarrow> (string \<Rightarrow> nat \<Rightarrow> hash_value_T \<Rightarrow> hash_value_T) \<Rightarrow> 'v hash" where
  "init_hash width func = \<lparr>hwidth = width, hash_func = func, buckets = replicate (hash_size width) []\<rparr>"

definition init_hash8 :: "'v hash" where
  "init_hash8 = init_hash 8 strhash"

definition hashval :: "'v hash \<Rightarrow> string \<Rightarrow> nat \<Rightarrow> nat" where
  "hashval h key len = unat (hash_func h key len HASH_MAGIC AND hash_mask (hwidth h))"

definition add_hash_item :: "'v hash \<Rightarrow> nat \<Rightarrow> string \<Rightarrow> nat \<Rightarrow> 'v \<Rightarrow> 'v hash" where
  "add_hash_item h addr key len val =
     (let i = hashval h key len;
          item = \<lparr>item_addr = addr, hkey = key, keylen = len, hvalue = val\<rparr>
      in h\<lparr>buckets := (buckets h)[i := item # buckets h ! i]\<rparr>)"

definition item_matches :: "string \<Rightarrow> nat \<Rightarrow> 'v hash_item \<Rightarrow> bool" where
  "item_matches key len item \<longleftrightarrow> len = keylen item \<and> take len key = take len (hkey item)"

text \<open>The search with the move to front rule: the item found and the bucket reordered.\<close>

definition get_hash_item :: "'v hash \<Rightarrow> string \<Rightarrow> nat \<Rightarrow> 'v hash_item option \<times> 'v hash" where
  "get_hash_item h key len =
     (let i = hashval h key len; bucket = buckets h ! i
      in case find (item_matches key len) bucket of
           None \<Rightarrow> (None, h)
         | Some item \<Rightarrow> (Some item, h\<lparr>buckets := (buckets h)[i := item # remove1 item bucket]\<rparr>))"

definition del_hash_item :: "'v hash \<Rightarrow> 'v hash_item \<Rightarrow> 'v hash" where
  "del_hash_item h item =
     h\<lparr>buckets := map (filter (\<lambda>it. item_addr it \<noteq> item_addr item)) (buckets h)\<rparr>"

subsection \<open>Well-formed tables\<close>

text \<open>
  Every item is in the bucket of its key, keys are at least as long as their length field,
  and no two items have the same key or the same address.
\<close>

definition item_key :: "'v hash_item \<Rightarrow> string" where
  "item_key it = take (keylen it) (hkey it)"

definition all_items :: "'v hash \<Rightarrow> 'v hash_item list" where
  "all_items h = concat (buckets h)"

definition reads_keylen :: "(string \<Rightarrow> nat \<Rightarrow> hash_value_T \<Rightarrow> hash_value_T) \<Rightarrow> bool" where
  "reads_keylen f \<longleftrightarrow> (\<forall>k n x. f k n x = f (take n k) n x)"

definition hash_ok :: "'v hash \<Rightarrow> bool" where
  "hash_ok h \<longleftrightarrow>
     hwidth h \<le> 32 \<and> length (buckets h) = hash_size (hwidth h)
     \<and> reads_keylen (hash_func h)
     \<and> (\<forall>i < length (buckets h). \<forall>it \<in> set (buckets h ! i).
          keylen it \<le> length (hkey it) \<and> hashval h (hkey it) (keylen it) = i)
     \<and> distinct (map item_key (all_items h)) \<and> distinct (map item_addr (all_items h))"

text \<open>The finite map a table stands for, on keys given with their full length.\<close>

definition hash_lookup :: "'v hash \<Rightarrow> string \<Rightarrow> 'v hash_item option" where
  "hash_lookup h key = fst (get_hash_item h key (length key))"


subsection \<open>The operations on the set of items\<close>

lemma find_unique:
  assumes "distinct (map f xs)"
  shows "find (\<lambda>x. f x = k) xs = Some x \<longleftrightarrow> x \<in> set xs \<and> f x = k"
  using assms by (induction xs) auto

lemma hashval_less: "hashval h k n < hash_size (hwidth h)"
proof -
  have m: "hash_mask (hwidth h) = mask (hwidth h)"
    by (simp add: hash_mask_def mask_eq_exp_minus_1)
  have "unat (x AND mask (hwidth h)) < 2 ^ hwidth h" for x :: hash_value_T
    by (simp add: take_bit_eq_mask [symmetric] unsigned_take_bit_eq)
  then show ?thesis by (simp add: hashval_def hash_size_def m)
qed

lemma hashval_take:
  "reads_keylen (hash_func h) \<Longrightarrow> hashval h (take n k) n = hashval h k n"
  unfolding hashval_def reads_keylen_def by metis

lemma hashval_buckets [simp]: "hashval (h\<lparr>buckets := bs\<rparr>) k n = hashval h k n"
  by (simp add: hashval_def)

lemma mset_concat_update:
  "i < length xs \<Longrightarrow> mset (concat (xs[i := y])) + mset (xs ! i) = mset (concat xs) + mset y"
  using sum_list_map_update [of i xs mset y] by (simp add: mset_concat)

lemma distinct_map_mset: "mset xs = mset ys \<Longrightarrow> distinct (map f xs) = distinct (map f ys)"
  using mset_map [of f xs] mset_map [of f ys] mset_eq_imp_distinct_iff by metis

lemma set_all_items: "set (all_items h) = (\<Union>b \<in> set (buckets h). set b)"
  by (simp add: all_items_def)

lemma item_in_bucket:
  assumes "hash_ok h"
  shows "it \<in> set (buckets h ! hashval h k (length k)) \<and> item_key it = k
    \<longleftrightarrow> it \<in> set (all_items h) \<and> item_key it = k"
proof -
  have lt: "hashval h k (length k) < length (buckets h)"
    using assms hashval_less by (auto simp: hash_ok_def)
  have "hashval h k (length k) = i"
    if "i < length (buckets h)" "it \<in> set (buckets h ! i)" "item_key it = k" for i
  proof -
    have "keylen it \<le> length (hkey it)" "hashval h (hkey it) (keylen it) = i"
      "reads_keylen (hash_func h)"
      using assms that by (auto simp: hash_ok_def)
    moreover from this have "length k = keylen it" using that by (auto simp: item_key_def)
    ultimately show ?thesis
      using that hashval_take [of h "keylen it" "hkey it"] by (simp add: item_key_def)
  qed
  moreover have "it \<in> set (all_items h) \<longleftrightarrow> (\<exists>i < length (buckets h). it \<in> set (buckets h ! i))"
    unfolding set_all_items by (metis (no_types, lifting) UN_iff in_set_conv_nth)
  ultimately show ?thesis using lt by metis
qed

lemma matches_item_key:
  "keylen it \<le> length (hkey it) \<Longrightarrow> item_matches k (length k) it \<longleftrightarrow> item_key it = k"
  by (auto simp: item_matches_def item_key_def)

lemma bucket_distinct:
  assumes "hash_ok h" "i < length (buckets h)"
  shows "distinct (map item_key (buckets h ! i))"
proof -
  obtain us vs where "buckets h = us @ buckets h ! i # vs"
    using assms(2) id_take_nth_drop by blast
  then have "all_items h = concat us @ buckets h ! i @ concat vs"
    unfolding all_items_def by (metis concat.simps(2) concat_append)
  then show ?thesis using assms(1) by (simp add: hash_ok_def)
qed

lemma hash_lookup_iff:
  assumes "hash_ok h"
  shows "hash_lookup h k = Some it \<longleftrightarrow> it \<in> set (all_items h) \<and> item_key it = k"
proof -
  let ?i = "hashval h k (length k)" and ?b = "buckets h ! hashval h k (length k)"
  have lt: "?i < length (buckets h)"
    using assms hashval_less by (auto simp: hash_ok_def)
  have "find (item_matches k (length k)) ?b = find (\<lambda>it. item_key it = k) ?b"
    using assms lt by (intro find_cong) (auto simp: hash_ok_def matches_item_key)
  then have "hash_lookup h k = find (\<lambda>it. item_key it = k) ?b"
    by (simp add: hash_lookup_def get_hash_item_def Let_def split: option.split)
  then show ?thesis
    using find_unique [OF bucket_distinct [OF assms lt]] item_in_bucket [OF assms] by metis
qed

lemma hash_lookup_None_iff:
  "hash_ok h \<Longrightarrow> hash_lookup h k = None \<longleftrightarrow> k \<notin> item_key ` set (all_items h)"
  using hash_lookup_iff [of h k] by (cases "hash_lookup h k") force+

lemma hash_lookup_cong:
  assumes "hash_ok h" "hash_ok h'" "set (all_items h') = set (all_items h)"
  shows "hash_lookup h' k = hash_lookup h k"
  using hash_lookup_iff [OF assms(1), of k] hash_lookup_iff [OF assms(2), of k] assms(3)
  by (cases "hash_lookup h k"; cases "hash_lookup h' k") force+


lemma all_items_update:
  assumes "hash_ok h"
  shows "mset (all_items (h\<lparr>buckets := (buckets h)[hashval h k n := b]\<rparr>)) + mset (buckets h ! hashval h k n)
    = mset (all_items h) + mset b"
  using assms hashval_less [of h k n] by (simp add: all_items_def mset_concat_update hash_ok_def)

lemma mset_all_items_add:
  assumes "hash_ok h"
  shows "mset (all_items (add_hash_item h addr k n v))
    = add_mset \<lparr>item_addr = addr, hkey = k, keylen = n, hvalue = v\<rparr> (mset (all_items h))"
  using all_items_update [OF assms, of k n
      "\<lparr>item_addr = addr, hkey = k, keylen = n, hvalue = v\<rparr> # buckets h ! hashval h k n"]
  by (simp add: add_hash_item_def Let_def)

lemma mset_all_items_get:
  assumes "hash_ok h"
  shows "mset (all_items (snd (get_hash_item h k n))) = mset (all_items h)"
proof (cases "find (item_matches k n) (buckets h ! hashval h k n)")
  case None
  then show ?thesis by (simp add: get_hash_item_def Let_def)
next
  case (Some it)
  then have "it \<in> set (buckets h ! hashval h k n)"
    by (auto simp: find_Some_iff)
  then have eq: "mset (it # remove1 it (buckets h ! hashval h k n)) = mset (buckets h ! hashval h k n)"
    by simp
  have "mset (all_items (h\<lparr>buckets := (buckets h)[hashval h k n :=
      it # remove1 it (buckets h ! hashval h k n)]\<rparr>)) = mset (all_items h)"
    using all_items_update [OF assms, of k n "it # remove1 it (buckets h ! hashval h k n)"]
    unfolding eq by (rule add_right_imp_eq)
  then show ?thesis using Some by (simp add: get_hash_item_def Let_def)
qed

lemma all_items_del: "all_items (del_hash_item h it) = filter (\<lambda>x. item_addr x \<noteq> item_addr it) (all_items h)"
  by (simp add: all_items_def del_hash_item_def filter_concat)

lemma init_hash_ok:
  assumes "w \<le> 32" "reads_keylen func"
  shows "hash_ok (init_hash w func)"
proof -
  have "concat (replicate n []) = []" for n by (induction n) simp_all
  then show ?thesis
    unfolding hash_ok_def init_hash_def all_items_def hash_size_def using assms by auto
qed

lemma hash_ok_update:
  assumes "hash_ok h" "mset (all_items (h\<lparr>buckets := (buckets h)[hashval h k n := b]\<rparr>)) = M"
    and "\<And>it. it \<in> set b \<Longrightarrow> keylen it \<le> length (hkey it) \<and> hashval h (hkey it) (keylen it) = hashval h k n"
    and "\<And>xs. mset xs = M \<Longrightarrow> distinct (map item_key xs) \<and> distinct (map item_addr xs)"
  shows "hash_ok (h\<lparr>buckets := (buckets h)[hashval h k n := b]\<rparr>)"
proof -
  have "keylen it \<le> length (hkey it) \<and> hashval h (hkey it) (keylen it) = i"
    if "i < length (buckets h)" "it \<in> set ((buckets h)[hashval h k n := b] ! i)" for i it
    using assms(1,3) that by (cases "i = hashval h k n") (auto simp: hash_ok_def)
  then show ?thesis
    using assms(1) assms(4) [OF assms(2)] by (simp add: hash_ok_def)
qed

lemma get_hash_item_ok [wf_intros]:
  assumes "hash_ok h"
  shows "hash_ok (snd (get_hash_item h k n))"
proof (cases "find (item_matches k n) (buckets h ! hashval h k n)")
  case None
  then show ?thesis using assms by (simp add: get_hash_item_def Let_def)
next
  case (Some it)
  let ?b = "it # remove1 it (buckets h ! hashval h k n)"
  have it: "it \<in> set (buckets h ! hashval h k n)" using Some by (auto simp: find_Some_iff)
  have lt: "hashval h k n < length (buckets h)"
    using assms hashval_less by (auto simp: hash_ok_def)
  have eq: "snd (get_hash_item h k n) = h\<lparr>buckets := (buckets h)[hashval h k n := ?b]\<rparr>"
    using Some by (simp add: get_hash_item_def Let_def)
  have "hash_ok (h\<lparr>buckets := (buckets h)[hashval h k n := ?b]\<rparr>)"
  proof (rule hash_ok_update [OF assms])
    show "mset (all_items (h\<lparr>buckets := (buckets h)[hashval h k n := ?b]\<rparr>)) = mset (all_items h)"
      using mset_all_items_get [OF assms, of k n] eq by simp
    show "distinct (map item_key xs) \<and> distinct (map item_addr xs)"
      if "mset xs = mset (all_items h)" for xs
      using that assms distinct_map_mset [OF that] by (metis hash_ok_def)
    show "keylen x \<le> length (hkey x) \<and> hashval h (hkey x) (keylen x) = hashval h k n"
      if "x \<in> set ?b" for x
    proof -
      have "x \<in> set (buckets h ! hashval h k n)"
        using that it notin_set_remove1 by fastforce
      then show ?thesis using assms lt by (simp add: hash_ok_def)
    qed
  qed
  with eq show ?thesis by simp
qed

lemma add_hash_item_ok [wf_intros]:
  assumes "hash_ok h" "n \<le> length k" "hash_lookup h (take n k) = None" "addr \<notin> item_addr ` set (all_items h)"
  shows "hash_ok (add_hash_item h addr k n v)"
proof -
  let ?it = "\<lparr>item_addr = addr, hkey = k, keylen = n, hvalue = v\<rparr>"
  have lt: "hashval h k n < length (buckets h)"
    using assms hashval_less by (auto simp: hash_ok_def)
  have "hash_ok (h\<lparr>buckets := (buckets h)[hashval h k n := ?it # buckets h ! hashval h k n]\<rparr>)"
  proof (rule hash_ok_update [OF assms(1)])
    show "mset (all_items (h\<lparr>buckets := (buckets h)[hashval h k n := ?it # buckets h ! hashval h k n]\<rparr>))
        = mset (?it # all_items h)"
      using mset_all_items_add [OF assms(1), of addr k n v] by (simp add: add_hash_item_def Let_def)
    show "distinct (map item_key xs) \<and> distinct (map item_addr xs)"
      if "mset xs = mset (?it # all_items h)" for xs
    proof -
      have "item_key ?it \<notin> set (map item_key (all_items h))"
        using assms(1,3) hash_lookup_None_iff [of h "take n k"] by (simp add: item_key_def)
      moreover have "item_addr ?it \<notin> set (map item_addr (all_items h))"
        using assms(4) by simp
      moreover have "distinct (map item_key (all_items h))" "distinct (map item_addr (all_items h))"
        using assms(1) unfolding hash_ok_def by blast+
      ultimately have "distinct (map item_key (?it # all_items h))"
        "distinct (map item_addr (?it # all_items h))"
        unfolding list.map distinct.simps by blast+
      then show ?thesis
        by (simp only: distinct_map_mset [OF that, of item_key] distinct_map_mset [OF that, of item_addr])
    qed
    show "keylen x \<le> length (hkey x) \<and> hashval h (hkey x) (keylen x) = hashval h k n"
      if "x \<in> set (?it # buckets h ! hashval h k n)" for x
    proof (cases "x = ?it")
      case False
      then have "x \<in> set (buckets h ! hashval h k n)" using that by simp
      with assms(1) lt show ?thesis unfolding hash_ok_def by blast
    qed (use assms(2) in simp)
  qed
  then show ?thesis by (simp add: add_hash_item_def Let_def)
qed

lemma del_hash_item_ok [wf_intros]:
  assumes "hash_ok h"
  shows "hash_ok (del_hash_item h it)"
proof -
  have "distinct (map item_key (all_items (del_hash_item h it)))"
    "distinct (map item_addr (all_items (del_hash_item h it)))"
    using assms unfolding all_items_del by (simp_all add: hash_ok_def distinct_map_filter)
  moreover have "hashval (del_hash_item h it) k n = hashval h k n" for k n
    by (simp add: del_hash_item_def)
  ultimately show ?thesis
    using assms unfolding hash_ok_def by (simp add: del_hash_item_def)
qed


subsection \<open>The table as a dictionary\<close>

text \<open>
  What the clients of the table rely on, as an interface: \<open>look\<close> is the abstract lookup,
  \<open>look_mv\<close> the lookup that may reorganise the table, \<open>put\<close> adds an item under a key that is
  not there, \<open>del\<close> removes the item found under a key.
\<close>

locale dictionary =
  fixes ok :: "'h \<Rightarrow> bool"
    and fresh :: "nat \<Rightarrow> 'h \<Rightarrow> bool"
    and look :: "'h \<Rightarrow> string \<Rightarrow> 'i option"
    and val :: "'i \<Rightarrow> 'v"
    and look_mv :: "'h \<Rightarrow> string \<Rightarrow> 'i option \<times> 'h"
    and put :: "'h \<Rightarrow> nat \<Rightarrow> string \<Rightarrow> 'v \<Rightarrow> 'h"
    and del :: "'h \<Rightarrow> 'i \<Rightarrow> 'h"
  assumes look_mv_fst: "ok h \<Longrightarrow> fst (look_mv h k) = look h k"
    and look_mv_ok: "ok h \<Longrightarrow> ok (snd (look_mv h k))"
    and look_mv_look: "ok h \<Longrightarrow> look (snd (look_mv h k)) k' = look h k'"
    and put_ok: "ok h \<Longrightarrow> look h k = None \<Longrightarrow> fresh a h \<Longrightarrow> ok (put h a k v)"
    and put_look: "ok h \<Longrightarrow> look h k = None \<Longrightarrow> fresh a h \<Longrightarrow>
      map_option val (look (put h a k v) k') = (if k' = k then Some v else map_option val (look h k'))"
    and del_ok: "ok h \<Longrightarrow> ok (del h i)"
    and del_look: "ok h \<Longrightarrow> look h k = Some i \<Longrightarrow>
      look (del h i) k' = (if k' = k then None else look h k')"
begin

definition absmap :: "'h \<Rightarrow> string \<Rightarrow> 'v option" where
  "absmap h k = map_option val (look h k)"

lemma absmap_mv: "ok h \<Longrightarrow> absmap (snd (look_mv h k)) = absmap h"
  by (rule ext) (simp add: absmap_def look_mv_look)

lemma absmap_put:
  "ok h \<Longrightarrow> absmap h k = None \<Longrightarrow> fresh a h \<Longrightarrow> absmap (put h a k v) = (absmap h)(k \<mapsto> v)"
  by (rule ext) (simp add: absmap_def put_look)

lemma absmap_del:
  "ok h \<Longrightarrow> look h k = Some i \<Longrightarrow> absmap (del h i) = (absmap h)(k := None)"
  by (rule ext) (simp add: absmap_def del_look)

lemma absmap_put_del:
  assumes "ok h" "absmap h k = None" "fresh a h" "look (put h a k v) k = Some i"
  shows "absmap (del (put h a k v) i) = absmap h"
proof -
  have "look h k = None" using assms(2) by (simp add: absmap_def)
  then have "ok (put h a k v)" using assms(1,3) put_ok by blast
  then have "absmap (del (put h a k v) i) = (absmap (put h a k v))(k := None)"
    using assms(4) absmap_del by blast
  then show ?thesis using absmap_put [OF assms(1-3)] assms(2) by (simp add: fun_upd_idem)
qed

end

definition hash_fresh :: "nat \<Rightarrow> 'v hash \<Rightarrow> bool" where
  "hash_fresh a h \<longleftrightarrow> a \<notin> item_addr ` set (all_items h)"

abbreviation hash_add :: "'v hash \<Rightarrow> nat \<Rightarrow> string \<Rightarrow> 'v \<Rightarrow> 'v hash" where
  "hash_add h a k v \<equiv> add_hash_item h a k (length k) v"

abbreviation hash_get :: "'v hash \<Rightarrow> string \<Rightarrow> 'v hash_item option \<times> 'v hash" where
  "hash_get h k \<equiv> get_hash_item h k (length k)"

lemma set_all_items_get:
  "hash_ok h \<Longrightarrow> set (all_items (snd (get_hash_item h k n))) = set (all_items h)"
  using mset_all_items_get mset_eq_setD by blast

lemma set_all_items_add:
  "hash_ok h \<Longrightarrow> set (all_items (add_hash_item h a k n v))
     = insert \<lparr>item_addr = a, hkey = k, keylen = n, hvalue = v\<rparr> (set (all_items h))"
  using mset_all_items_add [of h a k n v] by (metis set_mset_add_mset_insert set_mset_mset)

lemma hash_add_lookup:
  assumes "hash_ok h" "hash_lookup h k = None" "hash_fresh a h"
  shows "hash_lookup (hash_add h a k v) k' = (if k' = k
    then Some \<lparr>item_addr = a, hkey = k, keylen = length k, hvalue = v\<rparr> else hash_lookup h k')"
proof -
  let ?h = "hash_add h a k v"
  have ok: "hash_ok ?h"
    using assms by (intro add_hash_item_ok) (simp_all add: hash_fresh_def)
  have items: "set (all_items ?h) = insert \<lparr>item_addr = a, hkey = k, keylen = length k, hvalue = v\<rparr> (set (all_items h))"
    using assms(1) by (rule set_all_items_add)
  show ?thesis
  proof (cases "k' = k")
    case True
    then show ?thesis using hash_lookup_iff [OF ok] items by (simp add: item_key_def)
  next
    case False
    have "hash_lookup ?h k' = Some it \<longleftrightarrow> hash_lookup h k' = Some it" for it
      unfolding hash_lookup_iff [OF ok] hash_lookup_iff [OF assms(1)] items
      using False by (auto simp: item_key_def)
    then show ?thesis using False by (metis option.exhaust)
  qed
qed

lemma hash_del_lookup:
  assumes "hash_ok h" "hash_lookup h k = Some it"
  shows "hash_lookup (del_hash_item h it) k' = (if k' = k then None else hash_lookup h k')"
proof -
  have ok: "hash_ok (del_hash_item h it)" using assms(1) by (rule del_hash_item_ok)
  have it: "it \<in> set (all_items h)" "item_key it = k"
    using assms hash_lookup_iff by blast+
  have inj: "inj_on item_addr (set (all_items h))" "inj_on item_key (set (all_items h))"
    using assms(1) by (simp_all add: hash_ok_def distinct_map)
  then have "item_addr x \<noteq> item_addr it \<longleftrightarrow> item_key x \<noteq> k" if "x \<in> set (all_items h)" for x
    using that it by (metis inj_onD)
  then have "hash_lookup (del_hash_item h it) k' = Some x \<longleftrightarrow> k' \<noteq> k \<and> hash_lookup h k' = Some x" for x
    unfolding hash_lookup_iff [OF ok] hash_lookup_iff [OF assms(1)] all_items_del by auto
  then show ?thesis by (metis option.exhaust)
qed

interpretation hd: dictionary hash_ok hash_fresh hash_lookup hvalue hash_get hash_add del_hash_item
proof unfold_locales
  fix h :: "'a hash" and k k' :: string and a :: nat and v :: 'a and i :: "'a hash_item"
  show "fst (hash_get h k) = hash_lookup h k" by (simp add: hash_lookup_def)
  assume ok: "hash_ok h"
  show "hash_ok (snd (hash_get h k))" using ok by (rule get_hash_item_ok)
  show "hash_lookup (snd (hash_get h k)) k' = hash_lookup h k'"
    using ok by (intro hash_lookup_cong) (simp_all add: get_hash_item_ok set_all_items_get)
  show "hash_ok (del_hash_item h i)" using ok by (rule del_hash_item_ok)
  show "hash_lookup h k = Some i \<Longrightarrow>
    hash_lookup (del_hash_item h i) k' = (if k' = k then None else hash_lookup h k')"
    using ok by (rule hash_del_lookup)
  assume k: "hash_lookup h k = None" and a: "hash_fresh a h"
  show "hash_ok (hash_add h a k v)"
    using ok k a by (intro add_hash_item_ok) (simp_all add: hash_fresh_def)
  show "map_option hvalue (hash_lookup (hash_add h a k v) k')
      = (if k' = k then Some v else map_option hvalue (hash_lookup h k'))"
    using ok k a by (simp add: hash_add_lookup)
qed


lemma strhash_reads_keylen: "reads_keylen strhash"
  by (simp add: reads_keylen_def strhash_def)

lemma init_hash8_ok: "hash_ok init_hash8"
  unfolding init_hash8_def by (rule init_hash_ok) (simp_all add: strhash_reads_keylen)

lemma all_items_init_hash8 [simp]: "all_items init_hash8 = []"
  by (simp add: all_items_def init_hash8_def init_hash_def concat_eq_Nil_conv)

lemma init_hash8_abs: "hash_ok (init_hash8 :: 'a hash) \<and> hd.absmap (init_hash8 :: 'a hash) = Map.empty"
proof -
  have "hash_lookup (init_hash8 :: 'a hash) k = None" for k
    using hash_lookup_None_iff [OF init_hash8_ok, of k] by simp
  then show ?thesis by (simp add: init_hash8_ok hd.absmap_def fun_eq_iff)
qed

subsection \<open>Any use of the table\<close>

text \<open>
  A client may also add an item under a key that is there already, as the bookmarks do, and
  delete any item. The items of one key form a stack: the search finds the one on top. The
  invariant is \<open>hash_ok\<close> without its last line, which tells the keys apart.
\<close>

definition hash_shape :: "'v hash \<Rightarrow> bool" where
  "hash_shape h \<longleftrightarrow> length (buckets h) = hash_size (hwidth h) \<and> reads_keylen (hash_func h)
     \<and> (\<forall>i < length (buckets h). \<forall>it \<in> set (buckets h ! i).
          keylen it \<le> length (hkey it) \<and> hashval h (hkey it) (keylen it) = i)"

definition hash_stack :: "'v hash \<Rightarrow> string \<Rightarrow> (nat \<times> 'v) list" where
  "hash_stack h k = map (\<lambda>it. (item_addr it, hvalue it))
     (filter (\<lambda>it. item_key it = k) (buckets h ! hashval h k (length k)))"

lemma find_to_front:
  "find P xs = Some x \<Longrightarrow> filter P (x # remove1 x xs) = filter P xs"
  by (induction xs) (auto split: if_splits)

lemma filter_remove1_other: "\<not> Q x \<Longrightarrow> filter Q (remove1 x xs) = filter Q xs"
  by (induction xs) auto

lemma hash_shape_bucket:
  assumes "hash_shape h" "n \<le> length k"
  shows "hashval h k n < length (buckets h)" "hashval h (take n k) n = hashval h k n"
    "it \<in> set (buckets h ! hashval h k n) \<Longrightarrow> item_matches k n it \<longleftrightarrow> item_key it = take n k"
proof -
  show lt: "hashval h k n < length (buckets h)" using assms(1) hashval_less [of h k n] by (simp add: hash_shape_def)
  show "hashval h (take n k) n = hashval h k n" using assms(1) hashval_take by (auto simp: hash_shape_def)
  assume "it \<in> set (buckets h ! hashval h k n)"
  then have len: "keylen it \<le> length (hkey it)" using assms(1) lt by (simp add: hash_shape_def)
  show "item_matches k n it \<longleftrightarrow> item_key it = take n k"
  proof
    assume m: "item_key it = take n k"
    have "length (item_key it) = length (take n k)" unfolding m by (rule refl)
    then have "keylen it = n" using len assms(2) by (simp add: item_key_def)
    then show "item_matches k n it" using m by (simp add: item_matches_def item_key_def)
  qed (auto simp: item_matches_def item_key_def)
qed

lemma hash_shape_update:
  assumes "hash_shape h" "\<And>it. it \<in> set b \<Longrightarrow> keylen it \<le> length (hkey it) \<and> hashval h (hkey it) (keylen it) = i"
  shows "hash_shape (h\<lparr>buckets := (buckets h)[i := b]\<rparr>)"
  using assms unfolding hash_shape_def
proof (intro conjI allI impI)
  fix j assume j: "j < length (buckets (h\<lparr>buckets := (buckets h)[i := b]\<rparr>))"
  show "\<forall>it \<in> set (buckets (h\<lparr>buckets := (buckets h)[i := b]\<rparr>) ! j). keylen it \<le> length (hkey it)
      \<and> hashval (h\<lparr>buckets := (buckets h)[i := b]\<rparr>) (hkey it) (keylen it) = j"
    using assms j by (cases "j = i") (simp_all add: hash_shape_def)
qed simp_all

lemma hash_stack_get:
  assumes h: "hash_shape h" and n: "n \<le> length k"
  shows "hash_shape (snd (get_hash_item h k n))"
    and "hash_stack (snd (get_hash_item h k n)) k' = hash_stack h k'"
    and "map_option (\<lambda>it. (item_addr it, hvalue it)) (fst (get_hash_item h k n))
      = (case hash_stack h (take n k) of [] \<Rightarrow> None | x # xs \<Rightarrow> Some x)"
proof -
  let ?i = "hashval h k n" and ?b = "buckets h ! hashval h k n"
  note hb = hash_shape_bucket [OF h n]
  have len: "length (take n k) = n" using n by simp
  have fc: "find (item_matches k n) ?b = find (\<lambda>it. item_key it = take n k) ?b"
    by (rule find_cong) (use hb(3) in auto)
  have hd: "find P xs = (case filter P xs of [] \<Rightarrow> None | x # ys \<Rightarrow> Some x)" for P :: "'a hash_item \<Rightarrow> bool" and xs
    by (induction xs) auto
  show "map_option (\<lambda>it. (item_addr it, hvalue it)) (fst (get_hash_item h k n))
      = (case hash_stack h (take n k) of [] \<Rightarrow> None | x # xs \<Rightarrow> Some x)"
  proof -
    have "fst (get_hash_item h k n) = find (item_matches k n) ?b" by (simp add: get_hash_item_def Let_def split: option.split)
    also have "\<dots> = (case filter (\<lambda>it. item_key it = take n k) ?b of [] \<Rightarrow> None | x # ys \<Rightarrow> Some x)"
      unfolding fc by (rule hd)
    finally show ?thesis unfolding hash_stack_def len hb(2) by (simp split: list.split)
  qed
  have "hash_shape (snd (get_hash_item h k n)) \<and> hash_stack (snd (get_hash_item h k n)) k' = hash_stack h k'"
  proof (cases "find (item_matches k n) ?b")
    case (Some it)
    then have it: "it \<in> set ?b" "item_key it = take n k" using fc by (auto simp: find_Some_iff)
    have eq: "snd (get_hash_item h k n) = h\<lparr>buckets := (buckets h)[?i := it # remove1 it ?b]\<rparr>"
      using Some by (simp add: get_hash_item_def Let_def)
    have sub: "set (it # remove1 it ?b) \<subseteq> set ?b" using it(1) set_remove1_subset [of it ?b] by auto
    have "hash_shape (h\<lparr>buckets := (buckets h)[?i := it # remove1 it ?b]\<rparr>)"
      by (rule hash_shape_update [OF h]) (use h hb(1) sub in \<open>auto simp: hash_shape_def\<close>)
    moreover have "filter (\<lambda>it. item_key it = k') (it # remove1 it ?b) = filter (\<lambda>it. item_key it = k') ?b"
      using find_to_front [of "\<lambda>it. item_key it = take n k" ?b it] Some fc it(2)
        filter_remove1_other [of "\<lambda>it. item_key it = k'" it ?b]
      by (cases "k' = take n k") auto
    ultimately show ?thesis
      using hb(1) unfolding eq by (cases "hashval h k' (length k') = ?i") (auto simp: hash_stack_def)
  qed (use h in \<open>simp add: get_hash_item_def Let_def\<close>)
  then show "hash_shape (snd (get_hash_item h k n))" "hash_stack (snd (get_hash_item h k n)) k' = hash_stack h k'"
    by blast+
qed

lemma hash_stack_add:
  assumes h: "hash_shape h" and n: "n \<le> length k"
  shows "hash_shape (add_hash_item h a k n v)"
    and "hash_stack (add_hash_item h a k n v) k' = (if k' = take n k then (a, v) # hash_stack h k' else hash_stack h k')"
proof -
  note hb = hash_shape_bucket [OF h n]
  have eq: "add_hash_item h a k n v = h\<lparr>buckets := (buckets h)[hashval h k n :=
    \<lparr>item_addr = a, hkey = k, keylen = n, hvalue = v\<rparr> # buckets h ! hashval h k n]\<rparr>"
    by (simp add: add_hash_item_def Let_def)
  show "hash_shape (add_hash_item h a k n v)" unfolding eq
    by (rule hash_shape_update [OF h]) (use h hb(1) n in \<open>auto simp: hash_shape_def\<close>)
  have "hashval h k' (length k') = hashval h k n" if "k' = take n k" using that hb(2) n by simp
  then show "hash_stack (add_hash_item h a k n v) k' = (if k' = take n k then (a, v) # hash_stack h k' else hash_stack h k')"
    using hb(1) unfolding eq by (auto simp: hash_stack_def item_key_def nth_list_update)
qed

lemma hash_stack_del:
  assumes h: "hash_shape h"
  shows "hash_shape (del_hash_item h it)"
    and "hash_stack (del_hash_item h it) k = filter (\<lambda>(a, v). a \<noteq> item_addr it) (hash_stack h k)"
proof -
  have hv: "hashval (del_hash_item h it) k n = hashval h k n" for k n by (simp add: del_hash_item_def)
  show "hash_shape (del_hash_item h it)" using h unfolding hash_shape_def hv by (simp add: del_hash_item_def)
  have "hashval h k (length k) < length (buckets h)" using h hashval_less [of h k] by (simp add: hash_shape_def)
  then show "hash_stack (del_hash_item h it) k = filter (\<lambda>(a, v). a \<noteq> item_addr it) (hash_stack h k)"
    unfolding hash_stack_def hv
    by (simp add: del_hash_item_def filter_map comp_def conj_commute)
qed

text \<open>
  The runs of a client: the table, and for each key the addresses and values of the items put
  under it and not deleted since, the last one first. The key of a call is the first \<open>n\<close>
  characters of a string.
\<close>

inductive hash_run :: "'v hash \<Rightarrow> (string \<Rightarrow> (nat \<times> 'v) list) \<Rightarrow> bool" where
  hr_init: "hash_run init_hash8 (\<lambda>_. [])"
| hr_get: "hash_run h m \<Longrightarrow> n \<le> length k \<Longrightarrow> hash_run (snd (get_hash_item h k n)) m"
| hr_add: "hash_run h m \<Longrightarrow> n \<le> length k \<Longrightarrow>
    hash_run (add_hash_item h a k n v) (m(take n k := (a, v) # m (take n k)))"
| hr_del: "hash_run h m \<Longrightarrow> hash_run (del_hash_item h it) (\<lambda>k. filter (\<lambda>(a, v). a \<noteq> item_addr it) (m k))"

lemma init_hash8_shape: "hash_shape (init_hash8 :: 'a hash)" "hash_stack (init_hash8 :: 'a hash) k = []"
proof -
  show "hash_shape (init_hash8 :: 'a hash)" using init_hash8_ok unfolding hash_ok_def hash_shape_def by blast
  have "buckets (init_hash8 :: 'a hash) ! hashval (init_hash8 :: 'a hash) k (length k) = []"
    using hashval_less [of "init_hash8 :: 'a hash" k "length k"]
    unfolding init_hash8_def init_hash_def by (simp only: hash.simps nth_replicate)
  then show "hash_stack (init_hash8 :: 'a hash) k = []" by (simp add: hash_stack_def)
qed

lemma hash_run_stack: "hash_run h m \<Longrightarrow> hash_shape h \<and> hash_stack h = m"
proof (induction rule: hash_run.induct)
  case hr_init
  then show ?case by (simp add: init_hash8_shape fun_eq_iff)
next
  case (hr_get h m n k)
  then show ?case using hash_stack_get(1,2) [of h n k] by (auto simp: fun_eq_iff)
next
  case (hr_add h m n k a v)
  then show ?case using hash_stack_add [of h n k] by (auto simp: fun_eq_iff)
next
  case (hr_del h m it)
  then show ?case using hash_stack_del [of h it] by (auto simp: fun_eq_iff)
qed

text \<open>
  C2: in any sequence of searches, insertions (also under a key that is there) and deletions of
  any items, from the empty table on, a search returns the item put last under the key and not
  deleted since, and nothing when there is none; the move to front rule never changes the answer
  of this or a later search.
\<close>

theorem hash_refines_stacks:
  assumes "hash_run h m" "n \<le> length k" "n' \<le> length k'"
  shows "map_option (\<lambda>it. (item_addr it, hvalue it)) (fst (get_hash_item h k n))
      = (case m (take n k) of [] \<Rightarrow> None | x # xs \<Rightarrow> Some x)
    \<and> map_option (\<lambda>it. (item_addr it, hvalue it)) (fst (get_hash_item (snd (get_hash_item h k' n')) k n))
      = (case m (take n k) of [] \<Rightarrow> None | x # xs \<Rightarrow> Some x)"
proof -
  note r = hash_run_stack [OF assms(1)] hash_run_stack [OF hr_get [OF assms(1,3)]]
  show ?thesis
    using hash_stack_get(3) [of h n k] hash_stack_get(3) [of "snd (get_hash_item h k' n')" n k] assms(2) r by simp
qed

definition two_bookmarks :: "nat hash" where
  "two_bookmarks = add_hash_item (add_hash_item init_hash8 1 ''abc'' 3 7) 2 ''abcd'' 3 8"

theorem hash_refines_stacks_witness:
  "map_option hvalue (fst (get_hash_item two_bookmarks ''abc'' 3)) = Some 8
   \<and> map_option hvalue (fst (get_hash_item (snd (get_hash_item two_bookmarks ''x'' 1)) ''abc'' 3)) = Some 8"
proof -
  have "hash_run two_bookmarks (((\<lambda>_. [])(take 3 ''abc'' := [(1, 7)]))(take 3 ''abcd'' := [(2, 8), (1, 7)]))"
    using hr_add [OF hr_add [OF hr_init, of 3 "''abc''" 1 "7 :: nat"], of 3 "''abcd''" 2 8] by (simp add: two_bookmarks_def)
  from hash_refines_stacks [OF this, of 3 "''abc''" 1 "''x''"] show ?thesis
    by (auto simp: map_option_case split: option.splits)
qed

end
