(* ===== verification/Uri_Cache.thy ===== *)
theory Uri_Cache
  imports Uri_Normalize Hash
begin

text \<open>
  The URI cache of \<open>src/protocol/uri.c\<close>: every URI string in use has one shared
  \<open>struct uri_cache_entry\<close> with a reference count, found through a hash table that exists
  while the cache itself is referenced. An entry is a number, its address; the contents of the
  entries are the map \<open>uentries\<close>, so the aliasing of the references is explicit. The key of a
  hash item points into the entry, whose string the parser may have cut at \<open>POSITION_CHAR\<close>.
\<close>

record uri_cache =
  umap :: "nat hash"
  uentries :: "nat \<Rightarrow> (uri \<times> nat) option"
  ucount :: nat
  unext :: nat

definition uri_cache_init :: uri_cache where
  "uri_cache_init = \<lparr>umap = init_hash8, uentries = (\<lambda>_. None), ucount = 0, unext = 0\<rparr>"

text \<open>The bytes of the entry's string after parsing: a position mark is overwritten with NUL.\<close>

definition cut_string :: "string \<Rightarrow> string" where
  "cut_string s = takeWhile (\<lambda>c. c \<noteq> POSITION_CHAR) s
     @ (case dropWhile (\<lambda>c. c \<noteq> POSITION_CHAR) s of [] \<Rightarrow> [] | _ # r \<Rightarrow> NUL # r)"

definition get_uri_cache_entry ::
  "(string \<Rightarrow> bool) \<Rightarrow> string \<Rightarrow> uri_cache \<Rightarrow> nat option \<times> uri_cache" where
  "get_uri_cache_entry up s c =
     (if s = [] then (None, c)
      else case hash_get (umap c) s of
        (Some item, h) \<Rightarrow> (Some (hvalue item), c\<lparr>umap := h\<rparr>)
      | (None, h) \<Rightarrow>
          (case parse_uri up s of (err, u) \<Rightarrow>
             if err \<noteq> URI_ERRNO_OK then (None, c\<lparr>umap := h\<rparr>)
             else
               let e = unext c
               in (Some e, c\<lparr>umap := add_hash_item h e (cut_string s) (length s) e,
                             uentries := (uentries c)(e \<mapsto> (u, 0)),
                             ucount := ucount c + 1, unext := e + 1\<rparr>)))"

text \<open>\<open>get_uri(string, 0)\<close>: the entry with one more reference.\<close>

definition get_uri :: "(string \<Rightarrow> bool) \<Rightarrow> string \<Rightarrow> uri_cache \<Rightarrow> nat option \<times> uri_cache" where
  "get_uri up s c0 =
     (let c1 = (if ucount c0 = 0 then c0\<lparr>umap := init_hash8\<rparr> else c0)
      in case get_uri_cache_entry up s c1 of
           (None, c) \<Rightarrow> (None, c)
         | (Some e, c) \<Rightarrow>
             (Some e, c\<lparr>uentries := (uentries c)(e := map_option (\<lambda>(u, n). (u, n + 1)) (uentries c e))\<rparr>))"

definition get_uri_reference :: "nat \<Rightarrow> uri_cache \<Rightarrow> uri_cache" where
  "get_uri_reference e c =
     c\<lparr>uentries := (uentries c)(e := map_option (\<lambda>(u, n). (u, n + 1)) (uentries c e))\<rparr>"

text \<open>
  \<open>done_uri\<close> on a live entry. When the string of the entry is not found in the table, the code
  dereferences NULL: \<open>None\<close>.
\<close>

definition done_uri :: "nat \<Rightarrow> uri_cache \<Rightarrow> uri_cache option" where
  "done_uri e c =
     (case uentries c e of
        None \<Rightarrow> None
      | Some (u, n) \<Rightarrow>
          if n > 1 then Some (c\<lparr>uentries := (uentries c)(e \<mapsto> (u, n - 1))\<rparr>)
          else case hash_get (umap c) (ustring u) of
            (None, h) \<Rightarrow> None
          | (Some item, h) \<Rightarrow>
              Some (c\<lparr>umap := del_hash_item h item, uentries := (uentries c)(hvalue item := None),
                      ucount := ucount c - 1\<rparr>))"

subsection \<open>The cache as a table of reference counts\<close>

definition live_map :: "uri_cache \<Rightarrow> nat hash" where
  "live_map c = (if ucount c = 0 then init_hash8 else umap c)"

definition refs :: "uri_cache \<Rightarrow> string \<Rightarrow> nat option" where
  "refs c s = (case hd.absmap (live_map c) s of
     None \<Rightarrow> None | Some e \<Rightarrow> map_option snd (uentries c e))"

definition cache_ok :: "(string \<Rightarrow> bool) \<Rightarrow> uri_cache \<Rightarrow> bool" where
  "cache_ok up c \<longleftrightarrow>
     hash_ok (live_map c)
     \<and> (\<forall>s e. hd.absmap (live_map c) s = Some e \<longrightarrow>
          (\<exists>u n. uentries c e = Some (u, n) \<and> ustring u = s \<and> 0 < n \<and> parse_uri up s = (URI_ERRNO_OK, u)))
     \<and> (\<forall>e u n. uentries c e = Some (u, n) \<longrightarrow> hd.absmap (live_map c) (ustring u) = Some e)
     \<and> (\<forall>e. unext c \<le> e \<longrightarrow> uentries c e = None \<and> hash_fresh e (live_map c))
     \<and> finite (dom (hd.absmap (live_map c))) \<and> card (dom (hd.absmap (live_map c))) = ucount c"

lemma absmap_init [simp]: "hd.absmap init_hash8 = Map.empty"
  using init_hash8_abs by blast

lemma cache_init_ok: "cache_ok up uri_cache_init"
  by (simp add: cache_ok_def live_map_def uri_cache_init_def init_hash8_ok hash_fresh_def)

lemma cut_string_id: "POSITION_CHAR \<notin> set s \<Longrightarrow> cut_string s = s"
proof -
  assume "POSITION_CHAR \<notin> set s"
  then have "takeWhile (\<lambda>c. c \<noteq> POSITION_CHAR) s = s" "dropWhile (\<lambda>c. c \<noteq> POSITION_CHAR) s = []"
    by (auto simp: takeWhile_eq_all_conv dropWhile_eq_Nil_conv)
  then show ?thesis by (simp only: cut_string_def list.case append_Nil2)
qed

text \<open>What \<open>get_uri\<close> does once the table exists, in terms of the dictionary.\<close>

lemma get_entry_found:
  assumes "hash_ok (umap c)" "hd.absmap (umap c) s = Some e" "s \<noteq> []"
  shows "\<exists>h. get_uri_cache_entry up s c = (Some e, c\<lparr>umap := h\<rparr>) \<and> hash_ok h
    \<and> hd.absmap h = hd.absmap (umap c) \<and> (\<forall>a. hash_fresh a h = hash_fresh a (umap c))"
proof -
  obtain it where it: "hash_lookup (umap c) s = Some it" "hvalue it = e"
    using assms(2) by (auto simp: hd.absmap_def)
  then obtain h where g: "hash_get (umap c) s = (Some it, h)"
    using hd.look_mv_fst [OF assms(1), of s] by (metis prod.collapse)
  have "hash_ok h" "hd.absmap h = hd.absmap (umap c)" "set (all_items h) = set (all_items (umap c))"
    using hd.look_mv_ok [OF assms(1), of s] hd.absmap_mv [OF assms(1), of s]
      set_all_items_get [OF assms(1), of s "length s"] g by simp_all
  then show ?thesis
    using g it(2) assms(3) by (intro exI [of _ h]) (simp add: get_uri_cache_entry_def hash_fresh_def)
qed

lemma get_entry_new:
  assumes "hash_ok (umap c)" "hd.absmap (umap c) s = None" "s \<noteq> []" "POSITION_CHAR \<notin> set s"
    and "parse_uri up s = (URI_ERRNO_OK, u)" "hash_fresh (unext c) (umap c)"
  shows "\<exists>h. get_uri_cache_entry up s c = (Some (unext c), c\<lparr>umap := h,
      uentries := (uentries c)(unext c \<mapsto> (u, 0)), ucount := ucount c + 1, unext := unext c + 1\<rparr>)
    \<and> hash_ok h \<and> hd.absmap h = (hd.absmap (umap c))(s \<mapsto> unext c)
    \<and> (\<forall>a. hash_fresh a h \<longleftrightarrow> hash_fresh a (umap c) \<and> a \<noteq> unext c)"
proof -
  have "hash_lookup (umap c) s = None" using assms(2) by (simp add: hd.absmap_def)
  then have g: "hash_get (umap c) s = (None, umap c)"
    using hd.look_mv_fst [OF assms(1), of s]
    by (auto simp: get_hash_item_def Let_def split: option.splits)
  let ?h = "hash_add (umap c) (unext c) s (unext c)"
  have "hash_ok ?h"
    by (rule hd.put_ok [OF assms(1) \<open>hash_lookup (umap c) s = None\<close> assms(6)])
  moreover have "hd.absmap ?h = (hd.absmap (umap c))(s \<mapsto> unext c)"
    by (rule hd.absmap_put [OF assms(1,2,6)])
  moreover have "hash_fresh a ?h \<longleftrightarrow> hash_fresh a (umap c) \<and> a \<noteq> unext c" for a
    unfolding hash_fresh_def set_all_items_add [OF assms(1)] by auto
  moreover have "get_uri_cache_entry up s c = (Some (unext c), c\<lparr>umap := ?h,
      uentries := (uentries c)(unext c \<mapsto> (u, 0)), ucount := ucount c + 1, unext := unext c + 1\<rparr>)"
    using g assms(3-5) by (simp add: get_uri_cache_entry_def cut_string_id Let_def)
  ultimately show ?thesis by blast
qed


lemma live_map_prepared:
  "umap (if ucount c = 0 then c\<lparr>umap := init_hash8\<rparr> else c) = live_map c"
  by (simp add: live_map_def)

lemma prepared_simps [simp]:
  "uentries (if ucount c = 0 then c\<lparr>umap := h\<rparr> else c) = uentries c"
  "ucount (if ucount c = 0 then c\<lparr>umap := h\<rparr> else c) = ucount c"
  "unext (if ucount c = 0 then c\<lparr>umap := h\<rparr> else c) = unext c"
  by simp_all

lemma cache_okD:
  assumes "cache_ok up c"
  shows "hash_ok (live_map c)"
    "hd.absmap (live_map c) s = Some e \<Longrightarrow>
      \<exists>u n. uentries c e = Some (u, n) \<and> ustring u = s \<and> 0 < n \<and> parse_uri up s = (URI_ERRNO_OK, u)"
    "uentries c e = Some (u, n) \<Longrightarrow> hd.absmap (live_map c) (ustring u) = Some e"
    "unext c \<le> e \<Longrightarrow> uentries c e = None \<and> hash_fresh e (live_map c)"
    "finite (dom (hd.absmap (live_map c)))" "card (dom (hd.absmap (live_map c))) = ucount c"
  using assms unfolding cache_ok_def by blast+

text \<open>The state after a successful \<open>get_uri\<close>, with the cache known to be alive.\<close>

lemma get_uri_found:
  assumes ok: "cache_ok up c" and m: "hd.absmap (live_map c) s = Some e" and s: "s \<noteq> []"
  shows "\<exists>c' u n. get_uri up s c = (Some e, c') \<and> uentries c e = Some (u, n)
    \<and> live_map c' = umap c' \<and> hash_ok (umap c') \<and> hd.absmap (umap c') = hd.absmap (live_map c)
    \<and> (\<forall>a. hash_fresh a (umap c') = hash_fresh a (live_map c))
    \<and> uentries c' = (uentries c)(e \<mapsto> (u, n + 1)) \<and> ucount c' = ucount c \<and> unext c' = unext c"
proof -
  let ?c = "if ucount c = 0 then c\<lparr>umap := init_hash8\<rparr> else c"
  obtain h where h: "get_uri_cache_entry up s ?c = (Some e, ?c\<lparr>umap := h\<rparr>)" "hash_ok h"
    "hd.absmap h = hd.absmap (live_map c)" "\<forall>a. hash_fresh a h = hash_fresh a (live_map c)"
    using get_entry_found [of ?c s e up] cache_okD(1) [OF ok] m s unfolding live_map_prepared by blast
  obtain u n where e: "uentries c e = Some (u, n)" using cache_okD(2) [OF ok m] by blast
  have "ucount c \<noteq> 0" using m by (auto simp: live_map_def split: if_splits)
  then show ?thesis
    using h e unfolding get_uri_def Let_def by (auto simp: live_map_def)
qed

lemma get_uri_new:
  assumes ok: "cache_ok up c" and m: "hd.absmap (live_map c) s = None" and s: "s \<noteq> []" "POSITION_CHAR \<notin> set s"
    and p: "parse_uri up s = (URI_ERRNO_OK, u)"
  shows "\<exists>c'. get_uri up s c = (Some (unext c), c')
    \<and> live_map c' = umap c' \<and> hash_ok (umap c') \<and> hd.absmap (umap c') = (hd.absmap (live_map c))(s \<mapsto> unext c)
    \<and> (\<forall>a. hash_fresh a (umap c') \<longleftrightarrow> hash_fresh a (live_map c) \<and> a \<noteq> unext c)
    \<and> uentries c' = (uentries c)(unext c \<mapsto> (u, 1)) \<and> ucount c' = ucount c + 1 \<and> unext c' = unext c + 1"
proof -
  let ?c = "if ucount c = 0 then c\<lparr>umap := init_hash8\<rparr> else c"
  have fresh: "hash_fresh (unext c) (live_map c)" using cache_okD(4) [OF ok] by blast
  obtain h where h: "get_uri_cache_entry up s ?c = (Some (unext c), ?c\<lparr>umap := h,
      uentries := (uentries c)(unext c \<mapsto> (u, 0)), ucount := ucount c + 1, unext := unext c + 1\<rparr>)"
    "hash_ok h" "hd.absmap h = (hd.absmap (live_map c))(s \<mapsto> unext c)"
    "\<forall>a. hash_fresh a h \<longleftrightarrow> hash_fresh a (live_map c) \<and> a \<noteq> unext c"
    using get_entry_new [of ?c s up u] cache_okD(1) [OF ok] m s p fresh
    unfolding live_map_prepared prepared_simps by blast
  show ?thesis
    using h unfolding get_uri_def Let_def h(1) by (simp add: live_map_def)
qed


lemma refs_iff:
  assumes "cache_ok up c"
  shows "refs c s = Some n \<longleftrightarrow> (\<exists>e u. uentries c e = Some (u, n) \<and> ustring u = s)"
proof
  assume "refs c s = Some n"
  then obtain e where e: "hd.absmap (live_map c) s = Some e" "map_option snd (uentries c e) = Some n"
    by (auto simp: refs_def split: option.splits)
  then obtain u m where "uentries c e = Some (u, m)" "ustring u = s" using cache_okD(2) [OF assms e(1)] by blast
  with e(2) show "\<exists>e u. uentries c e = Some (u, n) \<and> ustring u = s" by auto
next
  assume "\<exists>e u. uentries c e = Some (u, n) \<and> ustring u = s"
  then obtain e u where e: "uentries c e = Some (u, n)" "ustring u = s" by blast
  then have "hd.absmap (live_map c) s = Some e" using cache_okD(3) [OF assms e(1)] by simp
  then show "refs c s = Some n" using e by (simp add: refs_def)
qed

lemma refs_None_iff:
  "cache_ok up c \<Longrightarrow> refs c s = None \<longleftrightarrow> hd.absmap (live_map c) s = None"
  using cache_okD(2) [of up c s] by (auto simp: refs_def split: option.splits)

lemma cache_inj:
  assumes "cache_ok up c" "hd.absmap (live_map c) s = Some e" "hd.absmap (live_map c) s' = Some e"
  shows "s' = s"
  using cache_okD(2) [OF assms(1,2)] cache_okD(2) [OF assms(1,3)] by auto

text \<open>Changing the count of one entry, as taking and giving up a reference both do.\<close>

lemma cache_ok_update:
  assumes ok: "cache_ok up c" and e: "uentries c e = Some (u, n)" and m: "0 < m"
    and h: "hash_ok (live_map c')" "hd.absmap (live_map c') = hd.absmap (live_map c)"
      "\<forall>a. hash_fresh a (live_map c) \<longrightarrow> hash_fresh a (live_map c')"
    and c': "uentries c' = (uentries c)(e \<mapsto> (u, m))" "ucount c' = ucount c" "unext c' = unext c"
  shows "cache_ok up c' \<and> refs c' = (refs c)(ustring u \<mapsto> m)"
proof
  let ?M = "hd.absmap (live_map c)"
  have Me: "?M (ustring u) = Some e" by (rule cache_okD(3) [OF ok e])
  have p: "parse_uri up (ustring u) = (URI_ERRNO_OK, u)" using cache_okD(2) [OF ok Me] e by auto
  have inj: "s' = ustring u" if "?M s' = Some e" for s' using cache_inj [OF ok Me that] .
  have lt: "e < unext c" using cache_okD(4) [OF ok, of e] e by (cases "unext c \<le> e") auto
  show "cache_ok up c'"
    unfolding cache_ok_def h(2) c'
  proof (intro conjI allI impI)
    show "hash_ok (live_map c')" by (rule h(1))
    show "finite (dom ?M)" "card (dom ?M) = ucount c" using cache_okD(5,6) [OF ok] .
  next
    fix s' e' assume a: "?M s' = Some e'"
    show "\<exists>u' n. ((uentries c)(e \<mapsto> (u, m))) e' = Some (u', n) \<and> ustring u' = s' \<and> 0 < n
        \<and> parse_uri up s' = (URI_ERRNO_OK, u')"
    proof (cases "e' = e")
      case True
      with a p m inj show ?thesis by auto
    next
      case False
      then show ?thesis using cache_okD(2) [OF ok a] by simp
    qed
  next
    fix e' u' n' assume a: "((uentries c)(e \<mapsto> (u, m))) e' = Some (u', n')"
    show "?M (ustring u') = Some e'"
      using a Me cache_okD(3) [OF ok, of e' u' n'] by (cases "e' = e") auto
  next
    fix e' assume a: "unext c \<le> e'"
    then show "((uentries c)(e \<mapsto> (u, m))) e' = None" "hash_fresh e' (live_map c')"
      using cache_okD(4) [OF ok a] lt h(3) by auto
  qed
  have "refs c' s' = ((refs c)(ustring u \<mapsto> m)) s'" for s'
  proof (cases "s' = ustring u")
    case True
    then show ?thesis using Me by (simp add: refs_def h(2) c')
  next
    case False
    then have "?M s' \<noteq> Some e" using inj by blast
    with False show ?thesis by (auto simp: refs_def h(2) c' split: option.splits)
  qed
  then show "refs c' = (refs c)(ustring u \<mapsto> m)" by blast
qed

lemma get_uri_found_ok:
  assumes ok: "cache_ok up c" and m: "hd.absmap (live_map c) s = Some e" and s: "s \<noteq> []"
  shows "\<exists>c' u n. get_uri up s c = (Some e, c') \<and> cache_ok up c' \<and> uentries c e = Some (u, n)
    \<and> uentries c' = (uentries c)(e \<mapsto> (u, n + 1))
    \<and> ustring u = s \<and> refs c' = (refs c)(s := map_option Suc (refs c s))"
proof -
  obtain c' u n where g: "get_uri up s c = (Some e, c')" "uentries c e = Some (u, n)"
    "live_map c' = umap c'" "hash_ok (umap c')" "hd.absmap (umap c') = hd.absmap (live_map c)"
    "\<forall>a. hash_fresh a (umap c') = hash_fresh a (live_map c)"
    "uentries c' = (uentries c)(e \<mapsto> (u, n + 1))" "ucount c' = ucount c" "unext c' = unext c"
    using get_uri_found [OF assms] by blast
  have u: "ustring u = s" using cache_okD(2) [OF ok m] g(2) by auto
  have "cache_ok up c' \<and> refs c' = (refs c)(ustring u \<mapsto> n + 1)"
    using g by (intro cache_ok_update [OF ok g(2)]) simp_all
  moreover have "refs c s = Some n" using refs_iff [OF ok] g(2) u by blast
  ultimately show ?thesis using g(1,2,7) u by simp
qed

lemma get_uri_new_ok:
  assumes ok: "cache_ok up c" and m: "hd.absmap (live_map c) s = None" and s: "s \<noteq> []" "POSITION_CHAR \<notin> set s"
    and p: "parse_uri up s = (URI_ERRNO_OK, u)"
  shows "\<exists>c' e. get_uri up s c = (Some e, c') \<and> cache_ok up c' \<and> uentries c e = None
    \<and> uentries c' = (uentries c)(e \<mapsto> (u, 1)) \<and> ustring u = s \<and> refs c' = (refs c)(s \<mapsto> 1)"
proof -
  let ?e = "unext c" and ?M = "hd.absmap (live_map c)"
  obtain c' where g: "get_uri up s c = (Some ?e, c')" "live_map c' = umap c'" "hash_ok (umap c')"
    "hd.absmap (umap c') = ?M(s \<mapsto> ?e)"
    "\<forall>a. hash_fresh a (umap c') \<longleftrightarrow> hash_fresh a (live_map c) \<and> a \<noteq> ?e"
    "uentries c' = (uentries c)(?e \<mapsto> (u, 1))" "ucount c' = ucount c + 1" "unext c' = ?e + 1"
    using get_uri_new [OF assms] by blast
  have u: "ustring u = s"
  proof -
    have "takeWhile (\<lambda>c. c \<noteq> POSITION_CHAR) s = s" using s(2) by (auto simp: takeWhile_eq_all_conv)
    then show ?thesis using parse_uri_OK [OF p] by simp
  qed
  have unused: "uentries c ?e = None" using cache_okD(4) [OF ok, of ?e] by simp
  have noe: "?M s' \<noteq> Some ?e" for s' using cache_okD(2) [OF ok, of s' ?e] unused by auto
  have nos: "ustring u' \<noteq> s" if "uentries c e' = Some (u', n')" for e' u' n'
    using cache_okD(3) [OF ok that] m by auto
  have "cache_ok up c'"
    unfolding cache_ok_def g(2,4,6,7,8)
  proof (intro conjI allI impI)
    show "hash_ok (umap c')" by (rule g(3))
    show "finite (dom (?M(s \<mapsto> ?e)))" using cache_okD(5) [OF ok] by simp
    have "s \<notin> dom ?M" using m by auto
    then show "card (dom (?M(s \<mapsto> ?e))) = ucount c + 1"
      using cache_okD(5,6) [OF ok] by simp
  next
    fix s' e' assume a: "(?M(s \<mapsto> ?e)) s' = Some e'"
    show "\<exists>u' n. ((uentries c)(?e \<mapsto> (u, 1))) e' = Some (u', n) \<and> ustring u' = s' \<and> 0 < n
        \<and> parse_uri up s' = (URI_ERRNO_OK, u')"
    proof (cases "s' = s")
      case True
      with a p u show ?thesis by simp
    next
      case False
      with a have "?M s' = Some e'" by simp
      moreover have "e' \<noteq> ?e" using noe [of s'] \<open>?M s' = Some e'\<close> by auto
      ultimately show ?thesis using cache_okD(2) [OF ok] by simp
    qed
  next
    fix e' u' n assume a: "((uentries c)(?e \<mapsto> (u, 1))) e' = Some (u', n)"
    show "(?M(s \<mapsto> ?e)) (ustring u') = Some e'"
      using a u nos [of e' u' n] cache_okD(3) [OF ok, of e' u' n] by (cases "e' = ?e") auto
  next
    fix e' assume "?e + 1 \<le> e'"
    then show "((uentries c)(?e \<mapsto> (u, 1))) e' = None" "hash_fresh e' (umap c')"
      using cache_okD(4) [OF ok, of e'] g(5) by auto
  qed
  moreover have "refs c' s' = ((refs c)(s \<mapsto> 1)) s'" for s'
  proof (cases "s' = s")
    case True
    then show ?thesis using g(2,4,6) by (simp add: refs_def)
  next
    case False
    then show ?thesis using g(2,4,6) noe [of s'] by (auto simp: refs_def split: option.splits)
  qed
  then have "refs c' = (refs c)(s \<mapsto> 1)" by blast
  ultimately show ?thesis using g(1,6) u unused by (intro exI [of _ c'] exI [of _ ?e]) simp
qed


lemma get_uri_fails:
  assumes ok: "cache_ok up c" and s: "s \<noteq> []" and p: "fst (parse_uri up s) \<noteq> URI_ERRNO_OK"
  shows "\<exists>c'. get_uri up s c = (None, c') \<and> cache_ok up c' \<and> refs c' = refs c \<and> uentries c' = uentries c"
proof -
  have "hd.absmap (live_map c) s = None"
  proof (rule ccontr)
    assume "hd.absmap (live_map c) s \<noteq> None"
    then obtain e where e: "hd.absmap (live_map c) s = Some e" by blast
    show False using cache_okD(2) [OF ok e] p by auto
  qed
  then have l: "hash_lookup (live_map c) s = None" by (simp add: hd.absmap_def)
  obtain err u where pu: "parse_uri up s = (err, u)" by fastforce
  have g: "hash_get (live_map c) s = (None, live_map c)"
    using hd.look_mv_fst [OF cache_okD(1) [OF ok], of s] l
    by (auto simp: get_hash_item_def Let_def split: option.splits)
  have e: "\<exists>c'. get_uri_cache_entry up s d = (None, c') \<and> c' = d" if "umap d = live_map c" for d
    using g s p pu that by (simp add: get_uri_cache_entry_def)
  then have "get_uri up s c = (None, if ucount c = 0 then c\<lparr>umap := init_hash8\<rparr> else c)"
    using e [OF live_map_prepared [of c]] by (simp add: get_uri_def Let_def)
  moreover have "cache_ok up (c\<lparr>umap := init_hash8\<rparr>)" "refs (c\<lparr>umap := init_hash8\<rparr>) = refs c" if "ucount c = 0"
    using ok that by (simp_all add: cache_ok_def live_map_def refs_def fun_eq_iff)
  ultimately show ?thesis using ok by auto
qed

lemma done_uri_last:
  assumes ok: "cache_ok up c" and e: "uentries c e = Some (u, 1)"
  shows "\<exists>h. done_uri e c = Some (c\<lparr>umap := h, uentries := (uentries c)(e := None), ucount := ucount c - 1\<rparr>)
    \<and> 0 < ucount c \<and> hash_ok h \<and> hd.absmap h = (hd.absmap (live_map c))(ustring u := None)
    \<and> (\<forall>a. hash_fresh a (live_map c) \<longrightarrow> hash_fresh a h)"
proof -
  have m: "hd.absmap (live_map c) (ustring u) = Some e" by (rule cache_okD(3) [OF ok e])
  then have live: "live_map c = umap c" "0 < ucount c" by (auto simp: live_map_def split: if_splits)
  note h = cache_okD(1) [OF ok, unfolded live]
  obtain it where it: "hash_lookup (umap c) (ustring u) = Some it" "hvalue it = e"
    using m live by (auto simp: hd.absmap_def)
  obtain h1 where g: "hash_get (umap c) (ustring u) = (Some it, h1)"
    using hd.look_mv_fst [OF h, of "ustring u"] it by (metis prod.collapse)
  have ok1: "hash_ok h1" and abs1: "hd.absmap h1 = hd.absmap (umap c)"
    and items: "set (all_items h1) = set (all_items (umap c))"
    using hd.look_mv_ok [OF h, of "ustring u"] hd.absmap_mv [OF h, of "ustring u"]
      set_all_items_get [OF h, of "ustring u" "length (ustring u)"] g by simp_all
  have look1: "hash_lookup h1 (ustring u) = Some it"
    using hd.look_mv_look [OF h, of "ustring u" "ustring u"] g it(1) by simp
  have "hash_fresh a (del_hash_item h1 it)" if "hash_fresh a (live_map c)" for a
    using that live items by (auto simp: hash_fresh_def all_items_del)
  moreover have "done_uri e c = Some (c\<lparr>umap := del_hash_item h1 it, uentries := (uentries c)(e := None),
      ucount := ucount c - 1\<rparr>)"
    using e g it(2) by (simp add: done_uri_def)
  moreover have "hd.absmap (del_hash_item h1 it) = (hd.absmap (live_map c))(ustring u := None)"
    using hd.absmap_del [OF ok1 look1] abs1 live by simp
  ultimately show ?thesis using hd.del_ok [OF ok1, of it] live(2) by blast
qed


lemma done_uri_last_ok:
  assumes ok: "cache_ok up c" and e: "uentries c e = Some (u, 1)"
  shows "\<exists>c'. done_uri e c = Some c' \<and> cache_ok up c' \<and> uentries c' = (uentries c)(e := None)
    \<and> refs c' = (refs c)(ustring u := None)"
proof -
  let ?M = "hd.absmap (live_map c)" and ?s = "ustring u"
  obtain h where d: "done_uri e c = Some (c\<lparr>umap := h, uentries := (uentries c)(e := None), ucount := ucount c - 1\<rparr>)"
    "0 < ucount c" "hash_ok h" "hd.absmap h = ?M(?s := None)" "\<forall>a. hash_fresh a (live_map c) \<longrightarrow> hash_fresh a h"
    using done_uri_last [OF assms] by blast
  let ?c = "c\<lparr>umap := h, uentries := (uentries c)(e := None), ucount := ucount c - 1\<rparr>"
  have m: "?M ?s = Some e" by (rule cache_okD(3) [OF ok e])
  have fin: "finite (dom ?M)" and card: "card (dom ?M) = ucount c" using cache_okD(5,6) [OF ok] by simp_all
  have card': "card (dom (?M(?s := None))) = ucount c - 1"
    using m card fin by (simp add: domIff card_Diff_singleton_if)
  have live: "hash_ok (live_map ?c) \<and> hd.absmap (live_map ?c) = ?M(?s := None)
      \<and> (\<forall>a. hash_fresh a (live_map c) \<longrightarrow> hash_fresh a (live_map ?c))"
  proof (cases "ucount c = 1")
    case True
    then have "dom (?M(?s := None)) = {}" using card' fin by simp
    then have "?M(?s := None) = Map.empty" by blast
    then show ?thesis using True by (simp add: live_map_def init_hash8_ok hash_fresh_def)
  next
    case False
    then have "ucount c - 1 \<noteq> 0" using d(2) by linarith
    then show ?thesis using d(3,4,5) by (simp add: live_map_def)
  qed
  have inj: "s' = ?s" if "?M s' = Some e" for s' using cache_inj [OF ok m that] .
  have "cache_ok up ?c"
    unfolding cache_ok_def
  proof (intro conjI allI impI)
    show "hash_ok (live_map ?c)" using live by blast
    show "finite (dom (hd.absmap (live_map ?c)))" "card (dom (hd.absmap (live_map ?c))) = ucount ?c"
      using live fin card' by simp_all
  next
    fix s' e' assume "hd.absmap (live_map ?c) s' = Some e'"
    then have a: "s' \<noteq> ?s" "?M s' = Some e'" using live by (auto split: if_splits)
    then have "e' \<noteq> e" using inj by auto
    then show "\<exists>u n. uentries ?c e' = Some (u, n) \<and> ustring u = s' \<and> 0 < n \<and> parse_uri up s' = (URI_ERRNO_OK, u)"
      using cache_okD(2) [OF ok a(2)] by simp
  next
    fix e' u' n assume "uentries ?c e' = Some (u', n)"
    then have a: "e' \<noteq> e" "uentries c e' = Some (u', n)" by (auto split: if_splits)
    then have "?M (ustring u') = Some e'" using cache_okD(3) [OF ok] by blast
    then show "hd.absmap (live_map ?c) (ustring u') = Some e'" using live m a(1) by auto
  next
    fix e' assume "unext ?c \<le> e'"
    then show "uentries ?c e' = None" "hash_fresh e' (live_map ?c)"
      using cache_okD(4) [OF ok, of e'] live by auto
  qed
  moreover have "refs ?c s' = ((refs c)(?s := None)) s'" for s'
  proof (cases "s' = ?s")
    case True
    then show ?thesis using live by (simp add: refs_def)
  next
    case False
    then have "?M s' \<noteq> Some e" using inj by blast
    then show ?thesis using live False by (auto simp: refs_def split: option.splits)
  qed
  then have "refs ?c = (refs c)(?s := None)" by blast
  ultimately show ?thesis using d(1) by (intro exI [of _ ?c]) simp
qed

lemma done_uri_shared_ok:
  assumes ok: "cache_ok up c" and e: "uentries c e = Some (u, n)" "1 < n"
  shows "\<exists>c'. done_uri e c = Some c' \<and> cache_ok up c' \<and> uentries c' = (uentries c)(e \<mapsto> (u, n - 1))
    \<and> refs c' = (refs c)(ustring u \<mapsto> n - 1)"
proof -
  let ?c = "c\<lparr>uentries := (uentries c)(e \<mapsto> (u, n - 1))\<rparr>"
  have live: "live_map (c\<lparr>uentries := x\<rparr>) = live_map c" for x by (simp add: live_map_def)
  have "cache_ok up ?c \<and> refs ?c = (refs c)(ustring u \<mapsto> n - 1)"
    using e(2) cache_okD(1) [OF ok] by (intro cache_ok_update [OF ok e(1)]) (simp_all add: live)
  then show ?thesis using e by (intro exI [of _ ?c]) (simp add: done_uri_def)
qed

lemma done_uri_refs:
  assumes "cache_ok up c" "uentries c e = Some (u, n)"
  shows "0 < n \<and> (\<exists>c'. done_uri e c = Some c' \<and> cache_ok up c'
    \<and> uentries c' = (uentries c)(e := (if n = 1 then None else Some (u, n - 1)))
    \<and> refs c' = (refs c)(ustring u := (if n = 1 then None else Some (n - 1))))"
proof -
  have n: "0 < n" using cache_okD(2) [OF assms(1) cache_okD(3) [OF assms]] assms(2) by auto
  then consider "n = 1" | "1 < n" by linarith
  then show ?thesis
  proof cases
    case 1
    then show ?thesis using done_uri_last_ok [OF assms(1)] assms(2) by auto
  next
    case 2
    then show ?thesis using done_uri_shared_ok [OF assms 2] by auto
  qed
qed

lemma get_uri_reference_ok:
  assumes ok: "cache_ok up c" and e: "uentries c e = Some (u, n)"
  shows "cache_ok up (get_uri_reference e c) \<and> refs (get_uri_reference e c) = (refs c)(ustring u \<mapsto> n + 1)"
proof -
  have c: "get_uri_reference e c = c\<lparr>uentries := (uentries c)(e \<mapsto> (u, n + 1))\<rparr>"
    using e by (simp add: get_uri_reference_def)
  have live: "live_map (c\<lparr>uentries := x\<rparr>) = live_map c" for x by (simp add: live_map_def)
  show ?thesis unfolding c
    using cache_okD(1) [OF ok] by (intro cache_ok_update [OF ok e]) (simp_all add: live)
qed

subsection \<open>The references of the program\<close>

text \<open>
  The runs of a program from the empty cache: \<open>held s\<close> counts the references it has taken to the
  URI \<open>s\<close> and not given up. It takes them by \<open>get_uri\<close> and \<open>get_uri_reference\<close>, and gives up only
  references to entries it holds. The strings it asks for have no position mark.
\<close>

inductive uri_run :: "(string \<Rightarrow> bool) \<Rightarrow> uri_cache \<Rightarrow> (string \<Rightarrow> nat) \<Rightarrow> bool" for up where
  ur_init: "uri_run up uri_cache_init (\<lambda>_. 0)"
| ur_get: "uri_run up c held \<Longrightarrow> s \<noteq> [] \<Longrightarrow> POSITION_CHAR \<notin> set s \<Longrightarrow> get_uri up s c = (Some e, c') \<Longrightarrow>
    uri_run up c' (held(s := held s + 1))"
| ur_fail: "uri_run up c held \<Longrightarrow> s \<noteq> [] \<Longrightarrow> POSITION_CHAR \<notin> set s \<Longrightarrow> get_uri up s c = (None, c') \<Longrightarrow>
    uri_run up c' held"
| ur_ref: "uri_run up c held \<Longrightarrow> uentries c e = Some (u, n) \<Longrightarrow>
    uri_run up (get_uri_reference e c) (held(ustring u := held (ustring u) + 1))"
| ur_done: "uri_run up c held \<Longrightarrow> uentries c e = Some (u, n) \<Longrightarrow> done_uri e c = Some c' \<Longrightarrow>
    uri_run up c' (held(ustring u := held (ustring u) - 1))"

definition held_refs :: "(string \<Rightarrow> nat) \<Rightarrow> string \<Rightarrow> nat option" where
  "held_refs held s = (if held s = 0 then None else Some (held s))"

lemma get_uri_refs:
  assumes "cache_ok up c" "s \<noteq> []" "POSITION_CHAR \<notin> set s" "get_uri up s c = (r, c')"
  shows "cache_ok up c' \<and> (case r of
      None \<Rightarrow> fst (parse_uri up s) \<noteq> URI_ERRNO_OK \<and> refs c' = refs c \<and> uentries c' = uentries c
    | Some e \<Rightarrow> \<exists>u. parse_uri up s = (URI_ERRNO_OK, u) \<and> ustring u = s
        \<and> refs c' = (refs c)(s \<mapsto> (case refs c s of None \<Rightarrow> 1 | Some n \<Rightarrow> n + 1))
        \<and> uentries c e = map_option (\<lambda>n. (u, n)) (refs c s)
        \<and> uentries c' = (uentries c)(e \<mapsto> (u, case refs c s of None \<Rightarrow> 1 | Some n \<Rightarrow> n + 1)))"
proof (cases "hd.absmap (live_map c) s")
  case (Some e)
  obtain u where p: "parse_uri up s = (URI_ERRNO_OK, u)" "\<exists>m. uentries c e = Some (u, m)"
    using cache_okD(2) [OF assms(1) Some] by blast
  obtain v m where g: "r = Some e" "cache_ok up c'" "uentries c e = Some (v, m)" "ustring v = s"
    "uentries c' = (uentries c)(e \<mapsto> (v, m + 1))" "refs c' = (refs c)(s := map_option Suc (refs c s))"
    using get_uri_found_ok [OF assms(1) Some assms(2)] assms(4) by auto
  have "refs c s = Some m" using refs_iff [OF assms(1)] g(3,4) by blast
  then show ?thesis using g p by auto
next
  case None
  then have n: "refs c s = None" using refs_None_iff [OF assms(1)] by blast
  obtain err u where p: "parse_uri up s = (err, u)" by fastforce
  show ?thesis
  proof (cases "err = URI_ERRNO_OK")
    case True
    then obtain e where "r = Some e" "cache_ok up c'" "uentries c e = None"
      "uentries c' = (uentries c)(e \<mapsto> (u, 1))" "ustring u = s" "refs c' = (refs c)(s \<mapsto> 1)"
      using get_uri_new_ok [OF assms(1) None assms(2,3)] p assms(4) by auto
    then show ?thesis using n p True by auto
  next
    case False
    then show ?thesis using get_uri_fails [OF assms(1,2)] p assms(4) by auto
  qed
qed

lemma uri_run_ok: "uri_run up c held \<Longrightarrow> cache_ok up c \<and> refs c = held_refs held"
proof (induction rule: uri_run.induct)
  case ur_init
  have "refs uri_cache_init = (\<lambda>_. None)" by (rule ext) (simp add: refs_def live_map_def uri_cache_init_def)
  then show ?case by (simp add: cache_init_ok held_refs_def fun_eq_iff)
next
  case (ur_get c held s e c')
  then show ?case using get_uri_refs [of up c s "Some e" c'] by (auto simp: held_refs_def fun_eq_iff)
next
  case (ur_fail c held s c')
  then show ?case using get_uri_refs [of up c s None c'] by simp
next
  case (ur_ref c held e u n)
  have "refs c (ustring u) = Some n" using refs_iff [of up c] ur_ref by blast
  then show ?case using get_uri_reference_ok [of up c e u n] ur_ref by (auto simp: held_refs_def fun_eq_iff split: if_splits)
next
  case (ur_done c held e u n c')
  have "refs c (ustring u) = Some n" using refs_iff [of up c] ur_done by blast
  then show ?case using done_uri_refs [of up c e u n] ur_done by (auto simp: held_refs_def fun_eq_iff split: if_splits)
qed

text \<open>
  C7: \<open>get_uri\<close> shares. In every run of the program, asking for a URI string without a position
  mark that parses returns the one entry with this string: a new one with a single reference if
  the program holds none, and otherwise the entry there is with one reference more. A string that
  does not parse returns NULL. No other entry changes, and no two entries have the same string.
  For strings with a position mark, see the end of this theory.
\<close>

theorem get_uri_counts:
  assumes "uri_run up c held" "s \<noteq> []" "POSITION_CHAR \<notin> set s" "get_uri up s c = (r, c')"
  shows "(case r of
      None \<Rightarrow> fst (parse_uri up s) \<noteq> URI_ERRNO_OK \<and> uentries c' = uentries c
    | Some e \<Rightarrow> \<exists>u. parse_uri up s = (URI_ERRNO_OK, u) \<and> ustring u = s
        \<and> uentries c e = (if held s = 0 then None else Some (u, held s))
        \<and> uentries c' = (uentries c)(e \<mapsto> (u, held s + 1)))
    \<and> (\<forall>e1 u1 n1 e2 u2 n2. uentries c' e1 = Some (u1, n1) \<and> uentries c' e2 = Some (u2, n2) \<and> ustring u1 = ustring u2
        \<longrightarrow> e1 = e2)"
proof -
  have ok: "cache_ok up c" "refs c = held_refs held" using uri_run_ok [OF assms(1)] by simp_all
  note g = get_uri_refs [OF ok(1) assms(2-4)]
  have "e1 = e2" if "uentries c' e1 = Some (u1, n1)" "uentries c' e2 = Some (u2, n2)" "ustring u1 = ustring u2"
    for e1 u1 n1 e2 u2 n2
    using cache_okD(3) [of up c', OF _ that(1)] cache_okD(3) [of up c', OF _ that(2)] that(3) g by simp
  then have inj: "\<forall>e1 u1 n1 e2 u2 n2. uentries c' e1 = Some (u1, n1) \<and> uentries c' e2 = Some (u2, n2)
      \<and> ustring u1 = ustring u2 \<longrightarrow> e1 = e2" by blast
  show ?thesis
  proof (cases r)
    case None
    then show ?thesis using g inj by simp
  next
    case (Some e)
    then obtain u where u: "parse_uri up s = (URI_ERRNO_OK, u)" "ustring u = s"
      "uentries c e = map_option (\<lambda>n. (u, n)) (held_refs held s)"
      "uentries c' = (uentries c)(e \<mapsto> (u, case held_refs held s of None \<Rightarrow> 1 | Some n \<Rightarrow> n + 1))"
      using g unfolding ok(2) by auto
    then have "uentries c e = (if held s = 0 then None else Some (u, held s))"
      "uentries c' = (uentries c)(e \<mapsto> (u, held s + 1))" by (simp_all add: held_refs_def)
    then show ?thesis using u(1,2) inj unfolding Some option.case by blast
  qed
qed

lemma about_parses: "\<exists>u. parse_uri (\<lambda>_. False) ''about:'' = (URI_ERRNO_OK, u) \<and> ustring u = ''about:''"
proof -
  have "fst (parse_uri (\<lambda>_. False) ''about:'') = URI_ERRNO_OK"
    by (simp add: parse_uri_def parse_protocol_def get_protocol_length_def is_protocol_char_def
        isasciialnum_def isasciialpha_def isdigit_def get_protocol_def protocol_search.simps
        protocol_name_def protocol_backends_def backend_def Let_def c_tolower_def char_at_def uri_zero_def
        get_protocol_free_syntax_def get_protocol_need_slashes_def)
  then obtain u where "parse_uri (\<lambda>_. False) ''about:'' = (URI_ERRNO_OK, u)" by (metis prod.collapse)
  with parse_uri_OK [OF this] show ?thesis by simp
qed

text \<open>An example: \<open>about:\<close> is asked for once.\<close>

definition about_cache :: uri_cache where
  "about_cache = snd (get_uri (\<lambda>_. False) ''about:'' uri_cache_init)"

lemma about_run:
  "\<exists>e u. uri_run (\<lambda>_. False) about_cache ((\<lambda>_. 0)(''about:'' := 1)) \<and> uentries about_cache e = Some (u, 1) \<and> ustring u = ''about:''"
proof -
  obtain u where p: "parse_uri (\<lambda>_. False) ''about:'' = (URI_ERRNO_OK, u)" "ustring u = ''about:''"
    using about_parses by blast
  have "hd.absmap (live_map uri_cache_init) ''about:'' = None" by (simp add: live_map_def uri_cache_init_def)
  then obtain c e where g: "get_uri (\<lambda>_. False) ''about:'' uri_cache_init = (Some e, c)"
    "uentries c = (uentries uri_cache_init)(e \<mapsto> (u, 1))"
    using get_uri_new_ok [OF cache_init_ok _ _ _ p(1)] by auto
  have "uri_run (\<lambda>_. False) c ((\<lambda>_. 0)(''about:'' := 0 + 1))" using ur_get [OF ur_init _ _ g(1)] by simp
  then show ?thesis using g p(2) by (auto simp: about_cache_def)
qed

theorem get_uri_counts_witness:
  "\<exists>e c' u. get_uri (\<lambda>_. False) ''about:'' about_cache = (Some e, c') \<and> uentries c' e = Some (u, 2)
    \<and> ustring u = ''about:''"
proof -
  obtain r c' where g: "get_uri (\<lambda>_. False) ''about:'' about_cache = (r, c')" by fastforce
  obtain u where p: "parse_uri (\<lambda>_. False) ''about:'' = (URI_ERRNO_OK, u)" using about_parses by blast
  have run: "uri_run (\<lambda>_. False) about_cache ((\<lambda>_. 0)(''about:'' := 1))" using about_run by blast
  note c = get_uri_counts [OF run _ _ g]
  show ?thesis
  proof (cases r)
    case None
    then show ?thesis using c p by simp
  next
    case (Some e)
    then have "uentries c' e = Some (u, 2)" "ustring u = ''about:''" using c p by (auto simp: numeral_2_eq_2)
    then show ?thesis using g Some by blast
  qed
qed

text \<open>
  C8: in every run of the program with URI strings without a position mark, the count of each
  entry is the number of references the program holds, and giving up one of them finds the entry
  in the table (the code never dereferences NULL there), takes one from its count or frees the
  entry when it was the last, and changes no other entry.
\<close>

theorem done_uri_counts:
  assumes "uri_run up c held" "uentries c e = Some (u, n)"
  shows "n = held (ustring u) \<and> 0 < n
    \<and> (\<exists>c'. done_uri e c = Some c'
        \<and> uentries c' = (uentries c)(e := (if n = 1 then None else Some (u, n - 1))))"
proof -
  have ok: "cache_ok up c" "refs c = held_refs held" using uri_run_ok [OF assms(1)] by simp_all
  have "refs c (ustring u) = Some n" using refs_iff [OF ok(1)] assms(2) by blast
  then show ?thesis using done_uri_refs [OF ok(1) assms(2)] ok(2) by (auto simp: held_refs_def split: if_splits)
qed

theorem done_uri_counts_witness:
  "\<exists>e c'. uentries about_cache e \<noteq> None \<and> done_uri e about_cache = Some c' \<and> uentries c' e = None"
proof -
  obtain e u where r: "uri_run (\<lambda>_. False) about_cache ((\<lambda>_. 0)(''about:'' := 1))" "uentries about_cache e = Some (u, 1)"
    using about_run by blast
  from done_uri_counts [OF r] obtain c' where "done_uri e about_cache = Some c'" "uentries c' e = None" by auto
  with r(2) show ?thesis by blast
qed

subsection \<open>A mark left in the string\<close>

text \<open>
  The table registers a new entry under the length of the string before parsing, but looks it
  up for release under the length after it. For a string with a position mark, which the parser
  cuts, the two differ, and the release fails to find the entry.
\<close>

lemma get_hash_item_none:
  assumes "\<And>it. it \<in> set (all_items h) \<Longrightarrow> keylen it \<noteq> n" "hash_ok h"
  shows "get_hash_item h k n = (None, h)"
proof -
  have "hashval h k n < length (buckets h)" using hashval_less assms(2) by (auto simp: hash_ok_def)
  then have "set (buckets h ! hashval h k n) \<subseteq> set (all_items h)"
    unfolding set_all_items by (meson UN_upper nth_mem)
  then have "find (item_matches k n) (buckets h ! hashval h k n) = None"
    unfolding find_None_iff using assms(1) by (auto simp: item_matches_def)
  then show ?thesis by (simp add: get_hash_item_def Let_def)
qed

lemma length_cut_string: "length (cut_string s) = length s"
proof -
  have "length (takeWhile P s @ (case dropWhile P s of [] \<Rightarrow> [] | _ # r \<Rightarrow> NUL # r)) = length s" for P
    by (induction s) (auto split: list.split)
  then show ?thesis by (simp only: cut_string_def)
qed

lemma takeWhile_full: "length s = length (takeWhile P s) \<Longrightarrow> \<forall>x \<in> set s. P x"
proof (induction s)
  case (Cons x s)
  then show ?case by (cases "P x") auto
qed simp

lemma position_mark_lost:
  assumes p: "parse_uri up s = (URI_ERRNO_OK, u)" and mark: "POSITION_CHAR \<in> set s" "cstring s"
  shows "\<exists>e c. get_uri up s uri_cache_init = (Some e, c) \<and> uentries c e = Some (u, 1) \<and> done_uri e c = None"
proof -
  have s: "s \<noteq> []" and u: "ustring u = takeWhile (\<lambda>c. c \<noteq> POSITION_CHAR) s" using parse_uri_OK [OF p] by auto
  have ne: "length s \<noteq> length (ustring u)"
  proof
    assume "length s = length (ustring u)"
    then have "\<forall>x \<in> set s. x \<noteq> POSITION_CHAR"
      unfolding u by (rule takeWhile_full)
    then show False using mark(1) by blast
  qed
  let ?h = "add_hash_item (init_hash8 :: nat hash) 0 (cut_string s) (length s) 0"
  have g: "hash_get (init_hash8 :: nat hash) s = (None, init_hash8)"
    by (rule get_hash_item_none) (simp_all add: init_hash8_ok)
  have items: "set (all_items ?h) = {\<lparr>item_addr = 0, hkey = cut_string s, keylen = length s, hvalue = 0\<rparr>}"
    using set_all_items_add [OF init_hash8_ok, of 0 "cut_string s" "length s" 0] by simp
  have cut: "length s \<le> length (cut_string s)" by (simp add: length_cut_string)
  have "hash_lookup (init_hash8 :: nat hash) k = None" for k
    using hash_lookup_None_iff [OF init_hash8_ok] by simp
  then have "hash_ok ?h" using cut by (intro add_hash_item_ok init_hash8_ok) simp_all
  then have none: "get_hash_item ?h (ustring u) (length (ustring u)) = (None, ?h)"
    using items ne by (intro get_hash_item_none) auto
  let ?c = "\<lparr>umap = ?h, uentries = [0 \<mapsto> (u, 1)], ucount = 1, unext = 1\<rparr>"
  have "get_uri up s uri_cache_init = (Some 0, ?c)"
    using g p s by (simp add: get_uri_def get_uri_cache_entry_def uri_cache_init_def Let_def)
  moreover have "done_uri 0 ?c = None" using none by (simp add: done_uri_def)
  ultimately show ?thesis by auto
qed

end
