(* ===== verification/Cache_Fragments.thy ===== *)
theory Cache_Fragments
  imports Prelude
begin

unbundle bit_operations_syntax

text \<open>
  The fragments of a cache entry, from \<open>src/cache/cache.c\<close>: the downloaded pieces of a document,
  a list sorted by offset, and the operations that add, merge and cut them. The memory of a
  fragment is the list of its \<open>real_length\<close> bytes. Offsets and lengths are natural numbers
  (\<open>off_t\<close> values that are not negative); allocations succeed. The two counters that
  \<open>enlarge_entry\<close> keeps are a pair that the operations thread through: \<open>data_size\<close> of the entry,
  a signed number that a failed assertion sets to zero, and the global \<open>cache_size\<close>, an
  \<open>unsigned long long\<close>, which wraps around (the assertion that it is not negative never fails).
\<close>

record fragment =
  foffset :: nat
  flength :: nat
  real_length :: nat
  fdata :: string

type_synonym sizes = "int \<times> int"

definition enlarge_entry :: "int \<Rightarrow> sizes \<Rightarrow> sizes" where
  "enlarge_entry amount sz =
     (case sz of (data_size, cache_size) \<Rightarrow>
        (if data_size + amount < 0 then 0 else data_size + amount,
         (cache_size + amount) mod 2 ^ 64))"

definition CACHE_PAD :: "nat \<Rightarrow> nat" where
  "CACHE_PAD x = (x OR 0x3fff) + 1"

abbreviation fend :: "fragment \<Rightarrow> nat" where
  "fend f \<equiv> foffset f + flength f"

text \<open>\<open>memcpy\<close> into a buffer, and \<open>frag_alloc\<close> and \<open>frag_realloc\<close>.\<close>

definition write_at :: "string \<Rightarrow> nat \<Rightarrow> string \<Rightarrow> string" where
  "write_at buf pos xs = take pos buf @ xs @ drop (pos + length xs) buf"

definition frag_alloc :: "nat \<Rightarrow> fragment" where
  "frag_alloc len = \<lparr>foffset = 0, flength = 0, real_length = 0, fdata = replicate len NUL\<rparr>"

definition frag_realloc :: "fragment \<Rightarrow> nat \<Rightarrow> fragment" where
  "frag_realloc f len = f\<lparr>fdata := take len (fdata f) @ replicate (len - length (fdata f)) NUL\<rparr>"

text \<open>
  The loop of \<open>remove_overlaps\<close>: the fragment \<open>f\<close>, those after it, the sizes and the flag
  \<open>trunc\<close>. \<open>f_end_offset\<close> is computed before the loop.
\<close>

fun remove_overlaps_loop ::
  "nat \<Rightarrow> fragment \<Rightarrow> fragment list \<Rightarrow> sizes \<Rightarrow> bool \<Rightarrow> fragment \<times> fragment list \<times> sizes \<times> bool" where
  "remove_overlaps_loop f_end f [] sz trunc = (f, [], sz, trunc)"
| "remove_overlaps_loop f_end f (n # rest) sz trunc =
     (if f_end > foffset n
      then
        let at = foffset n - foffset f
        in if f_end < fend n
           then
             let f1 = frag_realloc f (fend n - foffset f);
                 cmp = fend f1 - foffset n;
                 trunc1 = (trunc \<or> take cmp (drop at (fdata f1)) \<noteq> take cmp (fdata n));
                 f2 = f1\<lparr>fdata := write_at (fdata f1) (flength f1)
                           (take (fend n - f_end) (drop (f_end - foffset n) (fdata n))),
                         flength := fend n - foffset f1, real_length := fend n - foffset f1\<rparr>;
                 sz1 = enlarge_entry (int (fend n - f_end)) sz;
                 sz2 = enlarge_entry (- int (flength n)) sz1
             in remove_overlaps_loop f_end f2 rest sz2 trunc1
           else
             let trunc1 = (trunc \<or> take (flength n) (drop at (fdata f)) \<noteq> take (flength n) (fdata n))
             in remove_overlaps_loop f_end f rest (enlarge_entry (- int (flength n)) sz) trunc1
      else (f, n # rest, sz, trunc))"

definition remove_overlaps ::
  "fragment \<Rightarrow> fragment list \<Rightarrow> sizes \<Rightarrow> fragment \<times> fragment list \<times> sizes \<times> bool" where
  "remove_overlaps f rest sz = remove_overlaps_loop (fend f) f rest sz False"

fun delete_fragment :: "fragment list \<Rightarrow> sizes \<Rightarrow> sizes" where
  "delete_fragment [] sz = sz"
| "delete_fragment (f # fs) sz = delete_fragment fs (enlarge_entry (- int (flength f)) sz)"

text \<open>The loop of \<open>truncate_entry\<close> over the fragments.\<close>

fun truncate_frags :: "nat \<Rightarrow> bool \<Rightarrow> fragment list \<Rightarrow> sizes \<Rightarrow> fragment list \<times> sizes" where
  "truncate_frags offset final [] sz = ([], sz)"
| "truncate_frags offset final (f # fs) sz =
     (if fend f \<le> offset
      then (case truncate_frags offset final fs sz of (r, sz') \<Rightarrow> (f # r, sz'))
      else if offset > foffset f
      then
        let len = offset - foffset f;
            sz1 = enlarge_entry (- int (flength f - len)) sz;
            f1 = f\<lparr>flength := len\<rparr>;
            f2 = (if final then (frag_realloc f1 len)\<lparr>real_length := len\<rparr> else f1)
        in ([f2], delete_fragment fs sz1)
      else ([], delete_fragment (f # fs) sz))"

text \<open>The part of an entry these operations work on.\<close>

record entry_data =
  frag :: "fragment list"
  elength :: nat
  incomplete :: bool
  cache_id :: nat

definition truncate_entry :: "entry_data \<Rightarrow> nat \<Rightarrow> bool \<Rightarrow> sizes \<Rightarrow> entry_data \<times> sizes" where
  "truncate_entry c offset final sz =
     (let c1 = (if elength c > offset then c\<lparr>elength := offset, incomplete := True\<rparr> else c)
      in case truncate_frags offset final (frag c1) sz of (fs, sz') \<Rightarrow> (c1\<lparr>frag := fs\<rparr>, sz'))"

text \<open>
  The search loop of \<open>add_fragment\<close>: either the data goes into an existing fragment (the
  fragments before, the fragment with its new length, those after, the new sizes, and whether it
  was enlarged), or a new fragment goes between two lists of fragments.
\<close>

datatype place =
    Inside "fragment list" fragment "fragment list" sizes int
  | Between "fragment list" "fragment list"

fun find_place :: "nat \<Rightarrow> nat \<Rightarrow> fragment list \<Rightarrow> fragment list \<Rightarrow> sizes \<Rightarrow> place" where
  "find_place offset end_offset before [] sz = Between before []"
| "find_place offset end_offset before (f # fs) sz =
     (if foffset f > offset then Between before (f # fs)
      else if fend f < offset then find_place offset end_offset (before @ [f]) fs sz
      else if end_offset > fend f
      then (if end_offset - foffset f \<le> real_length f
            then Inside before (f\<lparr>flength := end_offset - foffset f\<rparr>) fs
                   (enlarge_entry (int (end_offset - fend f)) sz) 1
            else Between (before @ [f\<lparr>flength := offset - foffset f\<rparr>]) fs)
      else Inside before f fs sz 0)"

definition new_fragment :: "nat \<Rightarrow> string \<Rightarrow> fragment" where
  "new_fragment offset data =
     (let nf = frag_alloc (CACHE_PAD (length data))
      in nf\<lparr>foffset := offset, flength := length data, real_length := CACHE_PAD (length data),
            fdata := write_at (fdata nf) 0 data\<rparr>)"

definition add_fragment ::
  "entry_data \<Rightarrow> nat \<Rightarrow> string \<Rightarrow> nat \<Rightarrow> sizes \<Rightarrow> int \<times> entry_data \<times> sizes" where
  "add_fragment c offset data id_counter sz =
     (if data = [] then (0, c, sz)
      else
        let end_offset = offset + length data;
            c1 = c\<lparr>elength := (if elength c < end_offset then end_offset else elength c),
                   cache_id := id_counter\<rparr>
        in case find_place offset end_offset [] (frag c1) sz of
             Inside before f fs sz1 ret \<Rightarrow>
               let f1 = f\<lparr>fdata := write_at (fdata f) (offset - foffset f) data\<rparr>
               in case remove_overlaps f1 fs sz1 of (f2, fs2, sz2, trunc) \<Rightarrow>
                    (case truncate_entry (c1\<lparr>frag := before @ f2 # fs2\<rparr>) end_offset False sz2 of
                       (c2, sz3) \<Rightarrow> (ret, c2, sz3))
           | Between before fs \<Rightarrow>
               let sz1 = enlarge_entry (int (length data)) sz
               in case remove_overlaps (new_fragment offset data) fs sz1 of (f2, fs2, sz2, trunc) \<Rightarrow>
                    let c2 = c1\<lparr>frag := before @ f2 # fs2\<rparr>
                    in if trunc
                       then (case truncate_entry c2 end_offset False sz2 of (c3, sz3) \<Rightarrow> (1, c3, sz3))
                       else (1, c2, sz2))"

text \<open>
  \<open>get_cache_fragment\<close>: the fragments up to the first gap are merged into one; the result also
  says whether there is a fragment to return (the first one). \<open>None\<close> is the case that the length
  of the merged fragment does not fit the \<open>int\<close> the code sums it in.
\<close>

fun adjacent_prefix :: "fragment \<Rightarrow> fragment list \<Rightarrow> (fragment list \<times> fragment list) option" where
  "adjacent_prefix prev [] = Some ([], [])"
| "adjacent_prefix prev (f # fs) =
     (if foffset f > fend prev then Some ([], f # fs)
      else if foffset f = fend prev
      then map_option (\<lambda>(a, r). (f # a, r)) (adjacent_prefix f fs)
      else None)"

definition get_cache_fragment :: "fragment list \<Rightarrow> (fragment option \<times> fragment list) option" where
  "get_cache_fragment fs =
     (case fs of
        [] \<Rightarrow> Some (None, fs)
      | first # rest \<Rightarrow>
          if foffset first \<noteq> 0 then Some (None, fs)
          else if rest = [] then Some (Some first, fs)
          else case adjacent_prefix first rest of
            None \<Rightarrow> Some (None, fs)
          | Some ([], r) \<Rightarrow> Some (Some first, fs)
          | Some (a # as, r) \<Rightarrow>
              let bytes = concat (map (\<lambda>f. take (flength f) (fdata f)) (first # a # as));
                  nf = \<lparr>foffset = 0, flength = length bytes, real_length = length bytes, fdata = bytes\<rparr>
              in if sum_list (map flength (first # a # as)) < 2 ^ 31 then Some (Some nf, nf # r) else None)"

fun free_to_frags :: "nat \<Rightarrow> fragment list \<Rightarrow> sizes \<Rightarrow> fragment list \<times> sizes" where
  "free_to_frags offset [] sz = ([], sz)"
| "free_to_frags offset (f # fs) sz =
     (if fend f \<le> offset then free_to_frags offset fs (enlarge_entry (- int (flength f)) sz)
      else if foffset f < offset
      then
        let len = offset - foffset f;
            f1 = f\<lparr>flength := flength f - len,
                   fdata := write_at (fdata f) 0 (take (flength f - len) (drop len (fdata f))),
                   foffset := offset\<rparr>
        in (case free_to_frags offset fs (enlarge_entry (- int len) sz) of (r, sz') \<Rightarrow> (f1 # r, sz'))
      else (f # fs, sz))"

definition free_entry_to :: "entry_data \<Rightarrow> nat \<Rightarrow> sizes \<Rightarrow> entry_data \<times> sizes" where
  "free_entry_to c offset sz =
     (case free_to_frags offset (frag c) sz of (fs, sz') \<Rightarrow> (c\<lparr>frag := fs\<rparr>, sz'))"

text \<open>\<open>delete_entry_content\<close>; the strings \<open>last_modified\<close> and \<open>etag\<close> are handled by the caller.\<close>

definition delete_entry_content :: "entry_data \<Rightarrow> nat \<Rightarrow> sizes \<Rightarrow> entry_data \<times> sizes" where
  "delete_entry_content c id_counter sz =
     (c\<lparr>frag := [], cache_id := id_counter, elength := 0, incomplete := True\<rparr>,
      enlarge_entry (- fst sz) sz)"

end
