(* ===== verification/Cache_Content.thy ===== *)
theory Cache_Content
  imports Cache_Fragments
begin

text \<open>
  Correctness of the fragment operations of \<open>src/cache/cache.c\<close>: the list stays sorted and
  without overlaps, each operation changes the bytes of the document as it should, and the size
  counters follow the sum of the fragment lengths.
\<close>

definition frag_ok :: "fragment \<Rightarrow> bool" where
  "frag_ok f \<longleftrightarrow> flength f \<le> real_length f \<and> length (fdata f) = real_length f"

fun frags_ok :: "fragment list \<Rightarrow> bool" where
  "frags_ok [] \<longleftrightarrow> True"
| "frags_ok (f # fs) \<longleftrightarrow> frag_ok f \<and> (\<forall>g \<in> set fs. fend f \<le> foffset g) \<and> frags_ok fs"

definition byte_at :: "fragment \<Rightarrow> nat \<Rightarrow> char option" where
  "byte_at f p = (if foffset f \<le> p \<and> p < fend f then Some (fdata f ! (p - foffset f)) else None)"

text \<open>The byte of the document at a position, if some fragment holds it.\<close>

fun content :: "fragment list \<Rightarrow> nat \<Rightarrow> char option" where
  "content [] p = None"
| "content (f # fs) p = (case byte_at f p of Some c \<Rightarrow> Some c | None \<Rightarrow> content fs p)"

definition frag_total :: "fragment list \<Rightarrow> int" where
  "frag_total fs = int (sum_list (map flength fs))"

lemma frag_total_simps [simp]: "frag_total [] = 0" "frag_total (f # fs) = int (flength f) + frag_total fs"
  "frag_total (fs @ gs) = frag_total fs + frag_total gs"
  by (simp_all add: frag_total_def)

lemma frag_total_nonneg [simp]: "0 \<le> frag_total fs"
  by (simp add: frag_total_def)

lemma content_append: "content (xs @ ys) p = (case content xs p of Some c \<Rightarrow> Some c | None \<Rightarrow> content ys p)"
  by (induction xs) (auto split: option.splits)

lemma content_None: "(\<And>g. g \<in> set fs \<Longrightarrow> p < foffset g \<or> fend g \<le> p) \<Longrightarrow> content fs p = None"
proof (induction fs)
  case (Cons f fs)
  have "p < foffset f \<or> fend f \<le> p" using Cons.prems [of f] by simp
  moreover have "content fs p = None" using Cons by simp
  ultimately show ?case by (auto simp: byte_at_def)
qed simp

lemma frags_ok_append:
  "frags_ok (xs @ ys) \<longleftrightarrow> frags_ok xs \<and> frags_ok ys \<and> (\<forall>x \<in> set xs. \<forall>y \<in> set ys. fend x \<le> foffset y)"
  by (induction xs) auto

lemma frags_ok_frag: "frags_ok fs \<Longrightarrow> f \<in> set fs \<Longrightarrow> frag_ok f"
  by (induction fs) auto

subsection \<open>Accounting\<close>

definition moved :: "sizes \<Rightarrow> sizes \<Rightarrow> int \<Rightarrow> bool" where
  "moved sz sz' d \<longleftrightarrow> fst sz' = fst sz + d \<and> snd sz' mod 2 ^ 64 = (snd sz + d) mod 2 ^ 64"

lemma moved_refl [simp]: "moved sz sz 0"
  by (simp add: moved_def)

lemma moved_trans: "moved a b d \<Longrightarrow> moved b c e \<Longrightarrow> moved a c (d + e)"
proof -
  assume m: "moved a b d" "moved b c e"
  have "snd c mod 2 ^ 64 = (snd b mod 2 ^ 64 + e) mod 2 ^ 64" using m(2) by (simp add: moved_def mod_add_left_eq)
  also have "\<dots> = (snd a + (d + e)) mod 2 ^ 64"
    using m(1) by (simp add: moved_def mod_add_left_eq add.assoc)
  finally show ?thesis using m by (simp add: moved_def)
qed

lemma moved_enlarge: "0 \<le> fst sz + d \<Longrightarrow> moved sz (enlarge_entry d sz) d"
  by (auto simp: moved_def enlarge_entry_def split: prod.splits)

lemma moved_eq: "moved a b d \<Longrightarrow> d = e \<Longrightarrow> moved a b e"
  by simp

lemma delete_fragment_moved: "frag_total fs \<le> fst sz \<Longrightarrow> moved sz (delete_fragment fs sz) (- frag_total fs)"
proof (induction fs arbitrary: sz)
  case Nil
  then show ?case by simp
next
  case (Cons f fs)
  let ?s = "enlarge_entry (- int (flength f)) sz"
  have "frag_total fs \<ge> 0" by simp
  then have m: "moved sz ?s (- int (flength f))" using Cons(2) by (intro moved_enlarge) (simp del: frag_total_nonneg)
  then have "frag_total fs \<le> fst ?s" using Cons(2) by (simp add: moved_def)
  from moved_trans [OF m Cons(1) [OF this]] show ?case by simp
qed

subsection \<open>Buffers\<close>

lemma length_write_at: "pos + length xs \<le> length buf \<Longrightarrow> length (write_at buf pos xs) = length buf"
  by (simp add: write_at_def)

lemma nth_write_at:
  "pos \<le> length buf \<Longrightarrow> write_at buf pos xs ! i =
     (if i < pos then buf ! i else if i < pos + length xs then xs ! (i - pos)
      else drop (pos + length xs) buf ! (i - (pos + length xs)))"
  by (auto simp: write_at_def nth_append)

lemma nth_write_at': "pos + length xs \<le> length buf \<Longrightarrow> i < length buf \<Longrightarrow>
   write_at buf pos xs ! i = (if pos \<le> i \<and> i < pos + length xs then xs ! (i - pos) else buf ! i)"
  by (simp add: nth_write_at)

subsection \<open>Removing overlaps\<close>

lemma overlaps_done: "\<forall>g \<in> set rest. f_end \<le> foffset g \<Longrightarrow> remove_overlaps_loop f_end f rest sz trunc = (f, rest, sz, trunc)"
  by (cases rest) auto

text \<open>The fragment that swallowed the start of the following one.\<close>

lemma swallow:
  fixes f n :: fragment
  defines "f1 \<equiv> frag_realloc f (fend n - foffset f)"
  defines "f2 \<equiv> f1\<lparr>fdata := write_at (fdata f1) (flength f1)
      (take (fend n - fend f) (drop (fend f - foffset n) (fdata n))),
      flength := fend n - foffset f1, real_length := fend n - foffset f1\<rparr>"
  assumes "frag_ok f" "frag_ok n" "foffset f \<le> foffset n" "foffset n < fend f" "fend f < fend n"
  shows "frag_ok f2" "foffset f2 = foffset f" "fend f2 = fend n"
    "byte_at f2 p = (case byte_at f p of Some c \<Rightarrow> Some c | None \<Rightarrow> byte_at n p)"
proof -
  let ?L = "fend n - foffset f"
  let ?t = "take (fend n - fend f) (drop (fend f - foffset n) (fdata n))"
  have l1: "length (fdata f1) = ?L" "foffset f1 = foffset f" "flength f1 = flength f"
    using assms(5-7) by (auto simp: f1_def frag_realloc_def)
  have lt: "length ?t = fend n - fend f"
    using assms(4,6,7) by (auto simp: frag_ok_def min_def)
  have fit: "flength f + length ?t = ?L" using lt assms(5-7) by simp
  show "foffset f2 = foffset f" "fend f2 = fend n" using l1 assms(5-7) by (simp_all add: f2_def)
  show "frag_ok f2" using l1 lt fit by (simp add: f2_def frag_ok_def length_write_at)
  show "byte_at f2 p = (case byte_at f p of Some c \<Rightarrow> Some c | None \<Rightarrow> byte_at n p)"
  proof (cases "foffset f \<le> p \<and> p < fend n")
    case False
    then show ?thesis using assms(5-7) l1 by (auto simp: byte_at_def f2_def)
  next
    case True
    have w: "fdata f2 ! (p - foffset f) = (if flength f \<le> p - foffset f then ?t ! (p - foffset f - flength f)
        else fdata f1 ! (p - foffset f))"
      using True l1 lt fit nth_write_at' [of "flength f" ?t "fdata f1" "p - foffset f"] by (auto simp: f2_def)
    show ?thesis
    proof (cases "p < fend f")
      case True': True
      have "p - foffset f < length (fdata f)" using True True' assms(3) unfolding frag_ok_def by linarith
      then have "fdata f1 ! (p - foffset f) = fdata f ! (p - foffset f)"
        using True diff_less_mono [of p "fend n" "foffset f"] by (simp add: f1_def frag_realloc_def nth_append)
      moreover have "\<not> flength f \<le> p - foffset f" using True True' by linarith
      ultimately have "fdata f2 ! (p - foffset f) = fdata f ! (p - foffset f)" using w by simp
      then show ?thesis using True True' l1 by (simp add: byte_at_def f2_def)
    next
      case False
      then have e: "fend f - foffset n + (p - fend f) = p - foffset n" "p - foffset f - flength f = p - fend f"
        and k: "fend f - foffset n \<le> length (fdata n)" "p - fend f < fend n - fend f"
        using True assms(4-7) by (auto simp: frag_ok_def)
      have "?t ! (p - foffset f - flength f) = fdata n ! (p - foffset n)"
        unfolding e(2) nth_take [OF k(2)] nth_drop [OF k(1)] e(1) ..
      moreover have "flength f \<le> p - foffset f" using True False by linarith
      ultimately have "fdata f2 ! (p - foffset f) = fdata n ! (p - foffset n)" using w by simp
      then show ?thesis using True False w l1 assms(5-7) by (simp add: byte_at_def f2_def)
    qed
  qed
qed

lemma remove_overlaps_spec:
  assumes "frag_ok f" "frags_ok rest" "\<forall>g \<in> set rest. foffset f \<le> foffset g"
    and "remove_overlaps_loop (fend f) f rest sz trunc = (f', rest', sz', trunc')"
  shows "foffset f' = foffset f \<and> fend f \<le> fend f' \<and> frags_ok (f' # rest')
    \<and> (\<forall>p. content (f' # rest') p = content (f # rest) p) \<and> set rest' \<subseteq> set rest
    \<and> (frag_total (f # rest) \<le> fst sz \<longrightarrow> moved sz sz' (frag_total (f' # rest') - frag_total (f # rest)))"
  using assms
proof (induction rest arbitrary: sz trunc)
  case Nil
  then show ?case by auto
next
  case (Cons n rest)
  have n: "frag_ok n" "frags_ok rest" "\<forall>g \<in> set rest. fend n \<le> foffset g" "foffset f \<le> foffset n"
    using Cons.prems by simp_all
  show ?case
  proof (cases "fend f > foffset n")
    case False
    then have "f' = f" "rest' = n # rest" "sz' = sz" using Cons.prems(4) by simp_all
    moreover have "frags_ok (f # n # rest)" using Cons.prems False n by force
    ultimately show ?thesis by simp
  next
    case True
    let ?minus = "enlarge_entry (- int (flength n))"
    show ?thesis
    proof (cases "fend f < fend n")
      case longer: True
      define f1 where "f1 = frag_realloc f (fend n - foffset f)"
      define f2 where "f2 = f1\<lparr>fdata := write_at (fdata f1) (flength f1)
        (take (fend n - fend f) (drop (fend f - foffset n) (fdata n))),
        flength := fend n - foffset f1, real_length := fend n - foffset f1\<rparr>"
      note sw = swallow [OF Cons.prems(1) n(1) n(4) True longer, folded f1_def, folded f2_def]
      have "\<forall>g \<in> set rest. fend f \<le> foffset g" using n(3) longer by force
      then have res: "f' = f2" "rest' = rest"
        "sz' = ?minus (enlarge_entry (int (fend n - fend f)) sz)"
        using Cons.prems(4) True longer overlaps_done
        by (simp_all add: Let_def f1_def [symmetric] f2_def [symmetric])
      have "content (f2 # rest) p = content (f # n # rest) p" for p
        using sw(4) [of p] by (simp split: option.splits)
      moreover have "frags_ok (f2 # rest)" using sw(1,3) n by simp
      moreover have "moved sz sz' (frag_total (f2 # rest) - frag_total (f # n # rest))"
        if "frag_total (f # n # rest) \<le> fst sz"
      proof -
        have t: "0 \<le> frag_total rest" by simp
        have m1: "moved sz (enlarge_entry (int (fend n - fend f)) sz) (int (fend n - fend f))"
          using that t by (intro moved_enlarge) (simp del: frag_total_nonneg)
        have m2: "moved (enlarge_entry (int (fend n - fend f)) sz) sz' (- int (flength n))"
          unfolding res(3) using that m1 t by (intro moved_enlarge) (simp add: moved_def del: frag_total_nonneg)
        have "int (flength f2) = int (flength f) + int (fend n - fend f)"
          using sw(2,3) longer by linarith
        then show ?thesis by (intro moved_eq [OF moved_trans [OF m1 m2]]) simp
      qed
      ultimately show ?thesis using res sw(2,3) longer by auto
    next
      case inside: False
      let ?t = "trunc \<or> take (flength n) (drop (foffset n - foffset f) (fdata f)) \<noteq> take (flength n) (fdata n)"
      have loop: "remove_overlaps_loop (fend f) f rest (?minus sz) ?t = (f', rest', sz', trunc')"
        using Cons.prems(4) True inside by (simp add: Let_def)
      note IH = Cons.IH [OF Cons.prems(1) n(2) _ loop]
      have ih: "foffset f' = foffset f \<and> fend f \<le> fend f' \<and> frags_ok (f' # rest')
          \<and> (\<forall>p. content (f' # rest') p = content (f # rest) p) \<and> set rest' \<subseteq> set rest
          \<and> (frag_total (f # rest) \<le> fst (?minus sz) \<longrightarrow>
               moved (?minus sz) sz' (frag_total (f' # rest') - frag_total (f # rest)))"
        by (rule IH) (use Cons.prems(3) in simp)
      have "content (f # rest) p = content (f # n # rest) p" for p
        using inside n(4) by (auto simp: byte_at_def split: option.splits)
      moreover have "moved sz sz' (frag_total (f' # rest') - frag_total (f # n # rest))"
        if a: "frag_total (f # n # rest) \<le> fst sz"
      proof -
        have t: "0 \<le> frag_total rest" by simp
        have m: "moved sz (?minus sz) (- int (flength n))"
          using a t by (intro moved_enlarge) (simp del: frag_total_nonneg)
        then have "frag_total (f # rest) \<le> fst (?minus sz)" using a by (simp add: moved_def)
        then have "moved (?minus sz) sz' (frag_total (f' # rest') - frag_total (f # rest))"
          using ih by blast
        from moved_trans [OF m this] show ?thesis by (rule moved_eq) simp
      qed
      ultimately show ?thesis using ih by auto
    qed
  qed
qed


subsection \<open>Cutting\<close>

lemma frag_realloc_ok:
  "frag_ok f \<Longrightarrow> n \<le> flength f \<Longrightarrow>
   frag_ok ((frag_realloc (f\<lparr>flength := n\<rparr>) n)\<lparr>real_length := n\<rparr>)"
  by (auto simp: frag_ok_def frag_realloc_def)

lemma truncate_frags_spec:
  assumes "frags_ok fs" "truncate_frags offset final fs sz = (fs', sz')"
  shows "frags_ok fs' \<and> (\<forall>p. content fs' p = (if p < offset then content fs p else None))
    \<and> (\<forall>g' \<in> set fs'. \<exists>g \<in> set fs. foffset g = foffset g' \<and> fend g' \<le> fend g)
    \<and> (frag_total fs \<le> fst sz \<longrightarrow> moved sz sz' (frag_total fs' - frag_total fs))"
  using assms
proof (induction fs arbitrary: fs' sz')
  case Nil
  then show ?case by simp
next
  case (Cons f fs)
  have f: "frag_ok f" "\<forall>g \<in> set fs. fend f \<le> foffset g" "frags_ok fs" using Cons.prems(1) by simp_all
  have past: "content fs p = None" if "p < fend f" for p
    using f(2) that by (intro content_None) fastforce
  show ?case
  proof (cases "fend f \<le> offset")
    case True
    then obtain r where r: "truncate_frags offset final fs sz = (r, sz')" "fs' = f # r"
      using Cons.prems(2) by (auto split: prod.splits)
    have ih: "frags_ok r" "\<forall>p. content r p = (if p < offset then content fs p else None)"
      "\<forall>g' \<in> set r. \<exists>g \<in> set fs. foffset g = foffset g' \<and> fend g' \<le> fend g"
      "frag_total fs \<le> fst sz \<longrightarrow> moved sz sz' (frag_total r - frag_total fs)"
      using Cons.IH [OF f(3) r(1)] by blast+
    have "frags_ok (f # r)" using f ih(1,3) by fastforce
    moreover have "content (f # r) p = (if p < offset then content (f # fs) p else None)" for p
      using ih(2) True by (auto simp: byte_at_def split: option.splits)
    ultimately show ?thesis using r(2) ih(3,4) by auto
  next
    case False
    show ?thesis
    proof (cases "offset > foffset f")
      case cut: True
      let ?n = "offset - foffset f"
      define f2 where "f2 = (if final then (frag_realloc (f\<lparr>flength := ?n\<rparr>) ?n)\<lparr>real_length := ?n\<rparr>
        else f\<lparr>flength := ?n\<rparr>)"
      have n: "?n \<le> flength f" "?n < flength f" using False cut by simp_all
      have f2: "frag_ok f2" "foffset f2 = foffset f" "flength f2 = ?n"
        "i < ?n \<Longrightarrow> fdata f2 ! i = fdata f ! i" for i
        using f(1) n frag_realloc_ok [OF f(1) n(1)]
        by (auto simp: f2_def frag_ok_def frag_realloc_def nth_append)
      have res: "fs' = [f2]" "sz' = delete_fragment fs (enlarge_entry (- int (flength f - ?n)) sz)"
        using Cons.prems(2) False cut by (auto simp: Let_def f2_def split: if_splits)
      have "content [f2] p = (if p < offset then content (f # fs) p else None)" for p
        using f2 cut False past [of p] by (auto simp: byte_at_def)
      moreover have "moved sz sz' (frag_total [f2] - frag_total (f # fs))" if a: "frag_total (f # fs) \<le> fst sz"
      proof -
        let ?d = "- int (flength f - ?n)"
        have t: "0 \<le> frag_total fs" by simp
        have m: "moved sz (enlarge_entry ?d sz) ?d"
          using a t n by (intro moved_enlarge) (simp del: frag_total_nonneg)
        then have "frag_total fs \<le> fst (enlarge_entry ?d sz)" using a n by (simp add: moved_def)
        then have "moved (enlarge_entry ?d sz) sz' (- frag_total fs)"
          unfolding res(2) by (rule delete_fragment_moved)
        from moved_trans [OF m this] show ?thesis using n f2(3) by (elim moved_eq) simp
      qed
      ultimately show ?thesis using res(1) f2(1-3) n by auto
    next
      case gone: False
      have res: "fs' = []" "sz' = delete_fragment (f # fs) sz" using Cons.prems(2) False gone by simp_all
      have "p < offset \<Longrightarrow> content (f # fs) p = None" for p
        using gone past [of p] False by (auto simp: byte_at_def)
      then show ?thesis using res delete_fragment_moved [of "f # fs" sz] by auto
    qed
  qed
qed

lemma free_to_frags_spec:
  assumes "frags_ok fs" "free_to_frags offset fs sz = (fs', sz')"
  shows "frags_ok fs' \<and> (\<forall>p. content fs' p = (if offset \<le> p then content fs p else None))
    \<and> (\<forall>g' \<in> set fs'. \<exists>g \<in> set fs. foffset g \<le> foffset g')
    \<and> (frag_total fs \<le> fst sz \<longrightarrow> moved sz sz' (frag_total fs' - frag_total fs))"
  using assms
proof (induction fs arbitrary: fs' sz sz')
  case Nil
  then show ?case by simp
next
  case (Cons f fs)
  have f: "frag_ok f" "\<forall>g \<in> set fs. fend f \<le> foffset g" "frags_ok fs" using Cons.prems(1) by simp_all
  have t: "0 \<le> frag_total fs" by simp
  show ?case
  proof (cases "fend f \<le> offset")
    case True
    let ?sz = "enlarge_entry (- int (flength f)) sz"
    have loop: "free_to_frags offset fs ?sz = (fs', sz')" using Cons.prems(2) True by simp
    note ih = Cons.IH [OF f(3) loop]
    have "moved sz sz' (frag_total fs' - frag_total (f # fs))" if a: "frag_total (f # fs) \<le> fst sz"
    proof -
      have m: "moved sz ?sz (- int (flength f))" using a t by (intro moved_enlarge) (simp del: frag_total_nonneg)
      then have "frag_total fs \<le> fst ?sz" using a by (simp add: moved_def)
      then have "moved ?sz sz' (frag_total fs' - frag_total fs)" using ih by blast
      from moved_trans [OF m this] show ?thesis by (rule moved_eq) simp
    qed
    moreover have "content (f # fs) p = content fs p" if "offset \<le> p" for p
      using True that by (simp add: byte_at_def)
    ultimately show ?thesis using ih by auto
  next
    case False
    show ?thesis
    proof (cases "foffset f < offset")
      case cut: True
      let ?n = "offset - foffset f" and ?sz = "enlarge_entry (- int (offset - foffset f)) sz"
      define f1 where "f1 = f\<lparr>flength := flength f - ?n,
        fdata := write_at (fdata f) 0 (take (flength f - ?n) (drop ?n (fdata f))), foffset := offset\<rparr>"
      obtain r where r: "free_to_frags offset fs ?sz = (r, sz')" "fs' = f1 # r"
        using Cons.prems(2) False cut by (auto simp: Let_def f1_def split: prod.splits)
      have same: "free_to_frags offset fs ?sz = (fs, ?sz)"
      proof (cases fs)
        case (Cons g gs)
        then have "\<not> fend g \<le> offset" "\<not> foffset g < offset" using f(2) False by auto
        then show ?thesis using Cons by simp
      qed simp
      then have r': "r = fs" "sz' = ?sz" using r(1) by simp_all
      let ?t = "take (flength f - ?n) (drop ?n (fdata f))"
      have l: "length ?t = flength f - ?n" "length ?t \<le> length (fdata f)"
        using f(1) cut False by (auto simp: frag_ok_def)
      have ok1: "frag_ok f1" using f(1) l length_write_at [of 0 ?t "fdata f"] by (simp add: f1_def frag_ok_def)
      have end': "fend f1 = fend f" "foffset f1 = offset" using cut False by (simp_all add: f1_def)
      have byte: "byte_at f1 p = (if offset \<le> p then byte_at f p else None)" for p
      proof (cases "offset \<le> p \<and> p < fend f")
        case True
        then have i: "p - offset < length ?t" using l cut False by linarith
        then have "p - offset < length (fdata f)" using l(2) by (rule less_le_trans)
        then have "fdata f1 ! (p - offset) = ?t ! (p - offset)"
          using i l(2) nth_write_at' [of 0 ?t "fdata f" "p - offset", OF _ \<open>p - offset < length (fdata f)\<close>]
          by (simp add: f1_def del: length_take length_drop nth_take nth_drop)
        also have "\<dots> = fdata f ! (?n + (p - offset))"
          using i by (subst nth_take, simp, subst nth_drop) auto
        also have "?n + (p - offset) = p - foffset f" using True cut by linarith
        finally show ?thesis using True cut end' by (simp add: byte_at_def)
      qed (use cut end' in \<open>auto simp: byte_at_def\<close>)
      have "content (f1 # fs) p = (if offset \<le> p then content (f # fs) p else None)" for p
      proof (cases "offset \<le> p")
        case False': False
        have "content fs p = None" using f(2) False False' by (intro content_None) fastforce
        then show ?thesis using byte [of p] False' by simp
      qed (simp add: byte)
      moreover have "moved sz sz' (frag_total fs' - frag_total (f # fs))" if a: "frag_total (f # fs) \<le> fst sz"
      proof -
        have "moved sz ?sz (- int ?n)" using a t cut False by (intro moved_enlarge) (simp del: frag_total_nonneg)
        moreover have "frag_total fs' - frag_total (f # fs) = - int ?n" using r' r(2) cut False by (simp add: f1_def)
        ultimately show ?thesis using r' by simp
      qed
      ultimately show ?thesis using r(2) r' ok1 end' f(2,3) cut by auto
    next
      case keep: False
      have res: "fs' = f # fs" "sz' = sz" using Cons.prems(2) False keep by simp_all
      have "content (f # fs) p = None" if "p < offset" for p
      proof -
        have "content fs p = None" using f(2) that False keep by (intro content_None) fastforce
        then show ?thesis using that keep by (simp add: byte_at_def)
      qed
      then show ?thesis using res Cons.prems(1) by auto
    qed
  qed
qed

end
