(* ===== verification/Cache_Add.thy ===== *)
theory Cache_Add
  imports Cache_Content
begin

text \<open>
  The correctness of whole operations of \<open>src/cache/cache.c\<close> on an entry: \<open>add_fragment\<close>,
  \<open>truncate_entry\<close>, \<open>free_entry_to\<close> and \<open>get_cache_fragment\<close>, composed from the lemmas on their
  loops: which bytes of the document they change, and what they do to the size counters.
\<close>

subsection \<open>Adding a fragment\<close>

text \<open>
  The bytes cut off the end of a fragment in whose place the new data does not fit; the code
  does not subtract them from the counters.
\<close>

fun overcount :: "nat \<Rightarrow> nat \<Rightarrow> fragment list \<Rightarrow> nat" where
  "overcount offset end_offset [] = 0"
| "overcount offset end_offset (f # fs) =
     (if foffset f > offset then 0
      else if fend f < offset then overcount offset end_offset fs
      else if end_offset > fend f \<and> end_offset - foffset f > real_length f then fend f - offset
      else 0)"

definition inside_ok :: "nat \<Rightarrow> nat \<Rightarrow> fragment list \<Rightarrow> sizes \<Rightarrow> fragment list \<Rightarrow> fragment \<Rightarrow>
    fragment list \<Rightarrow> sizes \<Rightarrow> bool" where
  "inside_ok offset end_offset all sz b f' fs sz' \<longleftrightarrow>
     (\<exists>f. all = b @ f # fs \<and> foffset f \<le> offset \<and> offset \<le> fend f
        \<and> f' = f\<lparr>flength := max (flength f) (end_offset - foffset f)\<rparr>
        \<and> end_offset - foffset f \<le> real_length f
        \<and> (frag_total all \<le> fst sz \<longrightarrow> moved sz sz' (int (flength f') - int (flength f))))"

definition between_ok :: "nat \<Rightarrow> nat \<Rightarrow> fragment list \<Rightarrow> fragment list \<Rightarrow> fragment list \<Rightarrow> nat \<Rightarrow> bool" where
  "between_ok offset end_offset all b fs lost \<longleftrightarrow>
     frags_ok (b @ fs) \<and> (\<forall>g \<in> set b. fend g \<le> offset) \<and> (\<forall>g \<in> set fs. offset \<le> foffset g)
     \<and> (\<forall>p. p < offset \<or> end_offset \<le> p \<longrightarrow> content (b @ fs) p = content all p)
     \<and> frag_total all = frag_total (b @ fs) + int lost"

lemma find_place_spec:
  assumes "frags_ok (b @ fs)" "\<forall>g \<in> set b. fend g \<le> offset" "offset < end_offset"
  shows "case find_place offset end_offset b fs sz of
      Inside b' f' fs' sz' r \<Rightarrow> inside_ok offset end_offset (b @ fs) sz b' f' fs' sz'
        \<and> overcount offset end_offset fs = 0
    | Between b' fs' \<Rightarrow> between_ok offset end_offset (b @ fs) b' fs' (overcount offset end_offset fs)"
  using assms
proof (induction fs arbitrary: b)
  case Nil
  then show ?case by (simp add: between_ok_def)
next
  case (Cons f fs)
  have f: "frag_ok f" "frags_ok b" "frags_ok fs" "\<forall>g \<in> set fs. fend f \<le> foffset g"
    "\<forall>x \<in> set b. fend x \<le> foffset f" "\<forall>x \<in> set b. \<forall>y \<in> set fs. fend x \<le> foffset y"
    using Cons.prems(1) by (simp_all add: frags_ok_append)
  consider (gap) "offset < foffset f" | (skip) "fend f < offset" "\<not> offset < foffset f"
    | (cut) "foffset f \<le> offset" "offset \<le> fend f" "fend f < end_offset" "real_length f < end_offset - foffset f"
    | (grow) "foffset f \<le> offset" "offset \<le> fend f" "fend f < end_offset" "end_offset - foffset f \<le> real_length f"
    | (sub) "foffset f \<le> offset" "offset \<le> fend f" "end_offset \<le> fend f"
    by linarith
  then show ?case
  proof cases
    case gap
    then have "\<forall>g \<in> set fs. offset \<le> foffset g" using f(4) by fastforce
    then show ?thesis using gap Cons.prems by (simp add: between_ok_def)
  next
    case skip
    have eqs: "find_place offset end_offset b (f # fs) sz = find_place offset end_offset (b @ [f]) fs sz"
      "overcount offset end_offset (f # fs) = overcount offset end_offset fs" "b @ f # fs = (b @ [f]) @ fs"
      using skip by simp_all
    have "\<forall>g \<in> set (b @ [f]). fend g \<le> offset" "frags_ok ((b @ [f]) @ fs)"
      using skip Cons.prems(1,2) by auto
    then show ?thesis unfolding eqs by (intro Cons.IH Cons.prems(3))
  next
    case cut
    let ?f = "f\<lparr>flength := offset - foffset f\<rparr>"
    have ok: "frag_ok ?f" "fend ?f = offset" "foffset ?f = foffset f" using f(1) cut by (auto simp: frag_ok_def)
    have after: "\<forall>g \<in> set fs. offset \<le> foffset g" using f(4) cut by force
    have "frags_ok ((b @ [?f]) @ fs)"
      using f ok after by (simp add: frags_ok_append ball_Un del: frags_ok.simps(2)) (auto simp: ok)
    moreover have "content ((b @ [?f]) @ fs) p = content (b @ f # fs) p" if "p < offset \<or> end_offset \<le> p" for p
      using that cut by (auto simp: content_append byte_at_def split: option.splits)
    moreover have "frag_total (b @ f # fs) = frag_total ((b @ [?f]) @ fs) + int (fend f - offset)"
      using cut by simp
    moreover have "\<forall>g \<in> set (b @ [?f]). fend g \<le> offset" using Cons.prems(2) ok by auto
    ultimately show ?thesis using cut after by (simp add: between_ok_def)
  next
    case grow
    have "moved sz (enlarge_entry (int (end_offset - fend f)) sz) (int (end_offset - fend f))"
      if "frag_total (b @ f # fs) \<le> fst sz"
    proof (rule moved_enlarge)
      have "0 \<le> frag_total (b @ f # fs)" by (rule frag_total_nonneg)
      then show "0 \<le> fst sz + int (end_offset - fend f)" using that by linarith
    qed
    then show ?thesis using grow by (auto simp: inside_ok_def max_def of_nat_diff diff_diff_eq)
  next
    case sub
    then show ?thesis by (auto simp: inside_ok_def max_def frag_ok_def intro!: exI [of _ f])
      (use f(1) in \<open>auto simp: frag_ok_def\<close>)
  qed
qed


text \<open>The fragment that takes the new data, in both cases.\<close>

lemma written_fragment:
  assumes "frag_ok f" "foffset f \<le> offset" "offset \<le> fend f"
    and "f' = f\<lparr>flength := max (flength f) (offset + length d - foffset f)\<rparr>"
    and "offset + length d - foffset f \<le> real_length f"
  defines "w \<equiv> f'\<lparr>fdata := write_at (fdata f') (offset - foffset f') d\<rparr>"
  shows "frag_ok w \<and> foffset w = foffset f \<and> fend f \<le> fend w
    \<and> (\<forall>p. byte_at w p = (if offset \<le> p \<and> p < offset + length d then Some (d ! (p - offset)) else byte_at f p))"
proof (intro conjI allI)
  have fits: "offset - foffset f + length d \<le> length (fdata f)" and len: "length (fdata f) = real_length f"
    using assms(1,2,5) by (auto simp: frag_ok_def)
  then show ok: "frag_ok w"
    using assms(1,4,5) by (auto simp: frag_ok_def w_def length_write_at)
  show "foffset w = foffset f" "fend f \<le> fend w" by (simp_all add: w_def assms(4))
  fix p
  have e: "fend w = max (fend f) (offset + length d)" using assms(2) by (auto simp: w_def assms(4))
  show "byte_at w p = (if offset \<le> p \<and> p < offset + length d then Some (d ! (p - offset)) else byte_at f p)"
  proof (cases "foffset f \<le> p \<and> p < fend w")
    case True
    have i: "p - foffset f < length (fdata f)"
      using True ok len by (auto simp: frag_ok_def w_def assms(4))
    have "fdata w ! (p - foffset f) = (if offset - foffset f \<le> p - foffset f
        \<and> p - foffset f < offset - foffset f + length d then d ! (p - foffset f - (offset - foffset f))
        else fdata f ! (p - foffset f))"
      using nth_write_at' [OF fits i] by (simp add: w_def assms(4))
    also have "\<dots> = (if offset \<le> p \<and> p < offset + length d then d ! (p - offset) else fdata f ! (p - foffset f))"
      using True assms(2) by auto
    finally show ?thesis using True e assms(3) by (auto simp: byte_at_def w_def assms(4))
  next
    case False
    then show ?thesis using e assms(2) by (auto simp: byte_at_def w_def assms(4))
  qed
qed

lemma new_fragment_ok:
  "frag_ok (new_fragment offset d) \<and> foffset (new_fragment offset d) = offset
   \<and> flength (new_fragment offset d) = length d
   \<and> (\<forall>p. byte_at (new_fragment offset d) p =
        (if offset \<le> p \<and> p < offset + length d then Some (d ! (p - offset)) else None))"
proof -
  have "int (length d) \<le> int (length d OR 0x3fff)"
    unfolding of_nat_or_eq by (rule or_greater_eq) simp
  then have "length d \<le> CACHE_PAD (length d)" by (simp add: CACHE_PAD_def)
  then show ?thesis
    by (auto simp: new_fragment_def frag_alloc_def Let_def frag_ok_def length_write_at byte_at_def nth_write_at')
qed


text \<open>Merging the written fragment with those after it, and cutting the entry.\<close>

lemma merge_spec:
  assumes "frags_ok b" "frag_ok w" "frags_ok fs" "\<forall>x \<in> set b. fend x \<le> foffset w"
    and "\<forall>g \<in> set fs. foffset w \<le> foffset g" "remove_overlaps w fs sz = (f2, fs2, sz2, trunc)"
  shows "frags_ok (b @ f2 # fs2) \<and> (\<forall>p. content (b @ f2 # fs2) p = content (b @ w # fs) p)
    \<and> (frag_total (b @ w # fs) \<le> fst sz \<longrightarrow>
         moved sz sz2 (frag_total (b @ f2 # fs2) - frag_total (b @ w # fs)))"
proof -
  have r: "foffset f2 = foffset w" "frags_ok (f2 # fs2)" "\<And>p. content (f2 # fs2) p = content (w # fs) p"
    "set fs2 \<subseteq> set fs" "frag_total (w # fs) \<le> fst sz \<longrightarrow> moved sz sz2 (frag_total (f2 # fs2) - frag_total (w # fs))"
    using remove_overlaps_spec [OF assms(2,3,5) assms(6) [unfolded remove_overlaps_def]] by blast+
  have "\<forall>x \<in> set b. \<forall>y \<in> set (f2 # fs2). fend x \<le> foffset y"
    using assms(4,5) r(1,4) by fastforce
  then have "frags_ok (b @ f2 # fs2)" using assms(1) r(2) by (simp only: frags_ok_append)
  moreover have "content (b @ f2 # fs2) p = content (b @ w # fs) p" for p
    using r(3) by (simp only: content_append)
  moreover have "frag_total (w # fs) \<le> frag_total (b @ w # fs)"
    using frag_total_nonneg [of b] by simp
  moreover have "frag_total (f2 # fs2) - frag_total (w # fs) = frag_total (b @ f2 # fs2) - frag_total (b @ w # fs)"
    by simp
  ultimately show ?thesis using r(5) order_trans by metis
qed

lemma truncate_entry_spec:
  assumes "frags_ok (frag c)" "truncate_entry c offset final sz = (c', sz')"
  shows "frags_ok (frag c') \<and> (\<forall>p. content (frag c') p = (if p < offset then content (frag c) p else None))
    \<and> elength c' = min (elength c) offset \<and> (incomplete c' \<longleftrightarrow> incomplete c \<or> offset < elength c)
    \<and> (frag_total (frag c) \<le> fst sz \<longrightarrow> moved sz sz' (frag_total (frag c') - frag_total (frag c)))"
proof -
  let ?c1 = "if elength c > offset then c\<lparr>elength := offset, incomplete := True\<rparr> else c"
  obtain fs where t: "truncate_frags offset final (frag c) sz = (fs, sz')" "c' = ?c1\<lparr>frag := fs\<rparr>"
    using assms(2) by (auto simp: truncate_entry_def Let_def split: prod.splits if_splits)
  then have "frag c' = fs" by simp
  then show ?thesis using truncate_frags_spec [OF assms(1) t(1)] t(2) by auto
qed

definition added :: "entry_data \<Rightarrow> nat \<Rightarrow> string \<Rightarrow> bool \<Rightarrow> entry_data \<Rightarrow> bool" where
  "added c offset data gone c' \<longleftrightarrow>
     frags_ok (frag c')
     \<and> elength c' = (if gone then offset + length data else max (elength c) (offset + length data))
     \<and> (\<forall>p. content (frag c') p =
          (if offset \<le> p \<and> p < offset + length data then Some (data ! (p - offset))
           else if gone \<and> offset + length data \<le> p then None else content (frag c) p))"

lemma add_fragment_spec:
  assumes ok: "frags_ok (frag c)" and ne: "data \<noteq> []"
    and add: "add_fragment c offset data id_counter sz = (r, c', sz')"
  shows "(\<exists>gone. added c offset data gone c') \<and> cache_id c' = id_counter
    \<and> (frag_total (frag c) \<le> fst sz \<longrightarrow> moved sz sz'
         (frag_total (frag c') - frag_total (frag c) + int (overcount offset (offset + length data) (frag c))))"
proof -
  let ?fin = "offset + length data"
  define c1 where "c1 = c\<lparr>elength := (if elength c < ?fin then ?fin else elength c), cache_id := id_counter\<rparr>"
  have c1: "frag c1 = frag c" "elength c1 = max (elength c) ?fin" "cache_id c1 = id_counter" by (simp_all add: c1_def)
  have lt: "offset < ?fin" using ne by simp
  note place = find_place_spec [of "[]" "frag c" offset ?fin sz, unfolded append_Nil, OF ok _ lt, simplified ball_empty set_simps]
  show ?thesis
  proof (cases "find_place offset ?fin [] (frag c) sz")
    case (Inside b f' fs sz1 ret)
    then have ins: "inside_ok offset ?fin (frag c) sz b f' fs sz1" and over: "overcount offset ?fin (frag c) = 0"
      using place by simp_all
    then obtain f where f: "frag c = b @ f # fs" "foffset f \<le> offset" "offset \<le> fend f"
      "f' = f\<lparr>flength := max (flength f) (?fin - foffset f)\<rparr>" "?fin - foffset f \<le> real_length f"
      "frag_total (frag c) \<le> fst sz \<longrightarrow> moved sz sz1 (int (flength f') - int (flength f))"
      by (auto simp: inside_ok_def)
    define w where "w = f'\<lparr>fdata := write_at (fdata f') (offset - foffset f') data\<rparr>"
    have fs: "frag_ok f" "frags_ok b" "frags_ok fs" "\<forall>g \<in> set fs. fend f \<le> foffset g"
      "\<forall>x \<in> set b. fend x \<le> foffset f" using ok f(1) by (simp_all add: frags_ok_append)
    have wf: "frag_ok w" "foffset w = foffset f"
      "\<And>p. byte_at w p = (if offset \<le> p \<and> p < ?fin then Some (data ! (p - offset)) else byte_at f p)"
      using written_fragment [OF fs(1) f(2-5), folded w_def] by blast+
    have wl: "flength w = flength f'" by (simp add: w_def)
    obtain f2 fs2 sz2 trunc where m: "remove_overlaps w fs sz1 = (f2, fs2, sz2, trunc)" by (metis prod_cases4)
    define c2 where "c2 = c1\<lparr>frag := b @ f2 # fs2\<rparr>"
    have t: "truncate_entry c2 ?fin False sz2 = (c', sz')"
      using add ne Inside m by (simp add: add_fragment_def Let_def c1_def [symmetric] w_def c2_def split: prod.splits)
    have "\<forall>x \<in> set b. fend x \<le> foffset w" "\<forall>g \<in> set fs. foffset w \<le> foffset g"
      using fs wf(2) by fastforce+
    note mm = merge_spec [OF fs(2) wf(1) fs(3) this m]
    have fr: "frag c2 = b @ f2 # fs2" "elength c2 = max (elength c) ?fin" "cache_id c2 = id_counter"
      by (simp_all add: c2_def c1)
    have "frags_ok (frag c2)" using mm fr(1) by simp
    note tt = truncate_entry_spec [OF this t, unfolded fr]
    have cont: "content (b @ w # fs) p = (if offset \<le> p \<and> p < ?fin then Some (data ! (p - offset)) else content (frag c) p)" for p
    proof (cases "offset \<le> p \<and> p < ?fin")
      case True
      have "content b p = None" using True fs(5) f(2) by (intro content_None) fastforce
      then show ?thesis using True wf(3) [of p] by (simp add: content_append)
    next
      case False
      then have "content (w # fs) p = content (f # fs) p" using wf(3) [of p] by auto
      then show ?thesis using False by (simp only: content_append f(1) if_False)
    qed
    have "cache_id c' = id_counter" using t by (auto simp: truncate_entry_def fr Let_def split: prod.splits)
    moreover have "added c offset data True c'"
      using tt mm cont by (auto simp: added_def)
    moreover have "moved sz sz' (frag_total (frag c') - frag_total (frag c))" if a: "frag_total (frag c) \<le> fst sz"
    proof -
      have m1: "moved sz sz1 (frag_total (b @ w # fs) - frag_total (frag c))"
        using f(1,6) a by (simp add: wl)
      then have a1: "frag_total (b @ w # fs) \<le> fst sz1" using a by (simp add: moved_def)
      then have m2: "moved sz1 sz2 (frag_total (b @ f2 # fs2) - frag_total (b @ w # fs))" using mm by blast
      then have "frag_total (b @ f2 # fs2) \<le> fst sz2" using a1 by (simp add: moved_def)
      then have "moved sz2 sz' (frag_total (frag c') - frag_total (b @ f2 # fs2))" using tt by blast
      from moved_trans [OF moved_trans [OF m1 m2] this] show ?thesis by (rule moved_eq) simp
    qed
    ultimately show ?thesis using over by auto
  next
    case (Between b fs)
    let ?lost = "overcount offset ?fin (frag c)"
    define w where "w = new_fragment offset data"
    have bet: "between_ok offset ?fin (frag c) b fs ?lost" using place Between by simp
    then have bb: "frags_ok b" "frags_ok fs" "\<forall>x \<in> set b. fend x \<le> offset" "\<forall>g \<in> set fs. offset \<le> foffset g"
      "\<And>p. p < offset \<or> ?fin \<le> p \<Longrightarrow> content (b @ fs) p = content (frag c) p"
      "frag_total (frag c) = frag_total (b @ fs) + int ?lost"
      unfolding between_ok_def frags_ok_append by blast+
    have wf: "frag_ok w" "foffset w = offset" "flength w = length data"
      "\<And>p. byte_at w p = (if offset \<le> p \<and> p < ?fin then Some (data ! (p - offset)) else None)"
      using new_fragment_ok [of offset data, folded w_def] by blast+
    define sz1 where "sz1 = enlarge_entry (int (length data)) sz"
    obtain f2 fs2 sz2 trunc where m: "remove_overlaps w fs sz1 = (f2, fs2, sz2, trunc)" by (metis prod_cases4)
    have bw: "\<forall>x \<in> set b. fend x \<le> foffset w" "\<forall>g \<in> set fs. foffset w \<le> foffset g"
      using bb wf(2) by simp_all
    note mm = merge_spec [OF bb(1) wf(1) bb(2) bw m]
    define c2 where "c2 = c1\<lparr>frag := b @ f2 # fs2\<rparr>"
    have fr: "frag c2 = b @ f2 # fs2" "elength c2 = max (elength c) ?fin" "cache_id c2 = id_counter"
      by (simp_all add: c2_def c1)
    have t: "(if trunc then truncate_entry c2 ?fin False sz2 else (c2, sz2)) = (c', sz')"
      using add ne Between m
      by (simp add: add_fragment_def Let_def c1_def [symmetric] w_def sz1_def c2_def split: prod.splits if_splits)
    have okc2: "frags_ok (frag c2)" using mm fr(1) by simp
    have cont: "content (b @ w # fs) p = (if offset \<le> p \<and> p < ?fin then Some (data ! (p - offset)) else content (frag c) p)" for p
    proof (cases "offset \<le> p \<and> p < ?fin")
      case True
      have "content b p = None" using True bb(3) by (intro content_None) fastforce
      then show ?thesis using True by (simp add: content_append wf(4))
    next
      case False
      then have "content (w # fs) p = content fs p" using wf(4) [of p] by auto
      then show ?thesis using False bb(5) [of p] by (simp only: content_append if_False) auto
    qed
    have tt: "frags_ok (frag c') \<and> (\<forall>p. content (frag c') p = (if p < ?fin \<or> \<not> trunc then content (frag c2) p else None))
        \<and> elength c' = (if trunc then min (elength c2) ?fin else elength c2)
        \<and> (frag_total (frag c2) \<le> fst sz2 \<longrightarrow> moved sz2 sz' (frag_total (frag c') - frag_total (frag c2)))"
      using truncate_entry_spec [OF okc2, of ?fin False sz2 c' sz'] t okc2 by (cases trunc) auto
    have "added c offset data trunc c'"
      using tt mm cont by (auto simp: added_def fr)
    moreover have "cache_id c' = id_counter"
      using t fr(3) by (auto simp: truncate_entry_def Let_def split: prod.splits if_splits)
    moreover have "moved sz sz' (frag_total (frag c') - frag_total (frag c) + int ?lost)" if a: "frag_total (frag c) \<le> fst sz"
    proof -
      have pos: "0 \<le> fst sz" using a frag_total_nonneg [of "frag c"] by linarith
      have m1: "moved sz sz1 (int (length data))" unfolding sz1_def by (rule moved_enlarge) (use pos in simp)
      have a1: "frag_total (b @ w # fs) \<le> fst sz1" using a m1 bb(6) by (simp add: moved_def wf(3))
      then have m2: "moved sz1 sz2 (frag_total (frag c2) - frag_total (b @ w # fs))" using mm fr(1) by simp
      then have "frag_total (frag c2) \<le> fst sz2" using a1 by (simp add: moved_def)
      then have "moved sz2 sz' (frag_total (frag c') - frag_total (frag c2))" using tt by blast
      from moved_trans [OF moved_trans [OF m1 m2] this] show ?thesis
        by (rule moved_eq) (use bb(6) in \<open>simp add: wf(3)\<close>)
    qed
    ultimately show ?thesis by auto
  qed
qed

text \<open>
  C11: storing downloaded bytes. Afterwards the document holds exactly these bytes at their
  position and every byte before them unchanged; the bytes behind them are either all kept or
  all cut off (then the length of the entry is where the new bytes end); the fragments stay
  sorted and disjoint and each fits its allocated memory.
\<close>

theorem add_fragment_content:
  assumes "frags_ok (frag c)" "data \<noteq> []" "add_fragment c offset data id_counter sz = (r, c', sz')"
  shows "\<exists>gone. frags_ok (frag c')
    \<and> elength c' = (if gone then offset + length data else max (elength c) (offset + length data))
    \<and> (\<forall>p. content (frag c') p =
         (if offset \<le> p \<and> p < offset + length data then Some (data ! (p - offset))
          else if gone \<and> offset + length data \<le> p then None else content (frag c) p))"
  using add_fragment_spec [OF assms] unfolding added_def by blast

text \<open>
  C12: the size counters. Adding a fragment changes the size of the entry, and the total size
  modulo \<open>2 ^ 64\<close>, by as much as the sum of the fragment lengths changes, except when the data
  overlaps the end of a fragment whose memory is too small: then the bytes cut from that
  fragment stay counted.
\<close>

theorem add_fragment_counts:
  assumes "frags_ok (frag c)" "data \<noteq> []" "add_fragment c offset data id_counter sz = (r, c', sz')"
    and "frag_total (frag c) \<le> fst sz"
  shows "fst sz' - frag_total (frag c')
      = fst sz - frag_total (frag c) + int (overcount offset (offset + length data) (frag c))
    \<and> (snd sz' - snd sz) mod 2 ^ 64 = (fst sz' - fst sz) mod 2 ^ 64"
proof -
  have m: "moved sz sz' (frag_total (frag c') - frag_total (frag c)
      + int (overcount offset (offset + length data) (frag c)))"
    using add_fragment_spec [OF assms(1-3)] assms(4) by blast
  then have "(snd sz' - snd sz) mod 2 ^ 64 = ((snd sz + (fst sz' - fst sz)) - snd sz) mod 2 ^ 64"
    unfolding moved_def by (metis (no_types) add_diff_cancel_left' mod_diff_left_eq)
  then show ?thesis using m by (simp add: moved_def)
qed

text \<open>Four bytes in a fragment without room, as \<open>get_cache_fragment\<close> makes them.\<close>

definition full_entry :: entry_data where
  "full_entry = \<lparr>frag = [\<lparr>foffset = 0, flength = 4, real_length = 4, fdata = ''abcd''\<rparr>], elength = 4,
     incomplete = True, cache_id = 0\<rparr>"

lemma full_entry_ok: "frags_ok (frag full_entry)" "frag_total (frag full_entry) = 4"
  by (simp_all add: full_entry_def frag_ok_def)

theorem add_fragment_content_witness:
  "\<exists>r c' sz'. add_fragment full_entry 2 ''xyz'' 1 (4, 4) = (r, c', sz') \<and> frags_ok (frag c')
     \<and> map (content (frag c')) [0, 1, 2, 3, 4] = [Some CHR ''a'', Some CHR ''b'', Some CHR ''x'', Some CHR ''y'', Some CHR ''z'']"
proof -
  obtain r c' sz' where a: "add_fragment full_entry 2 ''xyz'' 1 (4, 4) = (r, c', sz')" by (metis prod_cases3)
  obtain gone where g: "frags_ok (frag c')" "\<And>p. content (frag c') p =
      (if 2 \<le> p \<and> p < 2 + length ''xyz'' then Some (''xyz'' ! (p - 2))
       else if gone \<and> 2 + length ''xyz'' \<le> p then None else content (frag full_entry) p)"
    using add_fragment_content [OF full_entry_ok(1) _ a] by blast
  have "map (content (frag c')) [0, 1, 2, 3, 4] = [Some CHR ''a'', Some CHR ''b'', Some CHR ''x'', Some CHR ''y'', Some CHR ''z'']"
    using g(2) [of 0] g(2) [of 1] g(2) [of 2] g(2) [of 3] g(2) [of 4] by (simp add: full_entry_def byte_at_def)
  with a g(1) show ?thesis by (intro exI conjI)
qed

theorem add_fragment_counts_witness:
  "\<exists>r c' sz'. add_fragment full_entry 2 ''xyz'' 1 (4, 4) = (r, c', sz') \<and> fst sz' = frag_total (frag c') + 2"
proof -
  obtain r c' sz' where a: "add_fragment full_entry 2 ''xyz'' 1 (4, 4) = (r, c', sz')" by (metis prod_cases3)
  have "fst sz' - frag_total (frag c') = 2"
    using add_fragment_counts [OF full_entry_ok(1) _ a] full_entry_ok by (simp add: full_entry_def)
  with a show ?thesis by force
qed

subsection \<open>Cutting and defragmenting a whole entry\<close>

text \<open>
  C14: cutting an entry keeps exactly the bytes before (for \<open>truncate_entry\<close>) or from (for
  \<open>free_entry_to\<close>) the given offset. When \<open>data_size\<close> is the sum of the fragments before, it is so
  after, and \<open>cache_size\<close> changes by as much as this sum, as an unsigned 64 bit number.
\<close>

theorem truncate_and_free_content:
  assumes "frags_ok (frag c)" "fst sz = frag_total (frag c)"
  shows "(case truncate_entry c offset final sz of (c', sz') \<Rightarrow> frags_ok (frag c')
      \<and> content (frag c') p = (if p < offset then content (frag c) p else None)
      \<and> elength c' = min (elength c) offset \<and> fst sz' = frag_total (frag c')
      \<and> snd sz' mod 2 ^ 64 = (snd sz + (frag_total (frag c') - frag_total (frag c))) mod 2 ^ 64)
    \<and> (case free_entry_to c offset sz of (c', sz') \<Rightarrow> frags_ok (frag c')
      \<and> content (frag c') p = (if offset \<le> p then content (frag c) p else None)
      \<and> elength c' = elength c \<and> fst sz' = frag_total (frag c')
      \<and> snd sz' mod 2 ^ 64 = (snd sz + (frag_total (frag c') - frag_total (frag c))) mod 2 ^ 64)"
proof -
  obtain c1 sz1 where t: "truncate_entry c offset final sz = (c1, sz1)" by (rule prod.exhaust)
  obtain fs sz2 where f: "free_to_frags offset (frag c) sz = (fs, sz2)" by (rule prod.exhaust)
  show ?thesis
    using truncate_entry_spec [OF assms(1) t] free_to_frags_spec [OF assms(1) f] t f assms(2)
    by (simp add: free_entry_to_def moved_def)
qed

theorem truncate_and_free_content_witness:
  "(case truncate_entry full_entry 2 True (4, 4) of (c', sz') \<Rightarrow> content (frag c') 1 = Some CHR ''b''
      \<and> content (frag c') 2 = None \<and> fst sz' = frag_total (frag c') \<and> snd sz' mod 2 ^ 64 = frag_total (frag c') mod 2 ^ 64)"
  using truncate_and_free_content [where c = full_entry and sz = "(4, 4)" and offset = 2 and final = True and p = 1]
    truncate_and_free_content [where c = full_entry and sz = "(4, 4)" and offset = 2 and final = True and p = 2]
    full_entry_ok
  by (auto simp: full_entry_def byte_at_def split: prod.splits)

definition merged :: "nat \<Rightarrow> fragment list \<Rightarrow> fragment" where
  "merged off fs = (let bytes = concat (map (\<lambda>f. take (flength f) (fdata f)) fs)
     in \<lparr>foffset = off, flength = length bytes, real_length = length bytes, fdata = bytes\<rparr>)"

lemma merged_simps [simp]: "foffset (merged off fs) = off" "frag_ok (merged off fs)"
  by (simp_all add: merged_def frag_ok_def Let_def)

lemma merged_Cons:
  assumes "frag_ok f"
  shows "flength (merged (foffset f) (f # fs)) = flength f + flength (merged (fend f) fs)"
    and "byte_at (merged (foffset f) (f # fs)) p =
      (case byte_at f p of Some c \<Rightarrow> Some c | None \<Rightarrow> byte_at (merged (fend f) fs) p)"
proof -
  let ?b = "concat (map (\<lambda>f. take (flength f) (fdata f)) fs)"
  have l: "length (take (flength f) (fdata f)) = flength f" using assms by (simp add: frag_ok_def)
  then show len: "flength (merged (foffset f) (f # fs)) = flength f + flength (merged (fend f) fs)"
    by (simp add: merged_def Let_def)
  show "byte_at (merged (foffset f) (f # fs)) p =
      (case byte_at f p of Some c \<Rightarrow> Some c | None \<Rightarrow> byte_at (merged (fend f) fs) p)"
  proof (cases "foffset f \<le> p \<and> p < fend f")
    case True
    then have "p - foffset f < length (take (flength f) (fdata f))" using l by linarith
    then have "(take (flength f) (fdata f) @ ?b) ! (p - foffset f) = fdata f ! (p - foffset f)"
      using True by (simp add: nth_append)
    then show ?thesis using True len by (simp add: byte_at_def merged_def Let_def)
  next
    case False
    then have "(take (flength f) (fdata f) @ ?b) ! (p - foffset f) = ?b ! (p - fend f)" if "fend f \<le> p"
    proof -
      have "\<not> p - foffset f < flength f" "p - foffset f - flength f = p - fend f" using that by linarith+
      then show ?thesis unfolding nth_append l by simp
    qed
    then show ?thesis using False l by (auto simp: byte_at_def merged_def Let_def)
  qed
qed

lemma merged_Nil [simp]: "flength (merged off []) = 0" "byte_at (merged off []) p = None"
  by (simp_all add: merged_def byte_at_def)

lemma adjacent_prefix_spec:
  assumes "frags_ok (f # fs)"
  shows "\<exists>a r. adjacent_prefix f fs = Some (a, r) \<and> fs = a @ r
    \<and> (r \<noteq> [] \<longrightarrow> foffset f + flength (merged (foffset f) (f # a)) < foffset (hd r))
    \<and> int (flength (merged (foffset f) (f # a))) = frag_total (f # a)
    \<and> (\<forall>p. byte_at (merged (foffset f) (f # a)) p = content (f # a) p)"
  using assms
proof (induction fs arbitrary: f)
  case Nil
  then show ?case by (auto simp: merged_Cons split: option.splits)
next
  case (Cons g fs)
  have ok: "frag_ok f" "fend f \<le> foffset g" "frags_ok (g # fs)" using Cons.prems by simp_all
  show ?case
  proof (cases "foffset g = fend f")
    case False
    then show ?thesis using ok by (auto simp: merged_Cons split: option.splits)
  next
    case True
    obtain a r where ih: "adjacent_prefix g fs = Some (a, r)" "fs = a @ r"
      "r \<noteq> [] \<longrightarrow> foffset g + flength (merged (foffset g) (g # a)) < foffset (hd r)"
      "int (flength (merged (foffset g) (g # a))) = frag_total (g # a)"
      "\<And>p. byte_at (merged (foffset g) (g # a)) p = content (g # a) p"
      using Cons.IH [OF ok(3)] by blast
    have "adjacent_prefix f (g # fs) = Some (g # a, r)" using True ih(1) by simp
    moreover have "flength (merged (foffset f) (f # g # a)) = flength f + flength (merged (foffset g) (g # a))"
      using merged_Cons(1) [OF ok(1)] True by simp
    moreover have "byte_at (merged (foffset f) (f # g # a)) p = content (f # g # a) p" for p
      unfolding merged_Cons(2) [OF ok(1)] True [symmetric] ih(5) by simp
    ultimately show ?thesis using ih(2-4) True by - (rule exI [of _ "g # a"], rule exI [of _ r], simp add: add.assoc [symmetric] del: content.simps)
  qed
qed

text \<open>
  C13: defragmentation of a document of less than 2 GiB, so that its length fits into the \<open>int\<close>
  the code counts it in. No byte of the document and no part of its size changes; a fragment is
  returned exactly when byte 0 is there, it is the first of the list, and nothing directly
  follows it: the next fragment, if any, comes after a gap.
\<close>

theorem get_cache_fragment_spec:
  assumes "frags_ok fs" "frag_total fs < 2 ^ 31"
  shows "\<exists>r fs'. get_cache_fragment fs = Some (r, fs')
    \<and> frags_ok fs' \<and> (\<forall>p. content fs' p = content fs p) \<and> frag_total fs' = frag_total fs
    \<and> (r \<noteq> None \<longleftrightarrow> fs \<noteq> [] \<and> foffset (hd fs) = 0)
    \<and> (case r of None \<Rightarrow> True | Some f \<Rightarrow> (\<exists>rest. fs' = f # rest \<and> foffset f = 0
         \<and> (rest \<noteq> [] \<longrightarrow> fend f < foffset (hd rest))))"
proof (cases "fs = [] \<or> foffset (hd fs) \<noteq> 0")
  case True
  then show ?thesis using assms(1) by (auto simp: get_cache_fragment_def split: list.splits)
next
  case False
  then obtain f gs where fs: "fs = f # gs" "foffset f = 0" by (cases fs) auto
  have ok: "frags_ok (f # gs)" using assms(1) fs by simp
  obtain a rest where a: "adjacent_prefix f gs = Some (a, rest)" "gs = a @ rest"
    "rest \<noteq> [] \<longrightarrow> foffset f + flength (merged (foffset f) (f # a)) < foffset (hd rest)"
    "int (flength (merged (foffset f) (f # a))) = frag_total (f # a)"
    "\<And>p. byte_at (merged (foffset f) (f # a)) p = content (f # a) p"
    using adjacent_prefix_spec [OF ok] by blast
  have "frag_total (f # a) \<le> frag_total fs"
    using fs(1) a(2) by simp
  then have "int (sum_list (map flength (f # a))) < int (2 ^ 31)"
    using assms(2) by (simp only: frag_total_def of_nat_power of_nat_numeral)
  then have small: "sum_list (map flength (f # a)) < 2 ^ 31" by (simp only: of_nat_less_iff)
  show ?thesis
  proof (cases a)
    case Nil
    have "flength (merged (foffset f) [f]) = flength f" using a(4) Nil by simp
    then have "get_cache_fragment fs = Some (Some f, fs)" "rest \<noteq> [] \<longrightarrow> fend f < foffset (hd rest)"
      using fs a(1-3) Nil by (auto simp: get_cache_fragment_def)
    then show ?thesis using assms(1) fs a(2) Nil by auto
  next
    case (Cons b bs)
    let ?m = "merged 0 (f # a)"
    have res: "get_cache_fragment fs = Some (Some ?m, ?m # rest)"
      using fs a(1,2) Cons small by (auto simp: get_cache_fragment_def merged_def Let_def)
    have "frags_ok rest" using ok a(2) by (simp add: frags_ok_append)
    moreover have "fend ?m \<le> foffset g" if gr: "g \<in> set rest" for g
    proof -
      obtain h t where h: "rest = h # t" using gr by (cases rest) auto
      then have "g = h \<or> fend h \<le> foffset g" using \<open>frags_ok rest\<close> gr by auto
      then show ?thesis using a(3) h fs(2) by auto
    qed
    ultimately have "frags_ok (?m # rest)" by simp
    moreover have "content (?m # rest) p = content fs p" for p
      unfolding fs(1) a(2) content_append [of "f # a" rest, unfolded append_Cons]
      using a(5) [of p] fs(2) by simp
    moreover have "frag_total (?m # rest) = frag_total fs"
      using fs a(2,4) by simp
    ultimately show ?thesis using res fs a(3) by (intro exI [of _ "Some ?m"] exI [of _ "?m # rest"]) auto
  qed
qed

theorem get_cache_fragment_spec_witness:
  "\<exists>r fs'. get_cache_fragment [\<lparr>foffset = 0, flength = 1, real_length = 2, fdata = ''ax''\<rparr>,
       \<lparr>foffset = 1, flength = 1, real_length = 1, fdata = ''b''\<rparr>] = Some (r, fs') \<and> content fs' 1 = Some CHR ''b''"
proof -
  let ?fs = "[\<lparr>foffset = 0, flength = 1, real_length = 2, fdata = ''ax''\<rparr>,
       \<lparr>foffset = 1, flength = 1, real_length = 1, fdata = ''b''\<rparr>]"
  have "frags_ok ?fs" "frag_total ?fs < 2 ^ 31" by (simp_all add: frag_ok_def)
  from get_cache_fragment_spec [OF this] show ?thesis by (auto simp: byte_at_def)
qed

end
