(* ===== verification/Time.thy ===== *)
theory Time
  imports Prelude
begin

text \<open>
  \<open>src/util/time.c\<close>: time values of seconds and microseconds. The members are \<open>long\<close>s; the
  functions on milliseconds check their range by assertions, which the model keeps, and the
  others are used on clock values far from the bounds, so the members are integers. The
  conversion from \<open>double\<close> and the clock itself are not modelled; the time of
  \<open>timeval_now\<close> is an argument where it is used. The code's branches for DOS and Win32 are not
  compiled.
\<close>

record timeval_T =
  sec :: int
  usec :: int

abbreviation (input) "LONG_MAX_1000 \<equiv> 9223372036854775 :: int"

text \<open>The loops that carry into the seconds.\<close>

function borrow :: "timeval_T \<Rightarrow> timeval_T" where
  "borrow t = (if usec t < 0 then borrow \<lparr>sec = sec t - 1, usec = usec t + 1000000\<rparr> else t)"
  by pat_completeness auto
termination by (relation "measure (\<lambda>t. nat (- usec t))") auto

function carry :: "timeval_T \<Rightarrow> timeval_T" where
  "carry t = (if usec t \<ge> 1000000 then carry \<lparr>sec = sec t + 1, usec = usec t - 1000000\<rparr> else t)"
  by pat_completeness auto
termination by (relation "measure (\<lambda>t. nat (usec t))") auto

declare borrow.simps [simp del] carry.simps [simp del]

definition timeval_sub_interval :: "timeval_T \<Rightarrow> timeval_T \<Rightarrow> timeval_T" where
  "timeval_sub_interval t interval =
     (let s = sec t - sec interval
      in if s < 0 then \<lparr>sec = 0, usec = 0\<rparr>
         else
           let t = borrow \<lparr>sec = s, usec = usec t - usec interval\<rparr>
           in if sec t < 0 then \<lparr>sec = 0, usec = 0\<rparr> else t)"

definition timeval_sub :: "timeval_T \<Rightarrow> timeval_T \<Rightarrow> timeval_T" where
  "timeval_sub older newer = borrow \<lparr>sec = sec newer - sec older, usec = usec newer - usec older\<rparr>"

definition el_timeval_add :: "timeval_T \<Rightarrow> timeval_T \<Rightarrow> timeval_T" where
  "el_timeval_add base t = carry \<lparr>sec = sec base + sec t, usec = usec base + usec t\<rparr>"

definition timeval_add_interval :: "timeval_T \<Rightarrow> timeval_T \<Rightarrow> timeval_T" where
  "timeval_add_interval t interval = carry \<lparr>sec = sec t + sec interval, usec = usec t + usec interval\<rparr>"

definition timeval_from_milliseconds :: "int \<Rightarrow> timeval_T" where
  "timeval_from_milliseconds ms = \<lparr>sec = ms sdiv 1000, usec = (ms smod 1000) * 1000\<rparr>"

definition timeval_from_seconds :: "int \<Rightarrow> timeval_T" where
  "timeval_from_seconds s = \<lparr>sec = s, usec = 0\<rparr>"

definition sec_to_ms :: "int \<Rightarrow> int" where
  "sec_to_ms s = (if 0 \<le> s \<and> s < LONG_MAX_1000 then s * 1000 else LONG_MAX_1000)"

definition add_ms_to_ms :: "int \<Rightarrow> int \<Rightarrow> int" where
  "add_ms_to_ms a b = (if 0 \<le> a \<and> 0 \<le> b \<and> b < 2 ^ 63 - 1 - a then a + b else LONG_MAX_1000)"

text \<open>The assertion of \<open>mult_ms\<close> divides by its second argument: \<open>None\<close> is a division by zero.\<close>

definition mult_ms :: "int \<Rightarrow> int \<Rightarrow> int option" where
  "mult_ms a b =
     (if 0 \<le> a \<and> b = 0 then None
      else if 0 \<le> a \<and> 0 \<le> b \<and> a < (2 ^ 63 - 1) sdiv b then Some (a * b)
      else Some LONG_MAX_1000)"

definition timeval_to_milliseconds :: "timeval_T \<Rightarrow> int" where
  "timeval_to_milliseconds t = add_ms_to_ms (sec_to_ms (sec t)) (usec t sdiv 1000)"

definition timeval_to_seconds :: "timeval_T \<Rightarrow> int" where
  "timeval_to_seconds t = sec t + usec t sdiv 1000000"

definition timeval_is_positive :: "timeval_T \<Rightarrow> bool" where
  "timeval_is_positive t \<longleftrightarrow> sec t > 0 \<or> sec t = 0 \<and> usec t > 0"

definition timeval_limit_to_zero_or_one :: "timeval_T \<Rightarrow> timeval_T" where
  "timeval_limit_to_zero_or_one t =
     \<lparr>sec = (if sec t < 0 then 0 else sec t), usec = (if usec t < 0 then 0 else usec t)\<rparr>"

definition timeval_cmp :: "timeval_T \<Rightarrow> timeval_T \<Rightarrow> int" where
  "timeval_cmp t1 t2 =
     (if sec t1 > sec t2 then 1 else if sec t1 < sec t2 then -1 else usec t1 - usec t2)"

subsection \<open>Time values as numbers of microseconds\<close>

definition usecs :: "timeval_T \<Rightarrow> int" where
  "usecs t = sec t * 1000000 + usec t"

definition normal :: "timeval_T \<Rightarrow> bool" where
  "normal t \<longleftrightarrow> 0 \<le> usec t \<and> usec t < 1000000"

lemma borrow_spec: "usec t < 1000000 \<Longrightarrow> normal (borrow t) \<and> usecs (borrow t) = usecs t"
proof (induction t rule: borrow.induct)
  case (1 t)
  then show ?case by (subst (1 2) borrow.simps) (auto simp: normal_def usecs_def)
qed

lemma carry_spec: "0 \<le> usec t \<Longrightarrow> normal (carry t) \<and> usecs (carry t) = usecs t"
proof (induction t rule: carry.induct)
  case (1 t)
  then show ?case by (subst (1 2) carry.simps) (auto simp: normal_def usecs_def)
qed

lemma normal_neg: "normal t \<Longrightarrow> sec t < 0 \<longleftrightarrow> usecs t < 0"
  by (auto simp: normal_def usecs_def)

lemma timeval_sub_interval_spec:
  assumes "normal t" "normal i"
  shows "normal (timeval_sub_interval t i) \<and> usecs (timeval_sub_interval t i) = max 0 (usecs t - usecs i)"
proof -
  let ?b = "borrow \<lparr>sec = sec t - sec i, usec = usec t - usec i\<rparr>"
  have b: "normal ?b" "usecs ?b = usecs t - usecs i"
    using borrow_spec [of "\<lparr>sec = sec t - sec i, usec = usec t - usec i\<rparr>"] assms
    by (simp_all add: normal_def usecs_def algebra_simps)
  have "usecs t - usecs i < 0" if "sec t - sec i < 0"
    using that assms by (simp add: normal_def usecs_def)
  then show ?thesis
    using b normal_neg [OF b(1)]
    by (auto simp: timeval_sub_interval_def Let_def normal_def usecs_def max_def split: if_splits)
qed

lemma timeval_cmp_spec:
  assumes "normal s" "normal t"
  shows "timeval_cmp s t \<ge> 0 \<longleftrightarrow> usecs s \<ge> usecs t" "timeval_cmp s t = 0 \<longleftrightarrow> s = t"
  using assms by (auto simp: timeval_cmp_def normal_def usecs_def)

lemma timeval_is_positive_spec: "normal t \<Longrightarrow> timeval_is_positive t \<longleftrightarrow> 0 < usecs t"
  by (auto simp: timeval_is_positive_def normal_def usecs_def)

lemma timeval_from_milliseconds_spec:
  assumes "0 \<le> ms"
  shows "normal (timeval_from_milliseconds ms) \<and> usecs (timeval_from_milliseconds ms) = ms * 1000"
proof -
  have "0 \<le> ms mod 1000" "ms mod 1000 < 1000" "ms div 1000 * 1000 + ms mod 1000 = ms" by simp_all
  moreover from this have "ms div 1000 * 1000000 + ms mod 1000 * 1000 = ms * 1000" by linarith
  ultimately show ?thesis
    using assms by (simp add: timeval_from_milliseconds_def normal_def usecs_def sdiv_nonneg smod_nonneg)
qed

end
