(* ===== verification/Cache_Lookup.thy ===== *)
theory Cache_Lookup
  imports Uri_String Cache_Content Time "HOL-Library.Multiset"
begin

text \<open>
  The list of cache entries of \<open>src/cache/cache.c\<close>: lookup with move to the front, the check that a
  cached document may still be used, following cached redirects, and the deletion of entries.

  An entry is identified by its address \<open>addr\<close>; the fields the fragment operations work on are the
  part \<open>body\<close>. \<open>refcount\<close> is the count of \<open>OBJECT_HEAD\<close>. \<open>is_entry_used\<close> asks whether a connection
  is loading the entry; that set of entries is the parameter \<open>loading\<close>. URIs are shared objects:
  equal values stand for equal pointers, which \<open>compare_uri\<close> treats alike (\<open>compare_uri_same\<close>).
\<close>

record cache_entry =
  addr :: nat
  body :: entry_data
  data_size :: int
  entry_uri :: uri
  proxy_uri :: uri
  redirect :: "uri option"
  redirect_get :: bool
  last_modified :: "string option"
  etag :: "string option"
  seconds :: int
  max_age :: timeval_T
  expire :: bool
  preformatted :: bool
  valid :: bool
  gc_target :: bool
  cache_mode :: int
  refcount :: int

abbreviation (input) CACHE_MODE_INCREMENT :: int where "CACHE_MODE_INCREMENT \<equiv> -1"
abbreviation (input) CACHE_MODE_ALWAYS :: int where "CACHE_MODE_ALWAYS \<equiv> 0"
abbreviation (input) CACHE_MODE_NORMAL :: int where "CACHE_MODE_NORMAL \<equiv> 1"
abbreviation (input) CACHE_MODE_CHECK_IF_MODIFIED :: int where "CACHE_MODE_CHECK_IF_MODIFIED \<equiv> 2"
abbreviation (input) CACHE_MODE_FORCE_RELOAD :: int where "CACHE_MODE_FORCE_RELOAD \<equiv> 3"
abbreviation (input) CACHE_MODE_NEVER :: int where "CACHE_MODE_NEVER \<equiv> 4"

text \<open>The list \<open>cache_entries\<close> from its head, the total \<open>cache_size\<close>, and \<open>id_counter\<close>.\<close>

record cache =
  cache_entries :: "cache_entry list"
  cache_size :: int
  id_counter :: nat

definition is_object_used :: "cache_entry \<Rightarrow> bool" where
  "is_object_used e \<longleftrightarrow> refcount e \<noteq> 0"

definition get_cache_entry_count :: "cache \<Rightarrow> nat" where
  "get_cache_entry_count c = length (cache_entries c)"

definition get_cache_entry_used_count :: "cache \<Rightarrow> nat" where
  "get_cache_entry_used_count c = length (filter is_object_used (cache_entries c))"

definition get_cache_entry_loading_count :: "(nat \<Rightarrow> bool) \<Rightarrow> cache \<Rightarrow> nat" where
  "get_cache_entry_loading_count loading c = length (filter (\<lambda>e. loading (addr e)) (cache_entries c))"

definition cache_entry_is_valid :: "nat \<Rightarrow> cache \<Rightarrow> bool" where
  "cache_entry_is_valid p c \<longleftrightarrow> (\<exists>e \<in> set (cache_entries c). addr e = p)"

subsection \<open>Lookup\<close>

definition entry_matches :: "uri \<Rightarrow> cache_entry \<Rightarrow> bool" where
  "entry_matches u e \<longleftrightarrow>
     (let c_uri = (if protocol u = PROTOCOL_PROXY then proxy_uri e else entry_uri e)
      in valid e \<and> compare_uri (c_uri = u) c_uri u URI_BASE)"

definition move_to_top_of_list :: "cache_entry list \<Rightarrow> cache_entry \<Rightarrow> cache_entry list" where
  "move_to_top_of_list es e = e # remove1 e es"

definition find_in_cache :: "uri \<Rightarrow> cache \<Rightarrow> cache_entry option \<times> cache" where
  "find_in_cache u c =
     (case find (entry_matches u) (cache_entries c) of
        None \<Rightarrow> (None, c)
      | Some e \<Rightarrow> (Some e, c\<lparr>cache_entries := move_to_top_of_list (cache_entries c) e\<rparr>))"

text \<open>
  The end of \<open>get_cache_entry\<close>: the entry it allocates for a URI that is not cached. The address
  \<open>p\<close> is the allocator's choice; the URIs are what \<open>get_proxied_uri\<close> and \<open>get_proxy_uri\<close> return.
\<close>

definition new_entry :: "nat \<Rightarrow> uri \<Rightarrow> uri \<Rightarrow> nat \<Rightarrow> cache_entry" where
  "new_entry p u pu n =
     \<lparr>addr = p, body = \<lparr>frag = [], elength = 0, incomplete = True, cache_id = n\<rparr>, data_size = 0,
      entry_uri = u, proxy_uri = pu, redirect = None, redirect_get = False,
      last_modified = None, etag = None, seconds = 0, max_age = \<lparr>sec = 0, usec = 0\<rparr>,
      expire = False, preformatted = False, valid = True, gc_target = False, cache_mode = 0, refcount = 0\<rparr>"

definition get_cache_entry ::
  "(cache \<Rightarrow> cache) \<Rightarrow> (uri \<Rightarrow> uri option) \<Rightarrow> (uri \<Rightarrow> uri option) \<Rightarrow> nat \<Rightarrow> uri \<Rightarrow> cache \<Rightarrow> cache_entry option \<times> cache" where
  "get_cache_entry shrink_memory get_proxied_uri get_proxy_uri p u c =
     (case find_in_cache u c of
        (Some e, c1) \<Rightarrow> (Some e, c1)
      | (None, c1) \<Rightarrow>
          let c2 = shrink_memory c1
          in case get_proxied_uri u of
               None \<Rightarrow> (None, c2)
             | Some cu \<Rightarrow>
                 case get_proxy_uri u of
                   None \<Rightarrow> (None, c2)
                 | Some pu \<Rightarrow>
                     let e = new_entry p cu pu (id_counter c2)
                     in (Some e, c2\<lparr>cache_entries := e # cache_entries c2, id_counter := id_counter c2 + 1\<rparr>))"

subsection \<open>Deletion\<close>

definition done_cache_entry :: "cache_entry \<Rightarrow> cache \<Rightarrow> cache" where
  "done_cache_entry e c =
     (case delete_entry_content (body e) (id_counter c) (data_size e, cache_size c) of
        (_, (_, rest)) \<Rightarrow> c\<lparr>cache_size := rest, id_counter := id_counter c + 1\<rparr>)"

definition delete_cache_entry :: "cache_entry \<Rightarrow> cache \<Rightarrow> cache" where
  "delete_cache_entry e c = done_cache_entry e (c\<lparr>cache_entries := remove1 e (cache_entries c)\<rparr>)"

definition normalize_cache_entry :: "cache_entry \<Rightarrow> int \<Rightarrow> int \<Rightarrow> int \<Rightarrow> cache_entry \<times> int" where
  "normalize_cache_entry e truncate_length now sz =
     (if truncate_length < 0 then (e, sz)
      else case truncate_entry (body e) (nat truncate_length) True (data_size e, sz) of
             (b, (n, sz')) \<Rightarrow>
               (e\<lparr>body := b\<lparr>incomplete := False\<rparr>, data_size := n, preformatted := False, seconds := now\<rparr>, sz'))"

subsection \<open>Validation\<close>

definition cache_entry_has_expired :: "timeval_T \<Rightarrow> cache_entry \<Rightarrow> bool" where
  "cache_entry_has_expired now e \<longleftrightarrow> timeval_cmp (max_age e) now \<le> 0"

text \<open>The options and the clock: \<open>document.cache.cache_redirects\<close>, \<open>document.cache.revalidation_interval\<close>.\<close>

record cache_env =
  cache_redirects :: bool
  revalidation_interval :: int
  now_timeval :: timeval_T
  now_time :: int

text \<open>The two guards of \<open>get_validated_cache_entry\<close> on the entry it found.\<close>

definition must_go :: "cache_env \<Rightarrow> int \<Rightarrow> cache_entry \<Rightarrow> bool" where
  "must_go env mode e \<longleftrightarrow>
     cache_mode e = CACHE_MODE_NEVER \<and> mode \<noteq> CACHE_MODE_ALWAYS
     \<or> redirect e \<noteq> None \<and> \<not> cache_redirects env
     \<or> expire e \<and> cache_entry_has_expired (now_timeval env) e"

definition must_revalidate :: "cache_env \<Rightarrow> int \<Rightarrow> cache_entry \<Rightarrow> bool" where
  "must_revalidate env mode e \<longleftrightarrow>
     cache_mode e \<le> CACHE_MODE_CHECK_IF_MODIFIED \<and> mode \<le> CACHE_MODE_CHECK_IF_MODIFIED
     \<and> (last_modified e \<noteq> None \<or> etag e \<noteq> None)
     \<and> revalidation_interval env \<ge> 0
     \<and> seconds e + revalidation_interval env < now_time env"

definition get_validated_cache_entry ::
  "cache_env \<Rightarrow> uri \<Rightarrow> int \<Rightarrow> cache \<Rightarrow> cache_entry option \<times> cache" where
  "get_validated_cache_entry env u mode c =
     (if mode > CACHE_MODE_NORMAL then (None, c)
      else case find_in_cache u c of
        (None, c1) \<Rightarrow> (None, c1)
      | (Some e, c1) \<Rightarrow>
          if incomplete (body e) then (None, c1)
          else if must_go env mode e
          then (None, if is_object_used e then c1 else delete_cache_entry e c1)
          else if must_revalidate env mode e then (None, c1)
          else (Some e, c1))"

subsection \<open>Redirects\<close>

abbreviation (input) MAX_REDIRECTS :: nat where "MAX_REDIRECTS \<equiv> 10"

text \<open>The loop of \<open>follow_cached_redirects\<close>; \<open>redirects\<close> is its counter.\<close>

function follow_loop :: "nat \<Rightarrow> cache_entry option \<Rightarrow> cache \<Rightarrow> cache_entry option \<times> cache" where
  "follow_loop redirects cached c =
     (case cached of
        None \<Rightarrow> (None, c)
      | Some e \<Rightarrow>
          (case redirect e of
             None \<Rightarrow> (Some e, c)
           | Some u \<Rightarrow>
               if redirects + 1 > MAX_REDIRECTS then (None, c)
               else (case find_in_cache u c of (cached', c') \<Rightarrow> follow_loop (redirects + 1) cached' c')))"
  by pat_completeness auto
termination by (relation "measure (\<lambda>(redirects, _, _). Suc MAX_REDIRECTS - redirects)") auto

declare follow_loop.simps [simp del]

definition follow_cached_redirects :: "cache_entry option \<Rightarrow> cache \<Rightarrow> cache_entry option \<times> cache" where
  "follow_cached_redirects cached c = follow_loop 0 cached c"

definition get_redirected_cache_entry :: "uri \<Rightarrow> cache \<Rightarrow> cache_entry option \<times> cache" where
  "get_redirected_cache_entry u c =
     (case find_in_cache u c of
        (Some e, c1) \<Rightarrow> follow_cached_redirects (Some e) c1
      | (None, c1) \<Rightarrow> (None, c1))"

end
