(* ===== verification/Cache_Collect.thy ===== *)
theory Cache_Collect
  imports Cache_Lookup
begin

text \<open>
  \<open>garbage_collection\<close> of \<open>src/cache/cache.c\<close>, pass by pass. The sizes it computes with are
  \<open>unsigned long long\<close>; where an assertion fails the code sets them to zero.
\<close>

abbreviation u64 :: "int \<Rightarrow> int" where "u64 x \<equiv> x mod 2 ^ 64"

abbreviation (input) MEMORY_CACHE_GC_PERCENT :: int where "MEMORY_CACHE_GC_PERCENT \<equiv> 90"

definition entry_used :: "(nat \<Rightarrow> bool) \<Rightarrow> cache_entry \<Rightarrow> bool" where
  "entry_used loading e \<longleftrightarrow> is_object_used e \<or> loading (addr e)"

text \<open>Subtracting the size of an entry, with the assertion that it is not larger.\<close>

definition without :: "cache_entry \<Rightarrow> int \<Rightarrow> int" where
  "without e amount = (if amount \<ge> u64 (data_size e) then amount - u64 (data_size e) else 0)"

text \<open>Pass 1: the total size, and \<open>new_cache_size\<close> without the used entries.\<close>

fun gc_count :: "(nat \<Rightarrow> bool) \<Rightarrow> cache_entry list \<Rightarrow> int \<Rightarrow> int \<Rightarrow> int \<times> int" where
  "gc_count loading [] old new = (old, new)"
| "gc_count loading (e # es) old new =
     gc_count loading es (u64 (old + data_size e)) (if entry_used loading e then without e new else new)"

text \<open>
  Pass 2, from the end of the list (the first argument is the rest of the list in reverse):
  the entries that were not reached, still in reverse, those reached with their marks, and the size.
\<close>

fun gc_mark :: "(nat \<Rightarrow> bool) \<Rightarrow> bool \<Rightarrow> int \<Rightarrow> cache_entry list \<Rightarrow> cache_entry list \<Rightarrow> int \<Rightarrow>
    cache_entry list \<times> cache_entry list \<times> int" where
  "gc_mark loading whole gc_cache_size [] seen new = ([], seen, if new = 0 then new else 0)"
| "gc_mark loading whole gc_cache_size (e # es) seen new =
     (if \<not> whole \<and> new \<le> gc_cache_size then (e # es, seen, new)
      else if entry_used loading e
      then gc_mark loading whole gc_cache_size es (e\<lparr>gc_target := False\<rparr> # seen) new
      else gc_mark loading whole gc_cache_size es (e\<lparr>gc_target := True\<rparr> # seen) (without e new))"

text \<open>Pass 3: the entries that could still fit are unmarked, from the newest.\<close>

fun gc_unmark :: "int \<Rightarrow> cache_entry list \<Rightarrow> int \<Rightarrow> cache_entry list" where
  "gc_unmark gc_cache_size [] new = []"
| "gc_unmark gc_cache_size (e # es) new =
     (let newer = u64 (new + data_size e)
      in if newer > gc_cache_size then e # gc_unmark gc_cache_size es new
         else e\<lparr>gc_target := False\<rparr> # gc_unmark gc_cache_size es newer)"

text \<open>Pass 4: the marked entries are destroyed.\<close>

fun gc_destroy :: "cache_entry list \<Rightarrow> cache \<Rightarrow> cache" where
  "gc_destroy [] c = c"
| "gc_destroy (e # es) c = gc_destroy es (if gc_target e then delete_cache_entry e c else c)"

definition gc_limit :: "int \<Rightarrow> int" where
  "gc_limit opt_cache_size = u64 (opt_cache_size * MEMORY_CACHE_GC_PERCENT) div 100"

definition garbage_collection :: "int \<Rightarrow> (nat \<Rightarrow> bool) \<Rightarrow> bool \<Rightarrow> cache \<Rightarrow> cache" where
  "garbage_collection opt_cache_size loading whole c =
     (let gc_cache_size = gc_limit opt_cache_size
      in if \<not> whole \<and> cache_size c \<le> opt_cache_size then c
         else case gc_count loading (cache_entries c) 0 (cache_size c) of (old, new) \<Rightarrow>
           let c1 = (if old = cache_size c then c else c\<lparr>cache_size := old\<rparr>)
           in if \<not> whole \<and> new \<le> opt_cache_size then c1
              else case gc_mark loading whole gc_cache_size (rev (cache_entries c1)) [] new of
                (rest, seen, new1) \<Rightarrow>
                  let seen1 = (if whole then seen else gc_unmark gc_cache_size seen new1)
                  in gc_destroy seen1 (c1\<lparr>cache_entries := rev rest @ seen1\<rparr>))"

subsection \<open>Well-formed caches\<close>

definition total_size :: "cache_entry list \<Rightarrow> int" where
  "total_size es = sum_list (map data_size es)"

definition cache_wf :: "cache \<Rightarrow> bool" where
  "cache_wf c \<longleftrightarrow> distinct (map addr (cache_entries c)) \<and> (\<forall>e \<in> set (cache_entries c). 0 \<le> data_size e)
     \<and> cache_size c = total_size (cache_entries c) \<and> total_size (cache_entries c) < 2 ^ 63"

definition unused_size :: "(nat \<Rightarrow> bool) \<Rightarrow> cache_entry list \<Rightarrow> int" where
  "unused_size loading es = total_size (filter (\<lambda>e. \<not> entry_used loading e) es)"

text \<open>An entry without the mark of the collector.\<close>

definition unmarked :: "cache_entry \<Rightarrow> cache_entry" where
  "unmarked e = e\<lparr>gc_target := False\<rparr>"

lemma unmarked_simps [simp]:
  "addr (unmarked e) = addr e" "data_size (unmarked e) = data_size e"
  "unmarked (e\<lparr>gc_target := b\<rparr>) = unmarked e"
  "unmarked (unmarked e) = unmarked e"
  by (simp_all add: unmarked_def)

lemma entry_used_simps [simp]:
  "entry_used loading (e\<lparr>gc_target := b\<rparr>) = entry_used loading e"
  "entry_used loading (unmarked e) = entry_used loading e"
  by (simp_all add: entry_used_def is_object_used_def unmarked_def)

lemma total_size_simps [simp]:
  "total_size [] = 0" "total_size (e # es) = data_size e + total_size es"
  "total_size (es @ fs) = total_size es + total_size fs" "total_size (rev es) = total_size es"
  by (simp_all add: total_size_def rev_map [symmetric])

lemma total_size_nonneg: "\<forall>e \<in> set es. 0 \<le> data_size e \<Longrightarrow> 0 \<le> total_size es"
  by (induction es) auto

lemma unused_size_simps [simp]:
  "unused_size loading [] = 0"
  "unused_size loading (e # es) = (if entry_used loading e then 0 else data_size e) + unused_size loading es"
  "unused_size loading (es @ fs) = unused_size loading es + unused_size loading fs"
  "unused_size loading (rev es) = unused_size loading es"
  by (simp_all add: unused_size_def rev_filter [symmetric])

lemma unused_size_le: "\<forall>e \<in> set es. 0 \<le> data_size e \<Longrightarrow> 0 \<le> unused_size loading es \<and> unused_size loading es \<le> total_size es"
  by (induction es) auto

lemma total_filter_le: "\<forall>e \<in> set es. 0 \<le> data_size e \<Longrightarrow> total_size (filter P es) \<le> total_size es"
  by (induction es) auto

lemma data_size_le_total: "\<forall>e \<in> set es. 0 \<le> data_size e \<Longrightarrow> e \<in> set es \<Longrightarrow> data_size e \<le> total_size es"
proof (induction es)
  case (Cons f es)
  have "0 \<le> total_size es" using Cons.prems(1) by (simp add: total_size_nonneg)
  then show ?case using Cons by fastforce
qed simp

lemma u64_id: "0 \<le> x \<Longrightarrow> x < 2 ^ 64 \<Longrightarrow> u64 x = x"
  by (rule mod_pos_pos_trivial)

lemma without_eq: "0 \<le> data_size e \<Longrightarrow> data_size e < 2 ^ 64 \<Longrightarrow> data_size e \<le> n \<Longrightarrow> without e n = n - data_size e"
  by (simp add: without_def)


subsection \<open>The passes\<close>

lemma gc_count_spec:
  assumes "\<forall>e \<in> set es. 0 \<le> data_size e" "0 \<le> old" "old + total_size es < 2 ^ 63" "total_size es \<le> new" "new < 2 ^ 63"
  shows "gc_count loading es old new = (old + total_size es, new - (total_size es - unused_size loading es))"
  using assms
proof (induction es arbitrary: old new)
  case (Cons e es)
  have t: "0 \<le> total_size es" using Cons.prems(1) by (simp add: total_size_nonneg)
  have "without e new = new - data_size e" using Cons.prems t by (intro without_eq) auto
  moreover have "u64 (old + data_size e) = old + data_size e" using Cons.prems t by (intro u64_id) auto
  ultimately show ?case using Cons.prems t by (auto simp: Cons.IH)
qed simp

definition gc_marked :: "(nat \<Rightarrow> bool) \<Rightarrow> cache_entry list \<Rightarrow> bool" where
  "gc_marked loading es \<longleftrightarrow> (\<forall>e \<in> set es. gc_target e \<longleftrightarrow> \<not> entry_used loading e)"

lemma gc_mark_spec:
  assumes "gc_mark loading whole limit xs seen (unused_size loading xs) = (rest, seen', new)"
    and "\<forall>e \<in> set xs. 0 \<le> data_size e" "total_size xs < 2 ^ 63" "0 \<le> limit"
  shows "\<exists>vis. seen' = vis @ seen \<and> map unmarked (rev rest @ vis) = map unmarked (rev xs)
    \<and> gc_marked loading vis \<and> new = unused_size loading rest
    \<and> (if whole then rest = [] else new \<le> limit)
    \<and> set rest \<subseteq> set xs
    \<and> (\<forall>a e b. vis = a @ e # b \<longrightarrow> whole \<or> limit < unused_size loading (rest @ a @ [e]))"
  using assms
proof (induction xs arbitrary: seen)
  case Nil
  then show ?case by (intro exI [of _ "[]"]) (auto simp: gc_marked_def)
next
  case (Cons e xs)
  let ?n = "unused_size loading (e # xs)"
  show ?case
  proof (cases "\<not> whole \<and> ?n \<le> limit")
    case True
    then show ?thesis using Cons.prems(1) by (intro exI [of _ "[]"]) (auto simp: gc_marked_def)
  next
    case False
    let ?f = "e\<lparr>gc_target := \<not> entry_used loading e\<rparr>"
    have t: "0 \<le> total_size xs" "0 \<le> unused_size loading xs"
      using Cons.prems(2) total_size_nonneg [of xs] unused_size_le [of xs loading] by auto
    have "without e (data_size e + unused_size loading xs) = unused_size loading xs"
      using Cons.prems t by (subst without_eq) auto
    then have "gc_mark loading whole limit xs (?f # seen) (unused_size loading xs) = (rest, seen', new)"
      using Cons.prems(1) False by (auto split: if_splits)
    from Cons.IH [OF this] Cons.prems t obtain vis where
      v: "seen' = vis @ ?f # seen" "map unmarked (rev rest @ vis) = map unmarked (rev xs)"
      "gc_marked loading vis" "new = unused_size loading rest" "if whole then rest = [] else new \<le> limit"
      "set rest \<subseteq> set xs" "\<And>a e b. vis = a @ e # b \<Longrightarrow> whole \<or> limit < unused_size loading (rest @ a @ [e])"
      by auto
    have u: "unused_size loading (rest @ vis @ [e]) = ?n"
    proof -
      have *: "unused_size loading es = unused_size loading (map unmarked es)" for es by (induction es) auto
      have "unused_size loading (rev rest @ vis) = unused_size loading (rev xs)" using v(2) * by metis
      then show ?thesis by simp
    qed
    have "whole \<or> limit < unused_size loading (rest @ a @ [g])" if "vis @ [?f] = a @ g # b" for a g b
    proof (cases b rule: rev_cases)
      case Nil
      then show ?thesis using that False u by auto
    next
      case (snoc b' x)
      then have "vis = a @ g # b'" using that by simp
      then show ?thesis by (rule v(7))
    qed
    then show ?thesis using v by (intro exI [of _ "vis @ [?f]"]) (auto simp: gc_marked_def)
  qed
qed

text \<open>
  After the third pass: which entries are still marked, and how large those are that are not.
\<close>

lemma gc_unmark_spec:
  assumes "\<forall>e \<in> set es. 0 \<le> data_size e" "0 \<le> new" "new \<le> limit" "new + total_size es < 2 ^ 64"
  shows "map unmarked (gc_unmark limit es new) = map unmarked es
    \<and> (\<forall>e \<in> set (gc_unmark limit es new). gc_target e \<longrightarrow> e \<in> set es)
    \<and> (gc_marked loading es \<longrightarrow> new + unused_size loading (filter (\<lambda>e. \<not> gc_target e) (gc_unmark limit es new)) \<le> limit)"
  using assms
proof (induction es arbitrary: new)
  case (Cons e es)
  have t: "0 \<le> total_size es" using Cons.prems(1) by (simp add: total_size_nonneg)
  have n: "u64 (new + data_size e) = new + data_size e" using Cons.prems t by (intro u64_id) auto
  have m: "gc_marked loading (e # es) \<Longrightarrow> gc_marked loading es" by (simp add: gc_marked_def)
  show ?case
  proof (cases "new + data_size e > limit")
    case True
    then have g: "gc_unmark limit (e # es) new = e # gc_unmark limit es new" using n by simp
    have "\<forall>e \<in> set es. 0 \<le> data_size e" "new + total_size es < 2 ^ 64" using Cons.prems t by auto
    note ih = Cons.IH [OF this(1) Cons.prems(2,3) this(2)]
    show ?thesis unfolding g
    proof (intro conjI impI ballI)
      assume k: "gc_marked loading (e # es)"
      then have "gc_target e \<longleftrightarrow> \<not> entry_used loading e" by (simp add: gc_marked_def)
      then show "new + unused_size loading (filter (\<lambda>e. \<not> gc_target e) (e # gc_unmark limit es new)) \<le> limit"
        using ih m [OF k] by simp
    qed (use ih in auto)
  next
    case False
    then have g: "gc_unmark limit (e # es) new = e\<lparr>gc_target := False\<rparr> # gc_unmark limit es (new + data_size e)"
      using n by simp
    have "\<forall>e \<in> set es. 0 \<le> data_size e" "0 \<le> new + data_size e" "new + data_size e \<le> limit"
      "new + data_size e + total_size es < 2 ^ 64" using Cons.prems False by auto
    note ih = Cons.IH [OF this]
    show ?thesis unfolding g
    proof (intro conjI impI ballI)
      assume k: "gc_marked loading (e # es)"
      show "new + unused_size loading (filter (\<lambda>e. \<not> gc_target e)
          (e\<lparr>gc_target := False\<rparr> # gc_unmark limit es (new + data_size e))) \<le> limit"
        using ih m [OF k] Cons.prems(1) by simp
    qed (use ih in auto)
  qed
qed auto

lemma gc_destroy_spec:
  assumes "distinct (map addr (fs @ es))" "cache_entries c = fs @ es"
    and "cache_size c = total_size (fs @ es)" "\<forall>e \<in> set (fs @ es). 0 \<le> data_size e" "total_size (fs @ es) < 2 ^ 63"
  shows "cache_entries (gc_destroy es c) = fs @ filter (\<lambda>e. \<not> gc_target e) es
    \<and> cache_size (gc_destroy es c) = total_size (cache_entries (gc_destroy es c))"
  using assms
proof (induction es arbitrary: c fs)
  case (Cons e es)
  show ?case
  proof (cases "gc_target e")
    case False
    then show ?thesis using Cons.prems Cons.IH [of "fs @ [e]" c] by simp
  next
    case True
    let ?d = "delete_cache_entry e c"
    have "e \<notin> set fs" using Cons.prems(1) by auto
    then have r: "cache_entries ?d = fs @ es"
      using Cons.prems(2) by (simp add: delete_cache_entry_def done_cache_entry_def delete_entry_content_def
          enlarge_entry_def remove1_append)
    have "0 \<le> total_size (fs @ es)" using Cons.prems(4) by (intro total_size_nonneg) auto
    moreover have "total_size (fs @ es) < 2 ^ 63" using Cons.prems(4,5) by simp
    ultimately have "(total_size (fs @ e # es) - data_size e) mod 2 ^ 64 = total_size (fs @ es)"
      by (simp add: mod_pos_pos_trivial)
    then have s: "cache_size ?d = total_size (fs @ es)"
      using Cons.prems(3) by (simp add: delete_cache_entry_def done_cache_entry_def delete_entry_content_def enlarge_entry_def)
    show ?thesis using True Cons.prems r s Cons.IH [of fs ?d] by simp
  qed
qed simp


subsection \<open>What a collection leaves\<close>

lemma same_entries:
  assumes "map unmarked es = map unmarked fs"
  shows "map addr es = map addr fs" "map data_size es = map data_size fs" "total_size es = total_size fs"
    "unused_size loading es = unused_size loading fs"
    "map unmarked (filter (\<lambda>e. Q (addr e)) es) = map unmarked (filter (\<lambda>e. Q (addr e)) fs)"
proof -
  have p: "map addr es = map addr (map unmarked es)" for es by (simp add: comp_def)
  have d: "map data_size es = map data_size (map unmarked es)" for es by (simp add: comp_def)
  have u: "unused_size loading es = unused_size loading (map unmarked es)" for es by (induction es) auto
  have f: "map unmarked (filter (\<lambda>e. Q (addr e)) es) = filter (\<lambda>e. Q (addr e)) (map unmarked es)" for es
    by (simp add: filter_map comp_def)
  show "map addr es = map addr fs" using p assms by metis
  show m: "map data_size es = map data_size fs" using d assms by metis
  show "total_size es = total_size fs" using m by (simp add: total_size_def)
  show "unused_size loading es = unused_size loading fs" using u assms by metis
  show "map unmarked (filter (\<lambda>e. Q (addr e)) es) = map unmarked (filter (\<lambda>e. Q (addr e)) fs)" using f assms by metis
qed

lemma filter_unmarked_targets:
  assumes "distinct (map addr (fs @ es))"
  shows "filter (\<lambda>e. addr e \<notin> addr ` {e \<in> set es. gc_target e}) (fs @ es) = fs @ filter (\<lambda>e. \<not> gc_target e) es"
proof -
  have "filter (\<lambda>e. addr e \<notin> addr ` {e \<in> set es. gc_target e}) fs = fs" using assms by (intro filter_True) auto
  moreover have "addr e \<notin> addr ` {e \<in> set es. gc_target e} \<longleftrightarrow> \<not> gc_target e" if "e \<in> set es" for e
    using assms that by (auto simp: distinct_map inj_on_def)
  then have "filter (\<lambda>e. addr e \<notin> addr ` {e \<in> set es. gc_target e}) es = filter (\<lambda>e. \<not> gc_target e) es"
    by (intro filter_cong) auto
  ultimately show ?thesis by simp
qed

definition collected :: "(nat \<Rightarrow> bool) \<Rightarrow> cache \<Rightarrow> nat set \<Rightarrow> cache \<Rightarrow> bool" where
  "collected loading c dead c' \<longleftrightarrow>
     map unmarked (cache_entries c') = map unmarked (filter (\<lambda>e. addr e \<notin> dead) (cache_entries c))
     \<and> cache_wf c'
     \<and> (\<forall>e \<in> set (cache_entries c). addr e \<in> dead \<longrightarrow> \<not> entry_used loading e)"

lemma collected_destroy:
  assumes wf: "cache_wf c" and same: "map unmarked (fs @ es) = map unmarked (cache_entries c)"
    and unused: "\<forall>e \<in> set es. gc_target e \<longrightarrow> \<not> entry_used loading e"
  shows "collected loading c (addr ` {e \<in> set es. gc_target e}) (gc_destroy es (c\<lparr>cache_entries := fs @ es\<rparr>))"
    "cache_entries (gc_destroy es (c\<lparr>cache_entries := fs @ es\<rparr>)) = fs @ filter (\<lambda>e. \<not> gc_target e) es"
proof -
  let ?c = "gc_destroy es (c\<lparr>cache_entries := fs @ es\<rparr>)" and ?dead = "addr ` {e \<in> set es. gc_target e}"
  note s = same_entries [OF same]
  have d: "distinct (map addr (fs @ es))" using wf s(1) by (simp add: cache_wf_def)
  have n: "\<forall>e \<in> set (fs @ es). 0 \<le> data_size e"
  proof -
    have "data_size ` set (fs @ es) = data_size ` set (cache_entries c)" using s(2) by (metis set_map)
    moreover have "\<forall>x \<in> data_size ` set (cache_entries c). 0 \<le> x" using wf by (auto simp: cache_wf_def)
    ultimately show ?thesis by (metis imageI)
  qed
  have t: "cache_size c = total_size (fs @ es)" "total_size (fs @ es) < 2 ^ 63"
    using wf s(3) by (auto simp: cache_wf_def)
  have g: "cache_entries ?c = fs @ filter (\<lambda>e. \<not> gc_target e) es" "cache_size ?c = total_size (cache_entries ?c)"
    using gc_destroy_spec [OF d, of "c\<lparr>cache_entries := fs @ es\<rparr>"] n t by auto
  have "total_size (fs @ filter (\<lambda>e. \<not> gc_target e) es) \<le> total_size (fs @ es)"
    using total_filter_le [of es "\<lambda>e. \<not> gc_target e"] n by simp
  moreover have "distinct (map addr (fs @ filter (\<lambda>e. \<not> gc_target e) es))"
    using d distinct_map_filter [of addr es "\<lambda>e. \<not> gc_target e"] by fastforce
  ultimately have w: "cache_wf ?c" using g n t by (auto simp: cache_wf_def)
  have "map unmarked (cache_entries ?c) = map unmarked (filter (\<lambda>e. addr e \<notin> ?dead) (fs @ es))"
    unfolding g(1) filter_unmarked_targets [OF d] ..
  also have "\<dots> = map unmarked (filter (\<lambda>e. addr e \<notin> ?dead) (cache_entries c))" by (rule s(5))
  finally have m: "map unmarked (cache_entries ?c) = map unmarked (filter (\<lambda>e. addr e \<notin> ?dead) (cache_entries c))" .
  have "\<not> entry_used loading e" if e: "e \<in> set (cache_entries c)" "addr e \<in> ?dead" for e
  proof -
    from e(2) obtain f where f: "f \<in> set es" "gc_target f" "addr f = addr e" by auto
    have "unmarked f \<in> set (map unmarked (cache_entries c))" using f(1) unfolding same [symmetric] by simp
    then obtain e' where e': "e' \<in> set (cache_entries c)" "unmarked e' = unmarked f" by auto
    have "addr e' = addr e" using e'(2) f(3) by (metis unmarked_simps(1))
    then have "e' = e" using wf e(1) e'(1) by (auto simp: cache_wf_def distinct_map inj_on_def)
    then show ?thesis using unused f e'(2) by (metis entry_used_simps(2))
  qed
  then show "collected loading c ?dead ?c" using m w by (simp add: collected_def)
  show "cache_entries ?c = fs @ filter (\<lambda>e. \<not> gc_target e) es" by (rule g(1))
qed


lemma gc_limit_bounds: "0 \<le> gc_limit n" "gc_limit n < 2 ^ 63"
proof -
  have "0 \<le> u64 (n * 90)" "u64 (n * 90) < 18446744073709551616" by simp_all
  then have "0 \<le> u64 (n * 90) div 100" "u64 (n * 90) div 100 < 9223372036854775808" by linarith+
  then show "0 \<le> gc_limit n" "gc_limit n < 2 ^ 63" unfolding gc_limit_def by simp_all
qed

lemma garbage_collection_small:
  assumes wf: "cache_wf c" and u: "\<not> whole" "unused_size loading (cache_entries c) \<le> opt"
  shows "garbage_collection opt loading whole c = c"
proof -
  have n: "\<forall>e \<in> set (cache_entries c). 0 \<le> data_size e" "cache_size c = total_size (cache_entries c)"
    "total_size (cache_entries c) < 2 ^ 63" using wf by (auto simp: cache_wf_def)
  have "gc_count loading (cache_entries c) 0 (cache_size c) = (cache_size c, unused_size loading (cache_entries c))"
    using gc_count_spec [OF n(1), of 0 "cache_size c" loading] n by simp
  then show ?thesis using u by (simp add: garbage_collection_def Let_def)
qed

lemma garbage_collection_large:
  assumes wf: "cache_wf c" and u: "whole \<or> opt < unused_size loading (cache_entries c)"
    and g: "gc_mark loading whole (gc_limit opt) (rev (cache_entries c)) [] (unused_size loading (cache_entries c)) = (rest, seen, new)"
  defines "es \<equiv> if whole then seen else gc_unmark (gc_limit opt) seen new"
  shows "garbage_collection opt loading whole c = gc_destroy es (c\<lparr>cache_entries := rev rest @ es\<rparr>)"
proof -
  have n: "\<forall>e \<in> set (cache_entries c). 0 \<le> data_size e" "cache_size c = total_size (cache_entries c)"
    "total_size (cache_entries c) < 2 ^ 63" using wf by (auto simp: cache_wf_def)
  have "gc_count loading (cache_entries c) 0 (cache_size c) = (cache_size c, unused_size loading (cache_entries c))"
    using gc_count_spec [OF n(1), of 0 "cache_size c" loading] n by simp
  moreover have "unused_size loading (cache_entries c) \<le> cache_size c" using unused_size_le [OF n(1)] n by simp
  ultimately show ?thesis using u g unfolding es_def by (auto simp: garbage_collection_def Let_def)
qed

lemma distinct_map_split:
  "map f (a @ x # b) = map f (c @ y # d) \<Longrightarrow> f x = f y \<Longrightarrow> distinct (map f (c @ y # d)) \<Longrightarrow> length a = length c"
proof (induction a arbitrary: c)
  case Nil
  show ?case
  proof (cases c)
    case (Cons w c')
    then show ?thesis using Nil by (auto simp: image_iff)
  qed simp
next
  case (Cons z a)
  show ?case
  proof (cases c)
    case Nil
    then have "map f d = map f (a @ x # b)" "f z = f y" using Cons.prems(1) by simp_all
    then have "f y \<in> set (map f d)" using Cons.prems(2) by simp
    then show ?thesis using Cons.prems(3) Nil by simp
  next
    case C: (Cons w c')
    then have "length a = length c'" using Cons.prems by (intro Cons.IH) simp_all
    then show ?thesis using C by simp
  qed
qed

lemma garbage_collection_works:
  assumes wf: "cache_wf c" and u: "whole \<or> opt < unused_size loading (cache_entries c)"
  shows "\<exists>dead. collected loading c dead (garbage_collection opt loading whole c)
    \<and> (if whole then \<forall>e \<in> set (cache_entries c). entry_used loading e \<or> addr e \<in> dead
       else unused_size loading (cache_entries (garbage_collection opt loading whole c)) \<le> gc_limit opt)
    \<and> (\<forall>a e b. cache_entries c = a @ e # b \<and> addr e \<in> dead \<longrightarrow> whole \<or> gc_limit opt < unused_size loading (a @ [e]))"
proof -
  let ?L = "cache_entries c" and ?limit = "gc_limit opt"
  have n: "\<forall>e \<in> set ?L. 0 \<le> data_size e" "total_size ?L < 2 ^ 63" using wf by (auto simp: cache_wf_def)
  obtain rest seen new where g: "gc_mark loading whole ?limit (rev ?L) [] (unused_size loading ?L) = (rest, seen, new)"
    by (metis prod_cases3)
  define es where "es = (if whole then seen else gc_unmark ?limit seen new)"
  have "gc_mark loading whole ?limit (rev ?L) [] (unused_size loading (rev ?L)) = (rest, seen, new)" using g by simp
  from gc_mark_spec [OF this _ _ gc_limit_bounds(1)] n
  have m: "map unmarked (rev rest @ seen) = map unmarked ?L" "gc_marked loading seen"
    "new = unused_size loading rest" "if whole then rest = [] else new \<le> ?limit"
    "\<And>a e b. seen = a @ e # b \<Longrightarrow> whole \<or> ?limit < unused_size loading (rest @ a @ [e])"
    by auto
  have sn: "\<forall>e \<in> set (rev rest @ seen). 0 \<le> data_size e"
    using same_entries(2) [OF m(1)] n(1) by (metis (no_types, lifting) imageE imageI list.set_map)
  have "total_size (rev rest @ seen) = total_size ?L" using same_entries(3) [OF m(1)] .
  moreover have "unused_size loading rest \<le> total_size rest" "0 \<le> unused_size loading rest"
    using unused_size_le [of rest loading] sn by auto
  ultimately have b: "0 \<le> new" "new + total_size seen < 2 ^ 64" using n(2) m(3) by auto
  have um: "map unmarked (gc_unmark ?limit seen new) = map unmarked seen
      \<and> (\<forall>e \<in> set (gc_unmark ?limit seen new). gc_target e \<longrightarrow> e \<in> set seen)
      \<and> new + unused_size loading (filter (\<lambda>e. \<not> gc_target e) (gc_unmark ?limit seen new)) \<le> ?limit" if "\<not> whole"
    using gc_unmark_spec [of seen new ?limit loading] sn b m(2,4) that by auto
  have same: "map unmarked (rev rest @ es) = map unmarked ?L" using m(1) um by (auto simp: es_def)
  have tgt: "\<forall>e \<in> set es. gc_target e \<longrightarrow> e \<in> set seen" using um by (auto simp: es_def)
  then have unused: "\<forall>e \<in> set es. gc_target e \<longrightarrow> \<not> entry_used loading e" using m(2) by (auto simp: gc_marked_def)
  let ?c = "garbage_collection opt loading whole c" and ?dead = "addr ` {e \<in> set es. gc_target e}"
  have gc: "?c = gc_destroy es (c\<lparr>cache_entries := rev rest @ es\<rparr>)"
    unfolding es_def by (rule garbage_collection_large [OF wf u g])
  note d = collected_destroy [OF wf same unused, folded gc]
  have "entry_used loading e \<or> addr e \<in> ?dead" if w: whole and e: "e \<in> set ?L" for e
  proof -
    have "unmarked e \<in> set (map unmarked (rev rest @ seen))" using e m(1) by simp
    then obtain f where f: "f \<in> set seen" "unmarked f = unmarked e" using m(4) w by auto
    then have "addr f = addr e" "entry_used loading f = entry_used loading e" by (metis unmarked_simps(1), metis entry_used_simps(2))
    then show ?thesis using f(1) m(2) w by (auto simp: es_def gc_marked_def intro!: image_eqI [of _ addr f])
  qed
  moreover have "unused_size loading (cache_entries ?c) \<le> ?limit" if "\<not> whole"
    using um [OF that] d(2) m(3) that by (simp add: es_def)
  moreover have "whole \<or> ?limit < unused_size loading (a @ [e])" if L: "?L = a @ e # b" and e: "addr e \<in> ?dead" for a e b
  proof -
    from e obtain f where f: "f \<in> set seen" "addr f = addr e" using tgt by auto
    then obtain x y where xy: "seen = x @ f # y" by (meson split_list)
    have "map addr ((rev rest @ x) @ f # y) = map addr (a @ e # b)" using same_entries(1) [OF m(1)] L xy by simp
    moreover have "distinct (map addr (a @ e # b))" using wf L by (simp add: cache_wf_def)
    ultimately have l: "length (rev rest @ x) = length a"
      by (metis (no_types, lifting) distinct_map_split f(2))
    have "map unmarked (rev rest @ x @ [f]) = map unmarked (a @ [e])"
    proof -
      have "take (length a + 1) (map unmarked (rev rest @ seen)) = take (length a + 1) (map unmarked ?L)" using m(1) by simp
      then show ?thesis using l xy L by simp
    qed
    from same_entries(4) [OF this, of loading] m(5) [OF xy] show ?thesis by simp
  qed
  ultimately show ?thesis using d(1) by (intro exI [of _ ?dead]) auto
qed


subsection \<open>Correctness of the collector\<close>

text \<open>
  C26: Garbage collection never destroys an entry that is locked or being loaded, keeps the order and
  the contents of the others, and keeps \<open>cache_size\<close> equal to the sum of the sizes. Nothing happens
  while the unused entries fit into the configured size; otherwise the unused entries that stay take
  at most 90 percent of it, and an entry is destroyed only if it does not fit there together
  with all the newer ones. With \<open>whole\<close> every unused entry goes.
\<close>
theorem garbage_collection_spec:
  assumes "cache_wf c" and "c' = garbage_collection opt loading whole c"
  shows "\<exists>dead. map unmarked (cache_entries c') = map unmarked (filter (\<lambda>e. addr e \<notin> dead) (cache_entries c))
    \<and> cache_wf c'
    \<and> (\<forall>e \<in> set (cache_entries c). addr e \<in> dead \<longrightarrow> \<not> entry_used loading e)
    \<and> (\<forall>newer e older. cache_entries c = newer @ e # older \<and> addr e \<in> dead \<longrightarrow>
          whole \<or> gc_limit opt < unused_size loading (newer @ [e]))
    \<and> (if whole then \<forall>e \<in> set (cache_entries c). entry_used loading e \<or> addr e \<in> dead
       else if unused_size loading (cache_entries c) \<le> opt then c' = c
       else unused_size loading (cache_entries c') \<le> gc_limit opt)"
proof (cases "whole \<or> opt < unused_size loading (cache_entries c)")
  case True
  from garbage_collection_works [OF assms(1) this] obtain dead where
    "collected loading c dead c'"
    "if whole then \<forall>e \<in> set (cache_entries c). entry_used loading e \<or> addr e \<in> dead
     else unused_size loading (cache_entries c') \<le> gc_limit opt"
    "\<forall>a e b. cache_entries c = a @ e # b \<and> addr e \<in> dead \<longrightarrow> whole \<or> gc_limit opt < unused_size loading (a @ [e])"
    unfolding assms(2) by blast
  then show ?thesis using True unfolding collected_def by (intro exI [of _ dead]) auto
next
  case False
  then have "c' = c" using garbage_collection_small [OF assms(1), of whole loading opt] assms(2) by simp
  then show ?thesis using assms(1) False by (intro exI [of _ "{}"]) auto
qed

text \<open>Four entries of given sizes; the one at address 1 is locked.\<close>

definition sized_entry :: "nat \<Rightarrow> int \<Rightarrow> int \<Rightarrow> cache_entry" where
  "sized_entry p n rc = (new_entry p uri_zero uri_zero p)\<lparr>data_size := n, refcount := rc\<rparr>"

definition sized_cache :: "int list \<Rightarrow> cache" where
  "sized_cache ns = \<lparr>cache_entries = map (\<lambda>(p, n). sized_entry p n (if p = 1 then 1 else 0)) (zip [0..<length ns] ns),
     cache_size = sum_list ns, id_counter = 9\<rparr>"

lemma sized_cache_wf: "cache_wf (sized_cache [40, 30, 50, 60])"
  by code_simp

theorem garbage_collection_spec_witness:
  "\<exists>c dead. c = garbage_collection 100 (\<lambda>_. False) False (sized_cache [40, 30, 50, 60])
    \<and> map unmarked (cache_entries c) = map unmarked (filter (\<lambda>e. addr e \<notin> dead) (cache_entries (sized_cache [40, 30, 50, 60])))
    \<and> map addr (cache_entries c) = [0, 1, 2] \<and> cache_size c = 120"
proof -
  let ?c = "garbage_collection 100 (\<lambda>_. False) False (sized_cache [40, 30, 50, 60])"
  have "map addr (cache_entries ?c) = [0, 1, 2]" "cache_size ?c = 120" by code_simp+
  moreover obtain dead where
    "map unmarked (cache_entries ?c) = map unmarked (filter (\<lambda>e. addr e \<notin> dead) (cache_entries (sized_cache [40, 30, 50, 60])))"
    using garbage_collection_spec [OF sized_cache_wf refl, of 100 "\<lambda>_. False" False] by (elim exE conjE) (rule that)
  ultimately show ?thesis by (intro exI conjI) (rule refl)
qed

text \<open>
  The comment on \<open>opt_cache_size\<close> says that used entries are not counted, but the third pass adds
  the sizes of the used entries it walks over, so a small unused entry can be destroyed although it
  would fit: here the unused entries are 95 and 20 bytes, the limit is 90, and the 20 bytes go
  because of the 80 bytes of the locked entry between them.
\<close>
lemma gc_counts_used:
  "map addr (cache_entries (garbage_collection 100 (\<lambda>_. False) False (sized_cache [95, 80, 20]))) = [1]"
  "map addr (cache_entries (garbage_collection 100 (\<lambda>_. False) False (sized_cache [95, 60, 20]))) = [1, 2]"
  by code_simp+

end
