(* ===== verification/Cache_Policy.thy ===== *)
theory Cache_Policy
  imports Cache_Collect
begin

text \<open>
  What lookups in the cache promise: the first valid entry that matches moves to the front, an entry
  is only handed out when the cache mode, the expiry time and the revalidation interval allow it,
  and redirects are followed a bounded number of times.
\<close>

lemma mset_move_to_top: "e \<in> set es \<Longrightarrow> mset (move_to_top_of_list es e) = mset es"
  by (simp add: move_to_top_of_list_def)

lemma find_in_cache_None: "find_in_cache u c = (None, c') \<longleftrightarrow> c' = c \<and> (\<forall>e \<in> set (cache_entries c). \<not> entry_matches u e)"
  by (auto simp: find_in_cache_def find_None_iff find_Some_iff split: option.splits)

lemma find_in_cache_Some:
  assumes "find_in_cache u c = (Some e, c')"
  shows "e \<in> set (cache_entries c)" "entry_matches u e" "cache_entries c' = e # remove1 e (cache_entries c)"
    "cache_size c' = cache_size c" "id_counter c' = id_counter c" "mset (cache_entries c') = mset (cache_entries c)"
    "\<exists>newer older. cache_entries c = newer @ e # older \<and> (\<forall>f \<in> set newer. \<not> entry_matches u f)"
proof -
  have f: "find (entry_matches u) (cache_entries c) = Some e" and
    c: "c' = c\<lparr>cache_entries := move_to_top_of_list (cache_entries c) e\<rparr>"
    using assms by (auto simp: find_in_cache_def split: option.splits)
  from f obtain i where i: "i < length (cache_entries c)" "entry_matches u (cache_entries c ! i)"
    "e = cache_entries c ! i" "\<forall>j<i. \<not> entry_matches u (cache_entries c ! j)" by (auto simp: find_Some_iff)
  show e: "e \<in> set (cache_entries c)" "entry_matches u e" using i by auto
  show "cache_entries c' = e # remove1 e (cache_entries c)" "cache_size c' = cache_size c" "id_counter c' = id_counter c"
    using c by (simp_all add: move_to_top_of_list_def)
  show "mset (cache_entries c') = mset (cache_entries c)" using c mset_move_to_top [OF e(1)] by simp
  have "cache_entries c = take i (cache_entries c) @ e # drop (Suc i) (cache_entries c)"
    using i by (simp add: id_take_nth_drop)
  moreover have "\<forall>f \<in> set (take i (cache_entries c)). \<not> entry_matches u f" using i(1,4) by (auto simp: in_set_conv_nth)
  ultimately show "\<exists>newer older. cache_entries c = newer @ e # older \<and> (\<forall>f \<in> set newer. \<not> entry_matches u f)" by blast
qed

lemma cache_wf_mset:
  assumes "mset (cache_entries c') = mset (cache_entries c)" "cache_size c' = cache_size c"
  shows "cache_wf c' \<longleftrightarrow> cache_wf c"
proof -
  have "mset (map addr (cache_entries c')) = mset (map addr (cache_entries c))" using assms by simp
  then have "distinct (map addr (cache_entries c')) = distinct (map addr (cache_entries c))"
    by (rule mset_eq_imp_distinct_iff)
  moreover have "total_size (cache_entries c') = total_size (cache_entries c)"
    unfolding total_size_def using assms(1) by (metis mset_map sum_mset_sum_list)
  ultimately show ?thesis using assms mset_eq_setD [OF assms(1)] by (simp add: cache_wf_def)
qed

lemma delete_cache_entry_wf:
  assumes wf: "cache_wf c" and e: "e \<in> set (cache_entries c)"
  shows "cache_wf (delete_cache_entry e c)" "cache_entries (delete_cache_entry e c) = remove1 e (cache_entries c)"
proof -
  let ?c = "delete_cache_entry e c"
  show es: "cache_entries ?c = remove1 e (cache_entries c)"
    by (simp add: delete_cache_entry_def done_cache_entry_def delete_entry_content_def enlarge_entry_def)
  have t: "total_size (remove1 e (cache_entries c)) = total_size (cache_entries c) - data_size e"
    using e sum_list_map_remove1 [OF e, of data_size] by (simp add: total_size_def)
  have n: "\<forall>f \<in> set (remove1 e (cache_entries c)). 0 \<le> data_size f"
    using wf notin_set_remove1 [of _ "cache_entries c" e] by (auto simp: cache_wf_def)
  have ge: "0 \<le> data_size e" using wf e by (simp add: cache_wf_def)
  have le: "0 \<le> total_size (remove1 e (cache_entries c))" using n by (rule total_size_nonneg)
  have lt: "total_size (remove1 e (cache_entries c)) < 2 ^ 63" using wf t ge by (simp add: cache_wf_def)
  have "u64 (cache_size c - data_size e) = total_size (remove1 e (cache_entries c))"
    using wf t le lt by (subst u64_id) (auto simp: cache_wf_def)
  then have s: "cache_size ?c = total_size (cache_entries ?c)"
    unfolding es by (simp add: delete_cache_entry_def done_cache_entry_def delete_entry_content_def enlarge_entry_def)
  have "distinct (map addr (remove1 e (cache_entries c)))"
    using wf by (auto simp: cache_wf_def distinct_map inj_on_def dest: notin_set_remove1)
  then show "cache_wf ?c" using s n lt es by (simp add: cache_wf_def)
qed

lemma find_first:
  "find P xs = Some x \<longleftrightarrow> (\<exists>newer older. xs = newer @ x # older \<and> P x \<and> (\<forall>y \<in> set newer. \<not> P y))"
proof (induction xs)
  case (Cons y ys)
  have "(\<exists>newer older. y # ys = newer @ x # older \<and> P x \<and> (\<forall>y \<in> set newer. \<not> P y))
    \<longleftrightarrow> y = x \<and> P x \<or> \<not> P y \<and> (\<exists>newer older. ys = newer @ x # older \<and> P x \<and> (\<forall>y \<in> set newer. \<not> P y))"
    (is "?l = ?r")
  proof
    assume ?l
    then obtain newer older where n: "y # ys = newer @ x # older" "P x" "\<forall>y \<in> set newer. \<not> P y" by blast
    then show ?r by (cases newer) auto
  next
    assume ?r
    then consider "y = x" "P x" | newer older where "\<not> P y" "ys = newer @ x # older" "P x" "\<forall>y \<in> set newer. \<not> P y" by blast
    then show ?l
    proof cases
      case 1
      then show ?thesis by (intro exI [of _ "[]"] exI [of _ ys]) simp
    next
      case 2
      then show ?thesis by (intro exI [of _ "y # newer"] exI [of _ older]) simp
    qed
  qed
  then show ?case using Cons.IH by auto
qed simp

lemma delete_cache_entry_first:
  assumes "cache_wf c" "find (entry_matches u) (cache_entries c) = Some e" "find_in_cache u c = (Some e, c1)"
  shows "cache_wf (delete_cache_entry e c1)"
    "cache_size (delete_cache_entry e c1) = cache_size c - data_size e"
    "cache_entries (delete_cache_entry e c1) = remove1 e (cache_entries c)"
proof -
  note s = find_in_cache_Some [OF assms(3)]
  have wf: "cache_wf c1" using cache_wf_mset [OF s(6,4)] assms(1) by simp
  have e1: "e \<in> set (cache_entries c1)" using s(3) by simp
  note d = delete_cache_entry_wf [OF wf e1]
  show "cache_wf (delete_cache_entry e c1)" by (rule d(1))
  show es: "cache_entries (delete_cache_entry e c1) = remove1 e (cache_entries c)" using d(2) s(3) by simp
  have "total_size (remove1 e (cache_entries c)) = total_size (cache_entries c) - data_size e"
    using sum_list_map_remove1 [OF s(1), of data_size] by (simp add: total_size_def)
  then show "cache_size (delete_cache_entry e c1) = cache_size c - data_size e"
    using d(1) assms(1) es by (simp add: cache_wf_def)
qed

text \<open>
  C27: What \<open>get_validated_cache_entry\<close> hands out: exactly the newest entry that matches the URI, if
  the caller does not force a reload, the entry is completely loaded, may be used again (only with
  \<open>CACHE_MODE_ALWAYS\<close> if its mode is \<open>CACHE_MODE_NEVER\<close>), is no redirect unless the option for
  cached redirects is set, has not expired at this moment, and, if the server can be asked whether
  it changed, was loaded not longer ago than the revalidation interval. The entry becomes the first
  of the list. Otherwise no entry is lost but a completely loaded, unlocked first match that may
  not be used again, is a redirect not to be followed or has expired: this one is deleted and its
  size given back. Times are compared in microseconds. The cache stays well-formed.
\<close>

theorem get_validated_cache_entry_spec:
  assumes "cache_wf c" and "normal (now_timeval env)" "\<forall>e \<in> set (cache_entries c). normal (max_age e)"
    and "get_validated_cache_entry env u mode c = (r, c')"
  shows "let first = (\<lambda>newer e older. cache_entries c = newer @ e # older \<and> entry_matches u e
                \<and> (\<forall>f \<in> set newer. \<not> entry_matches u f));
             gone = (\<lambda>e :: cache_entry. cache_mode e = CACHE_MODE_NEVER \<and> mode \<noteq> CACHE_MODE_ALWAYS
                \<or> redirect e \<noteq> None \<and> \<not> cache_redirects env
                \<or> expire e \<and> usecs (max_age e) \<le> usecs (now_timeval env));
             old = (\<lambda>e :: cache_entry. cache_mode e \<le> CACHE_MODE_CHECK_IF_MODIFIED \<and> (last_modified e \<noteq> None \<or> etag e \<noteq> None)
                \<and> 0 \<le> revalidation_interval env \<and> seconds e + revalidation_interval env < now_time env)
         in cache_wf c'
           \<and> (\<forall>e. r = Some e \<longleftrightarrow> mode \<le> CACHE_MODE_NORMAL \<and> (\<exists>newer older. first newer e older)
                \<and> \<not> incomplete (body e) \<and> \<not> gone e \<and> \<not> old e)
           \<and> (case r of
                Some e \<Rightarrow> cache_entries c' = e # remove1 e (cache_entries c) \<and> cache_size c' = cache_size c
              | None \<Rightarrow> (\<exists>newer e older. first newer e older \<and> mode \<le> CACHE_MODE_NORMAL \<and> \<not> incomplete (body e)
                  \<and> gone e \<and> refcount e = 0 \<and> cache_entries c' = newer @ older \<and> cache_size c' = cache_size c - data_size e)
                \<or> mset (cache_entries c') = mset (cache_entries c) \<and> cache_size c' = cache_size c
                  \<and> \<not> (\<exists>newer e older. first newer e older \<and> mode \<le> CACHE_MODE_NORMAL \<and> \<not> incomplete (body e)
                        \<and> gone e \<and> refcount e = 0))"
proof -
  define gone where "gone = (\<lambda>e :: cache_entry. cache_mode e = CACHE_MODE_NEVER \<and> mode \<noteq> CACHE_MODE_ALWAYS
    \<or> redirect e \<noteq> None \<and> \<not> cache_redirects env \<or> expire e \<and> usecs (max_age e) \<le> usecs (now_timeval env))"
  define old where "old = (\<lambda>e :: cache_entry. cache_mode e \<le> CACHE_MODE_CHECK_IF_MODIFIED \<and> (last_modified e \<noteq> None \<or> etag e \<noteq> None)
    \<and> 0 \<le> revalidation_interval env \<and> seconds e + revalidation_interval env < now_time env)"
  define first where "first = (\<lambda>newer e older. cache_entries c = newer @ e # older \<and> entry_matches u e
    \<and> (\<forall>f \<in> set newer. \<not> entry_matches u f))"
  have ff: "find (entry_matches u) (cache_entries c) = Some e \<longleftrightarrow> (\<exists>newer older. first newer e older)" for e
    unfolding find_first first_def ..
  have go: "must_go env mode e \<longleftrightarrow> gone e" if "e \<in> set (cache_entries c)" for e
    using timeval_cmp_spec [of "max_age e" "now_timeval env"] assms(2,3) that
    by (auto simp: must_go_def gone_def cache_entry_has_expired_def timeval_cmp_def normal_def usecs_def)
  have re: "must_revalidate env mode e \<longleftrightarrow> old e" if "mode \<le> CACHE_MODE_NORMAL" for e
    using that by (auto simp: must_revalidate_def old_def)
  have "cache_wf c'
    \<and> (\<forall>e. r = Some e \<longleftrightarrow> mode \<le> CACHE_MODE_NORMAL \<and> (\<exists>newer older. first newer e older)
         \<and> \<not> incomplete (body e) \<and> \<not> gone e \<and> \<not> old e)
    \<and> (case r of
         Some e \<Rightarrow> cache_entries c' = e # remove1 e (cache_entries c) \<and> cache_size c' = cache_size c
       | None \<Rightarrow> (\<exists>newer e older. first newer e older \<and> mode \<le> CACHE_MODE_NORMAL \<and> \<not> incomplete (body e)
           \<and> gone e \<and> refcount e = 0 \<and> cache_entries c' = newer @ older \<and> cache_size c' = cache_size c - data_size e)
         \<or> mset (cache_entries c') = mset (cache_entries c) \<and> cache_size c' = cache_size c
           \<and> \<not> (\<exists>newer e older. first newer e older \<and> mode \<le> CACHE_MODE_NORMAL \<and> \<not> incomplete (body e)
                 \<and> gone e \<and> refcount e = 0))"
  proof (cases "mode \<le> CACHE_MODE_NORMAL \<and> (\<exists>e. find (entry_matches u) (cache_entries c) = Some e)")
    case False
    then have "r = None \<and> c' = c" using assms(4)
      by (auto simp: get_validated_cache_entry_def find_in_cache_def split: option.splits if_splits)
    then show ?thesis using False assms(1) unfolding ff by auto
  next
    case True
    then obtain e where e: "find (entry_matches u) (cache_entries c) = Some e" and m: "mode \<le> CACHE_MODE_NORMAL" by blast
    obtain c1 where f: "find_in_cache u c = (Some e, c1)" using e by (simp add: find_in_cache_def)
    note s = find_in_cache_Some [OF f]
    have wf: "cache_wf c1" using cache_wf_mset [OF s(6,4)] assms(1) by simp
    obtain newer older where fe: "first newer e older" using e ff by blast
    have only: "d = e" if "first n d ol" for n d ol using that e ff by (metis option.inject)
    have rm: "remove1 e (cache_entries c) = newer @ older"
      using fe by (auto simp: first_def remove1_append)
    consider (inc) "incomplete (body e)" | (gone) "\<not> incomplete (body e)" "gone e"
      | (old) "\<not> incomplete (body e)" "\<not> gone e" "old e" | (good) "\<not> incomplete (body e)" "\<not> gone e" "\<not> old e" by blast
    then show ?thesis
    proof cases
      case gone
      then have r: "r = None" "c' = (if is_object_used e then c1 else delete_cache_entry e c1)"
        using assms(4) f m go [OF s(1)] by (auto simp: get_validated_cache_entry_def)
      have none: "\<forall>d. None = Some d \<longleftrightarrow> mode \<le> CACHE_MODE_NORMAL \<and> (\<exists>newer older. first newer d older)
         \<and> \<not> incomplete (body d) \<and> \<not> gone d \<and> \<not> old d" using only gone by blast
      show ?thesis
      proof (cases "refcount e = 0")
        case True
        then have c': "c' = delete_cache_entry e c1" using r by (simp add: is_object_used_def)
        note d = delete_cache_entry_first [OF assms(1) e f]
        show ?thesis unfolding r(1) c' using d none fe m gone True rm by (simp only: option.case) blast
      next
        case False
        then have c': "c' = c1" using r by (simp add: is_object_used_def)
        show ?thesis unfolding r(1) c' using wf none s(4,6) only False by (simp only: option.case) blast
      qed
    next
      case good
      then have "r = Some e" "c' = c1"
        using assms(4) f m go [OF s(1)] re [OF m] by (auto simp: get_validated_cache_entry_def)
      moreover have "Some e = Some d \<longleftrightarrow> mode \<le> CACHE_MODE_NORMAL \<and> (\<exists>newer older. first newer d older)
         \<and> \<not> incomplete (body d) \<and> \<not> gone d \<and> \<not> old d" for d
        using only fe good m by (metis option.inject)
      ultimately show ?thesis using wf s(3,4) by simp
    next
      case inc
      then have "r = None" "c' = c1" using assms(4) f m by (auto simp: get_validated_cache_entry_def)
      then show ?thesis using wf s(4,6) only inc by (simp only: option.case) blast
    next
      case old
      then have "r = None" "c' = c1"
        using assms(4) f m go [OF s(1)] re [OF m] by (auto simp: get_validated_cache_entry_def)
      then show ?thesis using wf s(4,6) only old by (simp only: option.case) blast
    qed
  qed
  then show ?thesis unfolding Let_def gone_def old_def first_def .
qed


subsection \<open>Redirects\<close>

text \<open>\<open>hops S e k f\<close>: from the entry \<open>e\<close> one comes to \<open>f\<close> by \<open>k\<close> redirects to entries of \<open>S\<close>.\<close>

inductive hops :: "cache_entry set \<Rightarrow> cache_entry \<Rightarrow> nat \<Rightarrow> cache_entry \<Rightarrow> bool" for S where
  hops_refl: "hops S e 0 e"
| hops_step: "redirect e = Some u \<Longrightarrow> g \<in> S \<Longrightarrow> entry_matches u g \<Longrightarrow> hops S g k f \<Longrightarrow> hops S e (Suc k) f"

inductive_simps hops_0: "hops S e 0 f"
inductive_simps hops_Suc: "hops S e (Suc k) f"

definition unique_matches :: "cache_entry set \<Rightarrow> bool" where
  "unique_matches S \<longleftrightarrow> (\<forall>u. \<forall>e \<in> S. \<forall>f \<in> S. entry_matches u e \<longrightarrow> entry_matches u f \<longrightarrow> e = f)"

lemma hops_end:
  "redirect f = None \<Longrightarrow> hops S e k f \<longleftrightarrow> (case redirect e of
      None \<Rightarrow> k = 0 \<and> f = e
    | Some u \<Rightarrow> \<exists>j g. k = Suc j \<and> g \<in> S \<and> entry_matches u g \<and> hops S g j f)"
  by (cases k) (auto simp: hops_0 hops_Suc split: option.splits)

lemma follow_loop_cases:
  "follow_loop n None c = (None, c)"
  "redirect e = None \<Longrightarrow> follow_loop n (Some e) c = (Some e, c)"
  "redirect e = Some u \<Longrightarrow> follow_loop MAX_REDIRECTS (Some e) c = (None, c)"
  "redirect e = Some u \<Longrightarrow> n < MAX_REDIRECTS \<Longrightarrow>
     follow_loop n (Some e) c = (case find_in_cache u c of (x, c') \<Rightarrow> follow_loop (n + 1) x c')"
  by (simp_all add: follow_loop.simps [of n] follow_loop.simps [of 10])

lemma follow_loop_spec:
  assumes "unique_matches S" "set (cache_entries c) = S" "n \<le> MAX_REDIRECTS"
    and "follow_loop n (Some e) c = (r, c')"
  shows "mset (cache_entries c') = mset (cache_entries c) \<and> cache_size c' = cache_size c
    \<and> (\<forall>f. r = Some f \<longleftrightarrow> redirect f = None \<and> (\<exists>k. n + k \<le> MAX_REDIRECTS \<and> hops S e k f))"
  using assms(2-)
proof (induction "MAX_REDIRECTS - n" arbitrary: n e c rule: less_induct)
  case less
  show ?case
  proof (cases "redirect e")
    case None
    then have "r = Some e" "c' = c" using less.prems(3) by (auto simp: follow_loop_cases)
    then show ?thesis using None less.prems(2) by (auto simp: hops_end)
  next
    case (Some u)
    show ?thesis
    proof (cases "n = MAX_REDIRECTS")
      case True
      then have "r = None" "c' = c" using less.prems(3) Some True by (auto simp: follow_loop_cases)
      then show ?thesis using True Some by (auto simp: hops_end)
    next
      case False
      obtain x c1 where f: "find_in_cache u c = (x, c1)" by (cases "find_in_cache u c") auto
      then have l: "follow_loop (n + 1) x c1 = (r, c')"
        using less.prems(2,3) Some False by (auto simp: follow_loop_cases)
      show ?thesis
      proof (cases x)
        case None
        then have "r = None" "c' = c" "\<forall>g \<in> S. \<not> entry_matches u g"
          using l f find_in_cache_None [of u c c1] less.prems(1) by (auto simp: follow_loop_cases)
        then show ?thesis using Some by (auto simp: hops_end)
      next
        case x: (Some g)
        note s = find_in_cache_Some [OF f [unfolded x]]
        have g: "g \<in> S" "entry_matches u g" using s(1,2) less.prems(1) by auto
        have "set (cache_entries c1) = S" using s(6) less.prems(1) by (metis set_mset_mset)
        from less.hyps [OF _ this _ l [unfolded x]]
        have ih: "mset (cache_entries c') = mset (cache_entries c1)" "cache_size c' = cache_size c1"
          "\<forall>f. r = Some f \<longleftrightarrow> redirect f = None \<and> (\<exists>k. n + 1 + k \<le> MAX_REDIRECTS \<and> hops S g k f)"
          using less.prems(2) False by auto
        have only: "h \<in> S \<and> entry_matches u h \<longleftrightarrow> h = g" for h
          using g assms(1) by (auto simp: unique_matches_def)
        have "(\<exists>k. n + k \<le> MAX_REDIRECTS \<and> hops S e k f) \<longleftrightarrow> (\<exists>k. n + 1 + k \<le> MAX_REDIRECTS \<and> hops S g k f)"
          if "redirect f = None" for f
        proof -
          have "hops S e k f \<longleftrightarrow> (\<exists>j. k = Suc j \<and> hops S g j f)" for k
            unfolding hops_end [OF that, of S e k] Some option.case using only by metis
          then show ?thesis by (metis add_Suc_right add_Suc_shift Suc_eq_plus1)
        qed
        then show ?thesis using ih s(4,6) by auto
      qed
    qed
  qed
qed

text \<open>
  C28: \<open>get_redirected_cache_entry\<close> always returns, changes only the order of the entries, and finds
  exactly the entry at the end of the chain of cached redirects, if that takes at most ten; a longer
  chain, a cycle or a missing link gives NULL.
\<close>
theorem get_redirected_cache_entry_spec:
  assumes "unique_matches (set (cache_entries c))"
    and "get_redirected_cache_entry u c = (r, c')"
  shows "mset (cache_entries c') = mset (cache_entries c) \<and> cache_size c' = cache_size c
    \<and> (\<forall>f. r = Some f \<longleftrightarrow> redirect f = None
        \<and> (\<exists>e k. e \<in> set (cache_entries c) \<and> entry_matches u e \<and> k \<le> 10 \<and> hops (set (cache_entries c)) e k f))"
proof (cases "find_in_cache u c")
  case (Pair x c1)
  show ?thesis
  proof (cases x)
    case None
    then have "r = None" "c' = c" "\<forall>e \<in> set (cache_entries c). \<not> entry_matches u e"
      using assms(2) Pair find_in_cache_None [of u c c1] by (auto simp: get_redirected_cache_entry_def)
    then show ?thesis by auto
  next
    case (Some e)
    note s = find_in_cache_Some [OF Pair [unfolded Some]]
    have S: "set (cache_entries c1) = set (cache_entries c)" using s(6) by (metis set_mset_mset)
    have "follow_loop 0 (Some e) c1 = (r, c')"
      using assms(2) Pair Some by (auto simp: get_redirected_cache_entry_def follow_cached_redirects_def)
    from follow_loop_spec [OF assms(1) S _ this]
    have f: "mset (cache_entries c') = mset (cache_entries c1)" "cache_size c' = cache_size c1"
      "\<forall>f. r = Some f \<longleftrightarrow> redirect f = None \<and> (\<exists>k. k \<le> 10 \<and> hops (set (cache_entries c)) e k f)" by auto
    have "g \<in> set (cache_entries c) \<and> entry_matches u g \<longleftrightarrow> g = e" for g
      using s(1,2) assms(1) by (auto simp: unique_matches_def)
    then show ?thesis using f s(4,6) by metis
  qed
qed


subsection \<open>Examples\<close>

text \<open>Three documents; the first redirects to the second, the third to itself.\<close>

definition doc_uri :: "string \<Rightarrow> uri" where
  "doc_uri s = uri_zero\<lparr>ustring := s, protocol := PROTOCOL_HTTP, data := Some 0, datalen := length s\<rparr>"

definition doc_entry :: "nat \<Rightarrow> string \<Rightarrow> string option \<Rightarrow> cache_entry" where
  "doc_entry p s r = (new_entry p (doc_uri s) (doc_uri s) p)
     \<lparr>body := \<lparr>frag = [], elength = 0, incomplete = False, cache_id = p\<rparr>, redirect := map_option doc_uri r\<rparr>"

definition doc_cache :: cache where
  "doc_cache = \<lparr>cache_entries = [doc_entry 0 ''a'' (Some ''b''), doc_entry 1 ''b'' None, doc_entry 2 ''c'' (Some ''c'')],
     cache_size = 0, id_counter = 3\<rparr>"

lemma doc_cache_wf: "cache_wf doc_cache"
  by code_simp

lemma wants_data: "wants URI_BASE URI_DATA"
  by code_simp

lemma compare_uri_data:
  "compare_uri same a b components \<Longrightarrow> wants components URI_DATA \<Longrightarrow>
     same \<or> compare_component (component a (data a) (datalen a)) (component b (data b) (datalen b))"
  unfolding compare_uri_def by presburger

lemma doc_matches:
  assumes "entry_matches u (doc_entry p s r)"
  shows "part u (data u) (datalen u) = s"
proof -
  let ?d = "doc_uri s"
  have uris: "entry_uri (doc_entry p s r) = ?d" "proxy_uri (doc_entry p s r) = ?d"
    by (simp_all add: doc_entry_def new_entry_def)
  have d: "part ?d (data ?d) (datalen ?d) = s" by (simp add: doc_uri_def Uri.part_def Uri.ptr_def)
  have "compare_uri (?d = u) ?d u URI_BASE" using assms uris unfolding entry_matches_def Let_def by (auto split: if_splits)
  then have "?d = u \<or> compare_component (component ?d (data ?d) (datalen ?d)) (component u (data u) (datalen u))"
    using compare_uri_data [OF _ wants_data] by blast
  moreover have "component ?d (data ?d) (datalen ?d) = Some s" using d by (simp add: component_def doc_uri_def)
  ultimately show ?thesis using d
    by (auto simp: compare_component_def component_def split: option.splits)
qed

lemma unique_by_key:
  assumes "\<And>u e. e \<in> S \<Longrightarrow> entry_matches u e \<Longrightarrow> g u = key e" and "inj_on key S"
  shows "unique_matches S"
  unfolding unique_matches_def using assms by (metis inj_onD)

lemma doc_unique: "unique_matches (set (cache_entries doc_cache))"
proof (rule unique_by_key)
  show "part u (data u) (datalen u) = ustring (entry_uri e)" if "e \<in> set (cache_entries doc_cache)" "entry_matches u e" for u e
    using that doc_matches [of u] by (auto simp: doc_cache_def) (simp_all add: doc_entry_def new_entry_def doc_uri_def)
  show "inj_on (\<lambda>e. ustring (entry_uri e)) (set (cache_entries doc_cache))"
    by (simp add: doc_cache_def) (simp add: doc_entry_def new_entry_def doc_uri_def)
qed

theorem get_validated_cache_entry_spec_witness:
  "\<exists>c'. get_validated_cache_entry \<lparr>cache_redirects = False, revalidation_interval = -1,
        now_timeval = \<lparr>sec = 5, usec = 0\<rparr>, now_time = 5\<rparr> (doc_uri ''a'') CACHE_MODE_NORMAL doc_cache = (None, c')
     \<and> cache_wf c' \<and> map addr (cache_entries c') = [1, 2]"
proof -
  let ?env = "\<lparr>cache_redirects = False, revalidation_interval = -1,
        now_timeval = \<lparr>sec = 5, usec = 0\<rparr>, now_time = 5\<rparr>"
  let ?r = "get_validated_cache_entry ?env (doc_uri ''a'') CACHE_MODE_NORMAL doc_cache"
  have e: "fst ?r = None" "map addr (cache_entries (snd ?r)) = [1, 2]" by code_simp+
  have n: "normal (now_timeval ?env)" "\<forall>e \<in> set (cache_entries doc_cache). normal (max_age e)"
    by (simp_all add: normal_def doc_cache_def doc_entry_def new_entry_def)
  have "cache_wf (snd ?r)"
    using get_validated_cache_entry_spec [OF doc_cache_wf n, of "doc_uri ''a''" CACHE_MODE_NORMAL "fst ?r" "snd ?r"]
    by (simp only: Let_def prod.collapse)
  then show ?thesis using e by (intro exI [of _ "snd ?r"]) (simp add: prod_eq_iff)
qed

theorem get_redirected_cache_entry_spec_witness:
  "\<exists>c'. get_redirected_cache_entry (doc_uri ''c'') doc_cache = (None, c')
     \<and> mset (cache_entries c') = mset (cache_entries doc_cache)
     \<and> map addr (cache_entries c') = [2, 0, 1]"
proof -
  let ?r = "get_redirected_cache_entry (doc_uri ''c'') doc_cache"
  have e: "fst ?r = None" "map addr (cache_entries (snd ?r)) = [2, 0, 1]" by code_simp+
  have "mset (cache_entries (snd ?r)) = mset (cache_entries doc_cache)"
    using get_redirected_cache_entry_spec [OF doc_unique, of _ "fst ?r" "snd ?r"] by simp
  then show ?thesis using e by (intro exI [of _ "snd ?r"]) (simp add: prod_eq_iff)
qed

end
