(* ===== verification/Timer.thy ===== *)
theory Timer
  imports Time "HOL-Library.Multiset" "HOL-Library.Sublist"
begin

text \<open>
  \<open>src/main/timer.c\<close>, without libevent: the list of timers ordered by the time that is left, and
  the loop that runs the expired ones. A timer is identified by its address, here a number; the
  function it calls and the function's argument are values of any types. What a function does
  to the timers (it can install and kill timers, and so can the bottom halves that run after
  it) is the parameter \<open>callback\<close>: the list of these operations, which may depend on the timers
  at the time of the call.
\<close>

record ('f, 'd) timer =
  timer_id :: nat
  interval :: timeval_T
  func :: 'f
  tdata :: 'd

record ('f, 'd) timer_list =
  timers :: "('f, 'd) timer list"
  next_id :: nat

datatype ('f, 'd) timer_op = Install int 'f 'd | Kill nat

definition get_timers_count :: "('f, 'd) timer_list \<Rightarrow> nat" where
  "get_timers_count st = length (timers st)"

text \<open>The new timer goes before the first one that is not due earlier.\<close>

definition insert_timer :: "('f, 'd) timer \<Rightarrow> ('f, 'd) timer list \<Rightarrow> ('f, 'd) timer list" where
  "insert_timer new ts =
     takeWhile (\<lambda>t. \<not> timeval_cmp (interval t) (interval new) \<ge> 0) ts @ new
       # dropWhile (\<lambda>t. \<not> timeval_cmp (interval t) (interval new) \<ge> 0) ts"

definition install_timer ::
  "int \<Rightarrow> 'f \<Rightarrow> 'd \<Rightarrow> ('f, 'd) timer_list \<Rightarrow> nat \<times> ('f, 'd) timer_list" where
  "install_timer delay f d st =
     (let new = \<lparr>timer_id = next_id st, interval = timeval_from_milliseconds delay, func = f, tdata = d\<rparr>
      in (next_id st, st\<lparr>timers := insert_timer new (timers st), next_id := next_id st + 1\<rparr>))"

text \<open>
  The result has the caller's variable, reset to \<open>TIMER_ID_UNDEF\<close>. Killing a timer that is not
  in the list unlinks freed memory: \<open>None\<close>.
\<close>

definition kill_timer :: "nat option \<Rightarrow> ('f, 'd) timer_list \<Rightarrow> (nat option \<times> ('f, 'd) timer_list) option" where
  "kill_timer i st =
     (case i of
        None \<Rightarrow> Some (None, st)
      | Some i \<Rightarrow>
          if i \<in> timer_id ` set (timers st)
          then Some (None, st\<lparr>timers := filter (\<lambda>t. timer_id t \<noteq> i) (timers st)\<rparr>)
          else None)"

definition get_next_timer_time :: "('f, 'd) timer_list \<Rightarrow> timeval_T option" where
  "get_next_timer_time st = (case timers st of [] \<Rightarrow> None | t # _ \<Rightarrow> Some (interval t))"

fun run_ops :: "('f, 'd) timer_op list \<Rightarrow> ('f, 'd) timer_list \<Rightarrow> ('f, 'd) timer_list option" where
  "run_ops [] st = Some st"
| "run_ops (Install delay f d # ops) st = run_ops ops (snd (install_timer delay f d st))"
| "run_ops (Kill i # ops) st =
     (case kill_timer (Some i) st of None \<Rightarrow> None | Some (_, st') \<Rightarrow> run_ops ops st')"

text \<open>
  The loop of \<open>check_timers\<close>. It runs as long as there are expired timers, so it need not end;
  the result has the timers that were run, in their order.
\<close>

partial_function (option) check_loop ::
  "('f \<Rightarrow> 'd \<Rightarrow> ('f, 'd) timer_list \<Rightarrow> ('f, 'd) timer_op list) \<Rightarrow> ('f, 'd) timer_list \<Rightarrow>
   (('f, 'd) timer list \<times> ('f, 'd) timer_list) option" where
  "check_loop callback st =
     (case timers st of
        [] \<Rightarrow> Some ([], st)
      | t # rest \<Rightarrow>
          if timeval_is_positive (interval t) then Some ([], st)
          else
            let st1 = st\<lparr>timers := rest\<rparr>
            in Option.bind (run_ops (callback (func t) (tdata t) st1) st1)
                 (\<lambda>st2. Option.bind (check_loop callback st2) (\<lambda>(log, st3). Some (t # log, st3))))"


subsection \<open>The list as a priority queue\<close>

text \<open>
  What the loop relies on: the first timer is one of those due first. The client's lemma says why
  looking at the first timer only is enough.
\<close>

locale time_queue =
  fixes inv :: "'q \<Rightarrow> bool" and items :: "'q \<Rightarrow> 'a multiset" and key :: "'a \<Rightarrow> int"
    and ok :: "'a \<Rightarrow> bool" and ins :: "'a \<Rightarrow> 'q \<Rightarrow> 'q" and first :: "'q \<Rightarrow> 'a option"
  assumes inv_ins: "inv q \<Longrightarrow> ok x \<Longrightarrow> inv (ins x q)"
    and items_ins: "inv q \<Longrightarrow> items (ins x q) = items q + {#x#}"
    and first_None: "first q = None \<longleftrightarrow> items q = {#}"
    and first_in: "first q = Some x \<Longrightarrow> x \<in># items q"
    and first_min: "inv q \<Longrightarrow> first q = Some x \<Longrightarrow> y \<in># items q \<Longrightarrow> key x \<le> key y"
begin

lemma none_due:
  assumes "inv q"
  shows "(\<forall>x. first q = Some x \<longrightarrow> now < key x) \<longleftrightarrow> (\<forall>x \<in># items q. now < key x)"
proof
  assume l: "\<forall>x. first q = Some x \<longrightarrow> now < key x"
  show "\<forall>x \<in># items q. now < key x"
  proof
    fix y assume y: "y \<in># items q"
    then obtain x where "first q = Some x" using first_None [of q] by fastforce
    then show "now < key y" using l first_min [OF assms _ y] by fastforce
  qed
qed (use first_in in blast)

lemma none_due_ins:
  "inv q \<Longrightarrow> now < key y \<Longrightarrow> (\<forall>x \<in># items q. now < key x) \<Longrightarrow> (\<forall>x \<in># items (ins y q). now < key x)"
  by (auto simp: items_ins)

end

definition due :: "('f, 'd) timer \<Rightarrow> int" where
  "due t = usecs (interval t)"

definition timers_sorted :: "('f, 'd) timer list \<Rightarrow> bool" where
  "timers_sorted ts \<longleftrightarrow> (\<forall>t \<in> set ts. normal (interval t)) \<and> sorted (map due ts)"

lemma insert_timer_mset: "mset (insert_timer t ts) = mset ts + {#t#}"
proof -
  have "mset (takeWhile P ts) + mset (dropWhile P ts) = mset ts" for P
    by (metis mset_append takeWhile_dropWhile_id)
  then show ?thesis by (simp add: insert_timer_def)
qed

lemma set_insert_timer [simp]: "set (insert_timer t ts) = insert t (set ts)"
  by (metis insert_timer_mset add_mset_add_single set_mset_add_mset_insert set_mset_mset)

lemma insert_timer_Cons:
  "insert_timer t (u # ts) =
     (if timeval_cmp (interval u) (interval t) \<ge> 0 then t # u # ts else u # insert_timer t ts)"
  by (simp add: insert_timer_def)

lemma insert_timer_sorted:
  assumes "normal (interval t)" "timers_sorted ts"
  shows "timers_sorted (insert_timer t ts)"
  using assms(2)
proof (induction ts)
  case Nil
  then show ?case using assms(1) by (simp add: timers_sorted_def insert_timer_def)
next
  case (Cons u ts)
  have u: "normal (interval u)" "\<forall>x \<in> set ts. due u \<le> due x" "timers_sorted ts"
    using Cons.prems by (auto simp: timers_sorted_def)
  have c: "timeval_cmp (interval u) (interval t) \<ge> 0 \<longleftrightarrow> due t \<le> due u"
    using timeval_cmp_spec(1) [OF u(1) assms(1)] by (simp add: due_def)
  have "timers_sorted (insert_timer t ts)" by (rule Cons.IH [OF u(3)])
  then show ?case
    using u assms(1) Cons.prems by (auto simp: insert_timer_Cons c timers_sorted_def)
qed


interpretation tq: time_queue timers_sorted mset due "\<lambda>t. normal (interval t)" insert_timer
  "\<lambda>ts. case ts of [] \<Rightarrow> None | t # _ \<Rightarrow> Some t"
  by unfold_locales
    (simp_all add: insert_timer_sorted insert_timer_mset split: list.splits, auto simp: timers_sorted_def)

subsection \<open>The invariant of the timer list\<close>

definition timers_ok :: "('f, 'd) timer_list \<Rightarrow> bool" where
  "timers_ok st \<longleftrightarrow> timers_sorted (timers st) \<and> distinct (map timer_id (timers st))
     \<and> (\<forall>t \<in> set (timers st). timer_id t < next_id st)"

lemma distinct_insert_timer:
  "distinct (map timer_id (insert_timer t ts)) \<longleftrightarrow> timer_id t \<notin> timer_id ` set ts \<and> distinct (map timer_id ts)"
proof -
  have "mset (map timer_id (insert_timer t ts)) = mset (timer_id t # map timer_id ts)"
    by (simp add: insert_timer_mset)
  then have "distinct (map timer_id (insert_timer t ts)) \<longleftrightarrow> distinct (timer_id t # map timer_id ts)"
    by (rule mset_eq_imp_distinct_iff)
  then show ?thesis by auto
qed

lemma install_timer_ok [wf_intros]:
  assumes "timers_ok st" "0 \<le> delay"
  shows "timers_ok (snd (install_timer delay f d st))"
proof -
  let ?t = "\<lparr>timer_id = next_id st, interval = timeval_from_milliseconds delay, func = f, tdata = d\<rparr>"
  have "normal (interval ?t)" using timeval_from_milliseconds_spec [OF assms(2)] by simp
  then have "timers_sorted (insert_timer ?t (timers st))"
    using assms(1) by (intro tq.inv_ins) (simp_all add: timers_ok_def)
  then show ?thesis using assms(1)
    by (auto simp: timers_ok_def install_timer_def Let_def distinct_insert_timer less_Suc_eq)
qed





subsection \<open>The loop\<close>







definition advance :: "timeval_T \<Rightarrow> ('f, 'd) timer \<Rightarrow> ('f, 'd) timer" where
  "advance e t = t\<lparr>interval := timeval_sub_interval (interval t) e\<rparr>"

lemma advance_simps [simp]:
  "timer_id (advance e t) = timer_id t" "interval (advance e t) = timeval_sub_interval (interval t) e"
  by (simp_all add: advance_def)



text \<open>
  A function that installs itself again with delay 0 keeps the loop going for ever: \<open>setTimeout\<close> of
  scripts allows it. So the next property asks for delays of at least a millisecond.
\<close>

definition reinstall :: "'f \<Rightarrow> 'd \<Rightarrow> ('f, 'd) timer_list \<Rightarrow> ('f, 'd) timer_op list" where
  "reinstall f d s = [Install 0 f d]"

lemma zero_delay_never_ends:
  fixes st :: "('f, 'd) timer_list"
  assumes "timers st = [t]" "\<not> timeval_is_positive (interval t)"
  shows "check_loop reinstall st = None"
proof (rule ccontr)
  assume "check_loop reinstall st \<noteq> None"
  then obtain r where r: "check_loop reinstall st = Some r" by blast
  let ?P = "\<lambda>(cb :: 'f \<Rightarrow> 'd \<Rightarrow> ('f, 'd) timer_list \<Rightarrow> ('f, 'd) timer_op list) s (r :: ('f, 'd) timer list \<times> ('f, 'd) timer_list). cb = reinstall \<longrightarrow> \<not> (\<exists>t. timers s = [t] \<and> \<not> timeval_is_positive (interval t))"
  have "?P reinstall st r"
  proof (rule check_loop.raw_induct [where P = ?P, OF _ r])
    fix loop :: "('f \<Rightarrow> 'd \<Rightarrow> ('f, 'd) timer_list \<Rightarrow> ('f, 'd) timer_op list) \<Rightarrow> ('f, 'd) timer_list \<Rightarrow>
      (('f, 'd) timer list \<times> ('f, 'd) timer_list) option" and cb s r
    assume IH: "\<And>cb s r. loop cb s = Some r \<Longrightarrow> ?P cb s r"
      and body: "(case timers s of [] \<Rightarrow> Some ([], s)
        | t # rest \<Rightarrow> if timeval_is_positive (interval t) then Some ([], s)
            else let st1 = s\<lparr>timers := rest\<rparr>
                 in Option.bind (run_ops (cb (func t) (tdata t) st1) st1)
                      (\<lambda>st2. Option.bind (loop cb st2) (\<lambda>(log, st3). Some (t # log, st3)))) = Some r"
    show "?P cb s r"
    proof (intro impI notI, elim exE conjE)
      fix t assume cb: "cb = reinstall" and t: "timers s = [t]" "\<not> timeval_is_positive (interval t)"
      let ?s = "snd (install_timer 0 (func t) (tdata t) (s\<lparr>timers := []\<rparr>))"
      have "\<exists>u. timers ?s = [u] \<and> \<not> timeval_is_positive (interval u)"
        by (simp add: install_timer_def insert_timer_def Let_def timeval_from_milliseconds_def timeval_is_positive_def
            signed_divide_int_def signed_modulo_int_def)
      moreover obtain r' where "loop cb ?s = Some r'"
        using body t cb by (auto simp: bind_eq_Some_conv reinstall_def)
      ultimately show False using IH cb by blast
    qed
  qed
  then show False using assms by blast
qed



definition two_timers :: "(nat, unit) timer_list" where
  "two_timers = snd (install_timer 5 20 () (snd (install_timer 1 10 () \<lparr>timers = [], next_id = 0\<rparr>)))"


text \<open>
  The timer list is a priority queue. Installing keeps every other timer and puts the new
  one before all timers due no earlier; after any installation \<open>get_next_timer_time\<close> is the
  least time of all the timers.
\<close>

theorem install_timer_spec:
  assumes "timers_ok st" "0 \<le> delay" "install_timer delay f d st = (i, st')"
  shows "timers_ok st' \<and> i \<notin> timer_id ` set (timers st)
    \<and> mset (timers st') = mset (timers st)
        + {#\<lparr>timer_id = i, interval = timeval_from_milliseconds delay, func = f, tdata = d\<rparr>#}
    \<and> (\<exists>t. get_next_timer_time st' = Some t \<and> usecs t = Min (due ` set (timers st')))"
proof -
  let ?new = "\<lparr>timer_id = i, interval = timeval_from_milliseconds delay, func = f, tdata = d\<rparr>"
  have i: "i = next_id st" "timers st' = insert_timer ?new (timers st)"
    using assms(3) by (auto simp: install_timer_def Let_def)
  have ok: "timers_ok st'" using install_timer_ok [OF assms(1,2), of f d] assms(3) by simp
  then have s: "timers_sorted (timers st')" by (simp add: timers_ok_def)
  have "timers st' \<noteq> []" using i(2) by (simp add: insert_timer_def)
  then obtain t ts where t: "timers st' = t # ts" by (auto simp: neq_Nil_conv)
  have "Min (due ` set (timers st')) = due t"
    using tq.first_min [OF s, of t] t by (intro Min_eqI) auto
  moreover have "get_next_timer_time st' = Some (interval t)" using t by (simp add: get_next_timer_time_def)
  moreover have "i \<notin> timer_id ` set (timers st)" using i(1) assms(1) by (auto simp: timers_ok_def)
  ultimately show ?thesis using ok by (simp add: i(2) insert_timer_mset due_def)
qed

theorem install_timer_spec_witness:
  "\<exists>i st'. install_timer 3 7 () two_timers = (i, st') \<and> i = 2
     \<and> (\<exists>t. get_next_timer_time st' = Some t \<and> usecs t = Min (due ` set (timers st')))"
proof -
  have "timers_ok two_timers"
    unfolding two_timers_def by (intro install_timer_ok) (simp_all add: timers_ok_def timers_sorted_def)
  moreover obtain i st' where "install_timer 3 7 () two_timers = (i, st')" by (rule prod.exhaust)
  moreover from this have "i = 2" by (simp add: install_timer_def two_timers_def Let_def)
  ultimately show ?thesis using install_timer_spec [of two_timers 3 7 "()" i st'] by auto
qed

end
