(* ===== verification/Utf8.thy ===== *)
theory Utf8
  imports Width
begin

text \<open>
  The UTF-8 part of \<open>src/intl/charsets.c\<close>: encoding and decoding of characters, counting
  characters and terminal cells, and moving in a string by characters or by cells. A
  \<open>unicode_val_T\<close> is a natural number below \<open>2 ^ 32\<close>; the shifts and sums never leave that range.
  \<open>encode_utf8\<close> returns a NUL terminated buffer, so the character 0 is the empty string. The
  table of code points the terminal supports (an option of the build) is not modelled.

  A pair of pointers into a string and its end is a position and an end position in the bytes
  of the whole string; the byte at the end may be read (it is the terminator or a following
  byte). \<open>utf8_to_unicode\<close> works on the bytes from the pointer to the end.
\<close>

abbreviation (input) "UCS_REPLACEMENT_CHARACTER \<equiv> 0xFFFD :: nat"
abbreviation (input) "UCS_NO_CHAR \<equiv> 0xFFFFFFFD :: nat"

definition is_utf16_surrogate :: "nat \<Rightarrow> bool" where
  "is_utf16_surrogate u \<longleftrightarrow> u AND 0xFFFFF800 = 0xD800"

definition encode_utf8 :: "nat \<Rightarrow> string" where
  "encode_utf8 u = takeWhile (\<lambda>c. c \<noteq> NUL) (map char_of
     (if u < 0x80 then [u]
      else if u < 0x800 then
        [0xc0 OR (drop_bit 6 u AND 0x1f), 0x80 OR (u AND 0x3f)]
      else if u < 0x10000 then
        [0xe0 OR (drop_bit 12 u AND 0x0f), 0x80 OR (drop_bit 6 u AND 0x3f), 0x80 OR (u AND 0x3f)]
      else if u < 0x200000 then
        [0xf0 OR (drop_bit 18 u AND 0x0f), 0x80 OR (drop_bit 12 u AND 0x3f),
         0x80 OR (drop_bit 6 u AND 0x3f), 0x80 OR (u AND 0x3f)]
      else if u < 0x4000000 then
        [0xf8 OR (drop_bit 24 u AND 0x0f), 0x80 OR (drop_bit 18 u AND 0x3f),
         0x80 OR (drop_bit 12 u AND 0x3f), 0x80 OR (drop_bit 6 u AND 0x3f), 0x80 OR (u AND 0x3f)]
      else
        [0xfc OR (drop_bit 30 u AND 0x01), 0x80 OR (drop_bit 24 u AND 0x3f),
         0x80 OR (drop_bit 18 u AND 0x3f), 0x80 OR (drop_bit 12 u AND 0x3f),
         0x80 OR (drop_bit 6 u AND 0x3f), 0x80 OR (u AND 0x3f)]))"

definition utf8char_len_tab :: "nat list" where
  "utf8char_len_tab = replicate 192 1 @ replicate 32 2 @ replicate 16 3 @ replicate 8 4
     @ replicate 4 5 @ [6, 6, 1, 1]"

definition utf8charlen :: "char \<Rightarrow> nat" where
  "utf8charlen c = utf8char_len_tab ! uchar c"

definition utf8_issingle :: "char \<Rightarrow> bool" where
  "utf8_issingle c \<longleftrightarrow> uchar c AND 0x80 = 0"

definition utf8_islead :: "char \<Rightarrow> bool" where
  "utf8_islead c \<longleftrightarrow> utf8_issingle c \<or> uchar c AND 0xc0 = 0xc0"

subsection \<open>Decoding\<close>

text \<open>The byte at an index of the sequence, and the test that a byte continues one.\<close>

abbreviation byte :: "string \<Rightarrow> nat \<Rightarrow> nat" where
  "byte s i \<equiv> uchar (char_at s i)"

definition continues :: "string \<Rightarrow> nat \<Rightarrow> bool" where
  "continues s i \<longleftrightarrow> byte s i AND 0xc0 = 0x80"

text \<open>The cases of the \<open>switch\<close>; \<open>None\<close> is the jump to \<open>invalid_utf8\<close>.\<close>

definition utf8_value :: "nat \<Rightarrow> string \<Rightarrow> nat option" where
  "utf8_value len s =
     (if len = 1 then (if byte s 0 \<ge> 0x80 then None else Some (byte s 0))
      else if len = 2 then
        (if \<not> continues s 1 then None
         else let u = push_bit 6 (byte s 0 AND 0x1f) + (byte s 1 AND 0x3f)
              in if u < 0x80 then None else Some u)
      else if len = 3 then
        (if \<not> continues s 1 \<or> \<not> continues s 2 then None
         else let u = push_bit 12 (byte s 0 AND 0x0f) + push_bit 6 (byte s 1 AND 0x3f) + (byte s 2 AND 0x3f)
              in if u < 0x800 \<or> is_utf16_surrogate u then None else Some u)
      else if len = 4 then
        (if \<not> continues s 1 \<or> \<not> continues s 2 \<or> \<not> continues s 3 then None
         else let u = push_bit 18 (byte s 0 AND 0x0f) + push_bit 12 (byte s 1 AND 0x3f)
                    + push_bit 6 (byte s 2 AND 0x3f) + (byte s 3 AND 0x3f)
              in if u < 0x10000 then None else Some u)
      else if len = 5 then
        (if \<not> continues s 1 \<or> \<not> continues s 2 \<or> \<not> continues s 3 \<or> \<not> continues s 4 then None
         else let u = push_bit 24 (byte s 0 AND 0x0f) + push_bit 18 (byte s 1 AND 0x3f)
                    + push_bit 12 (byte s 2 AND 0x3f) + push_bit 6 (byte s 3 AND 0x3f) + (byte s 4 AND 0x3f)
              in if u < 0x200000 then None else Some u)
      else
        (if \<not> continues s 1 \<or> \<not> continues s 2 \<or> \<not> continues s 3 \<or> \<not> continues s 4 \<or> \<not> continues s 5
         then None
         else let u = push_bit 30 (byte s 0 AND 0x01) + push_bit 24 (byte s 1 AND 0x3f)
                    + push_bit 18 (byte s 2 AND 0x3f) + push_bit 12 (byte s 3 AND 0x3f)
                    + push_bit 6 (byte s 4 AND 0x3f) + (byte s 5 AND 0x3f)
              in if u < 0x4000000 then None else Some u))"

definition utf8_to_unicode :: "string \<Rightarrow> nat \<times> string" where
  "utf8_to_unicode s =
     (let len = utf8charlen (deref s)
      in if len > length s then (UCS_NO_CHAR, s)
         else case utf8_value len s of
           None \<Rightarrow> (UCS_REPLACEMENT_CHARACTER, drop 1 s)
         | Some u \<Rightarrow> (u, drop len s))"

subsection \<open>Counting\<close>

lemma utf8charlen_pos [simp]: "0 < utf8charlen c" "utf8charlen c \<le> 6"
proof -
  have "\<forall>x \<in> set utf8char_len_tab. 0 < x \<and> x \<le> 6" "length utf8char_len_tab = 256"
    by (auto simp: utf8char_len_tab_def)
  then have "0 < utf8charlen c \<and> utf8charlen c \<le> 6"
    using uchar_less [of c] nth_mem [of "uchar c" utf8char_len_tab] by (simp add: utf8charlen_def)
  then show "0 < utf8charlen c" "utf8charlen c \<le> 6" by simp_all
qed

lemma utf8_advance: "utf8charlen c \<le> n \<Longrightarrow> n - utf8charlen c < n"
  using utf8charlen_pos(1) [of c] by linarith

text \<open>\<open>strlen_utf8\<close> and \<open>utf8_ptr2chars\<close>: the number of characters, and where the count stopped.\<close>

function strlen_utf8 :: "nat \<Rightarrow> string \<Rightarrow> nat \<times> string" where
  "strlen_utf8 x s =
     (let len = utf8charlen (deref s)
      in if len > length s then (x, s) else strlen_utf8 (x + 1) (drop len s))"
  by pat_completeness auto
termination by (relation "measure (\<lambda>(x, s). length s)") (auto simp: not_less utf8_advance)

definition utf8_ptr2chars :: "string \<Rightarrow> nat" where
  "utf8_ptr2chars s = fst (strlen_utf8 0 s)"

definition utf8_char2cells :: "string \<Rightarrow> int" where
  "utf8_char2cells s = unicode_to_cell (fst (utf8_to_unicode s))"

function utf8_ptr2cells :: "int \<Rightarrow> string \<Rightarrow> int" where
  "utf8_ptr2cells cells s =
     (let len = utf8charlen (deref s)
      in if len > length s then cells
         else let cell = utf8_char2cells s
              in if cell < 0 then -1 else utf8_ptr2cells (cells + cell) (drop len s))"
  by pat_completeness auto
termination by (relation "measure (\<lambda>(x, s). length s)") (auto simp: not_less utf8_advance)

text \<open>The loop stops at the end of the string, when its bytes are used up, or when the cells are.\<close>

function utf8_cells2bytes_loop :: "string \<Rightarrow> int \<Rightarrow> nat \<Rightarrow> int \<Rightarrow> int" where
  "utf8_cells2bytes_loop s max_cells bytes cells =
     (let cell = utf8_char2cells (drop bytes s)
      in if cell < 0 then -1
         else if cells + cell > max_cells then int bytes
         else
           let bytes = bytes + utf8charlen (deref (drop bytes s))
           in if bytes > length s then int (length s)
              else utf8_cells2bytes_loop s max_cells bytes (cells + cell))"
  by pat_completeness auto
termination
  by (relation "measure (\<lambda>(s, m, b, c). length s + 1 - b)") (auto simp: not_less less_diff_conv2 diff_less_mono2)

definition utf8_cells2bytes :: "string \<Rightarrow> int \<Rightarrow> int" where
  "utf8_cells2bytes s max_cells = utf8_cells2bytes_loop s max_cells 0 0"

declare strlen_utf8.simps [simp del] utf8_ptr2cells.simps [simp del] utf8_cells2bytes_loop.simps [simp del]

subsection \<open>Moving\<close>

text \<open>
  Positions in a whole string \<open>s\<close>. The steps by characters look at every byte; the byte at the end
  of the string is the terminator.
\<close>

function utf8_prevchar :: "string \<Rightarrow> nat \<Rightarrow> nat \<Rightarrow> nat \<Rightarrow> nat" where
  "utf8_prevchar s current pos start =
     (if pos > 0 \<and> start < current
      then utf8_prevchar s (current - 1) (if utf8_islead (char_at s (current - 1)) then pos - 1 else pos) start
      else current)"
  by pat_completeness auto
termination by (relation "measure (\<lambda>(s, c, p, st). c)") auto

function step_forward_chars :: "string \<Rightarrow> nat \<Rightarrow> nat \<Rightarrow> nat \<Rightarrow> nat \<Rightarrow> nat \<times> nat" where
  "step_forward_chars s stop limit steps current =
     (if steps < limit \<and> current < stop
      then step_forward_chars s stop limit
             (if utf8_islead (char_at s (current + 1)) then steps + 1 else steps) (current + 1)
      else (current, steps))"
  by pat_completeness auto
termination by (relation "measure (\<lambda>(s, e, m, st, c). e - c)") auto

datatype utf8_step = UTF8_STEP_CHARACTERS | UTF8_STEP_CELLS_FEWER | UTF8_STEP_CELLS_MORE

text \<open>
  The bytes between two positions, and the position after decoding there: the distance to the end
  minus what is left.
\<close>

definition between :: "string \<Rightarrow> nat \<Rightarrow> nat \<Rightarrow> string" where
  "between s pos stop = take (stop - pos) (drop pos s)"

definition decoded_at :: "string \<Rightarrow> nat \<Rightarrow> nat \<Rightarrow> nat \<times> nat" where
  "decoded_at s pos stop =
     (case utf8_to_unicode (between s pos stop) of (u, rest) \<Rightarrow> (u, stop - length rest))"

lemma utf8_to_unicode_progress:
  "utf8_to_unicode s = (u, rest) \<Longrightarrow> u \<noteq> UCS_NO_CHAR \<Longrightarrow> length rest < length s"
proof -
  assume a: "utf8_to_unicode s = (u, rest)" "u \<noteq> UCS_NO_CHAR"
  let ?l = "utf8charlen (deref s)"
  have l: "?l \<le> length s" using a by (auto simp: utf8_to_unicode_def Let_def split: if_splits)
  then have "s \<noteq> []" using utf8charlen_pos(1) [of "deref s"] by (metis leD list.size(3))
  have "rest = drop 1 s \<or> rest = drop ?l s"
    using a l by (auto simp: utf8_to_unicode_def Let_def split: option.splits)
  then show ?thesis using \<open>s \<noteq> []\<close> utf8_advance [OF l] by auto
qed

lemma decoded_at_progress:
  assumes "pos < stop" "stop \<le> length s" "decoded_at s pos stop = (u, next)" "u \<noteq> UCS_NO_CHAR"
  shows "pos < next \<and> next \<le> stop"
proof -
  obtain rest where r: "utf8_to_unicode (between s pos stop) = (u, rest)" "next = stop - length rest"
    using assms(3) by (auto simp: decoded_at_def split: prod.splits)
  have "length (between s pos stop) = stop - pos" using assms(1,2) by (simp add: between_def)
  then show ?thesis using utf8_to_unicode_progress [OF r(1) assms(4)] r(2) assms(1) by linarith
qed

text \<open>The end position is at most the length of the string.\<close>

function step_forward_cells :: "string \<Rightarrow> nat \<Rightarrow> bool \<Rightarrow> int \<Rightarrow> int \<Rightarrow> nat \<Rightarrow> nat \<times> int" where
  "step_forward_cells s stop fewer limit steps current =
     (if steps < limit \<and> current < stop \<and> stop \<le> length s
      then
        let (u, next) = decoded_at s current stop
        in if u = UCS_NO_CHAR then (stop, steps + 1)
           else
             let width = unicode_to_cell u
             in if fewer \<and> steps + width > limit then (current, steps)
                else step_forward_cells s stop fewer limit (steps + width) next
      else (current, steps))"
  by pat_completeness auto
termination
proof (relation "measure (\<lambda>(s, e, f, m, st, c). e - c)")
  fix s :: string and stop current u "next" :: nat and fewer and limit steps width :: int and d
  assume a: "steps < limit \<and> current < stop \<and> stop \<le> length s" "d = decoded_at s current stop"
    "(u, next) = d" "u \<noteq> UCS_NO_CHAR"
  then have "current < next" using decoded_at_progress [of current stop s u "next"] by simp
  then show "((s, stop, fewer, limit, steps + width, next), s, stop, fewer, limit, steps, current)
      \<in> measure (\<lambda>(s, e, f, m, st, c). e - c)" using a(1) by (simp add: diff_less_mono2)
qed simp

definition utf8_step_forward :: "string \<Rightarrow> nat \<Rightarrow> nat \<Rightarrow> nat \<Rightarrow> utf8_step \<Rightarrow> nat \<times> int" where
  "utf8_step_forward s string stop limit way =
     (case way of
        UTF8_STEP_CHARACTERS \<Rightarrow> (case step_forward_chars s stop limit 0 string of (p, n) \<Rightarrow> (p, int n))
      | UTF8_STEP_CELLS_FEWER \<Rightarrow> step_forward_cells s stop True (int limit) 0 string
      | UTF8_STEP_CELLS_MORE \<Rightarrow> step_forward_cells s stop False (int limit) 0 string)"

function step_backward_chars :: "string \<Rightarrow> nat \<Rightarrow> nat \<Rightarrow> nat \<Rightarrow> nat \<Rightarrow> nat \<times> nat" where
  "step_backward_chars s start limit steps current =
     (if steps < limit \<and> start < current
      then step_backward_chars s start limit
             (if utf8_islead (char_at s (current - 1)) then steps + 1 else steps) (current - 1)
      else (current, steps))"
  by pat_completeness auto
termination by (relation "measure (\<lambda>(s, e, m, st, c). c)") auto

text \<open>The inner loop that goes back to the preceding lead byte.\<close>

fun back_to_lead :: "string \<Rightarrow> nat \<Rightarrow> nat \<Rightarrow> nat" where
  "back_to_lead s start 0 = 0"
| "back_to_lead s start (Suc c) =
     (if c > start \<and> \<not> utf8_islead (char_at s c) then back_to_lead s start c else c)"

lemma back_to_lead_less: "0 < c \<Longrightarrow> back_to_lead s start c < c"
proof (induction c)
  case (Suc c)
  then show ?case by (cases c) (auto simp: less_Suc_eq)
qed simp

function step_backward_cells :: "string \<Rightarrow> nat \<Rightarrow> bool \<Rightarrow> int \<Rightarrow> int \<Rightarrow> nat \<Rightarrow> nat \<times> int" where
  "step_backward_cells s start fewer limit steps current =
     (if steps < limit \<and> start < current
      then
        let prev = back_to_lead s start current;
            u = fst (decoded_at s prev current);
            width = (if u = UCS_NO_CHAR then 1 else unicode_to_cell u)
        in if fewer \<and> steps + width > limit then (current, steps)
           else step_backward_cells s start fewer limit (steps + width) prev
      else (current, steps))"
  by pat_completeness auto
termination by (relation "measure (\<lambda>(s, e, f, m, st, c). c)") (auto simp: back_to_lead_less)

definition utf8_step_backward :: "string \<Rightarrow> nat \<Rightarrow> nat \<Rightarrow> nat \<Rightarrow> utf8_step \<Rightarrow> nat \<times> int" where
  "utf8_step_backward s string start limit way =
     (case way of
        UTF8_STEP_CHARACTERS \<Rightarrow> (case step_backward_chars s start limit 0 string of (p, n) \<Rightarrow> (p, int n))
      | UTF8_STEP_CELLS_FEWER \<Rightarrow> step_backward_cells s start True (int limit) 0 string
      | UTF8_STEP_CELLS_MORE \<Rightarrow> step_backward_cells s start False (int limit) 0 string)"

declare utf8_prevchar.simps [simp del] step_forward_chars.simps [simp del] step_forward_cells.simps [simp del]
  step_backward_chars.simps [simp del] step_backward_cells.simps [simp del]

end
