(* ===== verification/Utf8_Codec.thy ===== *)
theory Utf8_Codec
  imports Utf8
begin

text \<open>
  Correctness of the UTF-8 encoder and decoder of \<open>src/intl/charsets.c\<close>, by way of the arithmetic
  form of both.
\<close>

subsection \<open>The encoder in terms of division and remainder\<close>

lemma or_prefix: "x < 2 ^ k \<Longrightarrow> (p * 2 ^ k) OR x = p * 2 ^ k + x" for p x k :: nat
  using or_disjoint_nat [of x k p] by (simp add: push_bit_eq_mult)

lemma or_continuation: "0x80 OR (x AND 0x3f) = 128 + x mod 64" for x :: nat
  using or_prefix [of "x mod 64" 6 2] by (simp add: and_63)

lemma or_lead:
  "0xc0 OR (x AND 0x1f) = 192 + x mod 32" "0xe0 OR (x AND 0x0f) = 224 + x mod 16"
  "0xf0 OR (x AND 0x0f) = 240 + x mod 16" "0xfc OR (x AND 0x01) = 252 + x mod 2" for x :: nat
  using or_prefix [of "x mod 32" 5 6] or_prefix [of "x mod 16" 4 14] or_prefix [of "x mod 16" 4 15]
    or_prefix [of "x mod 2" 1 126] by (simp_all add: and_mask_nat)

lemma or_lead_5: "x < 4 \<Longrightarrow> 0xf8 OR (x AND 0x0f) = 248 + x" for x :: nat
  using or_prefix [of x 3 31] by (simp add: and_mask_nat)

text \<open>The numbers of the bytes.\<close>

definition utf8_bytes :: "nat \<Rightarrow> nat list" where
  "utf8_bytes u =
     (if u < 0x80 then [u]
      else if u < 0x800 then [192 + u div 64, 128 + u mod 64]
      else if u < 0x10000 then [224 + u div 4096, 128 + u div 64 mod 64, 128 + u mod 64]
      else if u < 0x200000 then
        [240 + u div 262144, 128 + u div 4096 mod 64, 128 + u div 64 mod 64, 128 + u mod 64]
      else if u < 0x4000000 then
        [248 + u div 16777216, 128 + u div 262144 mod 64, 128 + u div 4096 mod 64, 128 + u div 64 mod 64,
         128 + u mod 64]
      else
        [252 + u div 1073741824 mod 2, 128 + u div 16777216 mod 64, 128 + u div 262144 mod 64,
         128 + u div 4096 mod 64, 128 + u div 64 mod 64, 128 + u mod 64])"

lemma utf8_bytes_range:
  "0 < u \<Longrightarrow> x \<in> set (utf8_bytes u) \<Longrightarrow> 0 < x \<and> x < 256"
  by (auto simp: utf8_bytes_def split: if_splits)

lemma encode_utf8_bytes:
  assumes "0 < u"
  shows "encode_utf8 u = map char_of (utf8_bytes u)"
proof -
  let ?l = "if u < 0x80 then [u]
      else if u < 0x800 then
        [0xc0 OR (drop_bit 6 u AND 0x1f), 0x80 OR (u AND 0x3f)]
      else if u < 0x10000 then
        [0xe0 OR (drop_bit 12 u AND 0x0f), 0x80 OR (drop_bit 6 u AND 0x3f), 0x80 OR (u AND 0x3f)]
      else if u < 0x200000 then
        [0xf0 OR (drop_bit 18 u AND 0x0f), 0x80 OR (drop_bit 12 u AND 0x3f),
         0x80 OR (drop_bit 6 u AND 0x3f), 0x80 OR (u AND 0x3f)]
      else if u < 0x4000000 then
        [0xf8 OR (drop_bit 24 u AND 0x0f), 0x80 OR (drop_bit 18 u AND 0x3f),
         0x80 OR (drop_bit 12 u AND 0x3f), 0x80 OR (drop_bit 6 u AND 0x3f), 0x80 OR (u AND 0x3f)]
      else
        [0xfc OR (drop_bit 30 u AND 0x01), 0x80 OR (drop_bit 24 u AND 0x3f),
         0x80 OR (drop_bit 18 u AND 0x3f), 0x80 OR (drop_bit 12 u AND 0x3f),
         0x80 OR (drop_bit 6 u AND 0x3f), 0x80 OR (u AND 0x3f)]"
  have m: "u div 64 mod 32 = u div 64" if "u < 0x800" using that by (intro mod_less) linarith
  have m3: "u div 4096 mod 16 = u div 4096" if "u < 0x10000" using that by (intro mod_less) linarith
  have m4: "u div 262144 mod 16 = u div 262144" if "u < 0x200000" using that by (intro mod_less) linarith
  have m5: "u div 16777216 < 4" if "u < 0x4000000" using that by linarith
  have "252 OR x mod 2 = 252 + x mod 2" for x :: nat using or_prefix [of "x mod 2" 1 126] by simp
  then have "?l = utf8_bytes u"
    using m m3 m4 or_lead_5 [OF m5]
    by (auto simp: utf8_bytes_def or_continuation or_lead drop_bit_eq_div)
  moreover have "takeWhile (\<lambda>c. c \<noteq> NUL) (map char_of (utf8_bytes u)) = map char_of (utf8_bytes u)"
  proof -
    have "char_of x \<noteq> NUL" if "x \<in> set (utf8_bytes u)" for x
      using utf8_bytes_range [OF assms that] by (metis neq0_conv uchar_NUL_iff uchar_char_of)
    then show ?thesis by (simp add: takeWhile_eq_all_conv)
  qed
  ultimately show ?thesis by (simp only: encode_utf8_def)
qed

text \<open>The bytes that can start and continue a sequence, and the length table, in arithmetic form.\<close>

lemma continues_iff: "continues s i \<longleftrightarrow> 128 \<le> byte s i \<and> byte s i < 192"
proof -
  have "byte s i div 64 mod 4 * 64 = 128 \<longleftrightarrow> byte s i div 64 = 2"
  proof -
    have "byte s i < 256" by simp
    then have "byte s i div 64 < 4" by linarith
    then show ?thesis by simp
  qed
  then show ?thesis by (auto simp: continues_def and_high_bits)
qed

lemma islead_iff: "utf8_islead c \<longleftrightarrow> uchar c < 128 \<or> 192 \<le> uchar c"
proof -
  have "uchar c div 128 < 2" "uchar c div 64 < 4" using uchar_less [of c] by linarith+
  then show ?thesis by (auto simp: utf8_islead_def utf8_issingle_def and_high_bits)
qed

lemma utf8charlen_eq:
  "utf8charlen c = (if uchar c < 192 then 1 else if uchar c < 224 then 2 else if uchar c < 240 then 3
     else if uchar c < 248 then 4 else if uchar c < 252 then 5 else if uchar c < 254 then 6 else 1)"
proof -
  have "uchar c < 256" by simp
  then consider "uchar c < 252" | "uchar c = 252" | "uchar c = 253" | "uchar c = 254" | "uchar c = 255" by linarith
  then show ?thesis by cases (auto simp: utf8charlen_def utf8char_len_tab_def nth_append)
qed


subsection \<open>Decoding what was encoded\<close>

text \<open>
  The characters whose encoding is decoded again. The five byte sequences are left out: the
  decoder keeps one bit too many of their first byte (see \<open>five_bytes_lost\<close>).
\<close>

definition codable :: "nat \<Rightarrow> bool" where
  "codable u \<longleftrightarrow> 0 < u \<and> u < 2 ^ 31 \<and> \<not> (0x200000 \<le> u \<and> u < 0x4000000) \<and> \<not> is_utf16_surrogate u"

lemma byte_map_char:
  "i < length xs \<Longrightarrow> \<forall>x \<in> set xs. x < 256 \<Longrightarrow> byte (map char_of xs @ rest) i = xs ! i"
  by (simp add: char_at_def nth_append)

lemma split64:
  "u div 64 * 64 + u mod 64 = u"
  "u div 4096 * 4096 + u div 64 mod 64 * 64 + u mod 64 = u"
  "u div 262144 * 262144 + u div 4096 mod 64 * 4096 + u div 64 mod 64 * 64 + u mod 64 = u"
  "u div 16777216 * 16777216 + u div 262144 mod 64 * 262144 + u div 4096 mod 64 * 4096 + u div 64 mod 64 * 64 + u mod 64 = u"
  "u div 1073741824 * 1073741824 + u div 16777216 mod 64 * 16777216 + u div 262144 mod 64 * 262144
     + u div 4096 mod 64 * 4096 + u div 64 mod 64 * 64 + u mod 64 = u" for u :: nat
proof -
  have d: "u div 4096 = u div 64 div 64" "u div 262144 = u div 64 div 64 div 64"
    "u div 16777216 = u div 64 div 64 div 64 div 64" "u div 1073741824 = u div 64 div 64 div 64 div 64 div 64"
    by (simp_all add: div_mult2_eq [symmetric])
  show "u div 64 * 64 + u mod 64 = u"
    "u div 4096 * 4096 + u div 64 mod 64 * 64 + u mod 64 = u"
    "u div 262144 * 262144 + u div 4096 mod 64 * 4096 + u div 64 mod 64 * 64 + u mod 64 = u"
    "u div 16777216 * 16777216 + u div 262144 mod 64 * 262144 + u div 4096 mod 64 * 4096 + u div 64 mod 64 * 64 + u mod 64 = u"
    "u div 1073741824 * 1073741824 + u div 16777216 mod 64 * 16777216 + u div 262144 mod 64 * 262144
     + u div 4096 mod 64 * 4096 + u div 64 mod 64 * 64 + u mod 64 = u"
    unfolding d using div_mult_mod_eq [of u 64] div_mult_mod_eq [of "u div 64" 64]
      div_mult_mod_eq [of "u div 64 div 64" 64] div_mult_mod_eq [of "u div 64 div 64 div 64" 64]
      div_mult_mod_eq [of "u div 64 div 64 div 64 div 64" 64]
    by linarith+
qed

text \<open>The value of a sequence from the numbers of its bytes.\<close>

definition bytes_value :: "nat list \<Rightarrow> nat option" where
  "bytes_value xs = utf8_value (length xs) (map char_of xs)"

lemma utf8_value_cong:
  assumes "0 < len" "\<forall>i < len. char_at s i = char_at t i"
  shows "len \<le> 6 \<Longrightarrow> utf8_value len s = utf8_value len t"
proof -
  assume "len \<le> 6"
  then consider "len = 1" | "len = 2" | "len = 3" | "len = 4" | "len = 5" | "len = 6" using assms(1) by linarith
  moreover have "deref s = deref t" using assms by (metis char_at_0)
  ultimately show ?thesis using assms(2) by cases (simp_all add: utf8_value_def continues_def)
qed

lemma utf8_to_unicode_append:
  assumes "xs \<noteq> []" "length xs = utf8charlen (char_of (hd xs))" "utf8_value (length xs) (map char_of xs) = v"
  shows "utf8_to_unicode (map char_of xs @ rest) =
    (case v of None \<Rightarrow> (UCS_REPLACEMENT_CHARACTER, map char_of (tl xs) @ rest) | Some u \<Rightarrow> (u, rest))"
proof -
  have len: "utf8charlen (deref (map char_of xs @ rest)) = length xs"
    using assms(1,2) by (cases xs) (simp_all add: deref_def)
  have "length xs \<le> 6" using assms(2) by simp
  then have "utf8_value (length xs) (map char_of xs @ rest) = v"
    using assms(1,3) utf8_value_cong [of "length xs" "map char_of xs @ rest" "map char_of xs"]
    by (simp add: char_at_def nth_append)
  then show ?thesis using len assms(1) by (cases xs) (simp_all add: utf8_to_unicode_def Let_def drop_Cons' split: option.splits)
qed

lemmas arith_masks = and_mask_nat and_63 push_bit_eq_mult

lemma utf8_value_arith:
  "utf8_value 1 s = (if byte s 0 \<ge> 128 then None else Some (byte s 0))"
  "utf8_value 2 s = (if \<not> continues s 1 then None
     else let u = byte s 0 mod 32 * 64 + byte s 1 mod 64 in if u < 128 then None else Some u)"
  "utf8_value 3 s = (if \<not> continues s 1 \<or> \<not> continues s 2 then None
     else let u = byte s 0 mod 16 * 4096 + byte s 1 mod 64 * 64 + byte s 2 mod 64
          in if u < 2048 \<or> is_utf16_surrogate u then None else Some u)"
  "utf8_value 4 s = (if \<not> continues s 1 \<or> \<not> continues s 2 \<or> \<not> continues s 3 then None
     else let u = byte s 0 mod 16 * 262144 + byte s 1 mod 64 * 4096 + byte s 2 mod 64 * 64 + byte s 3 mod 64
          in if u < 65536 then None else Some u)"
  "utf8_value 5 s = (if \<not> continues s 1 \<or> \<not> continues s 2 \<or> \<not> continues s 3 \<or> \<not> continues s 4 then None
     else let u = byte s 0 mod 16 * 16777216 + byte s 1 mod 64 * 262144 + byte s 2 mod 64 * 4096
            + byte s 3 mod 64 * 64 + byte s 4 mod 64
          in if u < 2097152 then None else Some u)"
  "utf8_value 6 s = (if \<not> continues s 1 \<or> \<not> continues s 2 \<or> \<not> continues s 3 \<or> \<not> continues s 4
       \<or> \<not> continues s 5 then None
     else let u = byte s 0 mod 2 * 1073741824 + byte s 1 mod 64 * 16777216 + byte s 2 mod 64 * 262144
            + byte s 3 mod 64 * 4096 + byte s 4 mod 64 * 64 + byte s 5 mod 64
          in if u < 67108864 then None else Some u)"
  unfolding utf8_value_def arith_masks by simp_all

lemma byte_bytes: "i < length xs \<Longrightarrow> \<forall>x \<in> set xs. x < 256 \<Longrightarrow> byte (map char_of xs) i = xs ! i"
  using byte_map_char [of i xs "[]"] by simp

lemma mod64_128: "(128 + x mod 64) mod 64 = x mod 64" for x :: nat
  using mod_mult_self3 [of 2 64 "x mod 64"] by simp

lemma utf8_value_bytes:
  assumes "codable u"
  shows "utf8_value (length (utf8_bytes u)) (map char_of (utf8_bytes u)) = Some u
    \<and> length (utf8_bytes u) = utf8charlen (char_of (hd (utf8_bytes u)))"
proof -
  have u: "0 < u" "u < 2147483648" "\<not> (0x200000 \<le> u \<and> u < 0x4000000)" "\<not> is_utf16_surrogate u"
    using assms by (simp_all add: codable_def)
  have r: "\<forall>x \<in> set (utf8_bytes u). x < 256" using utf8_bytes_range [OF u(1)] by blast
  consider "u < 128" | "128 \<le> u" "u < 2048" | "2048 \<le> u" "u < 65536" | "65536 \<le> u" "u < 2097152"
    | "67108864 \<le> u" using u(3) by linarith
  then show ?thesis
  proof cases
    case 1
    then have b: "utf8_bytes u = [u]" by (simp add: utf8_bytes_def)
    have "byte (map char_of [u]) 0 = u" using 1 by (simp add: char_at_def)
    then show ?thesis unfolding b using 1 by (simp add: utf8_value_arith(1) [unfolded One_nat_def] utf8charlen_eq)
  next
    case 2
    then have b: "utf8_bytes u = [192 + u div 64, 128 + u mod 64]" by (simp add: utf8_bytes_def)
    let ?s = "map char_of [192 + u div 64, 128 + u mod 64] :: string"
    have d: "u div 64 < 32" "2 \<le> u div 64" using 2 by linarith+
    have bs: "byte ?s 0 = 192 + u div 64" "byte ?s 1 = 128 + u mod 64"
      using byte_bytes [of _ "[192 + u div 64, 128 + u mod 64]"] r [unfolded b] by simp_all
    have "continues ?s 1" unfolding continues_iff bs by simp
    moreover have "(192 + u div 64) mod 32 = u div 64" using d by (simp add: mod_add_left_eq [symmetric])
    ultimately have "utf8_value 2 ?s = Some u"
      unfolding utf8_value_arith(2) bs mod64_128 using 2 split64(1) [of u] by (simp add: Let_def)
    then show ?thesis unfolding b using d by (simp add: utf8charlen_eq numeral_2_eq_2)
  next
    case 3
    let ?b = "[224 + u div 4096, 128 + u div 64 mod 64, 128 + u mod 64]"
    let ?s = "map char_of ?b :: string"
    have b: "utf8_bytes u = ?b" using 3 by (simp add: utf8_bytes_def)
    have d: "u div 4096 < 16" using 3 by linarith
    have bs: "byte ?s 0 = 224 + u div 4096" "byte ?s 1 = 128 + u div 64 mod 64" "byte ?s 2 = 128 + u mod 64"
      using byte_bytes [of _ ?b] r [unfolded b] by simp_all
    have "continues ?s 1" "continues ?s 2" unfolding continues_iff bs by simp_all
    moreover have "(224 + u div 4096) mod 16 = u div 4096" using d by (simp add: mod_add_left_eq [symmetric])
    ultimately have "utf8_value 3 ?s = Some u"
      unfolding utf8_value_arith(3) bs mod64_128 using 3 split64(2) [of u] u(4) by (simp add: Let_def)
    then show ?thesis unfolding b using d by (simp add: utf8charlen_eq numeral_3_eq_3)
  next
    case 4
    let ?b = "[240 + u div 262144, 128 + u div 4096 mod 64, 128 + u div 64 mod 64, 128 + u mod 64]"
    let ?s = "map char_of ?b :: string"
    have b: "utf8_bytes u = ?b" using 4 by (simp add: utf8_bytes_def)
    have d: "u div 262144 < 8" using 4 by linarith
    have bs: "byte ?s 0 = 240 + u div 262144" "byte ?s 1 = 128 + u div 4096 mod 64"
      "byte ?s 2 = 128 + u div 64 mod 64" "byte ?s 3 = 128 + u mod 64"
      using byte_bytes [of _ ?b] r [unfolded b] by simp_all
    have "continues ?s 1" "continues ?s 2" "continues ?s 3" unfolding continues_iff bs by simp_all
    moreover have "(240 + u div 262144) mod 16 = u div 262144" using d by (simp add: mod_add_left_eq [symmetric])
    ultimately have v: "utf8_value 4 ?s = Some u"
      unfolding utf8_value_arith(4) bs mod64_128 using 4 split64(3) [of u] by (simp add: Let_def)
    have l: "length ?b = 4" by simp
    show ?thesis unfolding b l using d v by (simp add: utf8charlen_eq)
  next
    case 5
    let ?b = "[252 + u div 1073741824 mod 2, 128 + u div 16777216 mod 64, 128 + u div 262144 mod 64,
         128 + u div 4096 mod 64, 128 + u div 64 mod 64, 128 + u mod 64]"
    let ?s = "map char_of ?b :: string"
    have b: "utf8_bytes u = ?b" using 5 by (simp add: utf8_bytes_def)
    have d: "u div 1073741824 < 2" using u(2) by linarith
    have bs: "byte ?s 0 = 252 + u div 1073741824 mod 2" "byte ?s 1 = 128 + u div 16777216 mod 64"
      "byte ?s 2 = 128 + u div 262144 mod 64" "byte ?s 3 = 128 + u div 4096 mod 64"
      "byte ?s 4 = 128 + u div 64 mod 64" "byte ?s 5 = 128 + u mod 64"
      using byte_bytes [of _ ?b] r [unfolded b] by simp_all
    have "continues ?s 1" "continues ?s 2" "continues ?s 3" "continues ?s 4" "continues ?s 5"
      unfolding continues_iff bs by simp_all
    moreover have "(252 + u div 1073741824 mod 2) mod 2 = u div 1073741824"
      using d by (simp add: mod_add_left_eq [symmetric])
    ultimately have v: "utf8_value 6 ?s = Some u"
      unfolding utf8_value_arith(6) bs mod64_128 using 5 split64(5) [of u] by (simp add: Let_def)
    have l: "length ?b = 6" by simp
    have "252 + u div 1073741824 mod 2 < 254" by simp
    then show ?thesis unfolding b l using v by (simp add: utf8charlen_eq)
  qed
qed

lemma decode_encode:
  assumes "codable u"
  shows "utf8_to_unicode (encode_utf8 u @ rest) = (u, rest)
    \<and> length (encode_utf8 u) = utf8charlen (deref (encode_utf8 u))"
proof -
  have u: "0 < u" using assms by (simp add: codable_def)
  have v: "utf8_value (length (utf8_bytes u)) (map char_of (utf8_bytes u)) = Some u"
    "length (utf8_bytes u) = utf8charlen (char_of (hd (utf8_bytes u)))"
    using utf8_value_bytes [OF assms] by blast+
  moreover have ne: "utf8_bytes u \<noteq> []" using v(2) by (metis list.size(3) less_irrefl utf8charlen_pos(1))
  ultimately have "utf8_to_unicode (map char_of (utf8_bytes u) @ rest) = (u, rest)"
    using utf8_to_unicode_append [OF ne v(2,1)] by simp
  moreover have "deref (map char_of (utf8_bytes u)) = char_of (hd (utf8_bytes u))"
    using ne by (cases "utf8_bytes u") (simp_all add: deref_def)
  ultimately show ?thesis using v(2) by (simp add: encode_utf8_bytes [OF u])
qed

text \<open>
  C16: UTF-8 round trip. Decoding the encoding of a character, whatever follows, gives the character
  and the rest; this holds for all characters below \<open>2 ^ 31\<close> except surrogates and those of the five
  byte form. The encoding has the length the table gives for its first byte.
\<close>

theorem utf8_round_trip:
  assumes "codable u"
  shows "utf8_to_unicode (encode_utf8 u @ rest) = (u, rest)
    \<and> length (encode_utf8 u) = utf8charlen (deref (encode_utf8 u))"
  using decode_encode [OF assms] .

theorem utf8_round_trip_witness:
  "utf8_to_unicode (encode_utf8 0x20AC @ ''x'') = (0x20AC, ''x'')"
proof -
  have "codable 0x20AC" by (simp add: codable_def is_utf16_surrogate_def)
  then show ?thesis using utf8_round_trip [of "0x20AC" "''x''"] by simp
qed

text \<open>The five byte form: the fourth bit of the first byte is taken for data.\<close>

lemma five_bytes_lost: "utf8_to_unicode (encode_utf8 0x200000) = (0x200000 + 0x8000000, [])"
proof -
  let ?b = "[248, 136, 128, 128, 128] :: nat list"
  have e: "encode_utf8 0x200000 = map char_of ?b" by (simp add: encode_utf8_bytes utf8_bytes_def)
  have "byte (map char_of ?b) i = ?b ! i" if "i < 5" for i using byte_bytes [of i ?b] that by simp
  from this [of 0] this [of 1] this [of 2] this [of 3] this [of 4]
  have "utf8_value 5 (map char_of ?b) = Some (0x200000 + 0x8000000)"
    unfolding utf8_value_arith(5) continues_iff by simp
  moreover have "length ?b = 5" by simp
  ultimately have v5: "utf8_value (length ?b) (map char_of ?b) = Some (0x200000 + 0x8000000)" by (simp only:)
  have "length ?b = utf8charlen (char_of (hd ?b))" by (simp add: utf8charlen_eq)
  then have "utf8_to_unicode (map char_of ?b @ []) = (0x200000 + 0x8000000, [])"
    using utf8_to_unicode_append [of ?b "Some (0x200000 + 0x8000000)" "[]"] v5 by (simp del: list.map)
  then show ?thesis by (simp only: e append_Nil2)
qed

subsection \<open>Only the shortest form is accepted\<close>

lemma digit64: "x < 64 \<Longrightarrow> (a * 64 + x) div 64 = a \<and> (a * 64 + x) mod 64 = x" for a x :: nat
  by simp

lemma digits3:
  fixes p q t :: nat
  assumes "u = p * 4096 + q * 64 + t" "q < 64" "t < 64"
  shows "u div 4096 = p \<and> u div 64 mod 64 = q \<and> u mod 64 = t"
proof -
  have u: "u = (p * 64 + q) * 64 + t" using assms(1) by simp
  have d: "u div 64 = p * 64 + q" "u mod 64 = t" using digit64 [OF assms(3), of "p * 64 + q"] u by simp_all
  have "u div 4096 = u div 64 div 64" by (simp add: div_mult2_eq [symmetric])
  then show ?thesis using digit64 [OF assms(2), of p] d by simp
qed

lemma digits4:
  fixes p q t :: nat
  assumes "u = p * 262144 + q * 4096 + t * 64 + x" "q < 64" "t < 64" "x < 64"
  shows "u div 262144 = p \<and> u div 4096 mod 64 = q \<and> u div 64 mod 64 = t \<and> u mod 64 = x"
proof -
  have 1: "u div 4096 = p * 64 + q \<and> u div 64 mod 64 = t \<and> u mod 64 = x"
    using assms(1,3,4) by (intro digits3) simp_all
  have "u div 262144 = u div 4096 div 64" by (simp add: div_mult2_eq [symmetric])
  then show ?thesis using 1 digit64 [OF assms(2), of p] by metis
qed

lemma digits6:
  fixes p q t :: nat
  assumes "u = p * 1073741824 + q * 16777216 + t * 262144 + x * 4096 + y * 64 + z" 
    "q < 64" "t < 64" "x < 64" "y < 64" "z < 64"
  shows "u div 1073741824 = p \<and> u div 16777216 mod 64 = q \<and> u div 262144 mod 64 = t
    \<and> u div 4096 mod 64 = x \<and> u div 64 mod 64 = y \<and> u mod 64 = z"
proof -
  let ?v = "p * 262144 + q * 4096 + t * 64 + x"
  let ?w = "p * 64 + q"
  have 1: "u div 4096 = ?v \<and> u div 64 mod 64 = y \<and> u mod 64 = z"
    using assms(1,5,6) by (intro digits3) simp_all
  have 2: "?v div 4096 = ?w \<and> ?v div 64 mod 64 = t \<and> ?v mod 64 = x"
    using assms(3,4) by (intro digits3) simp_all
  have 3: "?w div 64 = p \<and> ?w mod 64 = q" using assms(2) by (rule digit64)
  have 4: "u div 262144 = u div 4096 div 64" "u div 16777216 = u div 4096 div 4096"
    "u div 1073741824 = u div 4096 div 4096 div 64"
    by (simp_all add: div_mult2_eq [symmetric])
  show ?thesis using 1 2 3 unfolding 4 by metis
qed
lemma continuation_byte: "continues s i \<Longrightarrow> \<exists>q. q < 64 \<and> byte s i = 128 + q \<and> byte s i mod 64 = q"
proof -
  assume "continues s i"
  then have "byte s i = 128 + (byte s i - 128)" "byte s i - 128 < 64" by (auto simp: continues_iff)
  then show ?thesis using mod64_128 [of "byte s i - 128"] by (metis mod_less)
qed

lemma lead_byte: "a \<le> b \<Longrightarrow> b < a + m \<Longrightarrow> a mod m = 0 \<Longrightarrow> \<exists>p. p < m \<and> b = a + p \<and> b mod m = p" for a b m :: nat
proof -
  assume a: "a \<le> b" "b < a + m" "a mod m = 0"
  then have b: "b = a + (b - a)" "b - a < m" by simp_all
  have "(a + (b - a)) mod m = b - a" using a(3) b(2) by (metis add_0 mod_add_left_eq mod_less)
  then show ?thesis using b by metis
qed

lemma surrogate_iff: "u < 2 ^ 32 \<Longrightarrow> is_utf16_surrogate u \<longleftrightarrow> 0xD800 \<le> u \<and> u \<le> 0xDFFF"
proof -
  assume u: "u < 2 ^ 32"
  have "u AND 0xFFFFF800 = push_bit 11 (drop_bit 11 u AND 2097151)"
    using and_push_bit_nat [of u 11 2097151] by simp
  also have "\<dots> = u div 2048 mod 2097152 * 2048"
    using take_bit_eq_mask [of 21 "u div 2048"]
    by (simp add: take_bit_eq_mod mask_eq_exp_minus_1 push_bit_eq_mult drop_bit_eq_div)
  also have "u div 2048 mod 2097152 = u div 2048" using u by (intro mod_less, simp add: div_less_iff_less_mult)
  finally have "is_utf16_surrogate u \<longleftrightarrow> u div 2048 = 27" by (simp add: is_utf16_surrogate_def)
  then show ?thesis by linarith
qed

lemma utf8_bytes_of_value:
  assumes "len = utf8charlen (char_at s 0)" "len \<noteq> 5" "utf8_value len s = Some u"
  shows "utf8_bytes u = map (byte s) [0..<len] \<and> \<not> is_utf16_surrogate u"
proof -
  let ?b = "byte s"
  have b256: "?b i < 256" for i by simp
  have len: "len = (if ?b 0 < 192 then 1 else if ?b 0 < 224 then 2 else if ?b 0 < 240 then 3
     else if ?b 0 < 248 then 4 else if ?b 0 < 252 then 5 else if ?b 0 < 254 then 6 else 1)"
    using assms(1) utf8charlen_eq by simp
  consider "len = 1" | "len = 2" | "len = 3" | "len = 4" | "len = 6"
    using len assms(2) by (auto split: if_splits)
  then show ?thesis
  proof cases
    case 1
    then have "u = ?b 0" "u < 128" using assms(3) utf8_value_arith(1) [of s] by (auto split: if_splits)
    then show ?thesis using 1 by (simp add: utf8_bytes_def surrogate_iff)
  next
    case 2
    then have r: "192 \<le> ?b 0" "?b 0 < 224" using len by (auto split: if_splits)
    have v: "continues s 1"
      "u = ?b 0 mod 32 * 64 + ?b 1 mod 64"
      "128 \<le> u"
      using assms(3) 2 utf8_value_arith(2) [of s] by (auto simp: Let_def split: if_splits)
    obtain p where p: "p < 32" "?b 0 = 192 + p" "?b 0 mod 32 = p" using lead_byte [of 192 "?b 0" 32] r by auto
    obtain q where q: "q < 64" "?b 1 = 128 + q" "?b 1 mod 64 = q" using continuation_byte [OF v(1)] by blast
    have e: "u = p * 64 + q" using v(2) unfolding p(3) q(3) by simp
    have d: "u div 64 = p" "u mod 64 = q" using digit64 [OF q(1), of p] e by simp_all
    have "u < 2048" using e p(1) q(1) p(2) r(2) by linarith
    then have "utf8_bytes u = [192 + p, 128 + q]" using v(3) d by (simp add: utf8_bytes_def)
    moreover have "map ?b [0..<len] = [?b 0, ?b 1]" using 2 by (simp add: upt_rec eval_nat_numeral)
    ultimately show ?thesis using v(3) \<open>u < 2048\<close> p(2) q(2) by (simp add: surrogate_iff)
  next
    case 3
    then have r: "224 \<le> ?b 0" "?b 0 < 240" using len by (auto split: if_splits)
    have v: "continues s 1" "continues s 2"
      "u = ?b 0 mod 16 * 4096 + ?b 1 mod 64 * 64 + ?b 2 mod 64"
      "2048 \<le> u" "\<not> is_utf16_surrogate u"
      using assms(3) 3 utf8_value_arith(3) [of s] by (auto simp: Let_def split: if_splits)
    obtain p where p: "p < 16" "?b 0 = 224 + p" "?b 0 mod 16 = p" using lead_byte [of 224 "?b 0" 16] r by auto
    obtain q where q: "q < 64" "?b 1 = 128 + q" "?b 1 mod 64 = q" using continuation_byte [OF v(1)] by blast
    obtain t where t: "t < 64" "?b 2 = 128 + t" "?b 2 mod 64 = t" using continuation_byte [OF v(2)] by blast
    have e: "u = p * 4096 + q * 64 + t" using v(3) unfolding p(3) q(3) t(3) by simp
    note d = digits3 [OF e q(1) t(1)]
    have "u < 65536" using e p(1) q(1) t(1) p(2) r(2) by linarith
    then have "utf8_bytes u = [224 + p, 128 + q, 128 + t]" using v(4) d by (simp add: utf8_bytes_def)
    moreover have "map ?b [0..<len] = [?b 0, ?b 1, ?b 2]" using 3 by (simp add: upt_rec eval_nat_numeral)
    ultimately show ?thesis using v(5) \<open>u < 65536\<close> p(2) q(2) t(2) by (simp add: surrogate_iff)
  next
    case 4
    then have r: "240 \<le> ?b 0" "?b 0 < 248" using len by (auto split: if_splits)
    have v: "continues s 1" "continues s 2" "continues s 3"
      "u = ?b 0 mod 16 * 262144 + ?b 1 mod 64 * 4096 + ?b 2 mod 64 * 64 + ?b 3 mod 64"
      "65536 \<le> u"
      using assms(3) 4 utf8_value_arith(4) [of s] by (auto simp: Let_def split: if_splits)
    obtain p where p: "p < 16" "?b 0 = 240 + p" "?b 0 mod 16 = p" using lead_byte [of 240 "?b 0" 16] r by auto
    obtain q where q: "q < 64" "?b 1 = 128 + q" "?b 1 mod 64 = q" using continuation_byte [OF v(1)] by blast
    obtain t where t: "t < 64" "?b 2 = 128 + t" "?b 2 mod 64 = t" using continuation_byte [OF v(2)] by blast
    obtain x where x: "x < 64" "?b 3 = 128 + x" "?b 3 mod 64 = x" using continuation_byte [OF v(3)] by blast
    have e: "u = p * 262144 + q * 4096 + t * 64 + x" using v(4) unfolding p(3) q(3) t(3) x(3) by simp
    have d: "u div 262144 = p \<and> u div 4096 mod 64 = q \<and> u div 64 mod 64 = t \<and> u mod 64 = x"
      using digits4 [OF e q(1) t(1) x(1)] .
    have "u < 2097152" using e p(1) q(1) t(1) x(1) p(2) r(2) by linarith
    then have "utf8_bytes u = [240 + p, 128 + q, 128 + t, 128 + x]" using v(5) d by (simp add: utf8_bytes_def)
    moreover have "map ?b [0..<len] = [?b 0, ?b 1, ?b 2, ?b 3]" using 4 by (simp add: upt_rec eval_nat_numeral)
    ultimately show ?thesis using v(5) \<open>u < 2097152\<close> p(2) q(2) t(2) x(2) by (simp add: surrogate_iff)
  next
    case 5
    then have r: "252 \<le> ?b 0" "?b 0 < 254" using len by (auto split: if_splits)
    have v: "continues s 1" "continues s 2" "continues s 3" "continues s 4" "continues s 5"
      "u = ?b 0 mod 2 * 1073741824 + ?b 1 mod 64 * 16777216 + ?b 2 mod 64 * 262144 + ?b 3 mod 64 * 4096 + ?b 4 mod 64 * 64 + ?b 5 mod 64"
      "67108864 \<le> u"
      using assms(3) 5 utf8_value_arith(6) [of s] by (auto simp: Let_def split: if_splits)
    obtain p where p: "p < 2" "?b 0 = 252 + p" "?b 0 mod 2 = p" using lead_byte [of 252 "?b 0" 2] r by auto
    obtain q where q: "q < 64" "?b 1 = 128 + q" "?b 1 mod 64 = q" using continuation_byte [OF v(1)] by blast
    obtain t where t: "t < 64" "?b 2 = 128 + t" "?b 2 mod 64 = t" using continuation_byte [OF v(2)] by blast
    obtain x where x: "x < 64" "?b 3 = 128 + x" "?b 3 mod 64 = x" using continuation_byte [OF v(3)] by blast
    obtain y where y: "y < 64" "?b 4 = 128 + y" "?b 4 mod 64 = y" using continuation_byte [OF v(4)] by blast
    obtain z where z: "z < 64" "?b 5 = 128 + z" "?b 5 mod 64 = z" using continuation_byte [OF v(5)] by blast
    have e: "u = p * 1073741824 + q * 16777216 + t * 262144 + x * 4096 + y * 64 + z" using v(6) unfolding p(3) q(3) t(3) x(3) y(3) z(3) by simp
    note d = digits6 [OF e q(1) t(1) x(1) y(1) z(1)]
    have pm: "p mod 2 = p" using p(1) by simp
    have "u < 4294967296" using e p(1) q(1) t(1) x(1) y(1) z(1) p(2) r(2) by linarith
    then have "utf8_bytes u = [252 + p, 128 + q, 128 + t, 128 + x, 128 + y, 128 + z]" using v(7) d pm by (simp add: utf8_bytes_def)
    moreover have "map ?b [0..<len] = [?b 0, ?b 1, ?b 2, ?b 3, ?b 4, ?b 5]" using 5 by (simp add: upt_rec eval_nat_numeral)
    ultimately show ?thesis using v(7) \<open>u < 4294967296\<close> p(2) q(2) t(2) x(2) y(2) z(2) by (simp add: surrogate_iff)
  qed
qed

lemma utf8_five_bytes:
  assumes "utf8charlen (deref s) = 5" "utf8_value 5 s = Some u"
  shows "0x8000000 \<le> u" "u < 2 ^ 32"
proof -
  have m: "byte s 0 mod 16 < 16" "byte s 1 mod 64 < 64" "byte s 2 mod 64 < 64" "byte s 3 mod 64 < 64" "byte s 4 mod 64 < 64"
    by simp_all
  have "u = byte s 0 mod 16 * 16777216 + byte s 1 mod 64 * 262144 + byte s 2 mod 64 * 4096
            + byte s 3 mod 64 * 64 + byte s 4 mod 64"
    using assms(2) unfolding utf8_value_arith(5) by (auto simp: Let_def split: if_splits)
  moreover have "(2 :: nat) ^ 32 = 4294967296" by simp
  ultimately show "u < 2 ^ 32" using m by linarith
  have "deref s = char_at s 0" by (cases s) (simp_all add: deref_def char_at_def)
  then have "byte s 0 \<in> {248..<252}" using assms(1) utf8charlen_eq [of "char_at s 0"] by (auto split: if_splits)
  then have "8 \<le> byte s 0 mod 16" by (auto simp: atLeastLessThan_iff) presburger
  then show "0x8000000 \<le> u" using assms(2) unfolding utf8_value_arith(5) by (auto simp: Let_def split: if_splits)
qed

text \<open>
  C17: \<open>utf8_to_unicode\<close> accepts only the shortest form of a character. Whatever it returns, other
  than its two error values, is no half of a surrogate pair, and the bytes it has read are the
  encoding of it by \<open>encode_utf8\<close> (or the NUL byte), so overlong forms, stray continuation bytes
  and encoded surrogates never get through as a character. The exception are the sequences of
  five bytes: they give a number from \<open>0x8000000\<close> on, which is no Unicode character.
\<close>

theorem utf8_decode_sound:
  assumes "utf8_to_unicode s = (u, rest)" "u \<noteq> UCS_NO_CHAR" "u \<noteq> UCS_REPLACEMENT_CHARACTER"
  shows "\<not> is_utf16_surrogate u
    \<and> (if utf8charlen (deref s) = 5 then 0x8000000 \<le> u \<and> rest = drop 5 s
       else if u = 0 then s = NUL # rest
       else s = encode_utf8 u @ rest)"
proof -
  let ?l = "utf8charlen (deref s)"
  have v: "?l \<le> length s" "utf8_value ?l s = Some u" "rest = drop ?l s"
    using assms(1-3) by (auto simp: utf8_to_unicode_def Let_def split: if_splits option.splits)
  show ?thesis
  proof (cases "?l = 5")
    case True
    then show ?thesis using utf8_five_bytes [OF True] v(2,3) by (simp add: surrogate_iff)
  next
    case False
    have b: "utf8_bytes u = map (byte s) [0..<?l]" "\<not> is_utf16_surrogate u"
      using utf8_bytes_of_value [of ?l s u] False v(2) by simp_all
    have s: "map char_of (map (byte s) [0..<?l]) = take ?l s"
      using v(1) by (intro nth_equalityI) (simp_all add: char_at_def)
    show ?thesis
    proof (cases "u = 0")
      case True
      have "map (byte s) [0..<?l] = [0]" using b(1) unfolding True by (simp add: utf8_bytes_def)
      then have "map char_of [0 :: nat] = take ?l s" using s by (simp only:)
      moreover have "char_of (0 :: nat) = NUL" by (simp add: char_of_def)
      ultimately have "take ?l s = [NUL]" by simp
      then have "s = NUL # rest" using v(3) append_take_drop_id [of ?l s] by simp
      then show ?thesis using True b(2) False by simp
    next
      case nz: False
      then have "encode_utf8 u = take ?l s" using encode_utf8_bytes [of u] b(1) s by simp
      then show ?thesis using b(2) v(3) nz False by simp
    qed
  qed
qed

theorem utf8_decode_sound_witness:
  "utf8_to_unicode (encode_utf8 0x20AC @ ''x'') = (0x20AC, ''x'') \<and> \<not> is_utf16_surrogate 0x20AC"
proof -
  have c: "codable 0x20AC" by (simp add: codable_def is_utf16_surrogate_def)
  then have "utf8_to_unicode (encode_utf8 0x20AC @ ''x'') = (0x20AC, ''x'')" using decode_encode by blast
  moreover have "deref (encode_utf8 0x20AC @ ''x'') = char_of (226 :: nat)"
    by (simp add: encode_utf8_bytes utf8_bytes_def deref_def)
  ultimately show ?thesis
    using utf8_decode_sound [of "encode_utf8 0x20AC @ ''x''" "0x20AC" "''x''"] by (simp add: utf8charlen_eq)
qed

end
