(* ===== verification/Utf8_Steps.thy ===== *)
theory Utf8_Steps
  imports Utf8_Codec
begin

text \<open>
  Counting and moving in text that \<open>encode_utf8\<close> wrote: the bytes of every character are one lead
  byte and bytes that are none, as many as the lead byte announces, so the operations that look at
  single bytes move by whole characters.
\<close>

definition utf8_text :: "nat list \<Rightarrow> string" where
  "utf8_text us = concat (map encode_utf8 us)"

text \<open>The bytes of one character: a lead byte and bytes that are none.\<close>

definition utf8_chunk :: "string \<Rightarrow> bool" where
  "utf8_chunk c \<longleftrightarrow> c \<noteq> [] \<and> utf8_islead (hd c) \<and> (\<forall>x \<in> set (tl c). \<not> utf8_islead x)"

lemma utf8_text_Nil [simp]: "utf8_text [] = []" by (simp add: utf8_text_def)

lemma utf8_text_Cons [simp]: "utf8_text (u # us) = encode_utf8 u @ utf8_text us" by (simp add: utf8_text_def)

lemma utf8_text_append [simp]: "utf8_text (us @ vs) = utf8_text us @ utf8_text vs" by (simp add: utf8_text_def)

lemma utf8_bytes_lead:
  "0 < u \<Longrightarrow> utf8_bytes u \<noteq> [] \<and> (hd (utf8_bytes u) < 128 \<or> 192 \<le> hd (utf8_bytes u))
     \<and> (\<forall>x \<in> set (tl (utf8_bytes u)). 128 \<le> x \<and> x < 192)"
  by (auto simp: utf8_bytes_def)

lemma chunk_encode [simp]: "codable u \<Longrightarrow> utf8_chunk (encode_utf8 u)"
proof -
  assume "codable u"
  then have u: "0 < u" by (simp add: codable_def)
  have l: "utf8_islead (char_of x) \<longleftrightarrow> x < 128 \<or> 192 \<le> x" if "x \<in> set (utf8_bytes u)" for x
    using utf8_bytes_range [OF u that] islead_iff [of "char_of x"] by simp
  note b = utf8_bytes_lead [OF u]
  have "hd (utf8_bytes u) \<in> set (utf8_bytes u)" "set (tl (utf8_bytes u)) \<subseteq> set (utf8_bytes u)"
    using b by (auto dest: list.set_sel(2))
  then show "utf8_chunk (encode_utf8 u)"
    using b l unfolding encode_utf8_bytes [OF u] utf8_chunk_def
    by (fastforce simp: hd_map map_tl [symmetric])
qed

lemma chunk_pos: "utf8_chunk c \<Longrightarrow> 0 < length c"
  by (simp add: utf8_chunk_def)

lemma islead_NUL [simp]: "utf8_islead NUL"
  by (simp add: utf8_islead_def utf8_issingle_def)

lemma text_lead: "\<forall>u \<in> set us. codable u \<Longrightarrow> utf8_islead (char_at (utf8_text us) 0)"
proof (cases us)
  case (Cons u vs)
  moreover assume "\<forall>u \<in> set us. codable u"
  ultimately have "utf8_chunk (encode_utf8 u)" by simp
  then show ?thesis using Cons by (auto simp: utf8_chunk_def deref_def char_at_def neq_Nil_conv)
qed (simp add: char_at_def deref_def)

subsection \<open>Moving over one character\<close>

declare step_forward_chars.simps [simp del] step_backward_chars.simps [simp del]

lemma char_at_split: "char_at (xs @ ys) (length xs) = char_at ys 0"
  by (simp add: char_at_def nth_append)

lemma step_forward_chunk:
  assumes "\<forall>x \<in> set ys. \<not> utf8_islead x" "utf8_islead (char_at post 0)" "steps < limit"
  shows "step_forward_chars (pre @ y # ys @ post) (length (pre @ y # ys @ post)) limit steps (length pre)
    = step_forward_chars (pre @ y # ys @ post) (length (pre @ y # ys @ post)) limit (steps + 1)
        (length (pre @ y # ys))"
  using assms
proof (induction ys arbitrary: pre y)
  case Nil
  have "char_at (pre @ y # post) (Suc (length pre)) = char_at post 0"
    using char_at_split [of "pre @ [y]" post] by simp
  then show ?case using Nil by (subst step_forward_chars.simps) simp
next
  case (Cons z ys)
  have "char_at (pre @ y # z # ys @ post) (Suc (length pre)) = z"
    using char_at_split [of "pre @ [y]" "z # ys @ post"] by (simp add: char_at_def)
  then have "step_forward_chars (pre @ y # (z # ys) @ post) (length (pre @ y # (z # ys) @ post)) limit steps (length pre)
     = step_forward_chars ((pre @ [y]) @ z # ys @ post) (length ((pre @ [y]) @ z # ys @ post)) limit steps (length (pre @ [y]))"
    using Cons.prems by (subst step_forward_chars.simps) simp
  also have "\<dots> = step_forward_chars ((pre @ [y]) @ z # ys @ post) (length ((pre @ [y]) @ z # ys @ post)) limit
      (steps + 1) (length ((pre @ [y]) @ z # ys))"
    using Cons.prems by (intro Cons.IH) simp_all
  finally show ?case by simp
qed

lemma step_backward_chunk:
  assumes "utf8_islead y" "\<forall>x \<in> set ys. \<not> utf8_islead x" "steps < limit"
  shows "step_backward_chars (pre @ y # ys @ post) 0 limit steps (length (pre @ y # ys))
    = step_backward_chars (pre @ y # ys @ post) 0 limit (steps + 1) (length pre)"
  using assms
proof (induction ys arbitrary: post rule: rev_induct)
  case Nil
  have "char_at (pre @ y # post) (length pre) = y" by (simp add: char_at_def)
  then show ?case using Nil by (subst step_backward_chars.simps) simp
next
  case (snoc z ys)
  have "char_at (pre @ y # ys @ z # post) (Suc (length pre + length ys)) = z"
    using char_at_split [of "pre @ y # ys" "z # post"] by (simp add: char_at_def)
  then have "step_backward_chars (pre @ y # (ys @ [z]) @ post) 0 limit steps (length (pre @ y # ys @ [z]))
     = step_backward_chars (pre @ y # ys @ z # post) 0 limit steps (length (pre @ y # ys))"
    using snoc.prems by (subst step_backward_chars.simps) simp
  also have "\<dots> = step_backward_chars (pre @ y # ys @ z # post) 0 limit (steps + 1) (length pre)"
    using snoc.prems by (intro snoc.IH) simp_all
  finally show ?case by simp
qed

subsection \<open>Moving over text\<close>

lemma step_forward_text:
  assumes "\<forall>u \<in> set vs. codable u"
  shows "step_forward_chars (pre @ utf8_text vs) (length (pre @ utf8_text vs)) limit steps (length pre)
    = (length (pre @ utf8_text (take (limit - steps) vs)), steps + min (limit - steps) (length vs))"
  using assms
proof (induction vs arbitrary: pre steps)
  case Nil
  show ?case by (subst step_forward_chars.simps) simp
next
  case (Cons u vs)
  show ?case
  proof (cases "steps < limit")
    case False
    then show ?thesis by (subst step_forward_chars.simps) simp
  next
    case True
    have c: "utf8_chunk (encode_utf8 u)" using Cons.prems by simp
    then obtain y ys where e: "encode_utf8 u = y # ys" by (cases "encode_utf8 u") (auto simp: utf8_chunk_def)
    have tail: "\<forall>x \<in> set ys. \<not> utf8_islead x" using c e by (simp add: utf8_chunk_def)
    have lead: "utf8_islead (char_at (utf8_text vs) 0)" using Cons.prems by (intro text_lead) simp
    have n: "limit - steps = Suc (limit - (steps + 1))" using True by simp
    have "step_forward_chars (pre @ utf8_text (u # vs)) (length (pre @ utf8_text (u # vs))) limit steps (length pre)
      = step_forward_chars ((pre @ encode_utf8 u) @ utf8_text vs) (length ((pre @ encode_utf8 u) @ utf8_text vs))
          limit (steps + 1) (length (pre @ encode_utf8 u))"
      using step_forward_chunk [OF tail lead True, of pre y] e by simp
    also have "\<dots> = (length ((pre @ encode_utf8 u) @ utf8_text (take (limit - (steps + 1)) vs)),
        (steps + 1) + min (limit - (steps + 1)) (length vs))"
      using Cons.prems by (intro Cons.IH) simp
    finally show ?thesis using n by simp
  qed
qed

lemma step_backward_text:
  assumes "\<forall>u \<in> set vs. codable u"
  shows "step_backward_chars (utf8_text vs @ post) 0 limit steps (length (utf8_text vs))
    = (length (utf8_text (take (length vs - (limit - steps)) vs)), steps + min (limit - steps) (length vs))"
  using assms
proof (induction vs arbitrary: post steps rule: rev_induct)
  case Nil
  show ?case by (subst step_backward_chars.simps) simp
next
  case (snoc u vs)
  show ?case
  proof (cases "steps < limit")
    case False
    then show ?thesis by (subst step_backward_chars.simps) simp
  next
    case True
    have c: "utf8_chunk (encode_utf8 u)" using snoc.prems by simp
    then obtain y ys where e: "encode_utf8 u = y # ys" by (cases "encode_utf8 u") (auto simp: utf8_chunk_def)
    have lead: "utf8_islead y" "\<forall>x \<in> set ys. \<not> utf8_islead x" using c e by (simp_all add: utf8_chunk_def)
    have n: "limit - steps = Suc (limit - (steps + 1))" using True by simp
    have "step_backward_chars (utf8_text (vs @ [u]) @ post) 0 limit steps (length (utf8_text (vs @ [u])))
      = step_backward_chars (utf8_text vs @ (encode_utf8 u @ post)) 0 limit (steps + 1) (length (utf8_text vs))"
      using step_backward_chunk [OF lead True, of "utf8_text vs" post] e by simp
    also have "\<dots> = (length (utf8_text (take (length vs - (limit - (steps + 1))) vs)),
        (steps + 1) + min (limit - (steps + 1)) (length vs))"
      using snoc.prems by (intro snoc.IH) simp
    finally show ?thesis using n by simp
  qed
qed

lemma decode_chunk:
  assumes "codable u"
  shows "utf8charlen (deref (encode_utf8 u @ rest)) = length (encode_utf8 u)"
    "utf8_char2cells (encode_utf8 u @ rest) = unicode_to_cell u"
proof -
  note d = decode_encode [OF assms, of rest]
  have "encode_utf8 u \<noteq> []" using chunk_pos [OF chunk_encode [OF assms]] by auto
  then have "deref (encode_utf8 u @ rest) = deref (encode_utf8 u)" by (auto simp: deref_def neq_Nil_conv)
  then show "utf8charlen (deref (encode_utf8 u @ rest)) = length (encode_utf8 u)" using d by simp
  show "utf8_char2cells (encode_utf8 u @ rest) = unicode_to_cell u" using d by (simp add: utf8_char2cells_def)
qed

lemma strlen_utf8_text:
  "\<forall>u \<in> set us. codable u \<Longrightarrow> strlen_utf8 x (utf8_text us) = (x + length us, [])"
proof (induction us arbitrary: x)
  case Nil
  show ?case using utf8charlen_pos(1) by (subst strlen_utf8.simps) (simp add: Let_def)
next
  case (Cons u us)
  then show ?case using decode_chunk(1) [of u] by (subst strlen_utf8.simps) (simp add: Let_def)
qed


lemma utf8_ptr2cells_text:
  "\<forall>u \<in> set us. codable u \<Longrightarrow> utf8_ptr2cells n (utf8_text us) = n + sum_list (map unicode_to_cell us)"
proof (induction us arbitrary: n)
  case Nil
  show ?case using utf8charlen_pos(1) by (subst utf8_ptr2cells.simps) (simp add: Let_def)
next
  case (Cons u us)
  have "0 \<le> unicode_to_cell u" using unicode_to_cell_range by blast
  then show ?case
    using Cons decode_chunk [of u] by (subst utf8_ptr2cells.simps) (simp add: Let_def)
qed

lemma utf8_cells2bytes_text:
  assumes "\<forall>u \<in> set us. codable u" "n \<le> m"
  shows "\<exists>k \<le> length us. utf8_cells2bytes_loop (pre @ utf8_text us) m (length pre) n
        = int (length (pre @ utf8_text (take k us)))
      \<and> n + sum_list (map unicode_to_cell (take k us)) \<le> m
      \<and> (k < length us \<longrightarrow> m < n + sum_list (map unicode_to_cell (take (k + 1) us)))"
  using assms
proof (induction us arbitrary: pre n)
  case Nil
  have "0 \<le> utf8_char2cells []" using unicode_to_cell_range by (simp add: utf8_char2cells_def)
  then show ?case using Nil utf8charlen_pos(1) [of "deref []"]
    by (subst utf8_cells2bytes_loop.simps) (simp add: Let_def)
next
  case (Cons u us)
  let ?s = "pre @ utf8_text (u # us)"
  have w: "0 \<le> unicode_to_cell u" using unicode_to_cell_range by blast
  have d: "utf8_char2cells (drop (length pre) ?s) = unicode_to_cell u"
    "utf8charlen (deref (drop (length pre) ?s)) = length (encode_utf8 u)"
    using decode_chunk [of u "utf8_text us"] Cons.prems by simp_all
  show ?case
  proof (cases "n + unicode_to_cell u > m")
    case True
    then have "utf8_cells2bytes_loop ?s m (length pre) n = int (length pre)"
      using w d(1) by (subst utf8_cells2bytes_loop.simps) (simp add: Let_def)
    then show ?thesis using True Cons.prems(2) by (intro exI [of _ 0]) simp
  next
    case False
    have "utf8_cells2bytes_loop ?s m (length pre) n
      = utf8_cells2bytes_loop ((pre @ encode_utf8 u) @ utf8_text us) m (length (pre @ encode_utf8 u)) (n + unicode_to_cell u)"
      using False w d by (subst utf8_cells2bytes_loop.simps) (simp add: Let_def)
    moreover obtain k where k: "k \<le> length us"
      "utf8_cells2bytes_loop ((pre @ encode_utf8 u) @ utf8_text us) m (length (pre @ encode_utf8 u)) (n + unicode_to_cell u)
        = int (length ((pre @ encode_utf8 u) @ utf8_text (take k us)))"
      "n + unicode_to_cell u + sum_list (map unicode_to_cell (take k us)) \<le> m"
      "k < length us \<longrightarrow> m < n + unicode_to_cell u + sum_list (map unicode_to_cell (take (k + 1) us))"
      using Cons.IH [of "n + unicode_to_cell u" "pre @ encode_utf8 u"] Cons.prems(1) False by auto
    ultimately show ?thesis by (intro exI [of _ "Suc k"]) (simp add: add.assoc)
  qed
qed

subsection \<open>Properties\<close>

text \<open>
  C18: in text written by \<open>encode_utf8\<close>, \<open>utf8_ptr2chars\<close> counts the characters, and from the
  boundary after \<open>i\<close> characters \<open>utf8_step_forward\<close> and \<open>utf8_step_backward\<close> move by \<open>n\<close> whole
  characters, or by as many as there are, and report how many: they never stop inside a character.
\<close>

theorem utf8_steps_by_characters:
  assumes "\<forall>u \<in> set us. codable u" "i \<le> length us"
  shows "utf8_ptr2chars (utf8_text us) = length us
    \<and> utf8_step_forward (utf8_text us) (length (utf8_text (take i us))) (length (utf8_text us)) n UTF8_STEP_CHARACTERS
        = (length (utf8_text (take (i + n) us)), int (min n (length us - i)))
    \<and> utf8_step_backward (utf8_text us) (length (utf8_text (take i us))) 0 n UTF8_STEP_CHARACTERS
        = (length (utf8_text (take (i - n) us)), int (min n i))"
proof -
  have s: "utf8_text us = utf8_text (take i us) @ utf8_text (drop i us)"
    by (metis append_take_drop_id utf8_text_append)
  have c: "\<forall>u \<in> set (take i us). codable u" "\<forall>u \<in> set (drop i us). codable u"
    using assms(1) by (auto dest: in_set_takeD in_set_dropD)
  have f: "step_forward_chars (utf8_text us) (length (utf8_text us)) n 0 (length (utf8_text (take i us)))
    = (length (utf8_text (take (i + n) us)), min n (length us - i))"
    using step_forward_text [OF c(2), of "utf8_text (take i us)" n 0] s by (simp add: take_add)
  have b: "step_backward_chars (utf8_text us) 0 n 0 (length (utf8_text (take i us)))
    = (length (utf8_text (take (i - n) us)), min n i)"
    using step_backward_text [OF c(1), of "utf8_text (drop i us)" n 0] s assms(2) by (simp add: min_def)
  show ?thesis
    using f b strlen_utf8_text [OF assms(1), of 0]
    by (simp add: utf8_step_forward_def utf8_step_backward_def utf8_ptr2chars_def)
qed

theorem utf8_steps_by_characters_witness:
  "utf8_ptr2chars (utf8_text [0x20AC, 0x41]) = 2
    \<and> utf8_step_forward (utf8_text [0x20AC, 0x41]) (length (utf8_text (take 0 [0x20AC, 0x41])))
        (length (utf8_text [0x20AC, 0x41])) 1 UTF8_STEP_CHARACTERS = (length (utf8_text [0x20AC]), 1)"
proof -
  have "\<forall>u \<in> set [0x20AC, 0x41]. codable u" by (simp add: codable_def is_utf16_surrogate_def)
  from utf8_steps_by_characters [OF this, of 0 1] show ?thesis by simp
qed

text \<open>
  C19: in text written by \<open>encode_utf8\<close>, \<open>utf8_ptr2cells\<close> is the sum of the widths of the characters,
  and \<open>utf8_cells2bytes\<close> cuts at the end of a character: what it keeps fits into the cells, and the
  next character would not.
\<close>

theorem utf8_cells_of_text:
  assumes "\<forall>u \<in> set us. codable u" "0 \<le> m"
  shows "utf8_ptr2cells 0 (utf8_text us) = sum_list (map unicode_to_cell us)
    \<and> (\<exists>k \<le> length us. utf8_cells2bytes (utf8_text us) m = int (length (utf8_text (take k us)))
        \<and> utf8_ptr2cells 0 (utf8_text (take k us)) \<le> m
        \<and> (k < length us \<longrightarrow> m < utf8_ptr2cells 0 (utf8_text (take (k + 1) us))))"
proof -
  have "\<forall>u \<in> set (take k us). codable u" for k using assms(1) by (auto dest: in_set_takeD)
  then have t: "utf8_ptr2cells 0 (utf8_text (take k us)) = sum_list (map unicode_to_cell (take k us))" for k
    using utf8_ptr2cells_text [of "take k us" 0] by simp
  show ?thesis
    using utf8_cells2bytes_text [OF assms, of "[]"] utf8_ptr2cells_text [OF assms(1), of 0]
    by (auto simp: t utf8_cells2bytes_def)
qed

theorem utf8_cells_of_text_witness:
  "utf8_ptr2cells 0 (utf8_text [0x1100, 0x41]) = unicode_to_cell 0x1100 + unicode_to_cell 0x41"
proof -
  have "\<forall>u \<in> set [0x1100, 0x41]. codable u" by (simp add: codable_def is_utf16_surrogate_def)
  from utf8_cells_of_text [OF this, of 1] show ?thesis by simp
qed

end
