(* ===== verification/Decimal.thy ===== *)
theory Decimal
  imports Util_String
begin

text \<open>
  Decimal numbers as the C library writes and reads them: \<open>%ld\<close> of \<open>printf\<close> and \<open>atol\<close>, with the
  lemmas that reading inverts writing. Several text formats of the program share them.
\<close>

definition digit :: "char \<Rightarrow> int" where
  "digit c = int (uchar c) - 48"

function decimal :: "nat \<Rightarrow> string" where
  "decimal n = (if n < 10 then [] else decimal (n div 10)) @ [char_of (48 + n mod 10)]"
  by pat_completeness auto
termination by (relation "measure id") auto

declare decimal.simps [simp del]

definition print_long :: "int \<Rightarrow> string" where
  "print_long n = (if n < 0 then CHR ''-'' # decimal (nat (- n)) else decimal (nat n))"

definition digits_val :: "string \<Rightarrow> int" where
  "digits_val s = foldl (\<lambda>n c. n * 10 + digit c) 0 (takeWhile isdigit s)"

definition atol :: "string \<Rightarrow> int" where
  "atol s =
     (let s = skip_space s
      in if deref s = CHR ''-'' then - digits_val (tl s)
         else if deref s = CHR ''+'' then digits_val (tl s)
         else digits_val s)"

lemma decimal_digits: "\<forall>c \<in> set (decimal n). isdigit c"
proof (induction n rule: decimal.induct)
  case (1 n)
  then show ?case by (subst decimal.simps) (auto simp: isdigit_def)
qed

lemma decimal_not_Nil [simp]: "decimal n \<noteq> []"
  by (subst decimal.simps) simp

lemma digit_of: "n < 10 \<Longrightarrow> digit (char_of (48 + n)) = int n" for n :: nat
  by (simp add: digit_def)

lemma foldl_decimal: "foldl (\<lambda>n c. n * 10 + digit c) 0 (decimal n) = int n"
proof (induction n rule: decimal.induct)
  case (1 n)
  have "int n = int (n div 10) * 10 + int (n mod 10)" by presburger
  then show ?case using 1 digit_of [of "n mod 10"] by (subst decimal.simps) simp
qed

lemma digits_val_decimal: "\<not> isdigit c \<Longrightarrow> digits_val (decimal n @ c # s) = int n"
  using decimal_digits [of n] foldl_decimal [of n]
  by (simp add: digits_val_def takeWhile_append takeWhile_eq_all_conv)

lemma decimal_head: "isdigit (hd (decimal n))"
  using decimal_digits [of n] by simp

lemma atol_print_long:
  assumes "0 \<le> e" "\<not> isdigit c"
  shows "atol (print_long e @ c # s) = e"
proof -
  obtain d ds where d: "decimal (nat e) = d # ds" "isdigit d"
    using decimal_head [of "nat e"] by (cases "decimal (nat e)") auto
  then have "\<not> elinks_isspace d" "d \<noteq> CHR ''-''" "d \<noteq> CHR ''+''"
    by (auto simp: isdigit_def elinks_isspace_def)
  then show ?thesis
    using digits_val_decimal [of c "nat e" s] assms d(1)
    by (simp add: atol_def print_long_def skip_space_def)
qed

end
