(* ===== verification/Date.thy ===== *)
theory Date
  imports Decimal "HOL-Library.Signed_Division"
begin

text \<open>
  \<open>src/protocol/date.c\<close> and \<open>month2num\<close> of \<open>src/util/conv.c\<close>: the parser of HTTP dates and the
  conversion of a broken-down time to seconds. A cursor is a pointer into a string, as the suffix
  it points to, with the distance to the pointer \<open>end\<close>, or none when \<open>end\<close> is \<open>NULL\<close>. The
  arithmetic of \<open>my_timegm\<close> is in \<open>int\<close>, of 32 bits: \<open>None\<close> stands for an overflow, which C leaves
  undefined. \<open>parse_date\<close> returns 0 when it cannot read a date, as the code does.
\<close>

record tm =
  tm_sec :: int
  tm_min :: int
  tm_hour :: int
  tm_mday :: int
  tm_mon :: int
  tm_year :: int

type_synonym cursor = "string \<times> int option"

definition advance :: "nat \<Rightarrow> cursor \<Rightarrow> cursor" where
  "advance k c = (drop k (fst c), map_option (\<lambda>n. n - int k) (snd c))"

text \<open>\<open>end && date + k >= end\<close>\<close>

definition at_end :: "int \<Rightarrow> cursor \<Rightarrow> bool" where
  "at_end k c = (case snd c of None \<Rightarrow> False | Some n \<Rightarrow> k \<ge> n)"

definition peek :: "cursor \<Rightarrow> nat \<Rightarrow> char" where
  "peek c i = char_at (fst c) i"

definition month2num :: "string \<Rightarrow> int" where
  "month2num str =
     (let lc = (\<lambda>i. char_of (uchar (char_at str i) OR 32)); m0 = lc 0; m1 = lc 1; m2 = lc 2
      in if m0 = CHR ''j'' then
           (if m1 = CHR ''a'' then (if m2 = CHR ''n'' then 0 else -1)
            else if m1 = CHR ''u'' then (if m2 = CHR ''n'' then 5 else if m2 = CHR ''l'' then 6 else -1)
            else -1)
         else if m0 = CHR ''m'' then
           (if m1 = CHR ''a'' then (if m2 = CHR ''r'' then 2 else if m2 = CHR ''y'' then 4 else -1) else -1)
         else if m0 = CHR ''a'' then
           (if m1 = CHR ''p'' then (if m2 = CHR ''r'' then 3 else -1)
            else if m1 = CHR ''u'' \<and> m2 = CHR ''g'' then 7 else -1)
         else if m0 = CHR ''s'' then (if m1 = CHR ''e'' \<and> m2 = CHR ''p'' then 8 else -1)
         else if m0 = CHR ''o'' then (if m1 = CHR ''c'' \<and> m2 = CHR ''t'' then 9 else -1)
         else if m0 = CHR ''n'' then (if m1 = CHR ''o'' \<and> m2 = CHR ''v'' then 10 else -1)
         else if m0 = CHR ''d'' then (if m1 = CHR ''e'' \<and> m2 = CHR ''c'' then 11 else -1)
         else if m0 = CHR ''f'' then (if m1 = CHR ''e'' \<and> m2 = CHR ''b'' then 1 else -1)
         else -1)"

definition parse_year :: "cursor \<Rightarrow> int \<times> cursor" where
  "parse_year c =
     (if at_end 1 c \<or> \<not> isdigit (peek c 0) \<or> \<not> isdigit (peek c 1) then (-1, c)
      else
        let year = digit (peek c 0) * 10 + digit (peek c 1)
        in if \<not> at_end 3 c \<and> isdigit (peek c 2) \<and> isdigit (peek c 3)
           then ((year * 10 + digit (peek c 2)) * 10 + digit (peek c 3) - 1900, advance 4 c)
           else if year < 70 then (year + 100, advance 2 c)
           else (year, c))"

definition parse_month :: "cursor \<Rightarrow> int \<times> cursor" where
  "parse_month c =
     (if at_end 1 c \<or> peek c 0 = NUL \<or> peek c 1 = NUL \<or> peek c 2 = NUL then (-1, c)
      else
        let monthnum = month2num (fst c)
        in (monthnum, if monthnum \<noteq> -1 then advance 3 c else c))"

definition parse_day :: "cursor \<Rightarrow> int \<times> cursor" where
  "parse_day c =
     (if at_end 0 c \<or> \<not> isdigit (peek c 0) then (32, c)
      else
        let day = digit (peek c 0); c = advance 1 c
        in if \<not> at_end 0 c \<and> isdigit (peek c 0) then (day * 10 + digit (peek c 0), advance 1 c)
           else (day, c))"

definition check_time :: "tm \<Rightarrow> bool" where
  "check_time t \<longleftrightarrow> tm_hour t \<le> 23 \<and> tm_min t \<le> 59 \<and> tm_sec t \<le> 59"

text \<open>The result, the time read so far and where the pointer is left.\<close>

definition parse_time :: "cursor \<Rightarrow> tm \<Rightarrow> bool \<times> tm \<times> cursor" where
  "parse_time c t =
     (if at_end 4 c \<or> \<not> isdigit (peek c 0) \<or> \<not> isdigit (peek c 1) \<or> peek c 2 \<noteq> CHR '':''
         \<or> \<not> isdigit (peek c 3) \<or> \<not> isdigit (peek c 4)
      then (False, t, c)
      else
        let t = t\<lparr>tm_hour := digit (peek c 0) * 10 + digit (peek c 1),
                   tm_min := digit (peek c 3) * 10 + digit (peek c 4), tm_sec := 0\<rparr>
        in if at_end 7 c then (check_time t, t, advance 5 c)
           else if peek c 5 = CHR '':'' then
             (if at_end 8 c \<or> \<not> isdigit (peek c 6) \<or> \<not> isdigit (peek c 7) then (False, t, c)
              else
                let t = t\<lparr>tm_sec := digit (peek c 6) * 10 + digit (peek c 7)\<rparr>
                in (check_time t, t, advance 8 c))
           else if peek c 5 = CHR ''A'' \<or> peek c 5 = CHR ''P'' then
             let t = (if tm_hour t = 12 then t\<lparr>tm_hour := 0\<rparr> else t);
                 t = (if peek c 5 = CHR ''P'' then t\<lparr>tm_hour := tm_hour t + 12\<rparr> else t)
             in if peek c 6 \<noteq> CHR ''M'' then (False, t, c) else (check_time t, t, advance 7 c)
           else (check_time t, t, advance 5 c))"

subsection \<open>Seconds since 1970\<close>

definition in_int :: "int \<Rightarrow> bool" where
  "in_int x \<longleftrightarrow> - 2147483648 \<le> x \<and> x \<le> 2147483647"

text \<open>The day count of \<open>my_timegm\<close>, in a calendar of years that start with March.\<close>

definition timegm_days :: "int \<Rightarrow> int \<Rightarrow> int \<Rightarrow> int" where
  "timegm_days year mon mday =
     (let mon = mon - 2;
          (mon, year) = (if mon < 0 then (mon + 12, year - 1) else (mon, year));
          mon = mon * 153 + 2;
          year = year - 68;
          mday = mday + year * 1461 sdiv 4
      in mday + (mon sdiv 5 - 672))"

definition my_timegm :: "tm \<Rightarrow> int option" where
  "my_timegm t =
     (let days = timegm_days (tm_year t) (tm_mon t) (tm_mday t) * 60 * 60 * 24;
          hours = days + tm_hour t * 60 * 60;
          mins = hours + tm_min t * 60;
          r = mins + tm_sec t
      in if in_int days \<and> in_int hours \<and> in_int mins \<and> in_int r
         then Some (if r = -1 then 0 else r) else None)"

subsection \<open>Dates\<close>

text \<open>The bytes before \<open>end\<close>, and the macro \<open>skip_time_sep\<close>; \<open>None\<close> is its \<open>return 0\<close>.\<close>

definition window :: "cursor \<Rightarrow> string" where
  "window c = (case snd c of None \<Rightarrow> fst c | Some n \<Rightarrow> take (nat n) (fst c))"

definition skip_time_sep :: "cursor \<Rightarrow> cursor option" where
  "skip_time_sep c =
     (let n = length (takeWhile (\<lambda>x. x = CHR '' '' \<or> x = CHR ''-'') (window c))
      in if n = 0 then None else Some (advance n c))"

text \<open>
  The loop over the day of the week ends at a space, at \<open>end\<close>, or with 0 at the end of the string;
  \<open>skip_time_sep\<close> moves nowhere, and returns 0, in the last two cases.
\<close>

definition skip_weekday :: "cursor \<Rightarrow> cursor option" where
  "skip_weekday c =
     skip_time_sep (advance (length (takeWhile (\<lambda>x. x \<noteq> CHR '' '') (window c))) c)"

definition date_numeric :: "cursor \<Rightarrow> (tm \<times> cursor) option" where
  "date_numeric c =
     (let (day, c) = parse_day c
      in if day > 31 then None
         else case skip_time_sep c of None \<Rightarrow> None | Some c \<Rightarrow>
           let (mon, c) = parse_month c
           in if mon < 0 then None
              else case skip_time_sep c of None \<Rightarrow> None | Some c \<Rightarrow>
                let (year, c) = parse_year c
                in if year < 0 then None
                   else case skip_time_sep c of None \<Rightarrow> None | Some c \<Rightarrow>
                     let (ok, t, c) = parse_time c \<lparr>tm_sec = 0, tm_min = 0, tm_hour = 0, tm_mday = day,
                           tm_mon = mon, tm_year = year\<rparr>
                     in if ok then Some (t, c) else None)"

definition date_asctime :: "cursor \<Rightarrow> (tm \<times> cursor) option" where
  "date_asctime c =
     (let (mon, c) = parse_month c
      in if mon < 0 then None
         else case skip_time_sep c of None \<Rightarrow> None | Some c \<Rightarrow>
           let (day, c) = parse_day c
           in if day > 31 then None
              else case skip_time_sep c of None \<Rightarrow> None | Some c \<Rightarrow>
                let (ok, t, c) = parse_time c \<lparr>tm_sec = 0, tm_min = 0, tm_hour = 0, tm_mday = day,
                      tm_mon = mon, tm_year = 0\<rparr>
                in if \<not> ok then None
                   else case skip_time_sep c of None \<Rightarrow> None | Some c \<Rightarrow>
                     let (year, c) = parse_year c
                     in if year < 0 then None else Some (t\<lparr>tm_year := year\<rparr>, c))"

definition parse_date :: "cursor \<Rightarrow> bool \<Rightarrow> bool \<Rightarrow> int option \<times> cursor" where
  "parse_date date_pos update_pos skip_week_day =
     (case (if skip_week_day then skip_weekday date_pos else Some date_pos) of
        None \<Rightarrow> (Some 0, date_pos)
      | Some c \<Rightarrow>
          (case (if isdigit (peek c 0) then date_numeric c else date_asctime c) of
             None \<Rightarrow> (Some 0, date_pos)
           | Some (t, c) \<Rightarrow> (my_timegm t, if update_pos then c else date_pos)))"

end
