(* ===== verification/Date_Calendar.thy ===== *)
theory Date_Calendar
  imports Date
begin

text \<open>
  What the dates mean: the conversion to seconds against the Gregorian calendar, and the three
  formats the parser is written for.
\<close>

subsection \<open>The calendar\<close>

definition leap :: "int \<Rightarrow> bool" where
  "leap y \<longleftrightarrow> y mod 4 = 0 \<and> (y mod 100 \<noteq> 0 \<or> y mod 400 = 0)"

definition month_lengths :: "int \<Rightarrow> int list" where
  "month_lengths y = [31, if leap y then 29 else 28, 31, 30, 31, 30, 31, 31, 30, 31, 30, 31]"

definition days_before_year :: "nat \<Rightarrow> int" where
  "days_before_year y = (\<Sum>k \<leftarrow> [1970..<y]. if leap (int k) then 366 else 365)"

text \<open>Seconds from the start of 1970 to a moment; months count from 0, days from 1.\<close>

definition utc_seconds :: "nat \<Rightarrow> nat \<Rightarrow> int \<Rightarrow> int \<Rightarrow> int \<Rightarrow> int \<Rightarrow> int" where
  "utc_seconds y mon day h m s =
     (days_before_year y + sum_list (take mon (month_lengths (int y))) + (day - 1)) * 86400
       + h * 3600 + m * 60 + s"

definition calendar_tm :: "nat \<Rightarrow> nat \<Rightarrow> int \<Rightarrow> int \<Rightarrow> int \<Rightarrow> int \<Rightarrow> tm" where
  "calendar_tm y mon day h m s =
     \<lparr>tm_sec = s, tm_min = m, tm_hour = h, tm_mday = day, tm_mon = int mon, tm_year = int y - 1900\<rparr>"

lemma sdiv_pos: "0 \<le> a \<Longrightarrow> 0 < b \<Longrightarrow> a sdiv b = a div b" for a b :: int
  by (cases "a = 0") (simp_all add: signed_divide_int_def sgn_if)

lemma leap_2099: "1970 \<le> y \<Longrightarrow> y < 2100 \<Longrightarrow> leap (int y) \<longleftrightarrow> y mod 4 = 0"
proof -
  assume y: "1970 \<le> y" "y < 2100"
  have "int y mod 4 = 0 \<longleftrightarrow> y mod 4 = 0" "int y mod 100 = 0 \<longleftrightarrow> y = 2000" using y by presburger+
  then show ?thesis by (auto simp: leap_def)
qed

lemma days_before_year_2099:
  "1970 \<le> y \<Longrightarrow> y \<le> 2100 \<Longrightarrow> days_before_year y = 365 * (int y - 1970) + (int y - 1969) div 4"
proof (induction y rule: nat_induct_at_least)
  case base
  show ?case by (simp add: days_before_year_def)
next
  case (Suc y)
  have "days_before_year (Suc y) = days_before_year y + (if leap (int y) then 366 else 365)"
    using Suc.hyps by (simp add: days_before_year_def)
  also have "\<dots> = 365 * (int y - 1970) + (int y - 1969) div 4 + (if y mod 4 = 0 then 366 else 365)"
    using Suc leap_2099 [of y] by simp
  also have "\<dots> = 365 * (int (Suc y) - 1970) + (int (Suc y) - 1969) div 4" by presburger
  finally show ?case .
qed

lemma timegm_days_calendar:
  assumes "1970 \<le> y" "y < 2100" "mon < 12"
  shows "timegm_days (int y - 1900) (int mon) day
    = days_before_year y + sum_list (take mon (month_lengths (int y))) + (day - 1)"
proof -
  have l: "leap (int y) \<longleftrightarrow> int y mod 4 = 0" using leap_2099 [OF assms(1,2)] by presburger
  have d: "days_before_year y = 365 * (int y - 1970) + (int y - 1969) div 4"
    using days_before_year_2099 assms(1,2) by simp
  have "int y * 1461 - 2875248 = (int y - 1968) + 365 * (int y - 1968) * 4" by simp
  then have "(int y * 1461 - 2875248) div 4 = 365 * (int y - 1968) + (int y - 1968) div 4"
    by (simp only: div_mult_self3)
  also have "(int y - 1968) div 4 = (int y - 1969) div 4 + (if int y mod 4 = 0 then 1 else 0)" by presburger
  finally have n: "(int y * 1461 - 2875248) div 4
    = 365 * (int y - 1968) + ((int y - 1969) div 4 + (if int y mod 4 = 0 then 1 else 0))" .
  have "mon \<in> set [0..<12]" using assms(3) by simp
  then consider "mon = 0" | "mon = 1" | "mon = 2" | "mon = 3" | "mon = 4" | "mon = 5" | "mon = 6" | "mon = 7"
    | "mon = 8" | "mon = 9" | "mon = 10" | "mon = 11" by (auto simp: upt_rec)
  then show ?thesis
    using assms(1,2) by cases (simp_all add: timegm_days_def month_lengths_def l d n sdiv_pos Let_def)
qed

lemma days_before_date_bounds:
  assumes "1970 \<le> y" "y \<le> 2037" "mon < 12"
  shows "0 \<le> days_before_year y + sum_list (take mon (month_lengths (int y)))"
    "days_before_year y + sum_list (take mon (month_lengths (int y))) \<le> 24808"
proof -
  have "sum_list (take mon (month_lengths (int y))) + sum_list (drop mon (month_lengths (int y)))
      = sum_list (month_lengths (int y))"
    by (metis append_take_drop_id sum_list.append)
  moreover have "\<forall>x \<in> set (month_lengths (int y)). 28 \<le> x" by (auto simp: month_lengths_def)
  then have "0 \<le> sum_list (take mon (month_lengths (int y)))"
    by (intro sum_list_nonneg) (fastforce dest: in_set_takeD)
  moreover have "30 \<le> sum_list (drop mon (month_lengths (int y)))"
  proof -
    have "drop mon (month_lengths (int y)) = drop mon (take 11 (month_lengths (int y))) @ [31]"
      using assms(3) by (simp add: month_lengths_def drop_Cons')
    moreover have "0 \<le> sum_list (drop mon (take 11 (month_lengths (int y))))"
      by (intro sum_list_nonneg) (fastforce dest: in_set_dropD in_set_takeD simp: month_lengths_def)
    ultimately show ?thesis by simp
  qed
  moreover have "sum_list (month_lengths (int y)) \<le> 366" by (simp add: month_lengths_def)
  moreover have "0 \<le> days_before_year y" "days_before_year y \<le> 24472"
    using days_before_year_2099 [of y] assms(1,2) by simp_all
  ultimately show "0 \<le> days_before_year y + sum_list (take mon (month_lengths (int y)))"
    "days_before_year y + sum_list (take mon (month_lengths (int y))) \<le> 24808" by linarith+
qed

lemma my_timegm_2037:
  assumes "1970 \<le> y" "y \<le> 2037" "mon < 12" "1 \<le> day" "day \<le> 31" "0 \<le> h" "h \<le> 23" "0 \<le> m" "m \<le> 59" "0 \<le> s" "s \<le> 59"
  shows "my_timegm (calendar_tm y mon day h m s) = Some (utc_seconds y mon day h m s)"
proof -
  let ?d = "days_before_year y + sum_list (take mon (month_lengths (int y)))"
  have d: "0 \<le> ?d" "?d \<le> 24808" using days_before_date_bounds [OF assms(1-3)] by simp_all
  have t: "timegm_days (int y - 1900) (int mon) day = ?d + (day - 1)"
    using timegm_days_calendar [of y mon day] assms(1-3) by simp
  have "0 \<le> ?d + (day - 1)" "?d + (day - 1) \<le> 24838" using d assms(4,5) by linarith+
  then show ?thesis
    using t assms(6-11) by (simp add: my_timegm_def calendar_tm_def utc_seconds_def in_int_def Let_def)
qed

text \<open>
  C21: on every moment from 1970 to the end of 2037, \<open>my_timegm\<close> is the number of seconds the Gregorian
  calendar gives, and no computation overflows. From 2039 on its \<open>int\<close> arithmetic overflows for
  every date, however wide \<open>time_t\<close> is.
\<close>

theorem my_timegm_calendar:
  assumes "1970 \<le> y" "mon < 12" "1 \<le> day" "day \<le> 31" "0 \<le> h" "h \<le> 23" "0 \<le> m" "m \<le> 59" "0 \<le> s" "s \<le> 59"
  shows "(y \<le> 2037 \<longrightarrow> my_timegm (calendar_tm y mon day h m s) = Some (utc_seconds y mon day h m s))
    \<and> (2039 \<le> y \<longrightarrow> my_timegm (calendar_tm y mon day h m s) = None)"
proof (intro conjI impI)
  assume y: "y \<le> 2037"
  show "my_timegm (calendar_tm y mon day h m s) = Some (utc_seconds y mon day h m s)"
    by (rule my_timegm_2037) (use assms y in simp_all)
next
  assume y: "2039 \<le> y"
  have "24896 \<le> timegm_days (int y - 1900) (int mon) day"
  proof -
    have late: "25567 \<le> z * 1461 sdiv 4" if "int y - 1969 \<le> z" for z :: int
      using zdiv_mono1 [of "70 * 1461" "z * 1461" 4] y that by (simp add: sdiv_pos)
    have march: "0 \<le> (z * 153 + 2) sdiv 5" if "0 \<le> z" for z :: int
      using that by (simp add: sdiv_pos pos_imp_zdiv_nonneg_iff)
    show ?thesis
    proof (cases "int mon - 2 < 0")
      case True
      then show ?thesis using late [of "int y - 1900 - 1 - 68"] march [of "int mon - 2 + 12"] assms(3)
        by (simp only: timegm_days_def Let_def if_True prod.case, linarith)
    next
      case False
      then show ?thesis using late [of "int y - 1900 - 68"] march [of "int mon - 2"] assms(3)
        by (simp only: timegm_days_def Let_def if_False prod.case, linarith)
    qed
  qed
  then have "\<not> in_int (timegm_days (int y - 1900) (int mon) day * 60 * 60 * 24)" by (simp add: in_int_def)
  then show "my_timegm (calendar_tm y mon day h m s) = None"
    by (simp add: my_timegm_def calendar_tm_def Let_def del: mult_numeral_left_semiring_numeral)
qed

theorem my_timegm_calendar_witness:
  "my_timegm (calendar_tm 1994 10 6 8 49 37) = Some 784111777 \<and> my_timegm (calendar_tm 2039 0 1 0 0 0) = None"
proof
  show "my_timegm (calendar_tm 1994 10 6 8 49 37) = Some 784111777"
    using my_timegm_calendar [of 1994 10 6 8 49 37] days_before_year_2099 [of 1994] leap_2099 [of 1994]
    by (simp add: utc_seconds_def month_lengths_def)
  show "my_timegm (calendar_tm 2039 0 1 0 0 0) = None"
    using my_timegm_calendar [of 2039 0 1 0 0 0] by simp
qed


subsection \<open>Reading what was written\<close>

definition d2 :: "nat \<Rightarrow> string" where
  "d2 n = [char_of (48 + n div 10), char_of (48 + n mod 10)]"

definition month_name :: "nat \<Rightarrow> string" where
  "month_name mon = [''Jan'', ''Feb'', ''Mar'', ''Apr'', ''May'', ''Jun'', ''Jul'', ''Aug'', ''Sep'', ''Oct'',
     ''Nov'', ''Dec''] ! mon"

definition clock :: "nat \<Rightarrow> nat \<Rightarrow> nat \<Rightarrow> string" where
  "clock h m s = d2 h @ '':'' @ d2 m @ '':'' @ d2 s"

definition year4 :: "nat \<Rightarrow> string" where
  "year4 y = d2 (y div 100) @ d2 (y mod 100)"

text \<open>\<open>06 Nov 1994 08:49:37\<close> with a separator, and \<open>Nov  6 08:49:37 1994\<close>.\<close>

definition rfc1123 :: "char \<Rightarrow> nat \<Rightarrow> nat \<Rightarrow> nat \<Rightarrow> nat \<Rightarrow> nat \<Rightarrow> nat \<Rightarrow> string" where
  "rfc1123 sep y mon day h m s =
     d2 day @ [sep] @ month_name mon @ [sep] @ year4 y @ '' '' @ clock h m s"

definition asctime :: "nat \<Rightarrow> nat \<Rightarrow> nat \<Rightarrow> nat \<Rightarrow> nat \<Rightarrow> nat \<Rightarrow> string" where
  "asctime y mon day h m s =
     month_name mon @ '' '' @ (if day < 10 then [CHR '' '', char_of (48 + day)] else d2 day) @ '' ''
       @ clock h m s @ '' '' @ year4 y"

lemma isdigit_char [simp]: "n < 10 \<Longrightarrow> isdigit (char_of (48 + n))" for n :: nat
  by (simp add: isdigit_def)

lemma digit_char [simp]: "n < 10 \<Longrightarrow> digit (char_of (48 + n)) = int n" for n :: nat
  by (simp add: digit_def)

lemma peek_simps [simp]: "peek (c # s, e) 0 = c" "peek (c # s, e) (Suc n) = peek (s, e) n" "peek ([], e) n = NUL"
  by (simp_all add: peek_def)

lemma peek_numeral [simp]: "peek (c # s, e) (numeral k) = peek (s, e) (pred_numeral k)"
  by (simp add: numeral_eq_Suc)

lemma at_end_None [simp]: "\<not> at_end k (s, None)"
  by (simp add: at_end_def)

lemma advance_None [simp]: "advance k (s, None) = (drop k s, None)"
  by (simp add: advance_def)

lemma digits_back: "n div 10 * 10 + n mod 10 = n" "int (n div 10) * 10 + int (n mod 10) = int n" for n :: nat
  by simp_all presburger

lemma parse_day_d2 [simp]: "n < 100 \<Longrightarrow> parse_day (d2 n @ t, None) = (int n, (t, None))"
  using digits_back [of n] by (simp add: parse_day_def d2_def Let_def del: div_mult_mod_eq)

lemma parse_day_1 [simp]:
  "n < 10 \<Longrightarrow> \<not> isdigit c \<Longrightarrow> parse_day (char_of (48 + n) # c # t, None) = (int n, (c # t, None))"
  by (simp add: parse_day_def Let_def)

lemma sep_not_digit: "isdigit c \<Longrightarrow> c \<noteq> CHR '' '' \<and> c \<noteq> CHR ''-''"
  by (auto simp: isdigit_def)

lemma skip_time_sep_1:
  "x = CHR '' '' \<or> x = CHR ''-'' \<Longrightarrow> deref t \<noteq> CHR '' '' \<Longrightarrow> deref t \<noteq> CHR ''-'' \<Longrightarrow>
     skip_time_sep (x # t, None) = Some (t, None)"
  by (cases t) (auto simp: skip_time_sep_def window_def)

lemma parse_year_digits:
  fixes a b c d :: nat
  assumes "a < 10" "b < 10" "c < 10" "d < 10"
  shows "parse_year (char_of (48 + a) # char_of (48 + b) # char_of (48 + c) # char_of (48 + d) # t, None)
    = (int (((a * 10 + b) * 10 + c) * 10 + d) - 1900, (t, None))"
  using assms by (simp add: parse_year_def Let_def)

lemma parse_year_year4 [simp]:
  "y < 10000 \<Longrightarrow> parse_year (year4 y @ t, None) = (int y - 1900, (t, None))"
proof -
  assume y: "y < 10000"
  let ?a = "y div 100" and ?b = "y mod 100"
  have "((?a div 10 * 10 + ?a mod 10) * 10 + ?b div 10) * 10 + ?b mod 10 = ?a * 100 + (?b div 10 * 10 + ?b mod 10)"
    unfolding digits_back(1) by simp
  then have "((?a div 10 * 10 + ?a mod 10) * 10 + ?b div 10) * 10 + ?b mod 10 = y" unfolding digits_back(1) by simp
  moreover have "?a div 10 < 10" "?b div 10 < 10" "?a mod 10 < 10" "?b mod 10 < 10" using y by simp_all
  moreover have "year4 y @ t = char_of (48 + ?a div 10) # char_of (48 + ?a mod 10) # char_of (48 + ?b div 10)
      # char_of (48 + ?b mod 10) # t"
    unfolding year4_def d2_def by simp
  ultimately show ?thesis using parse_year_digits [of "?a div 10" "?a mod 10" "?b div 10" "?b mod 10" t]
    by (simp only:)
qed

lemma month2num_take: "month2num (a # b # c # t) = month2num [a, b, c]"
proof -
  have "char_at (a # b # c # t) 0 = char_at [a, b, c] 0" "char_at (a # b # c # t) 1 = char_at [a, b, c] 1"
    "char_at (a # b # c # t) 2 = char_at [a, b, c] 2"
    by (simp_all add: char_at_def)
  then show ?thesis unfolding month2num_def Let_def by (simp only:)
qed

lemma month2num_names:
  "month2num ''Jan'' = 0" "month2num ''Feb'' = 1" "month2num ''Mar'' = 2" "month2num ''Apr'' = 3"
  "month2num ''May'' = 4" "month2num ''Jun'' = 5" "month2num ''Jul'' = 6" "month2num ''Aug'' = 7"
  "month2num ''Sep'' = 8" "month2num ''Oct'' = 9" "month2num ''Nov'' = 10" "month2num ''Dec'' = 11"
  by (simp_all add: month2num_def char_at_def Let_def char_of_def bit_0)

lemma parse_month_name [simp]:
  assumes "mon < 12"
  shows "parse_month (month_name mon @ t, None) = (int mon, (t, None))"
proof -
  have "mon \<in> set [0..<12]" using assms by simp
  then have "length (month_name mon) = 3 \<and> NUL \<notin> set (month_name mon) \<and> month2num (month_name mon) = int mon"
    by (auto simp: upt_rec month_name_def month2num_names)
  moreover from this obtain a b c where "month_name mon = [a, b, c]"
    by (auto simp: length_Suc_conv numeral_3_eq_3)
  ultimately show ?thesis using month2num_take [of _ _ _ t] by (auto simp: parse_month_def Let_def)
qed

lemma parse_time_digits:
  fixes a b c d e f :: nat
  assumes "a < 10" "b < 10" "c < 10" "d < 10" "e < 10" "f < 10"
    "a * 10 + b \<le> 23" "c * 10 + d \<le> 59" "e * 10 + f \<le> 59"
  shows "parse_time (char_of (48 + a) # char_of (48 + b) # CHR '':'' # char_of (48 + c) # char_of (48 + d) #
      CHR '':'' # char_of (48 + e) # char_of (48 + f) # t, None) x
    = (True, x\<lparr>tm_hour := int (a * 10 + b), tm_min := int (c * 10 + d), tm_sec := int (e * 10 + f)\<rparr>, (t, None))"
  using assms by (simp add: parse_time_def Let_def check_time_def)

lemma parse_time_clock [simp]:
  assumes "h \<le> 23" "m \<le> 59" "s \<le> 59"
  shows "parse_time (clock h m s @ t, None) x
    = (True, x\<lparr>tm_hour := int h, tm_min := int m, tm_sec := int s\<rparr>, (t, None))"
  using parse_time_digits [of "h div 10" "h mod 10" "m div 10" "m mod 10" "s div 10" "s mod 10" t x] assms
  by (simp add: clock_def d2_def digits_back)


lemma field_heads:
  "n < 100 \<Longrightarrow> isdigit (deref (d2 n @ t))" "y < 10000 \<Longrightarrow> isdigit (deref (year4 y @ t))"
  "h < 100 \<Longrightarrow> isdigit (deref (clock h m s @ t))"
  by (simp_all add: d2_def year4_def clock_def)

lemma month_head:
  assumes "mon < 12"
  shows "deref (month_name mon @ t) \<noteq> CHR '' ''" "deref (month_name mon @ t) \<noteq> CHR ''-''"
    "\<not> isdigit (deref (month_name mon @ t))"
proof -
  have "mon \<in> set [0..<12]" using assms by simp
  then have "deref (month_name mon @ t) \<noteq> CHR '' '' \<and> deref (month_name mon @ t) \<noteq> CHR ''-''
      \<and> \<not> isdigit (deref (month_name mon @ t))"
    by (auto simp: upt_rec month_name_def isdigit_def)
  then show "deref (month_name mon @ t) \<noteq> CHR '' ''" "deref (month_name mon @ t) \<noteq> CHR ''-''"
    "\<not> isdigit (deref (month_name mon @ t))" by simp_all
qed

lemma skip_to_digit:
  "x = CHR '' '' \<or> x = CHR ''-'' \<Longrightarrow> isdigit (deref t) \<Longrightarrow> skip_time_sep (x # t, None) = Some (t, None)"
  using sep_not_digit by (intro skip_time_sep_1) auto

lemma date_numeric_rfc1123:
  assumes "sep = CHR '' '' \<or> sep = CHR ''-''" "y < 10000" "1900 \<le> y" "mon < 12" "day \<le> 31" "h \<le> 23" "m \<le> 59" "s \<le> 59"
  shows "date_numeric (rfc1123 sep y mon day h m s @ t, None)
    = Some (calendar_tm y mon (int day) (int h) (int m) (int s), (t, None))"
proof -
  have 1: "skip_time_sep (sep # month_name mon @ u, None) = Some (month_name mon @ u, None)" for u
    using assms(1,4) month_head [OF assms(4)] by (intro skip_time_sep_1) auto
  have 2: "skip_time_sep (sep # year4 y @ u, None) = Some (year4 y @ u, None)" for u
    using assms(1,2) by (intro skip_to_digit) (simp_all add: field_heads)
  have 3: "skip_time_sep (CHR '' '' # clock h m s @ u, None) = Some (clock h m s @ u, None)" for u
    using assms(6) by (intro skip_to_digit) (simp_all add: field_heads)
  show ?thesis
    using assms by (simp add: date_numeric_def rfc1123_def 1 2 3 calendar_tm_def)
qed

lemma date_asctime_asctime:
  assumes "y < 10000" "1900 \<le> y" "mon < 12" "day \<le> 31" "h \<le> 23" "m \<le> 59" "s \<le> 59"
  shows "date_asctime (asctime y mon day h m s @ t, None)
    = Some (calendar_tm y mon (int day) (int h) (int m) (int s), (t, None))"
proof -
  let ?r = "clock h m s @ CHR '' '' # year4 y @ t"
  have 3: "skip_time_sep (CHR '' '' # ?r, None) = Some (?r, None)"
    using assms(5) by (intro skip_to_digit) (simp_all add: field_heads)
  have 4: "skip_time_sep (CHR '' '' # year4 y @ t, None) = Some (year4 y @ t, None)"
    using assms(1) by (intro skip_to_digit) (simp_all add: field_heads)
  let ?d = "if day < 10 then [CHR '' '', char_of (48 + day)] else d2 day"
  obtain c where c: "skip_time_sep (CHR '' '' # ?d @ CHR '' '' # ?r, None) = Some c"
    "parse_day c = (int day, (CHR '' '' # ?r, None))"
  proof (cases "day < 10")
    case True
    then have d: "isdigit (char_of (48 + day))" by simp
    have "skip_time_sep (CHR '' '' # ?d @ CHR '' '' # ?r, None) = Some (char_of (48 + day) # CHR '' '' # ?r, None)"
      using True sep_not_digit [OF d] by (simp add: skip_time_sep_def window_def)
    moreover have "parse_day (char_of (48 + day) # CHR '' '' # ?r, None) = (int day, (CHR '' '' # ?r, None))"
      using True by (intro parse_day_1) (simp_all add: isdigit_def)
    ultimately show thesis by (rule that)
  next
    case False
    then have "skip_time_sep (CHR '' '' # d2 day @ CHR '' '' # ?r, None) = Some (d2 day @ CHR '' '' # ?r, None)"
      using assms(4) by (intro skip_to_digit) (simp_all add: field_heads)
    moreover have "parse_day (d2 day @ CHR '' '' # ?r, None) = (int day, (CHR '' '' # ?r, None))"
      using assms(4) by (intro parse_day_d2) simp
    ultimately show thesis using False that by simp
  qed
  show ?thesis
    using assms by (simp add: date_asctime_def asctime_def c 3 4 calendar_tm_def)
qed

text \<open>
  C20: \<open>parse_date\<close> reads back every moment from 1970 to the end of 2037, written as RFC 1123 asks
  (\<open>Sun, 06 Nov 1994 08:49:37 GMT\<close>, or with dashes) or as \<open>asctime\<close> does (\<open>Sun Nov  6 08:49:37
  1994\<close>), whatever the name of the day and whatever follows: the result is the number of seconds
  the calendar gives, and the pointer is left behind the date.
\<close>

theorem parse_date_round_trip:
  assumes "1970 \<le> y" "y \<le> 2037" "mon < 12" "1 \<le> day" "day \<le> 31" "h \<le> 23" "m \<le> 59" "s \<le> 59"
    "CHR '' '' \<notin> set weekday" "sep = CHR '' '' \<or> sep = CHR ''-''"
  shows "parse_date (weekday @ '' '' @ rfc1123 sep y mon day h m s @ t, None) True True
      = (Some (utc_seconds y mon (int day) (int h) (int m) (int s)), (t, None))
    \<and> parse_date (weekday @ '' '' @ asctime y mon day h m s @ t, None) True True
      = (Some (utc_seconds y mon (int day) (int h) (int m) (int s)), (t, None))"
proof -
  have t: "my_timegm (calendar_tm y mon (int day) (int h) (int m) (int s))
      = Some (utc_seconds y mon (int day) (int h) (int m) (int s))"
    using assms by (intro my_timegm_2037) simp_all
  have w: "skip_weekday (weekday @ CHR '' '' # u, None) = Some (u, None)"
    if "deref u \<noteq> CHR '' ''" "deref u \<noteq> CHR ''-''" for u
  proof -
    have "takeWhile (\<lambda>x. x \<noteq> CHR '' '') weekday = weekday"
      using assms(9) by (auto simp: takeWhile_eq_all_conv)
    moreover from this have "takeWhile (\<lambda>x. x \<noteq> CHR '' '') (weekday @ CHR '' '' # u) = weekday"
      by (simp add: takeWhile_append)
    ultimately show ?thesis using that skip_time_sep_1 [of "CHR '' ''" u] by (simp add: skip_weekday_def window_def)
  qed
  have r: "isdigit (deref (rfc1123 sep y mon day h m s @ t))" using assms(5) by (simp add: rfc1123_def field_heads)
  have "parse_date (weekday @ '' '' @ rfc1123 sep y mon day h m s @ t, None) True True
      = (Some (utc_seconds y mon (int day) (int h) (int m) (int s)), (t, None))"
    using sep_not_digit [OF r] r assms t
    by (simp add: parse_date_def w peek_def date_numeric_rfc1123)
  moreover have "parse_date (weekday @ '' '' @ asctime y mon day h m s @ t, None) True True
      = (Some (utc_seconds y mon (int day) (int h) (int m) (int s)), (t, None))"
  proof -
    have "asctime y mon day h m s @ t = month_name mon @ drop (length (month_name mon)) (asctime y mon day h m s @ t)"
      by (simp add: asctime_def)
    then have "deref (asctime y mon day h m s @ t) \<noteq> CHR '' ''" "deref (asctime y mon day h m s @ t) \<noteq> CHR ''-''"
      "\<not> isdigit (deref (asctime y mon day h m s @ t))"
      using month_head [OF assms(3)] by metis+
    moreover have "date_asctime (asctime y mon day h m s @ t, None)
        = Some (calendar_tm y mon (int day) (int h) (int m) (int s), (t, None))"
      using assms by (intro date_asctime_asctime) simp_all
    ultimately show ?thesis using t by (simp add: parse_date_def w peek_def)
  qed
  ultimately show ?thesis by blast
qed

theorem parse_date_round_trip_witness:
  "parse_date (''Sun,'' @ '' '' @ rfc1123 (CHR '' '') 1994 10 6 8 49 37 @ '' GMT'', None) True True
    = (Some (utc_seconds 1994 10 6 8 49 37), ('' GMT'', None))"
  using parse_date_round_trip [of 1994 10 6 8 49 37 "''Sun,''" "CHR '' ''" "'' GMT''"] by simp

text \<open>
  The second format of the comment, with a year of two digits: from 70 to 99 the pointer is left
  before the year, so no time is found behind it and the date is rejected.
\<close>

lemma rfc850_rejected:
  assumes "day \<le> 31" "sep = CHR '' '' \<or> sep = CHR ''-''" "mon < 12" "70 \<le> yy" "yy < 100"
  shows "date_numeric (d2 day @ [sep] @ month_name mon @ [sep] @ d2 yy @ '' '' @ t, None) = None"
proof -
  have 1: "skip_time_sep (sep # month_name mon @ u, None) = Some (month_name mon @ u, None)" for u
    using assms(2,3) month_head [OF assms(3)] by (intro skip_time_sep_1) auto
  have 2: "skip_time_sep (sep # d2 yy @ u, None) = Some (d2 yy @ u, None)" for u
    using assms(2,5) by (intro skip_to_digit) (simp_all add: field_heads)
  have 3: "parse_year (d2 yy @ CHR '' '' # t, None) = (int yy, (d2 yy @ CHR '' '' # t, None))"
    using assms(4,5) digits_back(2) [of yy] by (simp add: parse_year_def d2_def Let_def isdigit_def [of "CHR '' ''"])
  have "isdigit (deref (d2 yy @ u))" for u using assms(5) by (simp add: field_heads)
  then have 4: "skip_time_sep (d2 yy @ u, None) = None" for u
    using sep_not_digit by (auto simp: skip_time_sep_def window_def d2_def)
  show ?thesis using assms(1,3) by (simp add: date_numeric_def 1 2 3 4)
qed

text \<open>A time of the form \<open>HH:MM:SS\<close> that ends just at \<open>end\<close> is rejected.\<close>

lemma time_at_end_rejected: "\<not> fst (parse_time (clock h m s, Some 8) x)"
  by (simp add: parse_time_def clock_def d2_def at_end_def Let_def)

end
