(* ===== verification/Header.thy ===== *)
theory Header
  imports Util_String
begin

text \<open>
  \<open>src/protocol/header.c\<close>: finding a header line of a protocol message, the parameter of a header
  value, and an attribute of the form \<open>name="value"\<close>. Pointers are suffixes of the message; plain
  \<open>char\<close> comparisons are signed. Allocations succeed.
\<close>

definition LWS :: "char \<Rightarrow> bool" where
  "LWS c \<longleftrightarrow> c = CHR '' '' \<or> c = TAB"

text \<open>The end of a string without its trailing linear white space.\<close>

definition trim_LWS :: "string \<Rightarrow> string" where
  "trim_LWS s = rev (dropWhile LWS (rev s))"

subsection \<open>Header lines\<close>

text \<open>What is left of the name and of the line after the characters that agree.\<close>

fun match_item :: "string \<Rightarrow> string \<Rightarrow> string \<times> string" where
  "match_item (i # item) (p # pos) =
     (if c_toupper i = c_toupper p then match_item item pos else (i # item, p # pos))"
| "match_item item pos = (item, pos)"

definition header_value_char :: "char \<Rightarrow> bool" where
  "header_value_char c \<longleftrightarrow> c \<noteq> DEL \<and> (schar c > 32 \<or> LWS c)"

lemma match_item_length: "length (snd (match_item item pos)) \<le> length pos"
  by (induction item pos rule: match_item.induct) auto

text \<open>
  The lines after the name: \<open>Inl\<close> is the position to continue from, \<open>Inr None\<close> the end of the
  search, \<open>Inr (Some _)\<close> the value and where it begins.
\<close>

definition header_value :: "string \<Rightarrow> string + (string \<times> string) option" where
  "header_value start =
     (let pos = dropWhile LWS start in
      if pos = [] then Inr None
      else
        let pos = (if hd pos = CHR '':'' \<or> hd pos = CHR ''='' then tl pos else pos) in
        if pos = [] then Inr None
        else
          let pos = dropWhile LWS pos in
          if pos = [] then Inr None
          else if length pos = length start then Inl pos
          else
            let rest = dropWhile header_value_char pos in
            if rest = [] then Inr None
            else if hd rest \<noteq> CR \<and> hd rest \<noteq> LF then Inl pos
            else
              let value = trim_LWS (takeWhile header_value_char pos)
              in if value = [] then Inl pos else Inr (Some (value, pos)))"

lemma length_dropWhile_tl: "length (dropWhile P (tl s)) \<le> length s"
  using length_dropWhile_le [of P "tl s"] by (simp add: le_diff_conv)

lemma header_value_Inl: "header_value s = Inl p \<Longrightarrow> length p \<le> length s"
proof -
  let ?d = "dropWhile LWS s"
  have "length (dropWhile LWS (tl ?d)) \<le> length s" "length (dropWhile LWS ?d) \<le> length s"
    using length_dropWhile_tl [of LWS ?d] length_dropWhile_le [of LWS s] length_dropWhile_le [of LWS ?d] by linarith+
  then show "header_value s = Inl p \<Longrightarrow> length p \<le> length s"
    by (auto simp: header_value_def Let_def split: if_splits)
qed

lemma line_shorter:
  "dropWhile (\<lambda>c. c \<noteq> LF) head = c # line \<Longrightarrow> match_item item line = (i, p) \<Longrightarrow> length p < length head"
  using length_dropWhile_le [of "\<lambda>c. c \<noteq> LF" head] match_item_length [of item line] by simp

function parse_header :: "string \<Rightarrow> string \<Rightarrow> (string \<times> string) option" where
  "parse_header head item =
     (case dropWhile (\<lambda>c. c \<noteq> LF) head of
        [] \<Rightarrow> None
      | _ # line \<Rightarrow>
          (case match_item item line of
             (_, []) \<Rightarrow> None
           | (_ # _, pos) \<Rightarrow> parse_header pos item
           | ([], pos) \<Rightarrow>
               (case header_value pos of
                  Inl pos \<Rightarrow> parse_header pos item
                | Inr r \<Rightarrow> r)))"
  by pat_completeness auto
termination
proof (relation "measure (\<lambda>(head, item). length head)", goal_cases)
  case 2
  then show ?case using line_shorter [OF 2(1) 2(2) [symmetric]] header_value_Inl [OF 2(5)] by simp
next
  case 3
  then show ?case using line_shorter [OF 3(1) 3(2) [symmetric]] by simp
qed simp

declare parse_header.simps [simp del]


subsection \<open>Parameters\<close>

definition param_gap :: "char \<Rightarrow> bool" where
  "param_gap c \<longleftrightarrow> c = CHR '';'' \<or> schar c \<le> 32"

text \<open>
  The search from a position, first behind what separates parameters; every further round starts
  at the next semicolon. The result is the text behind the name.
\<close>

function find_param :: "string \<Rightarrow> string \<Rightarrow> string option" where
  "find_param name p =
     (let p = dropWhile param_gap p
      in if length p < length name then None
         else if c_strncasecmp p name (length name) \<noteq> 0 then
           (case dropWhile (\<lambda>c. c \<noteq> CHR '';'') p of
              [] \<Rightarrow> None
            | c # q \<Rightarrow> find_param name (c # q))
         else Some (drop (length name) p))"
  by pat_completeness auto
termination
proof (relation "measure (\<lambda>(name, p). length (dropWhile param_gap p))")
  fix name p x :: string and c q
  assume a: "x = dropWhile param_gap p" "dropWhile (\<lambda>c. c \<noteq> CHR '';'') x = c # q"
  have "c = CHR '';''" using a(2) hd_dropWhile [of "\<lambda>c. c \<noteq> CHR '';''" x] by simp
  moreover have "length (c # q) \<le> length x" using a(2) length_dropWhile_le [of "\<lambda>c. c \<noteq> CHR '';''" x] by simp
  ultimately have "length (dropWhile param_gap (c # q)) < length x"
    using length_dropWhile_le [of param_gap q] by (simp add: param_gap_def)
  then show "((name, c # q), name, p) \<in> measure (\<lambda>(name, p). length (dropWhile param_gap p))"
    using a(1) by simp
qed simp

declare find_param.simps [simp del]

definition param_char :: "char \<Rightarrow> bool" where
  "param_char c \<longleftrightarrow> (schar c > 32 \<or> LWS c) \<and> c \<noteq> CHR '';''"

function drop_quotes :: "string \<Rightarrow> string" where
  "drop_quotes s =
     (if length s > 1 \<and> hd s = SQUOTE \<and> last s = SQUOTE then drop_quotes (butlast (tl s)) else s)"
  by pat_completeness auto
termination by (relation "measure length") auto

declare drop_quotes.simps [simp del]

definition param_value :: "string \<Rightarrow> string" where
  "param_value p =
     (let p = dropWhile (\<lambda>c. schar c \<le> 32 \<or> c = CHR ''='') p
      in drop_quotes (trim_LWS (takeWhile param_char p)))"

text \<open>\<open>Some\<close> is \<open>HEADER_PARAM_FOUND\<close> with the value, \<open>None\<close> is \<open>HEADER_PARAM_NOT_FOUND\<close>.\<close>

definition parse_header_param :: "string \<Rightarrow> string \<Rightarrow> bool \<Rightarrow> string option" where
  "parse_header_param str name content_disposition =
     (if str = [] then None
      else
        let found = (if content_disposition then find_param name str
                     else case dropWhile (\<lambda>c. c \<noteq> CHR '';'') str of [] \<Rightarrow> None | c # q \<Rightarrow> find_param name (c # q))
        in map_option param_value found)"

subsection \<open>Attributes\<close>

text \<open>The text after the first character of the name, and after the whole name.\<close>

definition after_first :: "char \<Rightarrow> string \<Rightarrow> string" where
  "after_first c e = tl (dropWhile (\<lambda>x. c_toupper x \<noteq> c_toupper c) e)"

function find_attr :: "string \<Rightarrow> string \<Rightarrow> string option" where
  "find_attr name e =
     (let e' = after_first (deref name) e
      in if e' = [] then None
         else case match_item (tl name) e' of
           ([], r) \<Rightarrow> Some r
         | (_ # _, r) \<Rightarrow> find_attr name r)"
  by pat_completeness auto
termination
proof (relation "measure (\<lambda>(name, e). length e)", goal_cases)
  case (2 name e x y r n ns)
  let ?d = "dropWhile (\<lambda>c. c_toupper c \<noteq> c_toupper (deref name)) e"
  have "x = tl ?d" using 2(1) by (simp add: after_first_def)
  then have "length x < length ?d" using 2(2) by (cases ?d) auto
  also have "\<dots> \<le> length e" by (rule length_dropWhile_le)
  finally have "length x < length e" .
  moreover have "length r \<le> length x" using match_item_length [of "tl name" x] 2(3) by (metis snd_conv)
  ultimately show ?case by simp
qed simp

declare find_attr.simps [simp del]

definition trim_spaces :: "string \<Rightarrow> string" where
  "trim_spaces s = rev (dropWhile (\<lambda>c. c = CHR '' '') (rev (dropWhile (\<lambda>c. c = CHR '' '') s)))"

definition get_header_param :: "string \<Rightarrow> string \<Rightarrow> string option" where
  "get_header_param e name =
     (case find_attr name e of None \<Rightarrow> None | Some e \<Rightarrow>
        let e = skip_space e
        in if deref e \<noteq> CHR ''='' then None
           else
             let e = skip_space (tl e);
                 value = (if \<not> isquote (deref e) then Some (takeWhile (\<lambda>c. \<not> elinks_isspace c) e)
                          else if deref e \<in> set (tl e) then Some (takeWhile (\<lambda>c. c \<noteq> deref e) (tl e))
                          else None)
             in case value of None \<Rightarrow> None | Some v \<Rightarrow>
                  let v = trim_spaces v
                  in if v = [] then None
                     else Some (map (\<lambda>c. if uchar c < 32 then CHR ''.'' else c) v))"


subsection \<open>What a message says\<close>

text \<open>A header line \<open>name: value\<close>, and a block of them.\<close>

definition crlf :: string where
  "crlf = [CR, LF]"

definition header_block :: "(string \<times> string) list \<Rightarrow> string" where
  "header_block hs = concat (map (\<lambda>(n, v). n @ '': '' @ v @ crlf) hs)"

definition field_name :: "string \<Rightarrow> bool" where
  "field_name n \<longleftrightarrow> (\<forall>c \<in> set n. c \<noteq> LF \<and> \<not> LWS c \<and> c \<noteq> CHR '':'' \<and> c \<noteq> CHR ''='')"

definition field_value :: "string \<Rightarrow> bool" where
  "field_value v \<longleftrightarrow> v \<noteq> [] \<and> (\<forall>c \<in> set v. header_value_char c) \<and> \<not> LWS (hd v) \<and> \<not> LWS (last v)"

lemma header_block_simps [simp]:
  "header_block [] = []" "header_block ((n, v) # hs) = n @ CHR '':'' # CHR '' '' # v @ CR # LF # header_block hs"
  by (simp_all add: header_block_def crlf_def)

lemma c_toupper_colon: "c_toupper c = c_toupper (CHR '':'') \<Longrightarrow> c = CHR '':''"
  by (rule char_eqI) (drule arg_cong [where f = uchar], simp only: uchar_c_toupper, auto simp: c_islower_def split: if_splits)

lemma match_item_colon:
  assumes "match_item item (n @ CHR '':'' # t) = (i, p)" "CHR '':'' \<notin> set item"
  shows "\<exists>m. p = m @ CHR '':'' # t \<and> set m \<subseteq> set n
    \<and> (i = [] \<and> m = [] \<longleftrightarrow> map c_toupper item = map c_toupper n)"
  using assms
proof (induction item n arbitrary: i p rule: list_induct2')
  case (2 x xs)
  have "c_toupper x \<noteq> c_toupper (CHR '':'')" using 2(2) c_toupper_colon by auto
  then show ?case using 2(1) by auto
next
  case (4 x xs y ys)
  show ?case
  proof (cases "c_toupper x = c_toupper y")
    case True
    then obtain m where "p = m @ CHR '':'' # t" "set m \<subseteq> set ys"
      "i = [] \<and> m = [] \<longleftrightarrow> map c_toupper xs = map c_toupper ys"
      using 4 by auto
    then show ?thesis using True by auto
  next
    case False
    then show ?thesis using 4(2) by (intro exI [of _ "y # ys"]) auto
  qed
qed auto

lemma parse_header_line: "LF \<notin> set p \<Longrightarrow> parse_header (p @ LF # r) item = parse_header (LF # r) item"
proof -
  assume "LF \<notin> set p"
  then have "dropWhile (\<lambda>c. c \<noteq> LF) (p @ LF # r) = LF # r" by (induction p) auto
  then show ?thesis by (subst (1 2) parse_header.simps) simp
qed

lemma value_char_CR: "\<not> header_value_char CR" "\<not> LWS CR" "\<not> header_value_char LF"
  by (simp_all add: header_value_char_def LWS_def schar_def)

lemma takeWhile_value: "field_value v \<Longrightarrow> takeWhile header_value_char (v @ CR # r) = v"
  "field_value v \<Longrightarrow> dropWhile header_value_char (v @ CR # r) = CR # r"
  by (auto simp: field_value_def takeWhile_append dropWhile_append3 value_char_CR takeWhile_eq_all_conv)

lemma header_value_found:
  assumes "field_value v"
  shows "header_value (CHR '':'' # CHR '' '' # v @ CR # r) = Inr (Some (v, v @ CR # r))"
proof -
  obtain c w where v: "v = c # w" "\<not> LWS c" using assms by (cases v) (auto simp: field_value_def)
  have "trim_LWS v = v"
    using assms by (cases v rule: rev_cases) (auto simp: trim_LWS_def field_value_def)
  moreover have "dropWhile LWS (v @ CR # r) = v @ CR # r" using v by simp
  moreover have "dropWhile LWS (CHR '':'' # CHR '' '' # v @ CR # r) = CHR '':'' # CHR '' '' # v @ CR # r"
    "dropWhile LWS (CHR '' '' # v @ CR # r) = v @ CR # r"
    using v by (simp_all add: LWS_def)
  ultimately show ?thesis using takeWhile_value [OF assms, of r] v(1) by (simp add: header_value_def Let_def)
qed

text \<open>A longer name than the one searched for is no match.\<close>

lemma header_value_prefix:
  assumes "field_name (c # m)"
  shows "header_value (c # m @ r) = Inl (c # m @ r)"
  using assms by (simp add: header_value_def field_name_def)

lemma parse_header_first:
  assumes "field_name item" "field_name n" "field_value v"
  shows "parse_header (LF # n @ CHR '':'' # CHR '' '' # v @ CR # LF # r) item
    = (if map c_toupper item = map c_toupper n then Some (v, v @ CR # LF # r) else parse_header (LF # r) item)"
proof -
  let ?t = "CHR '' '' # v @ CR # LF # r"
  obtain i p where m: "match_item item (n @ CHR '':'' # ?t) = (i, p)" by fastforce
  moreover have "CHR '':'' \<notin> set item" using assms(1) by (auto simp: field_name_def)
  ultimately obtain k where k: "p = k @ CHR '':'' # ?t" "set k \<subseteq> set n"
    "i = [] \<and> k = [] \<longleftrightarrow> map c_toupper item = map c_toupper n"
    using match_item_colon by blast
  have "LF \<notin> set v" using assms(3) value_char_CR(3) by (auto simp: field_value_def)
  moreover have kn: "field_name k" using k(2) assms(2) by (auto simp: field_name_def)
  ultimately have "LF \<notin> set (k @ CHR '':'' # CHR '' '' # v @ [CR])" by (auto simp: field_name_def)
  from parse_header_line [OF this, of r item] have skip: "parse_header p item = parse_header (LF # r) item"
    using k(1) by simp
  have "p \<noteq> []" using k(1) by simp
  then obtain q qs where q: "p = q # qs" by (cases p) blast+
  have step: "parse_header (LF # n @ CHR '':'' # ?t) item
      = (if i \<noteq> [] then parse_header p item
         else case header_value p of Inl pos \<Rightarrow> parse_header pos item | Inr r \<Rightarrow> r)"
    using m q by (subst parse_header.simps) (auto split: list.splits)
  show ?thesis
  proof (cases "i = []")
    case False
    then show ?thesis using step skip k(3) by simp
  next
    case i: True
    show ?thesis
    proof (cases k)
      case Nil
      then show ?thesis using step i k header_value_found [OF assms(3), of "LF # r"] by simp
    next
      case (Cons c k')
      then have "header_value p = Inl p" using header_value_prefix [of c k' "CHR '':'' # ?t"] kn k(1) by simp
      then show ?thesis using step skip i k(3) Cons by simp
    qed
  qed
qed

text \<open>
  In a message whose header lines are well-formed, \<open>parse_header\<close> finds the first line whose
  whole name is the item searched for, up to case, and no other: it returns its value, without
  the white space around it, and a position from which a further search sees exactly the lines
  behind it. When no line has this name the result is none.
\<close>

theorem parse_header_finds:
  assumes "LF \<notin> set start" "field_name item" "\<forall>(n, v) \<in> set hs. field_name n \<and> field_value v"
  shows "parse_header (start @ crlf @ header_block hs) item
    = (case dropWhile (\<lambda>(n, v). map c_toupper n \<noteq> map c_toupper item) hs of
         [] \<Rightarrow> None
       | (n, v) # hs' \<Rightarrow> Some (v, v @ crlf @ header_block hs'))"
proof -
  have "parse_header (LF # header_block hs) item
    = (case dropWhile (\<lambda>(n, v). map c_toupper n \<noteq> map c_toupper item) hs of
         [] \<Rightarrow> None
       | (n, v) # hs' \<Rightarrow> Some (v, v @ crlf @ header_block hs'))"
    using assms(3)
  proof (induction hs)
    case Nil
    have "match_item item [] = (item, [])" by (cases item) simp_all
    then show ?case by (subst parse_header.simps) (simp split: list.split)
  next
    case (Cons h hs)
    obtain n v where h: "h = (n, v)" by fastforce
    then show ?case
      using Cons parse_header_first [OF assms(2), of n v "header_block hs"] by (auto simp: crlf_def)
  qed
  moreover have "LF \<notin> set (start @ [CR])" using assms(1) by simp
  ultimately show ?thesis using parse_header_line [of "start @ [CR]"] by (simp add: crlf_def)
qed

theorem parse_header_finds_witness:
  "parse_header (''HTTP/1.1 200 OK'' @ crlf @ header_block [(''Set'', ''no''), (''Set-Cookie'', ''a=b; c'')]) ''set-cookie''
    = Some (''a=b; c'', ''a=b; c'' @ crlf)"
  using parse_header_finds [of "''HTTP/1.1 200 OK''" "''set-cookie''" "[(''Set'', ''no''), (''Set-Cookie'', ''a=b; c'')]"]
  by (simp add: field_name_def field_value_def header_value_char_def LWS_def schar_def c_toupper_def char_of_def bit_0)

text \<open>
  A byte above 127 is negative as a \<open>char\<close>, so it ends the value as a control character would and
  the whole line is ignored. In \<open>parse_header_param\<close>, any parameter whose name merely begins with
  the name asked for is taken for it.
\<close>

lemma header_high_byte_ignored: "parse_header [LF, CHR ''a'', CHR '':'', CHR 0xE9, CR, LF] ''a'' = None"
proof -
  have "header_value [CHR '':'', CHR 0xE9, CR, LF] = Inl [CHR 0xE9, CR, LF]"
    by (simp add: header_value_def LWS_def header_value_char_def schar_def)
  then show ?thesis by (simp add: parse_header.simps)
qed

lemma param_prefix_taken: "parse_header_param ''a=b; secureless'' ''secure'' False = Some ''less''"
  by (simp add: parse_header_param_def find_param.simps param_gap_def param_value_def param_char_def LWS_def schar_def
      c_tolower_def trim_LWS_def drop_quotes.simps numeral_eq_Suc Let_def)

end
