(* ===== verification/Cookies.thy ===== *)
theory Cookies
  imports Header Date Uri_String Conv_Text
begin

text \<open>
  The cookie jar: \<open>src/cookies/cookies.c\<close>, \<open>parser.c\<close> and \<open>path.c\<close>, with the operations of
  \<open>dialogs.c\<close> that change it. The lists are lists, first element first. A \<open>struct cookie_server\<close>
  is an entry of the list of servers, its host with its count of locks; a cookie refers to it by
  its host, since \<open>get_cookie_server\<close> keeps one entry for each host up to case. Cookies that an
  open message box owns are in \<open>asked\<close>. Options, the clock, the address test \<open>is_ip\<close>
  (\<open>is_ip_address\<close>, which calls \<open>inet_pton\<close>) and \<open>idn\<close> (the conversion of host names) are
  parameters; the list box of the user interface and the registration of the bottom half that
  saves the file are not modelled. \<open>None\<close> as a result of \<open>set_cookie\<close> is the undefined overflow of
  \<open>parse_date\<close>.
\<close>

record cookie =
  cname :: string
  cvalue :: string
  cpath :: string
  cdomain :: string
  cserver :: string
  expires :: int
  secure :: bool
  httponly :: bool

record jar =
  cookies :: "cookie list"
  cookie_queries :: "cookie list"
  asked :: "cookie list"
  c_domains :: "string list"
  cookie_servers :: "(string \<times> nat) list"
  cookies_dirty :: bool
  cookies_nosave :: bool

datatype cookies_accept = COOKIES_ACCEPT_NONE | COOKIES_ACCEPT_ASK | COOKIES_ACCEPT_ALL

record cookie_options =
  accept_policy :: cookies_accept
  max_age :: int
  paranoid_security :: bool

subsection \<open>Parsing\<close>

definition trim_isspace :: "string \<Rightarrow> string" where
  "trim_isspace s = rev (dropWhile elinks_isspace (rev s))"

text \<open>The name and the value; \<open>None\<close> is the result \<open>NULL\<close>.\<close>

definition parse_cookie_str :: "string \<Rightarrow> (string \<times> string) option" where
  "parse_cookie_str str =
     (let token = (\<lambda>c. c \<noteq> CHR '';'' \<and> c \<noteq> CHR ''='' \<and> \<not> elinks_isspace c);
          name = takeWhile token str
      in if name = [] then None
         else
           let str = skip_space (dropWhile token str)
           in if str = [] \<or> hd str = CHR '';'' then Some (name, [])
              else if hd str = CHR ''='' then
                let str = skip_space (dropWhile (\<lambda>c. c = CHR ''='') str)
                in Some (name, trim_isspace (takeWhile (\<lambda>c. c \<noteq> CHR '';'') str))
              else None)"

definition is_path_prefix :: "string \<Rightarrow> string \<Rightarrow> bool" where
  "is_path_prefix cookiepath requestpath \<longleftrightarrow>
     (let dl = length cookiepath
      in dl = 0 \<or> take dl requestpath = cookiepath
           \<and> (char_at cookiepath (dl - 1) = CHR ''/'' \<or> char_at requestpath dl = CHR ''/'' \<or> char_at requestpath dl = NUL))"

subsection \<open>Servers\<close>

definition server_is :: "string \<Rightarrow> string \<Rightarrow> bool" where
  "server_is hname cs \<longleftrightarrow> c_strncasecmp cs hname (length hname) = 0 \<and> length cs = length hname"

definition sorts_after :: "string \<Rightarrow> string \<Rightarrow> bool" where
  "sorts_after hname cs \<longleftrightarrow>
     (let cmp = c_strncasecmp cs hname (length hname)
      in cmp > 0 \<or> cmp = 0 \<and> length cs > length hname)"

fun lock_server :: "string \<Rightarrow> (string \<times> nat) list \<Rightarrow> (string \<times> (string \<times> nat) list) option" where
  "lock_server hname [] = None"
| "lock_server hname ((cs, n) # ss) =
     (if server_is hname cs then Some (cs, (cs, n + 1) # ss)
      else map_option (\<lambda>(h, ss). (h, (cs, n) # ss)) (lock_server hname ss))"

fun insert_server :: "string \<Rightarrow> (string \<times> nat) list \<Rightarrow> (string \<times> nat) list" where
  "insert_server hname [] = [(hname, 1)]"
| "insert_server hname ((cs, n) # ss) =
     (if sorts_after hname cs then (hname, 1) # (cs, n) # ss else (cs, n) # insert_server hname ss)"

definition acquire_server :: "string \<Rightarrow> (string \<times> nat) list \<Rightarrow> string \<times> (string \<times> nat) list" where
  "acquire_server hname ss =
     (case lock_server hname ss of Some r \<Rightarrow> r | None \<Rightarrow> (hname, insert_server hname ss))"

definition get_cookie_server :: "string \<Rightarrow> jar \<Rightarrow> string \<times> jar" where
  "get_cookie_server hname j =
     (let (cs, ss) = acquire_server hname (cookie_servers j) in (cs, j\<lparr>cookie_servers := ss\<rparr>))"

fun unlock_server :: "string \<Rightarrow> (string \<times> nat) list \<Rightarrow> (string \<times> nat) list" where
  "unlock_server cs [] = []"
| "unlock_server cs ((h, n) # ss) =
     (if h = cs then (if n - 1 > 0 then (h, n - 1) # ss else ss) else (h, n) # unlock_server cs ss)"

definition done_cookie_server :: "string \<Rightarrow> jar \<Rightarrow> jar" where
  "done_cookie_server cs j = j\<lparr>cookie_servers := unlock_server cs (cookie_servers j)\<rparr>"

definition done_cookie :: "cookie \<Rightarrow> jar \<Rightarrow> jar" where
  "done_cookie c j = done_cookie_server (cserver c) j"

definition set_cookies_dirty :: "jar \<Rightarrow> jar" where
  "set_cookies_dirty j = j\<lparr>cookies_dirty := True\<rparr>"

subsection \<open>Security of the domain\<close>

text \<open>The loop over the dots of the domain: how many are still needed.\<close>

fun dots_needed :: "string \<Rightarrow> nat \<Rightarrow> nat" where
  "dots_needed [] n = n"
| "dots_needed (c # s) n = (if c = CHR ''.'' then (if n - 1 = 0 then 0 else dots_needed s (n - 1)) else dots_needed s n)"

definition is_domain_security_ok :: "(string \<Rightarrow> bool) \<Rightarrow> bool \<Rightarrow> string \<Rightarrow> string \<Rightarrow> bool" where
  "is_domain_security_ok is_ip paranoid domain server =
     (let domain = (if deref domain = CHR ''.'' then tl domain else domain);
          domain_len = length domain;
          server_len = length server
      in if domain_len > server_len then False
         else if c_strncasecmp domain (drop (server_len - domain_len) server) domain_len \<noteq> 0 then False
         else if server_len = domain_len then True
         else if is_ip server then False
         else
           let need_dots =
                 (if paranoid then
                    (if domain_len > 0 then
                       let pos = end_with_known_tld domain (int domain_len)
                       in if pos \<ge> 1 \<and> char_at domain (nat (pos - 1)) = CHR ''.'' then 1 else 2
                     else 2)
                  else 1)
           in dots_needed domain need_dots = 0)"

subsection \<open>Accepting\<close>

text \<open>\<open>accept_cookie\<close>: the cookies it replaces, and the loop that deletes them.\<close>

definition same_cookie :: "cookie \<Rightarrow> cookie \<Rightarrow> bool" where
  "same_cookie cookie c \<longleftrightarrow>
     c_strcasecmp (cname c) (cname cookie) = 0 \<and> c_strcasecmp (cdomain c) (cdomain cookie) = 0"

fun delete_where :: "(cookie \<Rightarrow> bool) \<Rightarrow> cookie list \<Rightarrow> jar \<Rightarrow> cookie list \<times> jar" where
  "delete_where P [] j = ([], j)"
| "delete_where P (c # cs) j =
     (if P c then delete_where P cs (done_cookie c j)
      else let (kept, j) = delete_where P cs j in (c # kept, j))"

definition accept_cookie :: "cookie \<Rightarrow> jar \<Rightarrow> jar" where
  "accept_cookie cookie j =
     (let j = (if cookies_nosave j then j
               else let (kept, j) = delete_where (same_cookie cookie) (cookies j) j in j\<lparr>cookies := kept\<rparr>);
          j = set_cookies_dirty (j\<lparr>cookies := cookie # cookies j\<rparr>)
      in if \<exists>cd \<in> set (c_domains j). c_strcasecmp cd (cdomain cookie) = 0 then j
         else j\<lparr>c_domains := cdomain cookie # c_domains j\<rparr>)"

text \<open>The path and the domain \<open>set_cookie\<close> gives a cookie before it checks them.\<close>

definition cookie_path :: "(string \<Rightarrow> string option) \<Rightarrow> uri \<Rightarrow> string \<Rightarrow> string" where
  "cookie_path idn u str =
     (case parse_header_param str ''path'' False of
        Some path \<Rightarrow>
          let path = (if path = [] then ''/'' else path)
          in if hd path \<noteq> CHR ''/'' then CHR ''/'' # path else path
      | None \<Rightarrow>
          let path = get_uri_string idn u URI_PATH
          in if CHR ''/'' \<in> set path
             then take (length path - 1 - length (takeWhile (\<lambda>c. c \<noteq> CHR ''/'') (rev path))) path
             else path)"

definition cookie_domain :: "string \<Rightarrow> string \<Rightarrow> string" where
  "cookie_domain hname str =
     (let domain = (case parse_header_param str ''domain'' False of Some d \<Rightarrow> d | None \<Rightarrow> hname)
      in if deref domain = CHR ''.'' then tl domain else domain)"

definition cookie_expires :: "cookie_options \<Rightarrow> int \<Rightarrow> string \<Rightarrow> int option" where
  "cookie_expires opts now str =
     (if max_age opts = 0 then Some 0
      else case parse_header_param str ''expires'' False of
        None \<Rightarrow> Some 0
      | Some date \<Rightarrow>
          (case fst (parse_date (date, None) False True) of
             None \<Rightarrow> None
           | Some e \<Rightarrow>
               if e \<noteq> 0 \<and> max_age opts > 0 then
                 let deadline = now + max_age opts * 24 * 3600
                 in Some (if e > deadline then deadline else e)
               else Some e))"

definition set_cookie ::
  "(string \<Rightarrow> bool) \<Rightarrow> (string \<Rightarrow> string option) \<Rightarrow> cookie_options \<Rightarrow> int \<Rightarrow> uri \<Rightarrow> string \<Rightarrow> jar \<Rightarrow> jar option" where
  "set_cookie is_ip idn opts now u str j =
     (if accept_policy opts = COOKIES_ACCEPT_NONE then Some j
      else case parse_cookie_str str of
        None \<Rightarrow> Some j
      | Some (name, value) \<Rightarrow>
          let hname = part u (uri.host u) (hostlen u);
              path = cookie_path idn u str;
              domain = cookie_domain hname str;
              (server, j) = get_cookie_server hname j
          in case cookie_expires opts now str of
               None \<Rightarrow> None
             | Some e \<Rightarrow>
                 let c = \<lparr>cname = name, cvalue = value, cpath = path, cdomain = domain, cserver = server,
                         expires = e, secure = (parse_header_param str ''secure'' False \<noteq> None),
                         httponly = (parse_header_param str ''httponly'' False \<noteq> None)\<rparr>;
                     c = (if \<not> is_domain_security_ok is_ip (paranoid_security opts) (cdomain c) hname
                          then c\<lparr>cdomain := hname\<rparr> else c)
                 in if accept_policy opts = COOKIES_ACCEPT_ASK
                    then Some (j\<lparr>cookie_queries := c # cookie_queries j\<rparr>)
                    else Some (accept_cookie c j))"

subsection \<open>Sending\<close>

text \<open>The loop of \<open>send_cookies_common\<close>: the header, the cookies that stay, and the jar.\<close>

fun send_loop ::
  "string \<Rightarrow> string \<Rightarrow> int \<Rightarrow> bool \<Rightarrow> bool \<Rightarrow> string \<Rightarrow> cookie list \<Rightarrow> jar \<Rightarrow> string \<times> cookie list \<times> jar" where
  "send_loop hname path now https js header [] j = (header, [], j)"
| "send_loop hname path now https js header (c # cs) j =
     (if \<not> is_in_domain (cdomain c) hname (length hname) \<or> \<not> is_path_prefix (cpath c) path
      then let (h, kept, j) = send_loop hname path now https js header cs j in (h, c # kept, j)
      else if expires c \<noteq> 0 \<and> expires c \<le> now
      then send_loop hname path now https js header cs (set_cookies_dirty (done_cookie c j))
      else if secure c \<and> \<not> https \<or> httponly c \<and> js
      then let (h, kept, j) = send_loop hname path now https js header cs j in (h, c # kept, j)
      else
        let header = (if header \<noteq> [] then header @ ''; '' else header) @ cname c @ ''='' @ cvalue c;
            (h, kept, j) = send_loop hname path now https js header cs j
        in (h, c # kept, j))"

definition send_cookies_common :: "(string \<Rightarrow> string option) \<Rightarrow> int \<Rightarrow> uri \<Rightarrow> bool \<Rightarrow> jar \<Rightarrow> string option \<times> jar" where
  "send_cookies_common idn now u js j =
     (if uri.host u = None \<or> data u = None then (None, j)
      else
        let hname = part u (uri.host u) (hostlen u)
        in if \<not> (\<exists>cd \<in> set (c_domains j). is_in_domain cd hname (length hname)) then (None, j)
           else
             let path = get_uri_string idn u URI_PATH;
                 (header, kept, j) = send_loop hname path now (protocol u = PROTOCOL_HTTPS) js [] (cookies j) j;
                 j = j\<lparr>cookies := kept\<rparr>
             in (if header = [] then None else Some header, j))"

definition send_cookies where "send_cookies idn now u = send_cookies_common idn now u False"

definition send_cookies_js where "send_cookies_js idn now u = send_cookies_common idn now u True"


subsection \<open>The operations of the dialogs\<close>

text \<open>\<open>accept_cookie_dialog\<close> and the two buttons of its message box.\<close>

definition accept_cookie_dialog :: "jar \<Rightarrow> jar" where
  "accept_cookie_dialog j =
     (case cookie_queries j of [] \<Rightarrow> j | c # cs \<Rightarrow> j\<lparr>cookie_queries := cs, asked := c # asked j\<rparr>)"

definition take_nth :: "nat \<Rightarrow> 'a list \<Rightarrow> 'a list" where
  "take_nth k xs = take k xs @ drop (Suc k) xs"

definition accept_cookie_in_msg_box :: "nat \<Rightarrow> jar \<Rightarrow> jar" where
  "accept_cookie_in_msg_box k j = accept_cookie (asked j ! k) (j\<lparr>asked := take_nth k (asked j)\<rparr>)"

definition reject_cookie_in_msg_box :: "nat \<Rightarrow> jar \<Rightarrow> jar" where
  "reject_cookie_in_msg_box k j = done_cookie (asked j ! k) (j\<lparr>asked := take_nth k (asked j)\<rparr>)"

definition delete_cookie :: "nat \<Rightarrow> jar \<Rightarrow> jar" where
  "delete_cookie k j = done_cookie (cookies j ! k) (j\<lparr>cookies := take_nth k (cookies j)\<rparr>)"

definition delete_cookie_item :: "nat \<Rightarrow> jar \<Rightarrow> jar" where
  "delete_cookie_item k j = set_cookies_dirty (delete_cookie k j)"

text \<open>
  The fields of the dialog that edits a cookie. \<open>strptime\<close> is what \<open>strptime\<close> with the option
  \<open>ui.date_format\<close>, and \<open>mktime\<close>, make of a text, or \<open>None\<close> if it does not fit the format.
\<close>

definition edit_cookie :: "nat \<Rightarrow> (cookie \<Rightarrow> cookie) \<Rightarrow> jar \<Rightarrow> jar" where
  "edit_cookie k f j = set_cookies_dirty (j\<lparr>cookies := (cookies j)[k := f (cookies j ! k)]\<rparr>)"

definition set_cookie_name :: "nat \<Rightarrow> string \<Rightarrow> jar \<Rightarrow> jar" where
  "set_cookie_name k v j = edit_cookie k (\<lambda>c. c\<lparr>cname := v\<rparr>) j"

definition set_cookie_value :: "nat \<Rightarrow> string \<Rightarrow> jar \<Rightarrow> jar" where
  "set_cookie_value k v j = edit_cookie k (\<lambda>c. c\<lparr>cvalue := v\<rparr>) j"

definition set_cookie_domain :: "nat \<Rightarrow> string \<Rightarrow> jar \<Rightarrow> jar" where
  "set_cookie_domain k v j = edit_cookie k (\<lambda>c. c\<lparr>cdomain := v\<rparr>) j"

definition set_cookie_expires :: "(string \<Rightarrow> int option) \<Rightarrow> nat \<Rightarrow> string \<Rightarrow> jar \<Rightarrow> jar" where
  "set_cookie_expires strptime k v j =
     (case strptime v of None \<Rightarrow> j | Some e \<Rightarrow> edit_cookie k (\<lambda>c. c\<lparr>expires := e\<rparr>) j)"

definition set_cookie_secure :: "nat \<Rightarrow> string \<Rightarrow> jar \<Rightarrow> jar" where
  "set_cookie_secure k v j =
     (case strtol10 v of (number, endp, err) \<Rightarrow>
        if err \<or> deref endp \<noteq> NUL then j else edit_cookie k (\<lambda>c. c\<lparr>secure := (number \<noteq> 0)\<rparr>) j)"

definition set_cookie_httponly :: "nat \<Rightarrow> string \<Rightarrow> jar \<Rightarrow> jar" where
  "set_cookie_httponly k v j =
     (case strtol10 v of (number, endp, err) \<Rightarrow>
        if err \<or> deref endp \<noteq> NUL then j else edit_cookie k (\<lambda>c. c\<lparr>httponly := (number \<noteq> 0)\<rparr>) j)"

definition add_server_do :: "string \<Rightarrow> jar \<Rightarrow> jar" where
  "add_server_do v j =
     (let (server, j) = get_cookie_server v j
      in accept_cookie \<lparr>cname = ''empty'', cvalue = ''1'', cpath = ''/'', cdomain = v, cserver = server,
           expires = 0, secure = False, httponly = False\<rparr> j)"

text \<open>
  The button to add a cookie, with the \<open>i\<close>-th server selected (or a cookie of it): the empty cookie
  takes over the reference of \<open>object_lock\<close>. Then the dialog to edit it opens.
\<close>

definition push_add_button :: "nat \<Rightarrow> jar \<Rightarrow> jar" where
  "push_add_button i j =
     (let (server, n) = cookie_servers j ! i;
          j = j\<lparr>cookie_servers := (cookie_servers j)[i := (server, n + 1)]\<rparr>
      in accept_cookie \<lparr>cname = [], cvalue = [], cpath = ''/'', cdomain = server, cserver = server,
           expires = 0, secure = False, httponly = False\<rparr> j)"

subsection \<open>The file\<close>

definition cookie_line :: "cookie \<Rightarrow> string" where
  "cookie_line c =
     cname c @ [TAB] @ cvalue c @ [TAB] @ cserver c @ [TAB] @ cpath c @ [TAB] @ cdomain c @ [TAB]
       @ print_long (expires c) @ [TAB] @ (if secure c then ''1'' else ''0'') @ [TAB]
       @ (if httponly c then ''1'' else ''0'') @ [LF]"

text \<open>The text \<open>save_cookies\<close> writes when no guard stops it and every write succeeds.\<close>

definition save_cookies :: "int \<Rightarrow> jar \<Rightarrow> string" where
  "save_cookies now j =
     concat (map cookie_line (filter (\<lambda>c. \<not> (expires c = 0 \<or> expires c \<le> now)) (cookies j)))"

text \<open>\<open>fgets\<close>: at most \<open>n - 1\<close> bytes, up to and with the end of the line.\<close>

function fgets_lines :: "nat \<Rightarrow> string \<Rightarrow> string list" where
  "fgets_lines n s =
     (if s = [] \<or> n \<le> 1 then []
      else let k = min (n - 1) (Suc (length (takeWhile (\<lambda>c. c \<noteq> LF) s)))
           in take k s # fgets_lines n (drop k s))"
  by pat_completeness auto
termination by (relation "measure (\<lambda>(n, s). length s)") (auto simp: Let_def)

declare fgets_lines.simps [simp del]

text \<open>
  The members of a line: as many as the loop finds, with the rest of the line from each. The last
  of the eight may end with the line.
\<close>

fun split_members :: "nat \<Rightarrow> nat \<Rightarrow> string \<Rightarrow> (string \<times> string) list" where
  "split_members 0 member q = []"
| "split_members (Suc k) member q =
     (case strchr q TAB of
        Some p \<Rightarrow> (take p q, q) # split_members k (member + 1) (drop (p + 1) q)
      | None \<Rightarrow>
          if member + 1 \<noteq> 8 then []
          else case strchr q LF of
            None \<Rightarrow> []
          | Some p \<Rightarrow> (take p q, q) # split_members k (member + 1) (drop (p + 1) q))"

definition load_line :: "int \<Rightarrow> string \<Rightarrow> jar \<Rightarrow> jar" where
  "load_line now line j =
     (let members = split_members 8 0 line;
          member = length members
      in if member \<noteq> 7 \<and> member \<noteq> 8 then j
         else
           let e = atol (snd (members ! 5))
           in if e = 0 \<or> e \<le> now then set_cookies_dirty j
              else
                let (server, j) = get_cookie_server (fst (members ! 2)) j
                in accept_cookie \<lparr>cname = fst (members ! 0), cvalue = fst (members ! 1), cpath = fst (members ! 3),
                     cdomain = fst (members ! 4), cserver = server, expires = e,
                     secure = (atol (snd (members ! 6)) \<noteq> 0),
                     httponly = (member = 8 \<and> atol (snd (members ! 7)) \<noteq> 0)\<rparr> j)"

text \<open>\<open>free_cookies_list\<close> and \<open>done_cookies\<close> as \<open>load_cookies\<close> calls it, without a save.\<close>

definition free_cookies_list :: "cookie list \<Rightarrow> jar \<Rightarrow> jar" where
  "free_cookies_list cs j = fold done_cookie cs j"

definition done_cookies :: "jar \<Rightarrow> jar" where
  "done_cookies j =
     (let j = j\<lparr>c_domains := []\<rparr>;
          j = (free_cookies_list (cookies j) j)\<lparr>cookies := []\<rparr>;
          j = (free_cookies_list (cookie_queries j) j)\<lparr>cookie_queries := []\<rparr>
      in j\<lparr>cookies_dirty := False\<rparr>)"

text \<open>\<open>None\<close> is a file that cannot be opened. The buffer holds \<open>6 * MAX_STR_LEN\<close> bytes.\<close>

definition load_cookies :: "int \<Rightarrow> string option \<Rightarrow> jar \<Rightarrow> jar" where
  "load_cookies now file j =
     (let j = (done_cookies (j\<lparr>cookies_nosave := True\<rparr>))\<lparr>cookies_nosave := False\<rparr>
      in case file of
           None \<Rightarrow> j
         | Some text \<Rightarrow>
             (fold (load_line now) (fgets_lines (6 * 1024) text) (j\<lparr>cookies_nosave := True\<rparr>))\<lparr>cookies_nosave := False\<rparr>)"

end
