(* ===== verification/Refcount.thy ===== *)
theory Refcount
  imports Prelude "HOL-Library.Multiset"
begin

text \<open>
  The interface of a store of shared, reference counted objects: \<open>acquire\<close> finds or makes the object
  for a key and counts one more reference, \<open>release\<close> counts one less and drops the object with the
  last. The client keeps a collection of owners, each of which refers to one object; the lemmas say
  that the store stays in step with the collection.
\<close>

definition refs_of :: "('c \<Rightarrow> 'k) \<Rightarrow> 'c list \<Rightarrow> 'k \<Rightarrow> nat" where
  "refs_of owner cs k = length (filter (\<lambda>c. owner c = k) cs)"

lemma refs_of_Nil [simp]: "refs_of owner [] = (\<lambda>k. 0)"
  by (auto simp: refs_of_def)

lemma refs_of_Cons: "refs_of owner (c # cs) = (refs_of owner cs)(owner c := refs_of owner cs (owner c) + 1)"
  by (auto simp: refs_of_def)

lemma refs_of_append [simp]: "refs_of owner (xs @ ys) k = refs_of owner xs k + refs_of owner ys k"
  by (simp add: refs_of_def)

lemma refs_of_mset: "mset xs = mset ys \<Longrightarrow> refs_of owner xs = refs_of owner ys"
proof
  fix k
  assume "mset xs = mset ys"
  then have "size (filter_mset (\<lambda>c. owner c = k) (mset xs)) = size (filter_mset (\<lambda>c. owner c = k) (mset ys))" by simp
  then show "refs_of owner xs k = refs_of owner ys k" unfolding refs_of_def by (metis mset_filter size_mset)
qed

locale refcounted =
  fixes inv :: "'s \<Rightarrow> ('k \<Rightarrow> nat) \<Rightarrow> bool"
    and acquire :: "'k \<Rightarrow> 's \<Rightarrow> 'k \<times> 's"
    and release :: "'k \<Rightarrow> 's \<Rightarrow> 's"
    and valid :: "'k \<Rightarrow> bool"
    and same :: "'k \<Rightarrow> 'k \<Rightarrow> bool"
    and owner :: "'c \<Rightarrow> 'k"
  assumes acquired: "inv s R \<Longrightarrow> valid k \<Longrightarrow> acquire k s = (k', s') \<Longrightarrow>
      inv s' (R(k' := R k' + 1)) \<and> same k' k \<and> valid k'"
    and released: "inv s R \<Longrightarrow> 0 < R k \<Longrightarrow> inv (release k s) (R(k := R k - 1))"
begin

lemma acquire_owner:
  "inv s (refs_of owner cs) \<Longrightarrow> valid k \<Longrightarrow> acquire k s = (k', s') \<Longrightarrow> owner c = k' \<Longrightarrow>
     inv s' (refs_of owner (c # cs)) \<and> same k' k"
  using acquired [of s "refs_of owner cs" k k' s'] by (simp add: refs_of_Cons)

lemma release_owner: "inv s (refs_of owner (c # cs)) \<Longrightarrow> inv (release (owner c) s) (refs_of owner cs)"
  using released [of s "refs_of owner (c # cs)" "owner c"] by (simp add: refs_of_Cons)

lemma release_all:
  "inv s (refs_of owner (cs @ rest)) \<Longrightarrow> inv (fold (\<lambda>c. release (owner c)) cs s) (refs_of owner rest)"
proof (induction cs arbitrary: s)
  case (Cons c cs)
  have "inv (release (owner c) s) (refs_of owner (cs @ rest))" using Cons.prems release_owner [of s c "cs @ rest"] by simp
  from Cons.IH [OF this] show ?case by simp
qed simp

lemma release_where:
  "inv s (refs_of owner (cs @ rest)) \<Longrightarrow>
     inv (fold (\<lambda>c. release (owner c)) (filter P cs) s) (refs_of owner (filter (\<lambda>c. \<not> P c) cs @ rest))"
proof -
  have "mset (cs @ rest) = mset (filter P cs @ (filter (\<lambda>c. \<not> P c) cs @ rest))"
    by (simp add: multiset_partition [symmetric] union_assoc [symmetric])
  then show "inv s (refs_of owner (cs @ rest)) \<Longrightarrow> ?thesis"
    using release_all [of s "filter P cs" "filter (\<lambda>c. \<not> P c) cs @ rest"] refs_of_mset by metis
qed

end

end
