(* ===== verification/Cookie_Jar.thy ===== *)
theory Cookie_Jar
  imports Cookies Refcount "HOL-Library.List_Lexorder"
begin

text \<open>
  The consistency of the cookie jar: its list of servers is sorted, holds every server once, and
  counts for each the cookies that refer to it, wherever they are; and \<open>c_domains\<close>, which lets
  \<open>send_cookies\<close> give up early, knows the domain of every cookie unless the user edits one.
\<close>

subsection \<open>The order of servers\<close>

definition key :: "string \<Rightarrow> nat list" where
  "key s = map (\<lambda>c. uchar (c_tolower c)) s"

lemma key_eq_iff: "key s = key t \<longleftrightarrow> lower s = lower t"
  by (induction s t rule: list_induct2') (auto simp: key_def lower_def)

lemma c_strncasecmp_key:
  "cstring s \<Longrightarrow> cstring t \<Longrightarrow>
     (c_strncasecmp s t (length t) > 0 \<or> c_strncasecmp s t (length t) = 0 \<and> length s > length t \<longleftrightarrow> key t < key s)
     \<and> (c_strncasecmp s t (length t) = 0 \<and> length s = length t \<longleftrightarrow> key s = key t)"
proof (induction t arbitrary: s)
  case Nil
  then show ?case by (cases s) (auto simp: key_def)
next
  case (Cons b t)
  show ?case
  proof (cases s)
    case Nil
    then show ?thesis using Cons.prems by (auto simp: key_def Let_def)
  next
    case (Cons a u)
    have "uchar (c_tolower a) = uchar (c_tolower b) \<longleftrightarrow> c_tolower a = c_tolower b" by (rule of_char_eq_iff)
    then show ?thesis using Cons Cons.prems Cons.IH [of u] by (auto simp: key_def Let_def)
  qed
qed

definition counts :: "(string \<times> nat) list \<Rightarrow> (string \<Rightarrow> nat) \<Rightarrow> bool" where
  "counts ss R \<longleftrightarrow> sorted_wrt (<) (map (\<lambda>s. key (fst s)) ss) \<and> (\<forall>s \<in> set ss. cstring (fst s))
     \<and> (\<forall>h. map_of ss h = (if R h = 0 then None else Some (R h)))"

lemma server_is_key: "cstring h \<Longrightarrow> cstring cs \<Longrightarrow> server_is h cs \<longleftrightarrow> key cs = key h"
  using c_strncasecmp_key [of cs h] by (simp add: server_is_def)

lemma sorts_after_key: "cstring h \<Longrightarrow> cstring cs \<Longrightarrow> sorts_after h cs \<longleftrightarrow> key h < key cs"
  using c_strncasecmp_key [of cs h] by (simp add: sorts_after_def Let_def)

lemma lock_server_Some:
  "lock_server h ss = Some (cs, ss') \<Longrightarrow> distinct (map fst ss) \<Longrightarrow>
     server_is h cs \<and> map fst ss' = map fst ss
     \<and> (\<exists>n. map_of ss cs = Some n \<and> map_of ss' = (map_of ss)(cs \<mapsto> n + 1))"
proof (induction ss arbitrary: ss')
  case (Cons s ss)
  obtain c n where s: "s = (c, n)" by fastforce
  show ?case
  proof (cases "server_is h c")
    case True
    then show ?thesis using Cons.prems s by auto
  next
    case False
    then obtain ss2 where l: "lock_server h ss = Some (cs, ss2)" "ss' = (c, n) # ss2" using Cons.prems(1) s by auto
    moreover have "cs \<noteq> c" using False Cons.IH [OF l(1)] Cons.prems(2) s by auto
    ultimately show ?thesis using Cons.IH [OF l(1)] Cons.prems(2) s by (fastforce simp: fun_eq_iff)
  qed
qed simp

lemma lock_server_None: "lock_server h ss = None \<Longrightarrow> s \<in> set ss \<Longrightarrow> \<not> server_is h (fst s)"
  by (induction ss) (auto split: if_splits)

lemma insert_server_map:
  "h \<notin> fst ` set ss \<Longrightarrow> map_of (insert_server h ss) = (map_of ss)(h \<mapsto> 1) \<and> set (insert_server h ss) = insert (h, 1) (set ss)"
  by (induction h ss rule: insert_server.induct) auto

lemma insert_server_sorted:
  assumes "sorted_wrt (<) (map (\<lambda>s. key (fst s)) ss)" "\<forall>s \<in> set ss. cstring (fst s) \<and> key (fst s) \<noteq> key h"
    "cstring h" "h \<notin> fst ` set ss"
  shows "sorted_wrt (<) (map (\<lambda>s. key (fst s)) (insert_server h ss))"
  using assms
proof (induction h ss rule: insert_server.induct)
  case (2 h cs n ss)
  show ?case
  proof (cases "key h < key cs")
    case True
    then show ?thesis using 2 sorts_after_key [of h cs] by auto
  next
    case False
    then have "key cs < key h" using 2(3) by auto
    then show ?thesis using False 2 sorts_after_key [of h cs] insert_server_map [of h ss] by auto
  qed
qed simp

lemma counts_keys:
  assumes "counts ss R"
  shows "distinct (map fst ss)" "inj_on (\<lambda>s. key (fst s)) (set ss)"
proof -
  have "distinct (map (\<lambda>s. key (fst s)) ss)"
    using assms by (simp add: counts_def strict_sorted_iff)
  then show "distinct (map fst ss)" "inj_on (\<lambda>s. key (fst s)) (set ss)"
    by (auto simp: distinct_map inj_on_def)
qed

lemma counts_get:
  assumes "counts ss R" "cstring h" "acquire_server h ss = (cs, ss')"
  shows "counts ss' (R(cs := R cs + 1)) \<and> lower cs = lower h \<and> cstring cs"
proof (cases "lock_server h ss")
  case None
  have k: "\<forall>s \<in> set ss. cstring (fst s) \<and> key (fst s) \<noteq> key h"
    using lock_server_None [OF None] assms(1,2) server_is_key by (auto simp: counts_def)
  then have n: "h \<notin> fst ` set ss" by auto
  then have "map_of ss h = None" by (simp add: map_of_eq_None_iff)
  then have R: "R h = 0" using assms(1) by (auto simp: counts_def split: if_splits)
  have "cs = h" "ss' = insert_server h ss"
    using assms(3) None by (auto simp: acquire_server_def)
  then show ?thesis
    using assms(1,2) insert_server_map [OF n] insert_server_sorted [OF _ k assms(2) n] R
    by (auto simp: counts_def)
next
  case (Some r)
  have r: "lock_server h ss = Some (cs, ss')" using Some assms(3) by (simp add: acquire_server_def)
  obtain n where l: "server_is h cs" "map fst ss' = map fst ss" "map_of ss cs = Some n"
    "map_of ss' = (map_of ss)(cs \<mapsto> n + 1)"
    using lock_server_Some [OF r] counts_keys [OF assms(1)] by auto
  have R: "R cs = n" "0 < n" using l(3) assms(1) by (auto simp: counts_def split: if_splits)
  have c: "cstring cs" using map_of_SomeD [OF l(3)] assms(1) by (auto simp: counts_def)
  have "map (\<lambda>s. key (fst s)) ss' = map (\<lambda>s. key (fst s)) ss"
    using arg_cong [OF l(2), of "map key"] by (simp add: comp_def)
  moreover have "fst ` set ss' = fst ` set ss" using l(2) by (metis list.set_map)
  moreover have "\<forall>h \<in> fst ` set ss. cstring h" using assms(1) by (simp add: counts_def)
  ultimately have "counts ss' (R(cs := R cs + 1))"
    using assms(1) l(4) R unfolding counts_def by (metis (no_types, lifting) Suc_eq_plus1 fun_upd_apply imageI nat.distinct(1))
  moreover have "lower cs = lower h" using l(1) c assms(2) server_is_key key_eq_iff by blast
  ultimately show ?thesis using c by auto
qed

lemma unlock_server_map:
  "distinct (map fst ss) \<Longrightarrow> map_of ss cs = Some n \<Longrightarrow>
     map_of (unlock_server cs ss) = (map_of ss)(cs := (if n - 1 > 0 then Some (n - 1) else None))"
proof (induction ss)
  case (Cons s ss)
  obtain h m where s: "s = (h, m)" by fastforce
  have "h = cs \<Longrightarrow> map_of ss cs = None" using Cons.prems(1) s by (auto simp: map_of_eq_None_iff)
  then show ?case using Cons s by (auto simp: fun_upd_twist fun_upd_idem)
qed simp

lemma unlock_server_sorted:
  "sorted_wrt (<) (map (\<lambda>s. key (fst s)) ss) \<Longrightarrow> sorted_wrt (<) (map (\<lambda>s. key (fst s)) (unlock_server cs ss))
     \<and> set (map (\<lambda>s. fst s) (unlock_server cs ss)) \<subseteq> set (map (\<lambda>s. fst s) ss)"
proof (induction cs ss rule: unlock_server.induct)
  case (2 cs h n ss)
  then show ?case by (auto split: if_splits) fastforce+
qed simp

lemma counts_unlock:
  assumes "counts ss R" "0 < R cs"
  shows "counts (unlock_server cs ss) (R(cs := R cs - 1))"
proof -
  have m: "map_of ss cs = Some (R cs)" using assms by (simp add: counts_def)
  have "\<forall>s \<in> set (unlock_server cs ss). cstring (fst s)"
    using unlock_server_sorted [of ss cs] assms(1) by (fastforce simp: counts_def)
  then show ?thesis
    using unlock_server_map [OF counts_keys(1) [OF assms(1)] m] unlock_server_sorted [of ss cs] assms
    by (auto simp: counts_def)
qed


subsection \<open>The jar\<close>

text \<open>The servers are a store of counted objects, whose owners are the cookies.\<close>

interpretation sv: refcounted counts acquire_server unlock_server cstring "\<lambda>h k. lower h = lower k" cserver
  by unfold_locales (auto dest: counts_get counts_unlock)

abbreviation refs :: "cookie list \<Rightarrow> string \<Rightarrow> nat" where
  "refs \<equiv> refs_of cserver"

abbreviation all_cookies :: "jar \<Rightarrow> cookie list" where
  "all_cookies j \<equiv> cookies j @ cookie_queries j @ asked j"

definition cookie_ok :: "cookie \<Rightarrow> bool" where
  "cookie_ok c \<longleftrightarrow> cstring (cname c) \<and> cstring (cdomain c)"

definition domains_known :: "jar \<Rightarrow> bool" where
  "domains_known j \<longleftrightarrow> (\<forall>c \<in> set (cookies j). \<exists>cd \<in> set (c_domains j). lower cd = lower (cdomain c))"

text \<open>With \<open>extra\<close> for the cookies that are taken out of the lists but not yet freed.\<close>

definition jar_holds :: "cookie list \<Rightarrow> jar \<Rightarrow> bool" where
  "jar_holds extra j \<longleftrightarrow> counts (cookie_servers j) (refs (extra @ all_cookies j))
     \<and> (\<forall>cd \<in> set (c_domains j). cstring cd) \<and> (\<forall>c \<in> set (extra @ all_cookies j). cookie_ok c)"

abbreviation jar_ok :: "jar \<Rightarrow> bool" where
  "jar_ok j \<equiv> jar_holds [] j"

lemma jar_refl [simp]:
  "\<exists>ss. j = j\<lparr>cookie_servers := ss\<rparr>" "\<exists>ss d. j = j\<lparr>cookie_servers := ss, cookies_dirty := d\<rparr>" for j :: jar
proof -
  have "j = j\<lparr>cookie_servers := cookie_servers j\<rparr>"
    "j = j\<lparr>cookie_servers := cookie_servers j, cookies_dirty := cookies_dirty j\<rparr>" by simp_all
  then show "\<exists>ss. j = j\<lparr>cookie_servers := ss\<rparr>" "\<exists>ss d. j = j\<lparr>cookie_servers := ss, cookies_dirty := d\<rparr>"
    by blast+
qed

lemma jar_simps [simp]:
  "cookies (set_cookies_dirty j) = cookies j" "cookie_queries (set_cookies_dirty j) = cookie_queries j"
  "asked (set_cookies_dirty j) = asked j" "c_domains (set_cookies_dirty j) = c_domains j"
  "cookie_servers (set_cookies_dirty j) = cookie_servers j" "cookies_nosave (set_cookies_dirty j) = cookies_nosave j"
  "cookies (done_cookie c j) = cookies j" "cookie_queries (done_cookie c j) = cookie_queries j"
  "asked (done_cookie c j) = asked j" "c_domains (done_cookie c j) = c_domains j"
  "cookie_servers (done_cookie c j) = unlock_server (cserver c) (cookie_servers j)"
  "cookies_nosave (done_cookie c j) = cookies_nosave j" "cookies_dirty (done_cookie c j) = cookies_dirty j"
  by (simp_all add: set_cookies_dirty_def done_cookie_def done_cookie_server_def)

lemma done_cookie_holds: "jar_holds (c # extra) j \<Longrightarrow> jar_holds extra (done_cookie c j)"
  using sv.release_owner [of "cookie_servers j" c "extra @ all_cookies j"] by (simp add: jar_holds_def)

lemma dirty_holds [simp]: "jar_holds extra (set_cookies_dirty j) \<longleftrightarrow> jar_holds extra j"
  by (simp add: jar_holds_def)

lemma nosave_holds [simp]: "jar_holds extra (j\<lparr>cookies_nosave := b\<rparr>) \<longleftrightarrow> jar_holds extra j"
  by (simp add: jar_holds_def)

text \<open>Deleting from the list of cookies, in \<open>accept_cookie\<close>.\<close>

lemma delete_where_eq:
  "delete_where P cs j = (filter (\<lambda>c. \<not> P c) cs,
     j\<lparr>cookie_servers := fold (\<lambda>c. unlock_server (cserver c)) (filter P cs) (cookie_servers j)\<rparr>)"
  by (induction cs arbitrary: j) (simp_all add: done_cookie_def done_cookie_server_def)

lemma accept_cookie_spec:
  assumes "jar_holds (c # extra) j"
  shows "jar_holds extra (accept_cookie c j)"
    "cookies (accept_cookie c j) = c # (if cookies_nosave j then cookies j
       else filter (\<lambda>d. \<not> (lower (cname d) = lower (cname c) \<and> lower (cdomain d) = lower (cdomain c))) (cookies j))"
    "cookie_queries (accept_cookie c j) = cookie_queries j" "asked (accept_cookie c j) = asked j"
    "cookies_nosave (accept_cookie c j) = cookies_nosave j" "cookies_dirty (accept_cookie c j)"
    "domains_known j \<Longrightarrow> domains_known (accept_cookie c j)"
proof -
  have ok: "cookie_ok d" if "d \<in> set (c # cookies j)" for d using assms that by (auto simp: jar_holds_def)
  obtain kept j1 where d: "delete_where (same_cookie c) (cookies j) j = (kept, j1)" by fastforce
  let ?rest = "c # extra @ cookie_queries j @ asked j"
  have "refs ((c # extra) @ all_cookies j) = refs (cookies j @ ?rest)" by (rule refs_of_mset) simp
  then have "counts (cookie_servers j) (refs (cookies j @ ?rest))" using assms by (simp add: jar_holds_def)
  from sv.release_where [OF this, of "same_cookie c"] d obtain ss where
    s: "kept = filter (\<lambda>d. \<not> same_cookie c d) (cookies j)" "counts ss (refs (kept @ ?rest))" "j1 = j\<lparr>cookie_servers := ss\<rparr>"
    by (auto simp: delete_where_eq)
  have same: "same_cookie c x \<longleftrightarrow> lower (cname x) = lower (cname c) \<and> lower (cdomain x) = lower (cdomain c)"
    if "x \<in> set (cookies j)" for x
    using ok [of x] ok [of c] that by (simp add: same_cookie_def cookie_ok_def c_strcasecmp_0_iff)
  have kept: "kept = filter (\<lambda>d. \<not> (lower (cname d) = lower (cname c) \<and> lower (cdomain d) = lower (cdomain c))) (cookies j)"
    unfolding s(1) using same by (intro filter_cong) auto
  define base where "base = (if cookies_nosave j then cookies j else kept)"
  define servers where "servers = (if cookies_nosave j then cookie_servers j else ss)"
  have dom: "(\<exists>cd \<in> set (c_domains j). c_strcasecmp cd (cdomain c) = 0) \<longleftrightarrow> (\<exists>cd \<in> set (c_domains j). lower cd = lower (cdomain c))"
    using assms ok [of c] by (auto simp: jar_holds_def cookie_ok_def c_strcasecmp_0_iff)
  have acc: "accept_cookie c j = (set_cookies_dirty (j\<lparr>cookies := c # base, cookie_servers := servers\<rparr>))
      \<lparr>c_domains := (if \<exists>cd \<in> set (c_domains j). lower cd = lower (cdomain c) then c_domains j else cdomain c # c_domains j)\<rparr>"
    using d s(3) dom by (auto simp: accept_cookie_def base_def servers_def Let_def set_cookies_dirty_def)
  have "refs (extra @ (c # base) @ cookie_queries j @ asked j) = refs (base @ ?rest)" by (rule refs_of_mset) simp
  moreover have "counts servers (refs (base @ ?rest))"
    using s(2) \<open>counts (cookie_servers j) (refs (cookies j @ ?rest))\<close> by (simp add: base_def servers_def)
  ultimately have "counts servers (refs (extra @ (c # base) @ cookie_queries j @ asked j))" by simp
  moreover have "set base \<subseteq> set (cookies j)" by (auto simp: base_def kept)
  ultimately show "jar_holds extra (accept_cookie c j)"
    using assms unfolding acc by (auto simp: jar_holds_def cookie_ok_def)
  show "cookies (accept_cookie c j) = c # (if cookies_nosave j then cookies j
       else filter (\<lambda>d. \<not> (lower (cname d) = lower (cname c) \<and> lower (cdomain d) = lower (cdomain c))) (cookies j))"
    "cookie_queries (accept_cookie c j) = cookie_queries j" "asked (accept_cookie c j) = asked j"
    "cookies_nosave (accept_cookie c j) = cookies_nosave j" "cookies_dirty (accept_cookie c j)"
    unfolding acc by (auto simp: base_def kept set_cookies_dirty_def)
  show "domains_known (accept_cookie c j)" if "domains_known j"
    using that \<open>set base \<subseteq> set (cookies j)\<close> unfolding acc by (auto simp: domains_known_def)
qed


subsection \<open>Sending\<close>

definition for_request :: "string \<Rightarrow> string \<Rightarrow> cookie \<Rightarrow> bool" where
  "for_request h path c \<longleftrightarrow> is_in_domain (cdomain c) h (length h) \<and> is_path_prefix (cpath c) path"

definition expired :: "int \<Rightarrow> cookie \<Rightarrow> bool" where
  "expired now c \<longleftrightarrow> expires c \<noteq> 0 \<and> expires c \<le> now"

definition sendable :: "bool \<Rightarrow> bool \<Rightarrow> cookie \<Rightarrow> bool" where
  "sendable https js c \<longleftrightarrow> (secure c \<longrightarrow> https) \<and> (httponly c \<longrightarrow> \<not> js)"

text \<open>The pairs of a header, with their separators.\<close>

fun header_text :: "cookie list \<Rightarrow> string" where
  "header_text [] = []"
| "header_text [c] = cname c @ ''='' @ cvalue c"
| "header_text (c # d # cs) = cname c @ ''='' @ cvalue c @ ''; '' @ header_text (d # cs)"

lemma header_text_Cons:
  "header_text (c # cs) = cname c @ ''='' @ cvalue c @ (if cs = [] then [] else ''; '' @ header_text cs)"
  by (cases cs) simp_all

lemma header_text_Nil_iff [simp]: "header_text cs = [] \<longleftrightarrow> cs = []"
  by (cases cs) (simp_all add: header_text_Cons)

lemma send_loop_eq:
  "send_loop h path now https js header cs j =
    (header @ (let t = header_text (filter (\<lambda>c. for_request h path c \<and> \<not> expired now c \<and> sendable https js c) cs)
        in if header = [] \<or> t = [] then t else ''; '' @ t),
     filter (\<lambda>c. \<not> (for_request h path c \<and> expired now c)) cs,
     j\<lparr>cookie_servers := fold (\<lambda>c. unlock_server (cserver c)) (filter (\<lambda>c. for_request h path c \<and> expired now c) cs)
         (cookie_servers j),
       cookies_dirty := (cookies_dirty j \<or> (\<exists>c \<in> set cs. for_request h path c \<and> expired now c))\<rparr>)"
proof (induction cs arbitrary: j header)
  case (Cons c cs)
  consider (gone) "for_request h path c" "expired now c"
    | (sent) "for_request h path c" "\<not> expired now c" "sendable https js c"
    | (kept) "\<not> for_request h path c \<or> \<not> expired now c \<and> \<not> sendable https js c"
    by blast
  then show ?case
  proof cases
    case gone
    then have "is_in_domain (cdomain c) h (length h)" "is_path_prefix (cpath c) path" "expires c \<noteq> 0" "expires c \<le> now"
      by (simp_all add: for_request_def expired_def)
    then show ?thesis
      using Cons.IH [of header "set_cookies_dirty (done_cookie c j)"] gone
      by (simp add: done_cookie_def done_cookie_server_def set_cookies_dirty_def)
  next
    case sent
    let ?hd = "(if header \<noteq> [] then header @ ''; '' else header) @ cname c @ ''='' @ cvalue c"
    have "\<not> (\<not> is_in_domain (cdomain c) h (length h) \<or> \<not> is_path_prefix (cpath c) path)"
      "\<not> (expires c \<noteq> 0 \<and> expires c \<le> now)" "\<not> (secure c \<and> \<not> https \<or> httponly c \<and> js)"
      using sent by (auto simp add: for_request_def expired_def sendable_def)
    then have eq: "send_loop h path now https js header (c # cs) j
        = (case send_loop h path now https js ?hd cs j of (x, k, y) \<Rightarrow> (x, c # k, y))"
      by (simp only: send_loop.simps if_False Let_def)
    have "?hd \<noteq> []" by simp
    then show ?thesis unfolding eq Cons.IH [of ?hd j] using sent by (simp add: header_text_Cons Let_def)
  next
    case kept
    then have "(\<not> is_in_domain (cdomain c) h (length h) \<or> \<not> is_path_prefix (cpath c) path) \<or>
        (is_in_domain (cdomain c) h (length h) \<and> is_path_prefix (cpath c) path) \<and> \<not> (expires c \<noteq> 0 \<and> expires c \<le> now)
          \<and> (secure c \<and> \<not> https \<or> httponly c \<and> js)"
      by (auto simp add: for_request_def expired_def sendable_def)
    then have "send_loop h path now https js header (c # cs) j
        = (let (h, kept, j) = send_loop h path now https js header cs j in (h, c # kept, j))"
      by (elim disjE conjE) (simp_all only: send_loop.simps, simp_all)
    then show ?thesis using Cons.IH [of header j] kept by auto
  qed
qed simp

lemma send_loop_spec:
  assumes "send_loop h path now https js header cs j = (header', kept, j')"
    "counts (cookie_servers j) (refs (cs @ rest))"
  shows "header' = header @ (let t = header_text (filter (\<lambda>c. for_request h path c \<and> \<not> expired now c \<and> sendable https js c) cs)
        in if header = [] \<or> t = [] then t else ''; '' @ t)
    \<and> kept = filter (\<lambda>c. \<not> (for_request h path c \<and> expired now c)) cs
    \<and> counts (cookie_servers j') (refs (kept @ rest))
    \<and> (\<exists>ss d. j' = j\<lparr>cookie_servers := ss, cookies_dirty := d\<rparr>)"
  using sv.release_where [OF assms(2), of "\<lambda>c. for_request h path c \<and> expired now c"] assms(1)
  by (auto simp: send_loop_eq)

end
