(* ===== verification/Cookie_Properties.thy ===== *)
theory Cookie_Properties
  imports Cookie_Jar
begin

text \<open>
  The life of the cookie jar as a transition system, its invariant, and what setting and sending
  cookies does in every state it can reach. A state is marked as edited when the user has changed
  the domain of a cookie since the cookies were last loaded: the list \<open>c_domains\<close> may then miss
  this domain (\<open>edit_breaks_domains\<close>).
\<close>

subsection \<open>Results of the parsers are parts of their input\<close>

lemma find_param_subset: "find_param name p = Some r \<Longrightarrow> set r \<subseteq> set p"
proof (induction name p rule: find_param.induct)
  case (1 name p)
  let ?p = "dropWhile param_gap p"
  have sub: "set ?p \<subseteq> set p" by (auto dest: set_dropWhileD)
  show ?case
  proof (cases "length ?p < length name \<or> c_strncasecmp ?p name (length name) = 0")
    case True
    then show ?thesis using 1(2) sub by (subst (asm) find_param.simps) (auto simp: Let_def split: if_splits dest: in_set_dropD)
  next
    case False
    then obtain c q where q: "dropWhile (\<lambda>c. c \<noteq> CHR '';'') ?p = c # q" "find_param name (c # q) = Some r"
      using 1(2) by (subst (asm) find_param.simps) (auto simp: Let_def split: list.splits)
    have "set (c # q) \<subseteq> set ?p" unfolding q(1) [symmetric] by (auto dest: set_dropWhileD)
    then show ?thesis using 1(1) [OF refl _ _ q(1) q(2)] False sub by blast
  qed
qed

lemma drop_quotes_subset: "set (drop_quotes s) \<subseteq> set s"
proof (induction s rule: drop_quotes.induct)
  case (1 s)
  have "set (butlast (tl s)) \<subseteq> set s" by (auto dest: in_set_butlastD list.set_sel(2) simp: neq_Nil_conv) (metis list.sel(2) list.set_sel(2) in_set_butlastD)
  then show ?case using 1 by (subst drop_quotes.simps) auto
qed

lemma parse_header_param_subset: "parse_header_param str name cd = Some v \<Longrightarrow> set v \<subseteq> set str"
proof -
  assume a: "parse_header_param str name cd = Some v"
  obtain r where r: "v = param_value r" "set r \<subseteq> set str"
  proof -
    define p where "p = (if cd then str else dropWhile (\<lambda>c. c \<noteq> CHR '';'') str)"
    have "set p \<subseteq> set str" by (auto simp: p_def dest: set_dropWhileD)
    moreover obtain r where "find_param name p = Some r" "v = param_value r"
      using a by (auto simp: parse_header_param_def Let_def p_def split: if_splits list.splits)
    ultimately show thesis using that find_param_subset by blast
  qed
  have "set (param_value r) \<subseteq> set r"
    using drop_quotes_subset by (fastforce simp: param_value_def Let_def trim_LWS_def dest: set_dropWhileD set_takeWhileD)
  then show ?thesis using r by blast
qed

lemma parse_cookie_str_subset: "parse_cookie_str str = Some (n, v) \<Longrightarrow> set n \<subseteq> set str \<and> set v \<subseteq> set str"
  by (auto simp: parse_cookie_str_def Let_def trim_isspace_def skip_space_def split: if_splits
      dest!: set_dropWhileD set_takeWhileD)

lemma cstring_subset: "set v \<subseteq> set s \<Longrightarrow> cstring s \<Longrightarrow> cstring v"
  by (auto simp: cstring_def)

lemma cookie_domain_cstring: "cstring h \<Longrightarrow> cstring str \<Longrightarrow> cstring (cookie_domain h str)"
proof -
  assume a: "cstring h" "cstring str"
  have "cstring (case parse_header_param str ''domain'' False of Some d \<Rightarrow> d | None \<Rightarrow> h)"
    using a cstring_subset [OF parse_header_param_subset] by (cases "parse_header_param str ''domain'' False") simp_all
  then show ?thesis
    by (auto simp: cookie_domain_def Let_def cstring_def dest: list.set_sel(2) split: option.splits)
       (metis list.sel(2) list.set_sel(2))+
qed

lemma split_members_subset: "m \<in> set (split_members k i q) \<Longrightarrow> set (fst m) \<subseteq> set q"
  by (induction k i q rule: split_members.induct)
     (auto split: option.splits if_splits dest: in_set_takeD, (meson in_set_dropD in_set_takeD subsetD)+)

lemma fgets_lines_subset: "l \<in> set (fgets_lines n s) \<Longrightarrow> set l \<subseteq> set s"
proof (induction n s rule: fgets_lines.induct)
  case (1 n s)
  then show ?case
    by (subst (asm) (2) fgets_lines.simps)
       (auto simp: Let_def split: if_splits dest: in_set_takeD, meson in_set_dropD subsetD)
qed


subsection \<open>Steps\<close>

definition uhost :: "uri \<Rightarrow> string" where
  "uhost u = part u (uri.host u) (hostlen u)"

definition init_jar :: jar where
  "init_jar = \<lparr>cookies = [], cookie_queries = [], asked = [], c_domains = [], cookie_servers = [],
     cookies_dirty = False, cookies_nosave = False\<rparr>"

text \<open>
  What happens to the jar outside of a load of the file: answers of servers, requests, the dialogs.
  The flag tells whether a domain was edited since the last load.
\<close>

inductive jar_reachable :: "(string \<Rightarrow> bool) \<Rightarrow> (string \<Rightarrow> string option) \<Rightarrow> bool \<Rightarrow> jar \<Rightarrow> bool"
  for is_ip idn where
  init: "jar_reachable is_ip idn False init_jar"
| set: "jar_reachable is_ip idn ed j \<Longrightarrow> cstring str \<Longrightarrow> cstring (uhost u) \<Longrightarrow>
    set_cookie is_ip idn opts now u str j = Some j' \<Longrightarrow> jar_reachable is_ip idn ed j'"
| send: "jar_reachable is_ip idn ed j \<Longrightarrow> jar_reachable is_ip idn ed (snd (send_cookies_common idn now u js j))"
| ask: "jar_reachable is_ip idn ed j \<Longrightarrow> jar_reachable is_ip idn ed (accept_cookie_dialog j)"
| accept: "jar_reachable is_ip idn ed j \<Longrightarrow> k < length (asked j) \<Longrightarrow>
    jar_reachable is_ip idn ed (accept_cookie_in_msg_box k j)"
| reject: "jar_reachable is_ip idn ed j \<Longrightarrow> k < length (asked j) \<Longrightarrow>
    jar_reachable is_ip idn ed (reject_cookie_in_msg_box k j)"
| delete: "jar_reachable is_ip idn ed j \<Longrightarrow> k < length (cookies j) \<Longrightarrow>
    jar_reachable is_ip idn ed (delete_cookie_item k j)"
| add_server: "jar_reachable is_ip idn ed j \<Longrightarrow> cstring v \<Longrightarrow> jar_reachable is_ip idn ed (add_server_do v j)"
| add_cookie: "jar_reachable is_ip idn ed j \<Longrightarrow> i < length (cookie_servers j) \<Longrightarrow>
    jar_reachable is_ip idn ed (push_add_button i j)"
| edit_name: "jar_reachable is_ip idn ed j \<Longrightarrow> k < length (cookies j) \<Longrightarrow> cstring v \<Longrightarrow>
    jar_reachable is_ip idn ed (set_cookie_name k v j)"
| edit_value: "jar_reachable is_ip idn ed j \<Longrightarrow> k < length (cookies j) \<Longrightarrow>
    jar_reachable is_ip idn ed (set_cookie_value k v j)"
| edit_domain: "jar_reachable is_ip idn ed j \<Longrightarrow> k < length (cookies j) \<Longrightarrow> cstring v \<Longrightarrow>
    jar_reachable is_ip idn True (set_cookie_domain k v j)"
| edit_expires: "jar_reachable is_ip idn ed j \<Longrightarrow> k < length (cookies j) \<Longrightarrow>
    jar_reachable is_ip idn ed (set_cookie_expires strptime k v j)"
| edit_secure: "jar_reachable is_ip idn ed j \<Longrightarrow> k < length (cookies j) \<Longrightarrow>
    jar_reachable is_ip idn ed (set_cookie_secure k v j)"
| edit_httponly: "jar_reachable is_ip idn ed j \<Longrightarrow> k < length (cookies j) \<Longrightarrow>
    jar_reachable is_ip idn ed (set_cookie_httponly k v j)"
| load: "jar_reachable is_ip idn ed j \<Longrightarrow> (\<forall>text. file = Some text \<longrightarrow> cstring text) \<Longrightarrow>
    jar_reachable is_ip idn False (load_cookies now file j)"

lemma mset_take_nth: "k < length xs \<Longrightarrow> mset xs = add_mset (xs ! k) (mset (take_nth k xs))"
  using arg_cong [OF id_take_nth_drop [of k xs], of mset] by (simp add: take_nth_def)

lemma jar_holds_permute:
  "mset (extra @ all_cookies j) = mset (extra' @ all_cookies j') \<Longrightarrow> set (cookies j') \<subseteq> set (cookies j) \<Longrightarrow>
     cookie_servers j' = cookie_servers j \<Longrightarrow> c_domains j' = c_domains j \<Longrightarrow> jar_holds extra j \<Longrightarrow> jar_holds extra' j'"
  using refs_of_mset [of "extra @ all_cookies j" "extra' @ all_cookies j'"] mset_eq_setD [of "extra @ all_cookies j" "extra' @ all_cookies j'"]
  unfolding jar_holds_def by (metis subsetD)

lemma get_cookie_server_holds:
  assumes "jar_holds extra j" "cstring h" "get_cookie_server h j = (cs, j')" "cserver c = cs" "cookie_ok c"
  shows "jar_holds (c # extra) j' \<and> lower cs = lower h \<and> (\<exists>ss. j' = j\<lparr>cookie_servers := ss\<rparr>)"
proof -
  obtain ss where a: "acquire_server h (cookie_servers j) = (cs, ss)" "j' = j\<lparr>cookie_servers := ss\<rparr>"
    using assms(3) by (auto simp: get_cookie_server_def split: prod.splits)
  have "counts (cookie_servers j) (refs (extra @ all_cookies j))" using assms(1) by (simp add: jar_holds_def)
  from sv.acquire_owner [OF this assms(2) a(1) assms(4)] show ?thesis using assms(1,5) a(2) by (auto simp: jar_holds_def)
qed

lemma lock_server_nth:
  "i < length ss \<Longrightarrow> ss ! i = (h, n) \<Longrightarrow> server_is h h \<Longrightarrow> \<forall>k < i. \<not> server_is h (fst (ss ! k)) \<Longrightarrow>
     lock_server h ss = Some (h, ss[i := (h, n + 1)])"
proof (induction ss arbitrary: i)
  case (Cons s ss)
  show ?case
  proof (cases i)
    case 0
    then show ?thesis using Cons.prems by simp
  next
    case (Suc m)
    have "\<not> server_is h (fst s)" using Cons.prems(4) Suc by force
    moreover have "\<forall>k < m. \<not> server_is h (fst (ss ! k))" using Cons.prems(4) Suc by force
    ultimately show ?thesis using Cons.IH [of m] Cons.prems(1-3) Suc by (cases s) simp
  qed
qed simp

text \<open>Locking a server of the list is what \<open>get_cookie_server\<close> does for its host.\<close>

lemma lock_listed_server:
  assumes "jar_ok j" "i < length (cookie_servers j)" "cookie_servers j ! i = (h, n)"
  shows "get_cookie_server h j = (h, j\<lparr>cookie_servers := (cookie_servers j)[i := (h, n + 1)]\<rparr>) \<and> cstring h"
proof -
  let ?ss = "cookie_servers j"
  have c: "sorted_wrt (<) (map (\<lambda>s. key (fst s)) ?ss)" "\<forall>s \<in> set ?ss. cstring (fst s)"
    using assms(1) by (simp_all add: jar_holds_def counts_def)
  have h: "cstring h" using c(2) assms(2,3) nth_mem by fastforce
  have "\<not> server_is h (fst (?ss ! k))" if "k < i" for k
  proof -
    have "key (fst (?ss ! k)) < key h"
      using sorted_wrt_nth_less [OF c(1) that] assms(2,3) that by simp
    moreover have "cstring (fst (?ss ! k))" using c(2) assms(2) that by simp
    ultimately show ?thesis using server_is_key [OF h] by auto
  qed
  then have "lock_server h ?ss = Some (h, ?ss[i := (h, n + 1)])"
    using lock_server_nth [OF assms(2,3)] server_is_key [OF h h] by blast
  then show ?thesis using h by (simp add: get_cookie_server_def acquire_server_def)
qed

text \<open>Both dialogs that add a cookie accept one whose server they have got.\<close>

lemma added_cookie:
  assumes "jar_ok j" "cstring h" "get_cookie_server h j = (cs, j1)" "cserver c = cs" "cookie_ok c"
  shows "jar_ok (accept_cookie c j1)" "cookies_nosave (accept_cookie c j1) = cookies_nosave j"
    "domains_known j \<Longrightarrow> domains_known (accept_cookie c j1)"
proof -
  have h: "jar_holds [c] j1" "\<exists>ss. j1 = j\<lparr>cookie_servers := ss\<rparr>"
    using get_cookie_server_holds [OF assms] by auto
  then show "jar_ok (accept_cookie c j1)" "cookies_nosave (accept_cookie c j1) = cookies_nosave j"
    "domains_known j \<Longrightarrow> domains_known (accept_cookie c j1)"
    using accept_cookie_spec(1,5,7) [OF h(1)] by (auto simp: domains_known_def)
qed

lemma add_server_do_ok:
  assumes "jar_ok j" "cstring v"
  shows "jar_ok (add_server_do v j)" "cookies_nosave (add_server_do v j) = cookies_nosave j"
    "domains_known j \<Longrightarrow> domains_known (add_server_do v j)"
proof -
  obtain cs j1 where g: "get_cookie_server v j = (cs, j1)" by fastforce
  let ?c = "\<lparr>cname = ''empty'', cvalue = ''1'', cpath = ''/'', cdomain = v, cserver = cs,
           expires = 0, secure = False, httponly = False\<rparr>"
  have "add_server_do v j = accept_cookie ?c j1" using g by (simp add: add_server_do_def)
  then show "jar_ok (add_server_do v j)" "cookies_nosave (add_server_do v j) = cookies_nosave j"
    "domains_known j \<Longrightarrow> domains_known (add_server_do v j)"
    using added_cookie [OF assms g, of ?c] assms(2) by (simp_all add: cookie_ok_def)
qed

lemma push_add_button_ok:
  assumes "jar_ok j" "i < length (cookie_servers j)"
  shows "jar_ok (push_add_button i j)" "cookies_nosave (push_add_button i j) = cookies_nosave j"
    "domains_known j \<Longrightarrow> domains_known (push_add_button i j)"
proof -
  obtain h n where s: "cookie_servers j ! i = (h, n)" by fastforce
  let ?c = "\<lparr>cname = [], cvalue = [], cpath = ''/'', cdomain = h, cserver = h,
           expires = 0, secure = False, httponly = False\<rparr>"
  note g = lock_listed_server [OF assms s]
  have "push_add_button i j = accept_cookie ?c (j\<lparr>cookie_servers := (cookie_servers j)[i := (h, n + 1)]\<rparr>)"
    using s by (simp add: push_add_button_def)
  then show "jar_ok (push_add_button i j)" "cookies_nosave (push_add_button i j) = cookies_nosave j"
    "domains_known j \<Longrightarrow> domains_known (push_add_button i j)"
    using added_cookie [OF assms(1) conjunct2 [OF g] conjunct1 [OF g], of ?c] conjunct2 [OF g] by (simp_all add: cookie_ok_def)
qed

lemma set_cookie_cases:
  assumes "jar_ok j" "cstring str" "cstring (uhost u)" "set_cookie is_ip idn opts now u str j = Some j'"
  obtains "j' = j" "accept_policy opts = COOKIES_ACCEPT_NONE \<or> parse_cookie_str str = None"
  | c j1 where "jar_holds [c] j1" "\<exists>ss. j1 = j\<lparr>cookie_servers := ss\<rparr>" "lower (cserver c) = lower (uhost u)"
      "parse_cookie_str str = Some (cname c, cvalue c)"
      "is_domain_security_ok is_ip (paranoid_security opts) (cdomain c) (uhost u) \<or> cdomain c = uhost u"
      "cookie_expires opts now str = Some (expires c)" "cpath c = cookie_path idn u str"
      "j' = (if accept_policy opts = COOKIES_ACCEPT_ASK then j1\<lparr>cookie_queries := c # cookie_queries j1\<rparr>
             else accept_cookie c j1)"
proof (cases "accept_policy opts = COOKIES_ACCEPT_NONE \<or> parse_cookie_str str = None")
  case True
  then have "j' = j" using assms(4) by (auto simp: set_cookie_def split: if_splits)
  then show thesis using True by (rule that(1))
next
  case False
  then obtain n v where nv: "parse_cookie_str str = Some (n, v)" by fastforce
  obtain cs j1 where s: "get_cookie_server (uhost u) j = (cs, j1)" by fastforce
  let ?d = "cookie_domain (uhost u) str"
  obtain e where e: "cookie_expires opts now str = Some e"
    using assms(4) False nv by (auto simp: set_cookie_def uhost_def Let_def split: option.splits prod.splits)
  define c where "c = \<lparr>cname = n, cvalue = v, cpath = cookie_path idn u str,
     cdomain = (if is_domain_security_ok is_ip (paranoid_security opts) ?d (uhost u) then ?d else uhost u),
     cserver = cs, expires = e, secure = (parse_header_param str ''secure'' False \<noteq> None),
     httponly = (parse_header_param str ''httponly'' False \<noteq> None)\<rparr>"
  have "cookie_ok c"
    using cookie_domain_cstring [OF assms(3,2)] parse_cookie_str_subset [OF nv] cstring_subset [OF _ assms(2)] assms(3)
    by (auto simp: cookie_ok_def c_def)
  from get_cookie_server_holds [OF assms(1,3) s _ this] have h: "jar_holds [c] j1" "lower cs = lower (uhost u)"
    "\<exists>ss. j1 = j\<lparr>cookie_servers := ss\<rparr>" by (auto simp: c_def)
  have "j' = (if accept_policy opts = COOKIES_ACCEPT_ASK then j1\<lparr>cookie_queries := c # cookie_queries j1\<rparr>
             else accept_cookie c j1)"
    using assms(4) False nv s e
    by (auto simp: set_cookie_def uhost_def [symmetric] Let_def c_def split: if_splits)
  then show thesis using h e nv by (intro that(2) [of c j1]) (auto simp: c_def)
qed

lemma send_cookies_cases:
  assumes "jar_ok j" "send_cookies_common idn now u js j = (r, j')"
  shows "jar_ok j'" "cookies_nosave j' = cookies_nosave j" "domains_known j \<Longrightarrow> domains_known j'"
    "uri.host u \<noteq> None \<Longrightarrow> data u \<noteq> None \<Longrightarrow> \<exists>cd \<in> set (c_domains j). is_in_domain cd (uhost u) (length (uhost u)) \<Longrightarrow>
      (let path = get_uri_string idn u URI_PATH;
           t = header_text (filter (\<lambda>c. for_request (uhost u) path c \<and> \<not> expired now c
                 \<and> sendable (protocol u = PROTOCOL_HTTPS) js c) (cookies j))
       in r = (if t = [] then None else Some t)
          \<and> cookies j' = filter (\<lambda>c. \<not> (for_request (uhost u) path c \<and> expired now c)) (cookies j))"
proof -
  let ?path = "get_uri_string idn u URI_PATH"
  obtain h kept j1 where l: "send_loop (uhost u) ?path now (protocol u = PROTOCOL_HTTPS) js [] (cookies j) j = (h, kept, j1)"
    by (metis prod_cases3)
  have "counts (cookie_servers j) (refs (cookies j @ (cookie_queries j @ asked j)))"
    using assms(1) by (simp add: jar_holds_def)
  note s = send_loop_spec [OF l this]
  let ?go = "uri.host u \<noteq> None \<and> data u \<noteq> None \<and> (\<exists>cd \<in> set (c_domains j). is_in_domain cd (uhost u) (length (uhost u)))"
  have r: "(r, j') = (if ?go then (if h = [] then None else Some h, j1\<lparr>cookies := kept\<rparr>) else (None, j))"
    using assms(2) l by (auto simp: send_cookies_common_def uhost_def [symmetric] Let_def split: if_splits)
  have "jar_ok (j1\<lparr>cookies := kept\<rparr>)" using s assms(1) by (auto simp: jar_holds_def)
  then show "jar_ok j'" using r assms(1) by (auto split: if_splits)
  have "cookies_nosave j1 = cookies_nosave j" using s by auto
  then show "cookies_nosave j' = cookies_nosave j" using r by (auto split: if_splits)
  have "c_domains j1 = c_domains j" using s by auto
  then show "domains_known j'" if "domains_known j" using that r s by (auto simp: domains_known_def split: if_splits)
  assume "uri.host u \<noteq> None" "data u \<noteq> None" "\<exists>cd \<in> set (c_domains j). is_in_domain cd (uhost u) (length (uhost u))"
  then show "let path = ?path;
           t = header_text (filter (\<lambda>c. for_request (uhost u) path c \<and> \<not> expired now c
                 \<and> sendable (protocol u = PROTOCOL_HTTPS) js c) (cookies j))
       in r = (if t = [] then None else Some t)
          \<and> cookies j' = filter (\<lambda>c. \<not> (for_request (uhost u) path c \<and> expired now c)) (cookies j)"
    using r s by (auto simp: Let_def)
qed


lemma free_cookies_list_eq:
  "free_cookies_list cs j = j\<lparr>cookie_servers := fold (\<lambda>c. unlock_server (cserver c)) cs (cookie_servers j)\<rparr>"
  by (induction cs arbitrary: j) (simp_all add: free_cookies_list_def done_cookie_def done_cookie_server_def)

lemma free_cookies_list_spec:
  "counts (cookie_servers j) (refs (cs @ rest)) \<Longrightarrow>
     counts (cookie_servers (free_cookies_list cs j)) (refs rest) \<and> (\<exists>ss. free_cookies_list cs j = j\<lparr>cookie_servers := ss\<rparr>)"
  using sv.release_all [of "cookie_servers j" cs rest] by (auto simp: free_cookies_list_eq)

lemma done_cookies_spec:
  assumes "jar_ok j"
  shows "jar_ok (done_cookies j) \<and> cookies (done_cookies j) = [] \<and> cookie_queries (done_cookies j) = []
    \<and> asked (done_cookies j) = asked j \<and> cookies_nosave (done_cookies j) = cookies_nosave j"
proof -
  let ?j0 = "j\<lparr>c_domains := []\<rparr>"
  have "counts (cookie_servers ?j0) (refs (cookies ?j0 @ cookie_queries j @ asked j))"
    using assms by (simp add: jar_holds_def)
  from free_cookies_list_spec [OF this] obtain s1 where
    s1: "free_cookies_list (cookies ?j0) ?j0 = ?j0\<lparr>cookie_servers := s1\<rparr>" "counts s1 (refs (cookie_queries j @ asked j))"
    by auto
  let ?j1 = "?j0\<lparr>cookie_servers := s1, cookies := []\<rparr>"
  have "counts (cookie_servers ?j1) (refs (cookie_queries ?j1 @ asked j))" using s1(2) by simp
  from free_cookies_list_spec [OF this] obtain s2 where
    s2: "free_cookies_list (cookie_queries ?j1) ?j1 = ?j1\<lparr>cookie_servers := s2\<rparr>" "counts s2 (refs (asked j))"
    by auto
  have "done_cookies j = ?j1\<lparr>cookie_servers := s2, cookie_queries := [], cookies_dirty := False\<rparr>"
    unfolding done_cookies_def Let_def using s1(1) s2(1) by simp
  then show ?thesis using assms s2(2) by (auto simp: jar_holds_def)
qed

lemma load_line_ok:
  assumes "jar_ok j" "cstring line"
  shows "jar_ok (load_line now line j)"
proof -
  let ?m = "split_members 8 0 line"
  have "cstring (fst (?m ! k))" if "k < length ?m" for k
    using split_members_subset [OF nth_mem [OF that]] assms(2) cstring_subset by blast
  then have c: "cstring (fst (?m ! 0))" "cstring (fst (?m ! 2))" "cstring (fst (?m ! 4))" if "length ?m = 7 \<or> length ?m = 8"
    using that by auto
  show ?thesis
  proof (cases "(length ?m = 7 \<or> length ?m = 8) \<and> \<not> (atol (snd (?m ! 5)) = 0 \<or> atol (snd (?m ! 5)) \<le> now)")
    case True
    obtain cs j1 where s: "get_cookie_server (fst (?m ! 2)) j = (cs, j1)" by fastforce
    let ?c = "\<lparr>cname = fst (?m ! 0), cvalue = fst (?m ! 1), cpath = fst (?m ! 3), cdomain = fst (?m ! 4), cserver = cs,
      expires = atol (snd (?m ! 5)), secure = (atol (snd (?m ! 6)) \<noteq> 0),
      httponly = (length ?m = 8 \<and> atol (snd (?m ! 7)) \<noteq> 0)\<rparr>"
    have "jar_holds [?c] j1"
      using get_cookie_server_holds [OF assms(1) _ s, of ?c] c True by (auto simp: cookie_ok_def)
    then have "jar_ok (accept_cookie ?c j1)" by (rule accept_cookie_spec(1))
    moreover have "load_line now line j = accept_cookie ?c j1"
      using True s by (auto simp: load_line_def Let_def)
    ultimately show ?thesis by simp
  next
    case False
    then show ?thesis using assms(1) by (auto simp: load_line_def Let_def)
  qed
qed

lemma load_cookies_ok:
  assumes "jar_ok j" "\<forall>text. fl = Some text \<longrightarrow> cstring text"
  shows "jar_ok (load_cookies now fl j)"
proof -
  have d: "jar_ok (done_cookies (j\<lparr>cookies_nosave := True\<rparr>))" using done_cookies_spec assms(1) by simp
  have f: "jar_ok (fold (load_line now) ls j')" if "jar_ok j'" "\<forall>l \<in> set ls. cstring l" for ls j'
    using that by (induction ls arbitrary: j') (auto intro: load_line_ok)
  show ?thesis
  proof (cases fl)
    case None
    then show ?thesis using d by (simp add: load_cookies_def)
  next
    case (Some t)
    have "cstring t" using assms(2) Some by simp
    then have "\<forall>l \<in> set (fgets_lines (6 * 1024) t). cstring l"
      using cstring_subset [OF fgets_lines_subset] by simp
    moreover have "jar_ok ((done_cookies (j\<lparr>cookies_nosave := True\<rparr>))\<lparr>cookies_nosave := False, cookies_nosave := True\<rparr>)"
      using d by (simp only: nosave_holds)
    ultimately have "jar_ok (fold (load_line now) (fgets_lines (6 * 1024) t)
        ((done_cookies (j\<lparr>cookies_nosave := True\<rparr>))\<lparr>cookies_nosave := False, cookies_nosave := True\<rparr>))"
      using f by blast
    then show ?thesis unfolding load_cookies_def Let_def Some option.case by (simp only: nosave_holds)
  qed
qed

lemma asked_taken:
  "k < length (asked j) \<Longrightarrow> jar_ok j \<Longrightarrow> jar_holds [asked j ! k] (j\<lparr>asked := take_nth k (asked j)\<rparr>)"
  by (rule jar_holds_permute [of "[]" j]) (simp_all add: mset_take_nth)

lemma jar_step_ok:
  assumes "jar_ok j"
  shows "jar_ok (accept_cookie_dialog j)"
    "k < length (asked j) \<Longrightarrow> jar_ok (accept_cookie_in_msg_box k j)"
    "k < length (asked j) \<Longrightarrow> jar_ok (reject_cookie_in_msg_box k j)"
    "k < length (cookies j) \<Longrightarrow> jar_ok (delete_cookie_item k j)"
proof -
  show "jar_ok (accept_cookie_dialog j)"
    using assms by (auto simp: accept_cookie_dialog_def intro: jar_holds_permute [rotated -1] split: list.splits)
  note t = asked_taken [OF _ assms]
  show "k < length (asked j) \<Longrightarrow> jar_ok (accept_cookie_in_msg_box k j)"
    unfolding accept_cookie_in_msg_box_def by (intro accept_cookie_spec(1) t)
  show "k < length (asked j) \<Longrightarrow> jar_ok (reject_cookie_in_msg_box k j)"
    unfolding reject_cookie_in_msg_box_def by (intro done_cookie_holds t)
  have "jar_holds [cookies j ! k] (j\<lparr>cookies := take_nth k (cookies j)\<rparr>)" if "k < length (cookies j)"
  proof (rule jar_holds_permute [of "[]" j])
    show "set (cookies (j\<lparr>cookies := take_nth k (cookies j)\<rparr>)) \<subseteq> set (cookies j)"
      by (auto simp: take_nth_def dest: in_set_takeD in_set_dropD)
  qed (use assms in \<open>simp_all add: mset_take_nth [OF that]\<close>)
  then show "k < length (cookies j) \<Longrightarrow> jar_ok (delete_cookie_item k j)"
    unfolding delete_cookie_item_def delete_cookie_def by (simp add: done_cookie_holds)
qed

text \<open>The edits.\<close>

lemma refs_of_map: "map cserver xs = map cserver ys \<Longrightarrow> refs xs = refs ys"
proof
  fix h
  assume m: "map cserver xs = map cserver ys"
  have "refs zs h = length (filter (\<lambda>s. s = h) (map cserver zs))" for zs
    by (simp add: refs_of_def filter_map comp_def)
  then show "refs xs h = refs ys h" using m by presburger
qed

lemma edit_cookie_ok:
  assumes "jar_ok j" "k < length (cookies j)" "\<And>c. cserver (f c) = cserver c" "\<And>c. cookie_ok c \<Longrightarrow> cookie_ok (f c)"
  shows "jar_ok (edit_cookie k f j)" "cookies_nosave (edit_cookie k f j) = cookies_nosave j"
    "domains_known j \<Longrightarrow> (\<And>c. cdomain (f c) = cdomain c) \<Longrightarrow> domains_known (edit_cookie k f j)"
proof -
  let ?cs = "(cookies j)[k := f (cookies j ! k)]"
  have "map cserver ?cs = map cserver (cookies j)"
    using assms(2,3) by (intro nth_equalityI) (auto simp: nth_list_update)
  then have "refs (?cs @ cookie_queries j @ asked j) = refs (all_cookies j)" by (intro refs_of_map) simp
  moreover have "\<forall>c \<in> set ?cs. cookie_ok c"
    using assms by (auto simp: jar_holds_def dest!: set_update_subset_insert [THEN subsetD])
  ultimately show "jar_ok (edit_cookie k f j)" using assms(1) by (auto simp: jar_holds_def edit_cookie_def)
  show "cookies_nosave (edit_cookie k f j) = cookies_nosave j" by (simp add: edit_cookie_def)
  show "domains_known (edit_cookie k f j)" if "domains_known j" "\<And>c. cdomain (f c) = cdomain c"
    using that assms(2) by (auto simp: domains_known_def edit_cookie_def dest!: set_update_subset_insert [THEN subsetD])
qed

lemma edit_steps_ok:
  assumes "jar_ok j" "k < length (cookies j)"
  shows "jar_ok (set_cookie_value k v j)" "jar_ok (set_cookie_expires strptime k v j)"
    "jar_ok (set_cookie_secure k v j)" "jar_ok (set_cookie_httponly k v j)"
    "cstring v \<Longrightarrow> jar_ok (set_cookie_name k v j)" "cstring v \<Longrightarrow> jar_ok (set_cookie_domain k v j)"
  using assms
  by (auto simp: set_cookie_value_def set_cookie_expires_def set_cookie_secure_def set_cookie_httponly_def
      set_cookie_name_def set_cookie_domain_def cookie_ok_def split: option.split prod.split intro!: edit_cookie_ok(1))

lemma edit_steps_nosave:
  "cookies_nosave (set_cookie_name k v j) = cookies_nosave j" "cookies_nosave (set_cookie_value k v j) = cookies_nosave j"
  "cookies_nosave (set_cookie_domain k v j) = cookies_nosave j"
  "cookies_nosave (set_cookie_expires strptime k v j) = cookies_nosave j"
  "cookies_nosave (set_cookie_secure k v j) = cookies_nosave j" "cookies_nosave (set_cookie_httponly k v j) = cookies_nosave j"
  by (auto simp: set_cookie_value_def set_cookie_expires_def set_cookie_secure_def set_cookie_httponly_def
      set_cookie_name_def set_cookie_domain_def edit_cookie_def split: option.split prod.split)

lemma edit_steps_domains:
  assumes "jar_ok j" "k < length (cookies j)" "domains_known j"
  shows "cstring v \<Longrightarrow> domains_known (set_cookie_name k v j)" "domains_known (set_cookie_value k v j)"
    "domains_known (set_cookie_expires strptime k v j)"
    "domains_known (set_cookie_secure k v j)" "domains_known (set_cookie_httponly k v j)"
  using assms
  by (auto simp: set_cookie_value_def set_cookie_expires_def set_cookie_secure_def set_cookie_httponly_def
      set_cookie_name_def cookie_ok_def split: option.split prod.split intro!: edit_cookie_ok(3))

lemma jar_reachable_ok: "jar_reachable is_ip idn ed j \<Longrightarrow> jar_ok j"
proof (induction rule: jar_reachable.induct)
  case init
  show ?case by (simp add: init_jar_def jar_holds_def counts_def)
next
  case (set ed j str u opts now j')
  show ?case
  proof (rule set_cookie_cases [OF set.IH set.hyps(2,3,4)])
    fix c j1
    assume "jar_holds [c] j1" and j': "j' = (if accept_policy opts = COOKIES_ACCEPT_ASK
        then j1\<lparr>cookie_queries := c # cookie_queries j1\<rparr> else accept_cookie c j1)"
    then show "jar_ok j'"
      using accept_cookie_spec(1) [of c "[]" j1] jar_holds_permute [of "[c]" j1 "[]" "j1\<lparr>cookie_queries := c # cookie_queries j1\<rparr>"]
      by auto
  qed (use set.IH in simp)
next
  case (send ed j now u js)
  show ?case using send_cookies_cases(1) [OF send.IH] by (metis prod.collapse)
qed (simp_all add: jar_step_ok add_server_do_ok push_add_button_ok edit_steps_ok load_cookies_ok)


lemma set_cookie_nosave:
  assumes "jar_ok j" "cstring str" "cstring (uhost u)" "set_cookie is_ip idn opts now u str j = Some j'"
  shows "cookies_nosave j' = cookies_nosave j"
  by (rule set_cookie_cases [OF assms]) (auto simp: accept_cookie_spec(5))

lemma jar_reachable_nosave: "jar_reachable is_ip idn ed j \<Longrightarrow> \<not> cookies_nosave j"
proof (induction rule: jar_reachable.induct)
  case (set ed j str u opts now j')
  then show ?case using set_cookie_nosave jar_reachable_ok by blast
next
  case (send ed j now u js)
  then show ?case using send_cookies_cases(2) [OF jar_reachable_ok [OF send.hyps]] by (metis prod.collapse)
next
  case (accept ed j k)
  from accept_cookie_spec(5) [OF asked_taken [OF accept.hyps(2) jar_reachable_ok [OF accept.hyps(1)]]] show ?case using accept.IH by (simp add: accept_cookie_in_msg_box_def)
next
  case (load ed j f now)
  then show ?case by (simp add: load_cookies_def Let_def split: option.split)
next
  case (ask ed j)
  then show ?case by (simp add: accept_cookie_dialog_def split: list.split)
qed (simp_all add: edit_steps_nosave jar_reachable_ok add_server_do_ok push_add_button_ok init_jar_def reject_cookie_in_msg_box_def delete_cookie_item_def delete_cookie_def)

text \<open>As long as no domain is edited, \<open>c_domains\<close> knows the domains of all cookies.\<close>

lemma domains_known_same:
  "cookies j' = cookies j \<Longrightarrow> c_domains j' = c_domains j \<Longrightarrow> domains_known j' \<longleftrightarrow> domains_known j"
  by (simp add: domains_known_def)

lemma set_cookie_domains:
  assumes "jar_ok j" "cstring str" "cstring (uhost u)" "set_cookie is_ip idn opts now u str j = Some j'" "domains_known j"
  shows "domains_known j'"
proof (rule set_cookie_cases [OF assms(1-4)])
  fix c j1
  assume h: "jar_holds [c] j1" "\<exists>ss. j1 = j\<lparr>cookie_servers := ss\<rparr>"
    and j': "j' = (if accept_policy opts = COOKIES_ACCEPT_ASK
        then j1\<lparr>cookie_queries := c # cookie_queries j1\<rparr> else accept_cookie c j1)"
  have "domains_known j1" using h(2) assms(5) by (auto simp: domains_known_def)
  then show ?thesis using accept_cookie_spec(7) [OF h(1)] unfolding j' by (auto simp: domains_known_def)
qed (use assms(5) in simp)

lemma load_line_domains:
  assumes "jar_ok j" "cstring line" "domains_known j"
  shows "domains_known (load_line now line j)"
proof -
  let ?m = "split_members 8 0 line"
  have "cstring (fst (?m ! k))" if "k < length ?m" for k
    using split_members_subset [OF nth_mem [OF that]] assms(2) cstring_subset by blast
  then have c: "cstring (fst (?m ! 0))" "cstring (fst (?m ! 2))" "cstring (fst (?m ! 4))" if "length ?m = 7 \<or> length ?m = 8"
    using that by auto
  show ?thesis
  proof (cases "(length ?m = 7 \<or> length ?m = 8) \<and> \<not> (atol (snd (?m ! 5)) = 0 \<or> atol (snd (?m ! 5)) \<le> now)")
    case True
    obtain cs j1 where s: "get_cookie_server (fst (?m ! 2)) j = (cs, j1)" by fastforce
    let ?c = "\<lparr>cname = fst (?m ! 0), cvalue = fst (?m ! 1), cpath = fst (?m ! 3), cdomain = fst (?m ! 4), cserver = cs,
      expires = atol (snd (?m ! 5)), secure = (atol (snd (?m ! 6)) \<noteq> 0),
      httponly = (length ?m = 8 \<and> atol (snd (?m ! 7)) \<noteq> 0)\<rparr>"
    have h: "jar_holds [?c] j1" "\<exists>ss. j1 = j\<lparr>cookie_servers := ss\<rparr>"
      using get_cookie_server_holds [OF assms(1) _ s, of ?c] c True by (auto simp: cookie_ok_def)
    have "domains_known j1" using h(2) assms(3) by (auto simp: domains_known_def)
    then have "domains_known (accept_cookie ?c j1)" by (rule accept_cookie_spec(7) [OF h(1)])
    moreover have "load_line now line j = accept_cookie ?c j1"
      using True s by (auto simp: load_line_def Let_def)
    ultimately show ?thesis by simp
  next
    case False
    then show ?thesis using assms(3) by (auto simp: load_line_def Let_def domains_known_def)
  qed
qed

lemma load_cookies_domains:
  assumes "jar_ok j" "\<forall>text. fl = Some text \<longrightarrow> cstring text"
  shows "domains_known (load_cookies now fl j)"
proof -
  have d: "jar_ok (done_cookies (j\<lparr>cookies_nosave := True\<rparr>)) \<and> domains_known (done_cookies (j\<lparr>cookies_nosave := True\<rparr>))"
    using done_cookies_spec [of "j\<lparr>cookies_nosave := True\<rparr>"] assms(1) by (simp add: domains_known_def)
  have f: "domains_known (fold (load_line now) ls j')" if "jar_ok j'" "domains_known j'" "\<forall>l \<in> set ls. cstring l" for ls j'
    using that by (induction ls arbitrary: j') (auto intro: load_line_ok load_line_domains)
  show ?thesis
  proof (cases fl)
    case None
    then show ?thesis using d by (simp add: load_cookies_def domains_known_def)
  next
    case (Some t)
    let ?j = "(done_cookies (j\<lparr>cookies_nosave := True\<rparr>))\<lparr>cookies_nosave := False, cookies_nosave := True\<rparr>"
    have "cstring t" using assms(2) Some by simp
    then have "\<forall>l \<in> set (fgets_lines (6 * 1024) t). cstring l"
      using cstring_subset [OF fgets_lines_subset] by simp
    moreover have "jar_ok ?j" using d by (simp only: nosave_holds)
    moreover have "domains_known ?j" using d by (simp add: domains_known_def)
    ultimately have "domains_known (fold (load_line now) (fgets_lines (6 * 1024) t) ?j)" using f by blast
    then show ?thesis unfolding load_cookies_def Let_def Some option.case by (simp add: domains_known_def)
  qed
qed

lemma dialog_domains:
  assumes "jar_ok j" "domains_known j"
  shows "k < length (asked j) \<Longrightarrow> domains_known (accept_cookie_in_msg_box k j)"
    "domains_known (delete_cookie_item k j)"
proof -
  have "domains_known (j\<lparr>asked := take_nth k (asked j)\<rparr>)" using assms(2) by (simp add: domains_known_def)
  then show "domains_known (accept_cookie_in_msg_box k j)" if "k < length (asked j)"
    unfolding accept_cookie_in_msg_box_def by (intro accept_cookie_spec(7) [OF asked_taken [OF that assms(1)]])
  show "domains_known (delete_cookie_item k j)"
    using assms(2) by (auto simp: domains_known_def delete_cookie_item_def delete_cookie_def take_nth_def
        dest!: in_set_takeD in_set_dropD)
qed

lemma jar_reachable_domains: "jar_reachable is_ip idn ed j \<Longrightarrow> \<not> ed \<Longrightarrow> domains_known j"
proof (induction rule: jar_reachable.induct)
  case init
  then show ?case by (simp add: init_jar_def domains_known_def)
next
  case (set ed j str u opts now j')
  then show ?case using set_cookie_domains jar_reachable_ok by blast
next
  case (send ed j now u js)
  then show ?case using send_cookies_cases(3) [OF jar_reachable_ok [OF send.hyps]] by (metis prod.collapse)
next
  case (ask ed j)
  then show ?case by (simp add: accept_cookie_dialog_def domains_known_def split: list.split)
next
  case (load ed j f now)
  then show ?case using load_cookies_domains jar_reachable_ok by blast
next
  case (reject ed j k)
  then show ?case by (simp add: reject_cookie_in_msg_box_def domains_known_def)
qed (simp_all add: dialog_domains add_server_do_ok push_add_button_ok edit_steps_domains jar_reachable_ok)

lemma is_in_domain_lower:
  assumes "lower d = lower e" "cstring d" "cstring e" "cstring h"
  shows "is_in_domain d h (length h) \<longleftrightarrow> is_in_domain e h (length h)"
proof -
  have l: "length d = length e" using assms(1) by (metis length_lower)
  have "c_strncasecmp d t (length d) = 0 \<longleftrightarrow> c_strncasecmp e t (length e) = 0" if "cstring t" for t
    using c_strncasecmp_0_iff [OF assms(2) that] c_strncasecmp_0_iff [OF assms(3) that] assms(1) l by simp
  moreover have "cstring (drop n h)" for n using assms(4) by blast
  ultimately show ?thesis using l assms(4) by (auto simp: is_in_domain_def Let_def)
qed

text \<open>The tests for the domain and the path of a request, in terms of the strings.\<close>

lemma c_tolower_dot: "c_tolower c = CHR ''.'' \<longleftrightarrow> c = CHR ''.''"
proof
  assume a: "c_tolower c = CHR ''.''"
  have "uchar (c_tolower c) = 46" unfolding a by simp
  then have "uchar c = uchar (CHR ''.'')" by (auto simp: uchar_c_tolower c_isupper_def split: if_splits)
  then show "c = CHR ''.''" by (rule char_eqI)
qed (simp add: c_tolower_def)

lemma is_in_domain_iff:
  assumes "cstring d" "cstring h"
  shows "is_in_domain d h (length h) \<longleftrightarrow> lower h = lower d \<or> (\<exists>p. lower h = p @ ''.'' @ lower d)"
proof -
  let ?n = "length h - length d"
  consider (longer) "length h < length d" | (same) "length d = length h" | (shorter) "length d < length h" by linarith
  then show ?thesis
  proof cases
    case longer
    have "lower h \<noteq> p @ lower d" for p
      using longer by (metis length_append length_lower not_add_less2)
    from this [of "[]"] this [of "_ @ ''.''"] show ?thesis using longer by (auto simp: is_in_domain_def Let_def)
  next
    case same
    have "lower h \<noteq> p @ ''.'' @ lower d" for p
    proof
      assume "lower h = p @ ''.'' @ lower d"
      then have "length (lower h) = length (p @ ''.'' @ lower d)" by (rule arg_cong)
      then show False using same by simp
    qed
    then show ?thesis using c_strncasecmp_0_iff [OF assms, of "length h"] same by (auto simp: is_in_domain_def Let_def)
  next
    case shorter
    have ne: "lower h \<noteq> lower d" using shorter by (metis length_lower nat_neq_iff)
    have h: "h = take (?n - 1) h @ h ! (?n - 1) # drop ?n h"
    proof -
      have "?n - 1 < length h" "Suc (?n - 1) = ?n" using shorter by simp_all
      then show ?thesis using id_take_nth_drop [of "?n - 1" h] by (simp only:)
    qed
    have "(\<exists>p. lower h = p @ ''.'' @ lower d) \<longleftrightarrow> h ! (?n - 1) = CHR ''.'' \<and> lower (drop ?n h) = lower d"
    proof
      assume "\<exists>p. lower h = p @ ''.'' @ lower d"
      then obtain p where p: "lower h = p @ CHR ''.'' # lower d" by auto
      then have "length (lower h) = length (p @ CHR ''.'' # lower d)" by (rule arg_cong)
      then have l: "length p = ?n - 1" "?n = Suc (length p)" using shorter by simp_all
      have "c_tolower (h ! (?n - 1)) = lower h ! (?n - 1)" using shorter by (simp add: lower_def)
      then have "c_tolower (h ! (?n - 1)) = CHR ''.''" unfolding l(1) [symmetric] p nth_append_length .
      moreover have "lower (drop ?n h) = drop ?n (lower h)" by (simp add: lower_def drop_map)
      then have "lower (drop ?n h) = lower d" using p l(2) by simp
      ultimately show "h ! (?n - 1) = CHR ''.'' \<and> lower (drop ?n h) = lower d" by (simp add: c_tolower_dot)
    next
      assume a: "h ! (?n - 1) = CHR ''.'' \<and> lower (drop ?n h) = lower d"
      have "lower h = lower (take (?n - 1) h @ h ! (?n - 1) # drop ?n h)" using h by (rule arg_cong)
      also have "\<dots> = lower (take (?n - 1) h) @ ''.'' @ lower d" using a by (simp add: lower_def c_tolower_dot)
      finally show "\<exists>p. lower h = p @ ''.'' @ lower d" by blast
    qed
    moreover have "c_strncasecmp d (drop ?n h) (length d) = 0 \<longleftrightarrow> lower (drop ?n h) = lower d"
      using c_strncasecmp_0_iff [OF assms(1) cstring_drop [OF assms(2)], of ?n "length d"] shorter by auto
    moreover have "?n - 1 < length h" using shorter by linarith
    then have "char_at h (?n - 1) = h ! (?n - 1)" by (simp add: char_at_def)
    ultimately show ?thesis using ne shorter by (simp add: is_in_domain_def Let_def)
  qed
qed

lemma is_path_prefix_iff:
  assumes "cstring path"
  shows "is_path_prefix cp path \<longleftrightarrow> cp = [] \<or> path = cp \<or>
    (\<exists>t. path = cp @ t \<and> (last cp = CHR ''/'' \<or> take 1 t = ''/''))"
proof (cases "cp = []")
  case False
  show ?thesis
  proof (cases "take (length cp) path = cp")
    case True
    then obtain t where t: "path = cp @ t" by (metis append_take_drop_id)
    have "char_at cp (length cp - 1) = last cp" using False by (simp add: char_at_def last_conv_nth)
    moreover have "char_at path (length cp) = deref t" using t by (cases t) (simp_all add: char_at_def nth_append)
    moreover have "deref t = NUL \<longleftrightarrow> t = []" using assms t by (intro deref_NUL_iff) (simp add: cstring_def)
    moreover have "deref t = CHR ''/'' \<longleftrightarrow> take 1 t = ''/''" by (cases t) simp_all
    ultimately show ?thesis using False True t by (auto simp: is_path_prefix_def Let_def)
  next
    case no: False
    then have "path \<noteq> cp @ t" for t by auto
    then show ?thesis using no False by (auto simp: is_path_prefix_def Let_def)
  qed
qed (simp add: is_path_prefix_def)

end
