(* ===== verification/Cookie_Claims.thy ===== *)
theory Cookie_Claims
  imports Cookie_Properties
begin

text \<open>
  The properties of the cookie jar: its consistency in every reachable state, which cookies are
  sent, what setting a cookie changes, and which domains a server may name.
\<close>

subsection \<open>An example\<close>

definition example_uri :: uri where
  "example_uri = uri_zero\<lparr>ustring := ''http://a.bc/x'', protocol := PROTOCOL_HTTP, host := Some 7, hostlen := 4,
     data := Some 12, datalen := 1\<rparr>"

definition example_jar :: jar where
  "example_jar = add_server_do ''a.bc'' init_jar"

lemma example_jar_reachable: "jar_reachable is_ip idn False example_jar"
  unfolding example_jar_def by (intro add_server init) simp

lemma example_host: "uhost example_uri = ''a.bc''"
  by (simp add: uhost_def example_uri_def uri_zero_def Uri.part_def ptr_def)

lemma example_cookies: "cookies example_jar = [\<lparr>cname = ''empty'', cvalue = ''1'', cpath = ''/'', cdomain = ''a.bc'',
    cserver = ''a.bc'', expires = 0, secure = False, httponly = False\<rparr>]"
  by (simp add: example_jar_def add_server_do_def init_jar_def get_cookie_server_def acquire_server_def accept_cookie_def
      set_cookies_dirty_def Let_def)

subsection \<open>Consistency\<close>

text \<open>
  C22: in every state the cookie jar reaches, by answers of servers, requests, the dialogs of the
  user (who may delete cookies, add servers and cookies and edit the fields of a cookie) and loads of the
  file, the list of servers has exactly the servers some cookie comes from, once each up to case
  and with the number of these cookies as its count, wherever the cookies are (accepted, waiting
  for the user, in an open dialog); so no server entry is freed in use and none is leaked. Unless
  the user edited the domain of a cookie since the last load, every domain is in \<open>c_domains\<close>.
\<close>

theorem cookie_jar_consistent:
  assumes "jar_reachable is_ip idn domain_edited j"
  shows "distinct (map (\<lambda>s. lower (fst s)) (cookie_servers j))
    \<and> (\<forall>h. map_of (cookie_servers j) h =
         (let n = length (filter (\<lambda>c. cserver c = h) (cookies j @ cookie_queries j @ asked j))
          in if n = 0 then None else Some n))
    \<and> (domain_edited \<or> (\<forall>c \<in> set (cookies j). \<exists>cd \<in> set (c_domains j). lower cd = lower (cdomain c)))"
proof -
  have ok: "jar_ok j" using jar_reachable_ok [OF assms] .
  then have c: "counts (cookie_servers j) (refs (all_cookies j))" by (simp add: jar_holds_def)
  have "distinct (map (\<lambda>s. key (fst s)) (cookie_servers j))"
    using c by (simp add: counts_def strict_sorted_iff)
  then have "distinct (map (\<lambda>s. lower (fst s)) (cookie_servers j))"
    by (simp add: distinct_map inj_on_def key_eq_iff)
  moreover have "map_of (cookie_servers j) h = (let n = length (filter (\<lambda>c. cserver c = h) (all_cookies j))
      in if n = 0 then None else Some n)" for h
    using c unfolding counts_def Let_def refs_of_def by blast
  ultimately show ?thesis using jar_reachable_domains [OF assms] by (auto simp: domains_known_def)
qed

theorem cookie_jar_consistent_witness:
  "map_of (cookie_servers (set_cookie_domain 0 ''x.yz'' example_jar)) ''a.bc'' = Some 1"
proof -
  have "jar_reachable (\<lambda>_. False) (\<lambda>_. None) True (set_cookie_domain 0 ''x.yz'' example_jar)"
    by (rule edit_domain [OF example_jar_reachable]) (simp_all add: example_cookies)
  from cookie_jar_consistent [OF this] show ?thesis
    by (simp add: set_cookie_domain_def edit_cookie_def example_cookies)
      (simp add: example_jar_def add_server_do_def init_jar_def get_cookie_server_def acquire_server_def accept_cookie_def
        set_cookies_dirty_def Let_def)
qed

subsection \<open>Sending\<close>

text \<open>
  C23: in every reachable state, the header made for a request to a host holds exactly the cookies
  whose domain is the host or follows a dot in it, up to case, whose path is empty, the path of the
  request, or ends in or is followed by a slash there, that have not expired, that are not
  \<open>secure\<close> unless the request is by https, and not \<open>httponly\<close> when a script asks, in the order of the
  jar. The expired cookies among the matching ones are deleted, no others. The only exception:
  after the user edited the domain of a cookie and before the cookies are loaded again, nothing is
  sent and deleted for a host that no entry of \<open>c_domains\<close> matches; otherwise this shortcut never
  hides a cookie.
\<close>

theorem send_cookies_exact:
  fixes domain_edited :: bool
  assumes "jar_reachable is_ip idn domain_edited j" "cstring (uhost u)" "uri.host u \<noteq> None" "data u \<noteq> None"
    "cstring (get_uri_string idn u URI_PATH)" "send_cookies_common idn now u js j = (r, j')"
  shows "let path = get_uri_string idn u URI_PATH;
             in_domain = (\<lambda>d. lower (uhost u) = lower d \<or> (\<exists>p. lower (uhost u) = p @ ''.'' @ lower d));
             in_path = (\<lambda>p. p = [] \<or> path = p \<or> (\<exists>t. path = p @ t \<and> (last p = CHR ''/'' \<or> take 1 t = ''/'')));
             match = (\<lambda>c. in_domain (cdomain c) \<and> in_path (cpath c));
             sent = filter (\<lambda>c. match c \<and> (expires c = 0 \<or> now < expires c) \<and> (secure c \<longrightarrow> protocol u = PROTOCOL_HTTPS)
                       \<and> (httponly c \<longrightarrow> \<not> js)) (cookies j)
         in if domain_edited \<and> (\<forall>cd \<in> set (c_domains j). \<not> in_domain cd) then r = None \<and> j' = j
            else r = (if sent = [] then None else Some (header_text sent))
              \<and> cookies j' = filter (\<lambda>c. \<not> (match c \<and> expires c \<noteq> 0 \<and> expires c \<le> now)) (cookies j)"
proof -
  define path where "path = get_uri_string idn u URI_PATH"
  define in_domain where "in_domain = (\<lambda>d. lower (uhost u) = lower d \<or> (\<exists>p. lower (uhost u) = p @ ''.'' @ lower d))"
  define in_path where "in_path = (\<lambda>p. p = [] \<or> path = p \<or> (\<exists>t. path = p @ t \<and> (last p = CHR ''/'' \<or> take 1 t = ''/'')))"
  let ?sent = "filter (\<lambda>c. (in_domain (cdomain c) \<and> in_path (cpath c)) \<and> (expires c = 0 \<or> now < expires c)
    \<and> (secure c \<longrightarrow> protocol u = PROTOCOL_HTTPS) \<and> (httponly c \<longrightarrow> \<not> js)) (cookies j)"
  let ?kept = "filter (\<lambda>c. \<not> ((in_domain (cdomain c) \<and> in_path (cpath c)) \<and> expires c \<noteq> 0 \<and> expires c \<le> now)) (cookies j)"
  have ok: "jar_ok j" using jar_reachable_ok [OF assms(1)] .
  have dom: "is_in_domain d (uhost u) (length (uhost u)) \<longleftrightarrow> in_domain d" if "cstring d" for d
    using is_in_domain_iff [OF that assms(2)] by (simp add: in_domain_def)
  have known: "(\<exists>cd \<in> set (c_domains j). is_in_domain cd (uhost u) (length (uhost u))) \<longleftrightarrow> (\<exists>cd \<in> set (c_domains j). in_domain cd)"
    using ok dom by (auto simp: jar_holds_def)
  have req: "for_request (uhost u) path c \<longleftrightarrow> in_domain (cdomain c) \<and> in_path (cpath c)" if "c \<in> set (cookies j)" for c
    using ok that dom is_path_prefix_iff [OF assms(5), of "cpath c"]
    by (auto simp: jar_holds_def cookie_ok_def for_request_def in_path_def path_def)
  have sent: "filter (\<lambda>c. for_request (uhost u) path c \<and> \<not> expired now c \<and> sendable (protocol u = PROTOCOL_HTTPS) js c) (cookies j) = ?sent"
    using req by (intro filter_cong) (auto simp: expired_def sendable_def)
  have kept: "filter (\<lambda>c. \<not> (for_request (uhost u) path c \<and> expired now c)) (cookies j) = ?kept"
    using req by (intro filter_cong) (auto simp: expired_def)
  have "if domain_edited \<and> (\<forall>cd \<in> set (c_domains j). \<not> in_domain cd) then r = None \<and> j' = j
    else r = (if ?sent = [] then None else Some (header_text ?sent)) \<and> cookies j' = ?kept"
  proof (cases "\<exists>cd \<in> set (c_domains j). in_domain cd")
    case True
    have "r = (if header_text ?sent = [] then None else Some (header_text ?sent)) \<and> cookies j' = ?kept"
      using send_cookies_cases(4) [OF ok assms(6,3,4)] True
      unfolding known Let_def path_def [symmetric] sent kept by blast
    then show ?thesis using True by auto
  next
    case False
    have "(r, j') = (None, j)" using assms(6) False unfolding known [symmetric]
      by (auto simp: send_cookies_common_def uhost_def [symmetric] Let_def split: if_splits)
    moreover have "?sent = [] \<and> ?kept = cookies j" if "\<not> domain_edited"
    proof -
      have "\<not> in_domain (cdomain c)" if c: "c \<in> set (cookies j)" for c
      proof -
        obtain cd where "cd \<in> set (c_domains j)" "lower cd = lower (cdomain c)"
          using jar_reachable_domains [OF assms(1) \<open>\<not> domain_edited\<close>] c by (auto simp: domains_known_def)
        then show ?thesis using False by (auto simp: in_domain_def)
      qed
      then show ?thesis by (auto simp: filter_empty_conv filter_id_conv)
    qed
    ultimately show ?thesis using False by (cases domain_edited) simp_all
  qed
  then show ?thesis unfolding Let_def path_def in_domain_def in_path_def .
qed

lemma example_path: "get_uri_string (\<lambda>_. None) example_uri URI_PATH = ''/x''"
  by code_simp

theorem send_cookies_exact_witness:
  "fst (send_cookies_common (\<lambda>_. None) 100 example_uri False example_jar) = Some ''empty=1''"
proof -
  obtain r j' where s: "send_cookies_common (\<lambda>_. None) 100 example_uri False example_jar = (r, j')" by fastforce
  have "cstring (uhost example_uri)" "uri.host example_uri \<noteq> None" "data example_uri \<noteq> None"
    "cstring (get_uri_string (\<lambda>_. None) example_uri URI_PATH)"
    unfolding example_path by (simp_all add: example_host) (simp_all add: example_uri_def)
  from send_cookies_exact [OF example_jar_reachable [of "\<lambda>_. False"] this s]
  have "r = Some ''empty=1''" by (simp add: Let_def example_host example_path example_cookies)
  then show ?thesis using s by simp
qed


subsection \<open>Setting\<close>

text \<open>
  C24: when all cookies are accepted, an answer of a server in any reachable state either has no
  cookie and changes nothing, or puts one cookie at the front with the name and value it parses
  to, for a domain that passes the security check or is the host itself, and deletes exactly the
  cookies of the same name and domain up to case (a cookie for another path of this domain too).
  Nothing else of the jar's cookies changes.
\<close>

theorem set_cookie_effect:
  assumes "jar_reachable is_ip idn domain_edited j" "cstring str" "cstring (uhost u)" "accept_policy opts = COOKIES_ACCEPT_ALL"
    "set_cookie is_ip idn opts now u str j = Some j'"
  shows "(parse_cookie_str str = None \<and> j' = j)
    \<or> (\<exists>c. parse_cookie_str str = Some (cname c, cvalue c)
        \<and> cookies j' = c # filter (\<lambda>d. \<not> (lower (cname d) = lower (cname c) \<and> lower (cdomain d) = lower (cdomain c)))
            (cookies j)
        \<and> (is_domain_security_ok is_ip (paranoid_security opts) (cdomain c) (uhost u) \<or> cdomain c = uhost u)
        \<and> lower (cserver c) = lower (uhost u) \<and> cookie_expires opts now str = Some (expires c)
        \<and> cookie_queries j' = cookie_queries j \<and> cookies_dirty j')"
proof -
  have ns: "\<not> cookies_nosave j" using jar_reachable_nosave [OF assms(1)] .
  show ?thesis
  proof (rule set_cookie_cases [OF jar_reachable_ok [OF assms(1)] assms(2,3,5)])
    assume "j' = j" "accept_policy opts = COOKIES_ACCEPT_NONE \<or> parse_cookie_str str = None"
    then show ?thesis using assms(4) by simp
  next
    fix c j1
    assume c: "jar_holds [c] j1" "\<exists>ss. j1 = j\<lparr>cookie_servers := ss\<rparr>" "lower (cserver c) = lower (uhost u)"
      "parse_cookie_str str = Some (cname c, cvalue c)"
      "is_domain_security_ok is_ip (paranoid_security opts) (cdomain c) (uhost u) \<or> cdomain c = uhost u"
      "cookie_expires opts now str = Some (expires c)"
      "j' = (if accept_policy opts = COOKIES_ACCEPT_ASK then j1\<lparr>cookie_queries := c # cookie_queries j1\<rparr>
             else accept_cookie c j1)"
    then have "j' = accept_cookie c j1" using assms(4) by simp
    then show ?thesis using c accept_cookie_spec [OF c(1)] ns by (intro disjI2 exI [of _ c]) auto
  qed
qed


definition example_options :: cookie_options where
  "example_options = \<lparr>accept_policy = COOKIES_ACCEPT_ALL, max_age = -1, paranoid_security = False\<rparr>"

theorem set_cookie_effect_witness:
  "\<exists>j' c. set_cookie (\<lambda>_. False) (\<lambda>_. None) example_options 0 example_uri ''k=v'' example_jar = Some j'
    \<and> cookies j' = [c, hd (cookies example_jar)] \<and> cname c = ''k'' \<and> cvalue c = ''v''"
proof -
  have p: "parse_cookie_str ''k=v'' = Some (''k'', ''v'')"
    by (simp add: parse_cookie_str_def elinks_isspace_def skip_space_def trim_isspace_def Let_def)
  have h: "parse_header_param ''k=v'' n False = None" for n
    by (simp add: parse_header_param_def)
  have e: "cookie_expires example_options 0 ''k=v'' = Some 0" by (simp add: cookie_expires_def h)
  obtain cs j1 where "get_cookie_server (part example_uri (host example_uri) (hostlen example_uri)) example_jar = (cs, j1)"
    by fastforce
  then obtain j' where s: "set_cookie (\<lambda>_. False) (\<lambda>_. None) example_options 0 example_uri ''k=v'' example_jar = Some j'"
    using p e by (auto simp: set_cookie_def example_options_def Let_def split: prod.splits)
  have "cstring ''k=v''" "cstring (uhost example_uri)" "accept_policy example_options = COOKIES_ACCEPT_ALL"
    by (simp_all add: example_host example_options_def)
  from set_cookie_effect [OF example_jar_reachable this s] p obtain c where
    c: "cname c = ''k''" "cvalue c = ''v''" and
    cs: "cookies j' = c # filter (\<lambda>d. \<not> (lower (cname d) = lower (cname c) \<and> lower (cdomain d) = lower (cdomain c)))
            (cookies example_jar)"
    by auto
  have "cookies j' = [c, hd (cookies example_jar)]"
    unfolding cs c by (simp add: example_cookies lower_def)
  then show ?thesis using s c by blast
qed

subsection \<open>Domains\<close>

definition count_dots :: "string \<Rightarrow> nat" where
  "count_dots d = length (filter (\<lambda>c. c = CHR ''.'') d)"

lemma dots_needed_count: "dots_needed d (Suc n) = Suc n - count_dots d"
proof (induction d arbitrary: n)
  case (Cons c d)
  show ?case using Cons.IH [of "n - 1"] Cons.IH [of n] by (cases n) (auto simp: count_dots_def)
qed (simp add: count_dots_def)

text \<open>
  The security check accepts a domain, without a leading dot, for a server exactly when it ends
  the server's name up to case and is either this whole name, or has a dot (two for a national
  domain in the paranoid mode) and the server is not an IP address.
\<close>

lemma is_domain_security_ok_spec:
  assumes "cstring domain" "cstring server"
  shows "is_domain_security_ok is_ip paranoid domain server \<longleftrightarrow>
    (let d = (if deref domain = CHR ''.'' then tl domain else domain);
         tld = end_with_known_tld d (int (length d));
         need = (if paranoid \<and> \<not> (d \<noteq> [] \<and> 1 \<le> tld \<and> char_at d (nat (tld - 1)) = CHR ''.'') then 2 else 1)
     in (\<exists>p s. server = p @ s \<and> lower s = lower d
          \<and> (p = [] \<or> \<not> is_ip server \<and> need \<le> count_dots d)))"
proof -
  define d where "d = (if deref domain = CHR ''.'' then tl domain else domain)"
  define tld where "tld = end_with_known_tld d (int (length d))"
  define need :: nat where "need = (if paranoid \<and> \<not> (d \<noteq> [] \<and> 1 \<le> tld \<and> char_at d (nat (tld - 1)) = CHR ''.'') then 2 else 1)"
  let ?n = "length server - length d"
  have cd: "cstring d" using assms(1) by (cases domain) (auto simp: d_def)
  have cmp: "c_strncasecmp d (drop ?n server) (length d) = 0 \<longleftrightarrow> lower (drop ?n server) = lower d"
    if "length d \<le> length server"
    using c_strncasecmp_0_iff [OF cd cstring_drop [OF assms(2)], of ?n "length d"] that by auto
  have split: "(\<exists>p s. server = p @ s \<and> lower s = lower d \<and> (p = [] \<or> Q)) \<longleftrightarrow>
      length d \<le> length server \<and> lower (drop ?n server) = lower d \<and> (length server = length d \<or> Q)" for Q
  proof
    assume "\<exists>p s. server = p @ s \<and> lower s = lower d \<and> (p = [] \<or> Q)"
    then obtain p s where ps: "server = p @ s" "lower s = lower d" "p = [] \<or> Q" by blast
    then have "length s = length d" by (metis length_lower)
    then show "length d \<le> length server \<and> lower (drop ?n server) = lower d \<and> (length server = length d \<or> Q)"
      using ps by auto
  next
    assume a: "length d \<le> length server \<and> lower (drop ?n server) = lower d \<and> (length server = length d \<or> Q)"
    then have "take ?n server = [] \<longleftrightarrow> length server = length d" by auto
    then show "\<exists>p s. server = p @ s \<and> lower s = lower d \<and> (p = [] \<or> Q)"
      using a by (intro exI [of _ "take ?n server"] exI [of _ "drop ?n server"]) simp
  qed
  have code: "is_domain_security_ok is_ip paranoid domain server \<longleftrightarrow> length d \<le> length server
      \<and> c_strncasecmp d (drop ?n server) (length d) = 0 \<and> (length server = length d \<or> \<not> is_ip server \<and> dots_needed d need = 0)"
    by (auto simp: is_domain_security_ok_def Let_def d_def [symmetric] tld_def [symmetric] need_def)
  have "dots_needed d need = 0 \<longleftrightarrow> need \<le> count_dots d"
    using dots_needed_count [of d 0] dots_needed_count [of d 1] by (auto simp: numeral_2_eq_2 need_def)
  then show ?thesis
    using cmp unfolding code split Let_def d_def [symmetric] tld_def [symmetric] need_def [symmetric] by blast
qed

lemma is_domain_security_ok_spec_witness:
  "is_domain_security_ok (\<lambda>_. False) False ''.b.org'' ''a.B.org''"
proof -
  have "''a.B.org'' = ''a.'' @ ''B.org'' \<and> lower ''B.org'' = lower ''b.org'' \<and> 1 \<le> count_dots ''b.org''"
    by (simp add: lower_def c_tolower_def count_dots_def char_of_def bit_0)
  then have "\<exists>p s. ''a.B.org'' = p @ s \<and> lower s = lower ''b.org'' \<and> (p = [] \<or> \<not> False \<and> 1 \<le> count_dots ''b.org'')" by blast
  then show ?thesis
    using is_domain_security_ok_spec [of "''.b.org''" "''a.B.org''" "\<lambda>_. False" False] by (simp add: Let_def)
qed

text \<open>
  The end of the server's name need not begin at a dot: a server may set a cookie for another
  registered domain, to which it is then sent.
\<close>

lemma cookie_for_other_domain:
  "is_domain_security_ok (\<lambda>_. False) False ''bank.com'' ''notbank.com'' \<and> \<not> is_in_domain ''bank.com'' ''notbank.com'' 11
    \<and> is_in_domain ''bank.com'' ''bank.com'' 8"
  by (simp add: is_domain_security_ok_def is_in_domain_def c_tolower_def char_at_def numeral_eq_Suc Let_def)

text \<open>The domain a user edits is not entered into \<open>c_domains\<close>, so its cookie is not sent to its new host.\<close>

lemma edit_breaks_domains:
  "\<not> domains_known (set_cookie_domain 0 ''x.yz'' example_jar)"
  by (simp add: domains_known_def set_cookie_domain_def edit_cookie_def example_cookies)
    (simp add: example_jar_def add_server_do_def init_jar_def get_cookie_server_def acquire_server_def accept_cookie_def
      set_cookies_dirty_def Let_def lower_def c_tolower_def)

end
