(* ===== verification/Cookie_File.thy ===== *)
theory Cookie_File
  imports Cookie_Properties
begin

text \<open>
  The cookie file: loading what was saved gives the cookies that are worth keeping, in the opposite
  order, since each cookie is added at the front of the list.
\<close>

subsection \<open>Lines\<close>

definition saved_field :: "string \<Rightarrow> bool" where
  "saved_field s \<longleftrightarrow> TAB \<notin> set s \<and> LF \<notin> set s \<and> cstring s"

definition savable :: "cookie \<Rightarrow> bool" where
  "savable c \<longleftrightarrow> saved_field (cname c) \<and> saved_field (cvalue c) \<and> saved_field (cserver c)
     \<and> saved_field (cpath c) \<and> saved_field (cdomain c) \<and> length (cookie_line c) < 6 * 1024"

lemma strchr_field: "x \<notin> set s \<Longrightarrow> strchr (s @ x # t) x = Some (length s)"
  by (induction s) auto

lemma strchr_none: "x \<notin> set s \<Longrightarrow> x \<noteq> NUL \<Longrightarrow> strchr s x = None"
  by (induction s) auto

lemma split_members_tab:
  "TAB \<notin> set s \<Longrightarrow> split_members (Suc k) i (s @ TAB # t) = (s, s @ TAB # t) # split_members k (i + 1) t"
  by (simp add: strchr_field)

lemma print_long_chars: "0 \<le> e \<Longrightarrow> TAB \<notin> set (print_long e) \<and> LF \<notin> set (print_long e) \<and> cstring (print_long e)"
  using decimal_digits [of "nat e"] by (auto simp: print_long_def isdigit_def cstring_def)

lemma split_members_last:
  "TAB \<notin> set s \<Longrightarrow> LF \<notin> set s \<Longrightarrow> split_members (Suc 0) 7 (s @ [LF]) = [(s, s @ [LF])]"
  by (simp add: strchr_field strchr_none)

lemma split_members_line:
  assumes "\<forall>f \<in> {a, b, c, d, e, x, y, z}. TAB \<notin> set f" "LF \<notin> set z"
  shows "split_members 8 0 (a @ TAB # b @ TAB # c @ TAB # d @ TAB # e @ TAB # x @ TAB # y @ TAB # z @ [LF])
    = [(a, a @ TAB # b @ TAB # c @ TAB # d @ TAB # e @ TAB # x @ TAB # y @ TAB # z @ [LF]),
       (b, b @ TAB # c @ TAB # d @ TAB # e @ TAB # x @ TAB # y @ TAB # z @ [LF]),
       (c, c @ TAB # d @ TAB # e @ TAB # x @ TAB # y @ TAB # z @ [LF]),
       (d, d @ TAB # e @ TAB # x @ TAB # y @ TAB # z @ [LF]), (e, e @ TAB # x @ TAB # y @ TAB # z @ [LF]),
       (x, x @ TAB # y @ TAB # z @ [LF]), (y, y @ TAB # z @ [LF]), (z, z @ [LF])]"
proof -
  have n: "(8 :: nat) = Suc (Suc (Suc (Suc (Suc (Suc (Suc (Suc 0)))))))" "0 + 1 + 1 + 1 + 1 + 1 + 1 + 1 = (7 :: nat)"
    by simp_all
  show ?thesis
    unfolding n(1) using assms split_members_last [of z]
    by (simp only: split_members_tab n(2) ball_simps insert_iff simp_thms empty_iff)
qed

lemma load_saved_line:
  assumes "savable c" "now < expires c" "0 \<le> now" "get_cookie_server (cserver c) j = (cserver c, j1)"
  shows "load_line now (cookie_line c) j = accept_cookie c j1"
proof -
  let ?f = "\<lambda>b. if b then ''1'' else ''0''"
  have line: "cookie_line c = cname c @ TAB # cvalue c @ TAB # cserver c @ TAB # cpath c @ TAB # cdomain c @ TAB #
      print_long (expires c) @ TAB # ?f (secure c) @ TAB # ?f (httponly c) @ [LF]"
    by (simp add: cookie_line_def)
  have t: "\<forall>f \<in> {cname c, cvalue c, cserver c, cpath c, cdomain c, print_long (expires c), ?f (secure c), ?f (httponly c)}.
      TAB \<notin> set f" "LF \<notin> set (?f (httponly c))"
    using assms(1-3) print_long_chars [of "expires c"] by (auto simp: savable_def saved_field_def)
  note m = split_members_line [OF t, folded line]
  have a: "atol (print_long (expires c) @ TAB # r) = expires c" for r
    using assms(2,3) by (intro atol_print_long) (simp_all add: isdigit_def)
  have b: "atol (?f v @ x # r) = (if v then 1 else 0)" if "\<not> isdigit x" for v x r
    using that by (simp add: atol_def skip_space_def elinks_isspace_def digits_val_def isdigit_def [of "CHR ''1''"]
        isdigit_def [of "CHR ''0''"] digit_def)
  have whole: "\<lparr>cname = cname c, cvalue = cvalue c, cpath = cpath c, cdomain = cdomain c, cserver = cserver c,
      expires = expires c, secure = v, httponly = w\<rparr> = c" if "secure c = v" "httponly c = w" for v w
    using that by (cases c) auto
  have nd: "\<not> isdigit TAB" "\<not> isdigit LF" by (simp_all add: isdigit_def)
  show ?thesis
    unfolding load_line_def m Let_def using assms(2-4) b [OF nd(1), of "secure c"] b [OF nd(2), of "httponly c" "[]"]
    by (simp add: a whole)
qed

subsection \<open>Files\<close>

lemma cookie_line_LF:
  assumes "savable c" "0 \<le> expires c"
  shows "\<exists>b. cookie_line c = b @ [LF] \<and> LF \<notin> set b"
proof -
  let ?f = "\<lambda>b. if b then ''1'' else ''0''"
  let ?b = "cname c @ [TAB] @ cvalue c @ [TAB] @ cserver c @ [TAB] @ cpath c @ [TAB] @ cdomain c @ [TAB]
       @ print_long (expires c) @ [TAB] @ ?f (secure c) @ [TAB] @ ?f (httponly c)"
  have "cookie_line c = ?b @ [LF]" by (simp add: cookie_line_def)
  moreover have "LF \<notin> set ?b"
    using assms print_long_chars [of "expires c"] by (auto simp: savable_def saved_field_def)
  ultimately show ?thesis by blast
qed

lemma fgets_line:
  assumes "l = b @ [LF]" "LF \<notin> set b" "length l < n"
  shows "fgets_lines n (l @ rest) = l # fgets_lines n rest"
proof -
  have "takeWhile (\<lambda>c. c \<noteq> LF) (b @ LF # rest) = b"
    using assms(2) by (auto simp: takeWhile_append takeWhile_eq_all_conv)
  moreover have "min (n - 1) (Suc (length b)) = Suc (length b)" using assms(1,3) by simp
  ultimately show ?thesis using assms by (subst fgets_lines.simps) (simp add: Let_def del: min_Suc_Suc)
qed

lemma fgets_saved:
  "\<forall>c \<in> set cs. savable c \<and> 0 \<le> expires c \<Longrightarrow>
     fgets_lines (6 * 1024) (concat (map cookie_line cs)) = map cookie_line cs"
proof (induction cs)
  case Nil
  show ?case by (subst fgets_lines.simps) simp
next
  case (Cons c cs)
  obtain b where "cookie_line c = b @ [LF]" "LF \<notin> set b" using cookie_line_LF [of c] Cons.prems by auto
  then have "fgets_lines (6 * 1024) (cookie_line c @ concat (map cookie_line cs))
      = cookie_line c # fgets_lines (6 * 1024) (concat (map cookie_line cs))"
    using Cons.prems by (intro fgets_line) (simp_all add: savable_def)
  then show ?case using Cons by simp
qed


subsection \<open>Loading\<close>

text \<open>
  While the saved cookies are loaded into a jar whose servers all come from cookies of the old
  jar, every server is found or made under its own spelling.
\<close>

lemma get_own_server:
  assumes "jar_holds extra j" "cstring h" "\<forall>s \<in> set (cookie_servers j). lower (fst s) = lower h \<longrightarrow> fst s = h"
  shows "fst (get_cookie_server h j) = h"
proof (cases "lock_server h (cookie_servers j)")
  case (Some r)
  obtain cs ss where r: "r = (cs, ss)" by fastforce
  have "distinct (map fst (cookie_servers j))" using assms(1) counts_keys by (auto simp: jar_holds_def)
  then have "server_is h cs" "cs \<in> fst ` set (cookie_servers j)"
    using lock_server_Some [of h "cookie_servers j" cs ss] Some r by (auto dest!: map_of_SomeD intro: rev_image_eqI)
  moreover from this have "cstring cs" using assms(1) by (auto simp: jar_holds_def counts_def)
  ultimately have "lower cs = lower h" using server_is_key [OF assms(2)] key_eq_iff by blast
  then have "cs = h" using assms(3) \<open>cs \<in> fst ` set (cookie_servers j)\<close> by auto
  then show ?thesis using Some r by (simp add: get_cookie_server_def acquire_server_def)
qed (simp add: get_cookie_server_def acquire_server_def)

lemma servers_of_cookies:
  assumes "jar_ok j" "s \<in> set (cookie_servers j)"
  shows "\<exists>c \<in> set (all_cookies j). cserver c = fst s"
proof -
  have c: "counts (cookie_servers j) (refs (all_cookies j))" using assms(1) by (simp add: jar_holds_def)
  have "map_of (cookie_servers j) (fst s) = Some (snd s)"
    using counts_keys(1) [OF c] assms(2) by (simp add: map_of_eq_Some_iff)
  then have "refs (all_cookies j) (fst s) \<noteq> 0" using c by (auto simp: counts_def split: if_splits)
  then have "filter (\<lambda>c. cserver c = fst s) (all_cookies j) \<noteq> []" by (auto simp: refs_of_def simp del: filter_append)
  then show ?thesis by (auto simp: filter_empty_conv)
qed

lemma servers_spelled:
  assumes "jar_ok j" "c \<in> set (all_cookies j)" "d \<in> set (all_cookies j)" "lower (cserver c) = lower (cserver d)"
  shows "cserver c = cserver d \<and> cstring (cserver c)"
proof -
  have cnt: "counts (cookie_servers j) (refs (all_cookies j))" using assms(1) by (simp add: jar_holds_def)
  have m: "\<exists>n. (cserver x, n) \<in> set (cookie_servers j)" if "x \<in> set (all_cookies j)" for x
  proof -
    have "filter (\<lambda>c. cserver c = cserver x) (all_cookies j) \<noteq> []" using that by (auto simp: filter_empty_conv)
    then have "refs (all_cookies j) (cserver x) \<noteq> 0" by (simp add: refs_of_def del: filter_append)
    then show ?thesis using cnt by (auto simp: counts_def dest!: map_of_SomeD split: if_splits)
  qed
  obtain n k where "(cserver c, n) \<in> set (cookie_servers j)" "(cserver d, k) \<in> set (cookie_servers j)"
    using m assms(2,3) by blast
  then show ?thesis
    using counts_keys(2) [OF cnt] assms(4) cnt key_eq_iff [of "cserver c" "cserver d"]
    by (fastforce simp: inj_on_def counts_def)
qed

lemma load_lines:
  assumes "jar_ok j" "cookies_nosave j" "0 \<le> now" "\<forall>c \<in> set cs. savable c \<and> now < expires c"
    "\<forall>c \<in> set cs \<union> set (all_cookies j). \<forall>d \<in> set cs \<union> set (all_cookies j).
        lower (cserver c) = lower (cserver d) \<longrightarrow> cserver c = cserver d"
  shows "cookies (fold (load_line now) (map cookie_line cs) j) = rev cs @ cookies j"
  using assms
proof (induction cs arbitrary: j)
  case (Cons c cs)
  have cs: "cstring (cserver c)" "savable c" "now < expires c" "cookie_ok c"
    using Cons.prems(4) by (auto simp: savable_def saved_field_def cookie_ok_def)
  have "\<forall>s \<in> set (cookie_servers j). lower (fst s) = lower (cserver c) \<longrightarrow> fst s = cserver c"
  proof (intro ballI impI)
    fix s assume s: "s \<in> set (cookie_servers j)" "lower (fst s) = lower (cserver c)"
    obtain d where "d \<in> set (all_cookies j)" "cserver d = fst s" using servers_of_cookies [OF Cons.prems(1) s(1)] by blast
    then show "fst s = cserver c" using Cons.prems(5) s(2) by (metis UnI1 UnI2 list.set_intros(1))
  qed
  then obtain j1 where g: "get_cookie_server (cserver c) j = (cserver c, j1)"
    using get_own_server [OF Cons.prems(1) cs(1)] by (metis prod.collapse)
  have h: "jar_holds [c] j1" "\<exists>ss. j1 = j\<lparr>cookie_servers := ss\<rparr>"
    using get_cookie_server_holds [OF Cons.prems(1) cs(1) g refl cs(4)] by simp_all
  then have n: "cookies_nosave j1" "cookies j1 = cookies j" "all_cookies j1 = all_cookies j" using Cons.prems(2) by auto
  note a = accept_cookie_spec [OF h(1)]
  have all: "set (all_cookies (accept_cookie c j1)) = insert c (set (all_cookies j))" using a(2-4) n by auto
  have "load_line now (cookie_line c) j = accept_cookie c j1"
    by (rule load_saved_line [OF cs(2,3) Cons.prems(3) g])
  moreover have "cookies (fold (load_line now) (map cookie_line cs) (accept_cookie c j1)) = rev cs @ cookies (accept_cookie c j1)"
    by (rule Cons.IH) (use a(1,5) n Cons.prems in \<open>auto simp only: all list.set Un_iff insert_iff intro: \<close>)
  ultimately show ?case using a(2) n by simp
qed simp


text \<open>
  C25: saving the cookies of any reachable jar and loading the file gives back exactly the cookies
  that have a time of expiry in the future, with all their attributes, in the opposite order, as
  long as no field holds a tab or the end of a line and each line fits into the buffer.
\<close>

theorem save_load_cookies:
  assumes "jar_reachable is_ip idn domain_edited j" "0 \<le> now" "\<forall>c \<in> set (cookies j). savable c"
  shows "cookies (load_cookies now (Some (save_cookies now j)) j)
    = rev (filter (\<lambda>c. expires c \<noteq> 0 \<and> now < expires c) (cookies j))"
proof -
  let ?cs = "filter (\<lambda>c. expires c \<noteq> 0 \<and> now < expires c) (cookies j)"
  let ?j0 = "(done_cookies (j\<lparr>cookies_nosave := True\<rparr>))\<lparr>cookies_nosave := False, cookies_nosave := True\<rparr>"
  have ok: "jar_ok j" using jar_reachable_ok [OF assms(1)] .
  have d: "jar_ok (done_cookies (j\<lparr>cookies_nosave := True\<rparr>)) \<and> cookies (done_cookies (j\<lparr>cookies_nosave := True\<rparr>)) = []
      \<and> cookie_queries (done_cookies (j\<lparr>cookies_nosave := True\<rparr>)) = []
      \<and> asked (done_cookies (j\<lparr>cookies_nosave := True\<rparr>)) = asked j"
    using done_cookies_spec [of "j\<lparr>cookies_nosave := True\<rparr>"] ok by simp
  have j0: "jar_ok ?j0" "cookies_nosave ?j0" "cookies ?j0 = []" "all_cookies ?j0 = asked j" using d by simp_all
  have sub: "set ?cs \<union> set (all_cookies ?j0) \<subseteq> set (all_cookies j)" unfolding j0(4) by auto
  have "cookies (fold (load_line now) (map cookie_line ?cs) ?j0) = rev ?cs @ cookies ?j0"
  proof (rule load_lines [OF j0(1,2) assms(2)])
    show "\<forall>c \<in> set ?cs. savable c \<and> now < expires c" using assms(3) by auto
    show "\<forall>c \<in> set ?cs \<union> set (all_cookies ?j0). \<forall>d \<in> set ?cs \<union> set (all_cookies ?j0).
        lower (cserver c) = lower (cserver d) \<longrightarrow> cserver c = cserver d"
      using sub servers_spelled [OF ok] by blast
  qed
  moreover have "filter (\<lambda>c. \<not> (expires c = 0 \<or> expires c \<le> now)) (cookies j) = ?cs" by (rule filter_cong) auto
  then have "save_cookies now j = concat (map cookie_line ?cs)" by (simp add: save_cookies_def)
  then have "fgets_lines (6 * 1024) (save_cookies now j) = map cookie_line ?cs"
    using fgets_saved [of ?cs] assms(2,3) by auto
  ultimately show ?thesis
    unfolding load_cookies_def Let_def option.case using j0(3) by simp
qed

definition kept_cookie :: cookie where
  "kept_cookie = \<lparr>cname = ''n'', cvalue = ''v'', cpath = ''/'', cdomain = ''d.e'', cserver = ''d.e'', expires = 9,
     secure = True, httponly = False\<rparr>"

definition kept_jar :: jar where
  "kept_jar = load_cookies 5 (Some (cookie_line kept_cookie)) init_jar"

lemma kept_jar:
  "jar_reachable is_ip idn False kept_jar" "cookies kept_jar = [kept_cookie]" "savable kept_cookie"
proof -
  have k: "savable kept_cookie" "now < expires kept_cookie" if "now = 5" for now :: int
    using that by (simp_all add: kept_cookie_def savable_def saved_field_def cookie_line_def print_long_def decimal.simps)
  then show "savable kept_cookie" by simp
  have c: "cstring (cookie_line kept_cookie)"
    by (simp add: kept_cookie_def cookie_line_def print_long_def decimal.simps char_of_def)
  then show "jar_reachable is_ip idn False kept_jar"
    unfolding kept_jar_def by (intro jar_reachable.load [OF jar_reachable.init]) simp
  let ?j0 = "(done_cookies (init_jar\<lparr>cookies_nosave := True\<rparr>))\<lparr>cookies_nosave := False, cookies_nosave := True\<rparr>"
  have j0: "?j0 = init_jar\<lparr>cookies_nosave := True\<rparr>"
    by (simp add: done_cookies_def init_jar_def free_cookies_list_def)
  have "jar_ok (init_jar\<lparr>cookies_nosave := True\<rparr>)"
    unfolding nosave_holds by (rule jar_reachable_ok) (rule jar_reachable.init)
  moreover have "cookies_nosave (init_jar\<lparr>cookies_nosave := True\<rparr>)" "all_cookies (init_jar\<lparr>cookies_nosave := True\<rparr>) = []"
    by (simp_all add: init_jar_def)
  ultimately have "cookies (fold (load_line 5) (map cookie_line [kept_cookie]) ?j0) = rev [kept_cookie] @ cookies ?j0"
    unfolding j0 using k by (intro load_lines) simp_all
  moreover have "fgets_lines (6 * 1024) (cookie_line kept_cookie) = [cookie_line kept_cookie]"
    using fgets_saved [of "[kept_cookie]"] k [OF refl] by simp
  ultimately show "cookies kept_jar = [kept_cookie]"
    unfolding kept_jar_def load_cookies_def Let_def option.case j0 by (simp add: init_jar_def)
qed

theorem save_load_cookies_witness:
  "cookies (load_cookies 5 (Some (save_cookies 5 kept_jar)) kept_jar) = [kept_cookie]"
  using save_load_cookies [OF kept_jar(1) [of "\<lambda>_. False" "\<lambda>_. None"], of 5] kept_jar(2,3)
  by (simp add: kept_cookie_def)

text \<open>
  Lines of the format that \<open>cookies.h\<close> documents, without the field for \<open>httponly\<close>, are ignored:
  the last field is only looked for behind an eighth tab.
\<close>

lemma old_format_ignored:
  "load_line 0 (''n'' @ [TAB] @ ''v'' @ [TAB] @ ''h'' @ [TAB] @ ''/'' @ [TAB] @ ''d'' @ [TAB] @ ''9'' @ [TAB] @ ''0'' @ [LF]) j = j"
  by (simp add: load_line_def eval_nat_numeral Let_def)

text \<open>
  A value with a tab inside is accepted from a server, but its line has a field too many: the
  expiry time is looked for in the field of the domain, and the cookie is lost.
\<close>

lemma tab_in_value_lost:
  "parse_cookie_str (''n=a'' @ [TAB] @ ''b'') = Some (''n'', ''a'' @ [TAB] @ ''b'')"
  "load_line 5 (cookie_line (kept_cookie\<lparr>cvalue := ''a'' @ [TAB] @ ''b''\<rparr>)) j = set_cookies_dirty j"
proof -
  show "parse_cookie_str (''n=a'' @ [TAB] @ ''b'') = Some (''n'', ''a'' @ [TAB] @ ''b'')"
    by (simp add: parse_cookie_str_def elinks_isspace_def skip_space_def trim_isspace_def Let_def)
  have l: "cookie_line (kept_cookie\<lparr>cvalue := ''a'' @ [TAB] @ ''b''\<rparr>)
    = ''n'' @ TAB # ''a'' @ TAB # ''b'' @ TAB # ''d.e'' @ TAB # ''/'' @ TAB # ''d.e'' @ TAB # ''9'' @ TAB # ''1'' @ TAB # ''0'' @ [LF]"
    by (simp add: cookie_line_def kept_cookie_def print_long_def decimal.simps char_of_def bit_0 bit_Suc)
  show "load_line 5 (cookie_line (kept_cookie\<lparr>cvalue := ''a'' @ [TAB] @ ''b''\<rparr>)) j = set_cookies_dirty j"
    unfolding l by (simp add: char_of_def bit_0 bit_Suc load_line_def eval_nat_numeral Let_def atol_def skip_space_def elinks_isspace_def digits_val_def isdigit_def)
qed

end
