(* ===== verification/Scanner.thy ===== *)
theory Scanner
  imports Util_String
begin

text \<open>
  The generic scanner of \<open>src/util/scanner.[ch]\<close>: a table of at most ten tokens that is refilled
  from the string when the parser comes to its last token, so that one token of lookahead is always
  there. A position in the string is its offset, \<open>None\<close> for NULL; the table index \<open>current\<close> is the
  pointer into the table.

  The two scanners that use it share the loop that fills the table; they differ in how a token is
  read. That is the interface \<open>token_reader\<close>. The lemmas in it say that a parser which only uses the
  accessors sees a plain list of tokens.
\<close>

record token =
  ttype :: int
  precedence :: int
  tstring :: nat
  tlength :: int

definition no_token :: token where
  "no_token = \<lparr>ttype = 0, precedence = 0, tstring = 0, tlength = 0\<rparr>"

abbreviation (input) SCANNER_TOKENS :: nat where "SCANNER_TOKENS \<equiv> 10"

record scanner =
  position :: "nat option"
  send :: nat
  current :: nat
  tokens :: int
  table :: "token list"

text \<open>What reading one token gives: nothing before the end, the order to stop, or a token.\<close>

datatype scan_result = Scan_End nat | Scan_Stop | Scan_Token token nat

definition scanner_has_tokens :: "scanner \<Rightarrow> bool" where
  "scanner_has_tokens sc \<longleftrightarrow> tokens sc > 0 \<and> int (current sc) < tokens sc"

definition check_scanner :: "scanner \<Rightarrow> bool" where
  "check_scanner sc \<longleftrightarrow> tokens sc < int SCANNER_TOKENS \<or> int (current sc) + 1 < tokens sc"

definition check_next_scanner_token :: "scanner \<Rightarrow> int \<Rightarrow> bool" where
  "check_next_scanner_token sc token_type \<longleftrightarrow>
     scanner_has_tokens sc \<and> int (current sc) + 1 < tokens sc \<and> ttype (table sc ! (current sc + 1)) = token_type"

definition get_scanner_token :: "scanner \<Rightarrow> token option" where
  "get_scanner_token sc = (if scanner_has_tokens sc then Some (table sc ! current sc) else None)"

text \<open>\<open>begin_token_scanning\<close>; the flag says whether there is something to scan.\<close>

definition begin_token_scanning :: "scanner \<Rightarrow> bool \<times> scanner" where
  "begin_token_scanning sc =
     (let move_to_front = nat (tokens sc - int (current sc));
          table' = take move_to_front (drop (current sc) (table sc)) @ replicate (SCANNER_TOKENS - move_to_front) no_token
      in case position sc of
           None \<Rightarrow> (False, sc\<lparr>table := table', tokens := (if move_to_front \<noteq> 0 then int move_to_front else -1), current := 0\<rparr>)
         | Some p \<Rightarrow> (True, sc\<lparr>table := table', tokens := int move_to_front\<rparr>))"

definition end_token_scanning :: "int \<Rightarrow> scanner \<Rightarrow> token option \<times> scanner" where
  "end_token_scanning fin sc =
     (let sc' = sc\<lparr>tokens := fin, current := 0,
                  position := (case position sc of Some p \<Rightarrow> if p \<ge> send sc then None else Some p | None \<Rightarrow> None)\<rparr>
      in (get_scanner_token sc', sc'))"

text \<open>
  The loop that fills the table: the number of free entries, the index of the next one, the position.
  When reading a token asks to stop, \<open>current\<close> is decremented before the loop is left.
\<close>

fun scan_fill :: "(nat \<Rightarrow> scan_result) \<Rightarrow> nat \<Rightarrow> nat \<Rightarrow> nat \<Rightarrow> nat \<Rightarrow> token list \<Rightarrow> int \<times> nat option \<times> token list" where
  "scan_fill read fin 0 i pos tab = (int i, Some pos, tab)"
| "scan_fill read fin (Suc free) i pos tab =
     (if pos < fin then
        (case read pos of
           Scan_End p \<Rightarrow> (int i, Some p, tab)
         | Scan_Stop \<Rightarrow> (int i - 1, None, tab)
         | Scan_Token t p \<Rightarrow> scan_fill read fin free (i + 1) p (tab[i := t]))
      else (int i, Some pos, tab))"

definition scan_tokens :: "(nat \<Rightarrow> scan_result) \<Rightarrow> scanner \<Rightarrow> token option \<times> scanner" where
  "scan_tokens read sc =
     (case begin_token_scanning sc of
        (False, sc1) \<Rightarrow> (get_scanner_token sc1, sc1)
      | (True, sc1) \<Rightarrow>
          (case scan_fill read (send sc1) (SCANNER_TOKENS - nat (tokens sc1)) (nat (tokens sc1)) (the (position sc1)) (table sc1) of
             (fin, pos, tab) \<Rightarrow> end_token_scanning fin (sc1\<lparr>position := pos, table := tab\<rparr>)))"

definition get_next_scanner_token :: "(nat \<Rightarrow> scan_result) \<Rightarrow> scanner \<Rightarrow> token option \<times> scanner" where
  "get_next_scanner_token read sc =
     (if scanner_has_tokens sc
      then let sc1 = sc\<lparr>current := current sc + 1\<rparr>
           in if int (current sc1) + 1 \<ge> tokens sc1 then scan_tokens read sc1 else (get_scanner_token sc1, sc1)
      else (get_scanner_token sc, sc))"

definition init_scanner :: "(nat \<Rightarrow> scan_result) \<Rightarrow> nat \<Rightarrow> scanner" where
  "init_scanner read fin =
     snd (scan_tokens read \<lparr>position = Some 0, send = fin, current = 0, tokens = 0,
            table = replicate SCANNER_TOKENS no_token\<rparr>)"

text \<open>\<open>skip_scanner_tokens\<close>; every turn takes a token, which bounds their number by the length of the input.\<close>

fun skip_loop :: "(nat \<Rightarrow> scan_result) \<Rightarrow> int \<Rightarrow> int \<Rightarrow> nat \<Rightarrow> token option \<Rightarrow> scanner \<Rightarrow> token option \<times> scanner" where
  "skip_loop read skipto prec 0 tok sc = (tok, sc)"
| "skip_loop read skipto prec (Suc n) tok sc =
     (case tok of
        None \<Rightarrow> (None, sc)
      | Some t \<Rightarrow> if ttype t = skipto \<or> precedence t > prec then (tok, sc)
                  else (case get_next_scanner_token read sc of (tok', sc') \<Rightarrow> skip_loop read skipto prec n tok' sc'))"

definition skip_scanner_tokens :: "(nat \<Rightarrow> scan_result) \<Rightarrow> int \<Rightarrow> int \<Rightarrow> scanner \<Rightarrow> token option \<times> scanner" where
  "skip_scanner_tokens read skipto prec sc =
     (case skip_loop read skipto prec (send sc + SCANNER_TOKENS) (get_scanner_token sc) sc of
        (Some t, sc') \<Rightarrow> if ttype t = skipto then get_next_scanner_token read sc' else (None, sc')
      | (None, sc') \<Rightarrow> (None, sc'))"


subsection \<open>The list of tokens a parser sees\<close>

text \<open>
  All tokens from a position on, with the flag that the reader asked to stop. Every token takes at
  least one byte, so \<open>fin - pos\<close> is enough fuel.
\<close>

fun token_stream :: "(nat \<Rightarrow> scan_result) \<Rightarrow> nat \<Rightarrow> nat \<Rightarrow> nat \<Rightarrow> token list \<times> bool" where
  "token_stream read fin 0 pos = ([], False)"
| "token_stream read fin (Suc n) pos =
     (if pos < fin then
        (case read pos of
           Scan_End p \<Rightarrow> ([], False)
         | Scan_Stop \<Rightarrow> ([], True)
         | Scan_Token t p \<Rightarrow> (case token_stream read fin n p of (ts, stop) \<Rightarrow> (t # ts, stop)))
      else ([], False))"

text \<open>The order to stop also takes the last token away.\<close>

definition cut_stopped :: "token list \<times> bool \<Rightarrow> token list" where
  "cut_stopped r = (if snd r then butlast (fst r) else fst r)"

definition delivered :: "(nat \<Rightarrow> scan_result) \<Rightarrow> scanner \<Rightarrow> token list" where
  "delivered read sc =
     (let ts = drop (current sc) (take (nat (tokens sc)) (table sc))
      in case position sc of
           None \<Rightarrow> ts
         | Some p \<Rightarrow> (case token_stream read (send sc) (send sc - p) p of (us, stop) \<Rightarrow> cut_stopped (ts @ us, stop)))"

definition scanner_ok :: "scanner \<Rightarrow> bool" where
  "scanner_ok sc \<longleftrightarrow> length (table sc) = SCANNER_TOKENS \<and> tokens sc \<le> int SCANNER_TOKENS
     \<and> (\<forall>p. position sc = Some p \<longrightarrow> p < send sc \<and> tokens sc = int SCANNER_TOKENS \<and> current sc + 1 < SCANNER_TOKENS)
     \<and> check_scanner sc"

lemma scanner_ok_check: "scanner_ok sc \<Longrightarrow> check_scanner sc"
  by (simp add: scanner_ok_def)

lemma length_token_stream: "length (fst (token_stream read fin n pos)) \<le> n"
  by (induction read fin n pos rule: token_stream.induct) (auto split: scan_result.splits prod.splits)

locale token_reader =
  fixes read :: "nat \<Rightarrow> scan_result" and fin :: nat
  assumes progress: "pos < fin \<Longrightarrow> read pos = Scan_Token t p \<Longrightarrow> pos < p"
    and at_end: "pos < fin \<Longrightarrow> read pos = Scan_End p \<Longrightarrow> fin \<le> p"
begin

lemma stream_fuel: "fin - pos \<le> n \<Longrightarrow> token_stream read fin n pos = token_stream read fin (fin - pos) pos"
proof (induction "fin - pos" arbitrary: n pos rule: less_induct)
  case less
  show ?case
  proof (cases "pos < fin")
    case True
    obtain m where m: "fin - pos = Suc m" using True by (metis Suc_diff_Suc)
    obtain k where k: "n = Suc k" using less.prems m by (cases n) auto
    show ?thesis
    proof (cases "read pos")
      case (Scan_Token t p)
      have p: "pos < p" using progress [OF True Scan_Token] .
      then have "fin - p \<le> k" "fin - p \<le> m" "fin - p < fin - pos" using m k less.prems True by auto
      then have "token_stream read fin k p = token_stream read fin m p" using less.hyps [of p] by metis
      then show ?thesis using Scan_Token True unfolding m k by simp
    qed (use True m k in auto)
  next
    case False
    then show ?thesis by (cases n; cases "fin - pos") auto
  qed
qed

lemma stream_step:
  "pos < fin \<Longrightarrow> token_stream read fin (fin - pos) pos =
     (case read pos of
        Scan_End p \<Rightarrow> ([], False)
      | Scan_Stop \<Rightarrow> ([], True)
      | Scan_Token t p \<Rightarrow> (case token_stream read fin (fin - p) p of (ts, stop) \<Rightarrow> (t # ts, stop)))"
  "fin \<le> pos \<Longrightarrow> token_stream read fin (fin - pos) pos = ([], False)"
proof -
  assume l: "pos < fin"
  obtain m where m: "fin - pos = Suc m" using l by (metis Suc_diff_Suc)
  have "token_stream read fin m p = token_stream read fin (fin - p) p" if "read pos = Scan_Token t p" for t p
    using progress [OF l that] m by (intro stream_fuel) simp
  then show "token_stream read fin (fin - pos) pos =
     (case read pos of
        Scan_End p \<Rightarrow> ([], False)
      | Scan_Stop \<Rightarrow> ([], True)
      | Scan_Token t p \<Rightarrow> (case token_stream read fin (fin - p) p of (ts, stop) \<Rightarrow> (t # ts, stop)))"
    using l unfolding m by (cases "read pos") simp_all
qed simp

lemma fill_delivered:
  assumes "scan_fill read fin free i pos tab = (k, pos', tab')" "i + free = SCANNER_TOKENS" "length tab = SCANNER_TOKENS"
    and "send sc = fin" "token_stream read fin (fin - pos) pos = (us, stop)"
  defines "sc' \<equiv> snd (end_token_scanning k (sc\<lparr>position := pos', table := tab'\<rparr>))"
  shows "scanner_ok sc' \<and> send sc' = fin \<and> delivered read sc' = cut_stopped (take i tab @ us, stop)"
  using assms(1-3,5) unfolding sc'_def
proof (induction free arbitrary: i pos tab us)
  case 0
  then show ?case using assms(4) stream_step(2) [of pos]
    by (auto simp: end_token_scanning_def Let_def scanner_ok_def check_scanner_def delivered_def cut_stopped_def split: if_splits)
next
  case (Suc free)
  show ?case
  proof (cases "pos < fin")
    case False
    then show ?thesis using Suc.prems assms(4) stream_step(2) [of pos]
      by (auto simp: end_token_scanning_def Let_def scanner_ok_def check_scanner_def delivered_def cut_stopped_def)
  next
    case True
    show ?thesis
    proof (cases "read pos")
      case (Scan_End p)
      then have "us = []" "stop = False" "fin \<le> p" using Suc.prems(4) stream_step(1) [OF True] at_end [OF True Scan_End] by auto
      then show ?thesis using Suc.prems Scan_End True assms(4)
        by (auto simp: end_token_scanning_def Let_def scanner_ok_def check_scanner_def delivered_def cut_stopped_def)
    next
      case Scan_Stop
      then have u: "us = []" "stop = True" using Suc.prems(4) stream_step(1) [OF True] by auto
      have "take (nat (int i - 1)) tab = butlast (take i tab)" using Suc.prems(2,3) by (simp add: butlast_take nat_diff_distrib')
      then show ?thesis using Suc.prems Scan_Stop True assms(4) u
        by (auto simp: end_token_scanning_def Let_def scanner_ok_def check_scanner_def delivered_def cut_stopped_def)
    next
      case (Scan_Token t p)
      obtain us' where us: "us = t # us'" "token_stream read fin (fin - p) p = (us', stop)"
        using Suc.prems(4) stream_step(1) [OF True] Scan_Token by (auto split: prod.splits)
      have "take (i + 1) (tab[i := t]) = take i tab @ [t]" using Suc.prems(2,3)
        by (simp add: take_Suc_conv_app_nth)
      then show ?thesis using Suc.IH [of "i + 1" p "tab[i := t]" us'] Suc.prems Scan_Token True us by auto
    qed
  qed
qed

lemma init_delivered:
  "scanner_ok (init_scanner read fin) \<and> send (init_scanner read fin) = fin
   \<and> delivered read (init_scanner read fin) = cut_stopped (token_stream read fin fin 0)"
proof -
  let ?sc = "\<lparr>position = Some 0, send = fin, current = 0, tokens = 0, table = replicate SCANNER_TOKENS no_token\<rparr>"
  obtain k pos' tab' where f: "scan_fill read fin SCANNER_TOKENS 0 0 (replicate SCANNER_TOKENS no_token) = (k, pos', tab')"
    by (metis prod_cases3)
  obtain us stop where s: "token_stream read fin fin 0 = (us, stop)" by fastforce
  have "init_scanner read fin = snd (end_token_scanning k (?sc\<lparr>position := pos', table := tab'\<rparr>))"
    using f by (simp add: init_scanner_def scan_tokens_def begin_token_scanning_def Let_def)
  then show ?thesis using fill_delivered [OF f, of ?sc us stop] s by simp
qed

lemma cut_tl: "xs \<noteq> [] \<Longrightarrow> ys \<noteq> [] \<Longrightarrow> tl xs = ys \<Longrightarrow> cut_stopped (ys @ us, stop) = tl (cut_stopped (xs @ us, stop))"
  by (cases xs) (auto simp: cut_stopped_def)

lemma get_delivered:
  assumes "scanner_ok sc"
  shows "get_scanner_token sc = (case delivered read sc of [] \<Rightarrow> None | t # ts \<Rightarrow> Some t)"
proof (cases "position sc")
  case None
  then have d: "delivered read sc = drop (current sc) (take (nat (tokens sc)) (table sc))"
    by (simp add: delivered_def)
  have len: "length (table sc) = SCANNER_TOKENS" "tokens sc \<le> int SCANNER_TOKENS" using assms by (auto simp: scanner_ok_def)
  show ?thesis
  proof (cases "int (current sc) < tokens sc")
    case True
    then have c: "current sc < length (take (nat (tokens sc)) (table sc))" using len by simp
    have "delivered read sc = table sc ! current sc # drop (Suc (current sc)) (take (nat (tokens sc)) (table sc))"
      unfolding d Cons_nth_drop_Suc [OF c, symmetric] using True by simp
    then show ?thesis using True by (simp add: get_scanner_token_def scanner_has_tokens_def)
  next
    case False
    then have "delivered read sc = []" unfolding d by simp
    then show ?thesis using False by (auto simp: get_scanner_token_def scanner_has_tokens_def)
  qed
next
  case (Some p)
  then have ok: "length (table sc) = SCANNER_TOKENS" "tokens sc = int SCANNER_TOKENS" "current sc + 1 < SCANNER_TOKENS"
    using assms by (auto simp: scanner_ok_def)
  then have "drop (current sc) (table sc) = table sc ! current sc # table sc ! (current sc + 1) # drop (current sc + 2) (table sc)"
    by (simp add: Cons_nth_drop_Suc)
  then have "\<exists>ts. delivered read sc = table sc ! current sc # ts" using Some ok
    by (auto simp: delivered_def cut_stopped_def Let_def split: prod.splits)
  then show ?thesis using ok by (auto simp: get_scanner_token_def scanner_has_tokens_def)
qed

lemma has_delivered: "scanner_ok sc \<Longrightarrow> scanner_has_tokens sc \<longleftrightarrow> delivered read sc \<noteq> []"
  using get_delivered [of sc] by (cases "delivered read sc") (auto simp: get_scanner_token_def split: if_splits)

lemma next_delivered:
  assumes ok: "scanner_ok sc" and fin: "send sc = fin" and n: "get_next_scanner_token read sc = (r, sc')"
  shows "scanner_ok sc' \<and> send sc' = fin \<and> delivered read sc' = tl (delivered read sc)
    \<and> r = (case tl (delivered read sc) of [] \<Rightarrow> None | t # ts \<Rightarrow> Some t)"
proof -
  have len: "length (table sc) = SCANNER_TOKENS" "tokens sc \<le> int SCANNER_TOKENS" using ok by (auto simp: scanner_ok_def)
  let ?sc1 = "sc\<lparr>current := current sc + 1\<rparr>"
  let ?ts = "drop (current sc + 1) (take (nat (tokens sc)) (table sc))"
  have core: "scanner_ok sc' \<and> send sc' = fin \<and> delivered read sc' = tl (delivered read sc) \<and> r = get_scanner_token sc'"
  proof (cases "scanner_has_tokens sc")
    case False
    then show ?thesis using n ok fin has_delivered [OF ok] by (auto simp: get_next_scanner_token_def)
  next
    case True
    then have c: "int (current sc) < tokens sc" by (simp add: scanner_has_tokens_def)
    then have c1: "1 + int (current sc) \<le> tokens sc" by simp
    have ts: "tl (drop (current sc) (take (nat (tokens sc)) (table sc))) = ?ts" by (simp add: drop_Suc tl_drop)
    show ?thesis
    proof (cases "int (current sc) + 2 \<ge> tokens sc")
      case False
      then have "r = get_scanner_token ?sc1" "sc' = ?sc1" using n True by (auto simp: get_next_scanner_token_def Let_def)
      moreover have "delivered read ?sc1 = tl (delivered read sc)"
      proof (cases "position sc")
        case (Some p)
        obtain us stop where s: "token_stream read (send sc) (send sc - p) p = (us, stop)" by fastforce
        have "drop (current sc) (take (nat (tokens sc)) (table sc)) \<noteq> []" "?ts \<noteq> []" using False len c by auto
        then show ?thesis using Some s cut_tl [OF _ _ ts] by (simp add: delivered_def Let_def)
      qed (use ts in \<open>simp add: delivered_def\<close>)
      ultimately show ?thesis using ok fin False by (auto simp: scanner_ok_def check_scanner_def)
    next
      case rescan: True
      then have s: "scan_tokens read ?sc1 = (r, sc')" using n True by (auto simp: get_next_scanner_token_def Let_def)
      let ?m = "nat (tokens sc - (1 + int (current sc)))"
      let ?tab = "take ?m (drop (current sc + 1) (table sc)) @ replicate (SCANNER_TOKENS - ?m) no_token"
      have mm: "?m = nat (tokens sc) - Suc (current sc)" by linarith
      have m: "?m \<le> 1" "length ?tab = SCANNER_TOKENS" using rescan len c by auto
      have "?ts = take ?m (drop (current sc + 1) (table sc))" by (simp only: mm drop_take Suc_eq_plus1)
      moreover have "length (take ?m (drop (current sc + 1) (table sc))) = ?m" using rescan len c by auto
      ultimately have m3: "?ts = take ?m ?tab" by simp
      show ?thesis
      proof (cases "position sc")
        case None
        then have sc': "sc' = ?sc1\<lparr>table := ?tab, tokens := (if ?m \<noteq> 0 then int ?m else -1), current := 0\<rparr>" "r = get_scanner_token sc'"
          using s by (auto simp: scan_tokens_def begin_token_scanning_def Let_def)
        have "delivered read sc' = ?ts" using None m m3 unfolding sc'(1) by (auto simp: delivered_def)
        moreover have "scanner_ok sc'" using None m unfolding sc'(1) scanner_ok_def check_scanner_def by auto
        ultimately show ?thesis using None ts fin sc' by (auto simp: delivered_def)
      next
        case (Some p)
        then have k: "tokens sc = int SCANNER_TOKENS" "current sc + 1 < SCANNER_TOKENS" using ok by (auto simp: scanner_ok_def)
        obtain kk pos' tab' where f: "scan_fill read fin (SCANNER_TOKENS - ?m) ?m p ?tab = (kk, pos', tab')" by (metis prod_cases3)
        obtain us stop where u: "token_stream read fin (fin - p) p = (us, stop)" by fastforce
        let ?sc2 = "?sc1\<lparr>table := ?tab, tokens := int ?m\<rparr>"
        have e: "(r, sc') = end_token_scanning kk (?sc2\<lparr>position := pos', table := tab'\<rparr>)"
          using s f Some fin c1 by (simp add: scan_tokens_def begin_token_scanning_def Let_def)
        then have sc': "sc' = snd (end_token_scanning kk (?sc2\<lparr>position := pos', table := tab'\<rparr>))" "r = get_scanner_token sc'"
          by (auto simp: end_token_scanning_def Let_def)
        from fill_delivered [OF f _ m(2), of ?sc2] u m(1) fin
        have d: "scanner_ok sc'" "send sc' = fin" "delivered read sc' = cut_stopped (?ts @ us, stop)"
          unfolding sc'(1) m3 by auto
        have ne: "drop (current sc) (take (nat (tokens sc)) (table sc)) \<noteq> []" "?ts \<noteq> []" using k len by auto
        have "delivered read sc = cut_stopped (drop (current sc) (take (nat (tokens sc)) (table sc)) @ us, stop)"
          using Some u fin by (simp add: delivered_def Let_def)
        then have "tl (delivered read sc) = cut_stopped (?ts @ us, stop)"
          using cut_tl [OF ne ts, of us stop] by simp
        then show ?thesis using d sc'(2) by simp
      qed
    qed
  qed
  then show ?thesis using get_delivered [of sc'] by auto
qed

lemma lookahead_delivered:
  assumes ok: "scanner_ok sc" and d: "delivered read sc = t # u # ts"
  shows "check_next_scanner_token sc k \<longleftrightarrow> ttype u = k"
proof -
  have len: "length (table sc) = SCANNER_TOKENS" "tokens sc \<le> int SCANNER_TOKENS" using ok by (auto simp: scanner_ok_def)
  let ?ts = "drop (current sc) (take (nat (tokens sc)) (table sc))"
  have two: "int (current sc) + 1 < tokens sc" and u: "u = table sc ! (current sc + 1)"
  proof -
    have "int (current sc) + 1 < tokens sc \<and> ?ts ! 1 = u"
    proof (cases "position sc")
      case None
      then have "?ts = t # u # ts" using d by (simp add: delivered_def)
      moreover then have "length ?ts = length ts + 2" by simp
      moreover have "length ?ts \<le> nat (tokens sc) - current sc" by simp
      ultimately have "nat (tokens sc) - current sc \<ge> 2" by simp
      then have "int (current sc) + 1 < tokens sc" by linarith
      then show ?thesis using \<open>?ts = t # u # ts\<close> by simp
    next
      case (Some p)
      then have "tokens sc = int SCANNER_TOKENS" "current sc + 1 < SCANNER_TOKENS" using ok by (auto simp: scanner_ok_def)
      moreover then obtain a b r where "?ts = a # b # r" using len
        by (metis Cons_nth_drop_Suc Suc_eq_plus1 Suc_lessD nat_int take_all_iff le_refl)
      ultimately show ?thesis using Some d
        by (auto simp: delivered_def cut_stopped_def Let_def split: prod.splits if_splits)
    qed
    then show "int (current sc) + 1 < tokens sc" "u = table sc ! (current sc + 1)" using len by auto
  qed
  then show ?thesis by (auto simp: check_next_scanner_token_def scanner_has_tokens_def)
qed

text \<open>Skipping up to a token: the tokens before it, or an end by one of higher precedence.\<close>

lemma skip_loop_delivered:
  assumes "scanner_ok sc" "send sc = fin" "length (delivered read sc) \<le> n"
    and "tok = (case delivered read sc of [] \<Rightarrow> None | t # ts \<Rightarrow> Some t)"
    and "skip_loop read skipto prec n tok sc = (r, sc')"
  defines "rest \<equiv> dropWhile (\<lambda>t. ttype t \<noteq> skipto \<and> precedence t \<le> prec) (delivered read sc)"
  shows "scanner_ok sc' \<and> send sc' = fin \<and> delivered read sc' = rest \<and> r = (case rest of [] \<Rightarrow> None | t # ts \<Rightarrow> Some t)"
  using assms(1-5) unfolding rest_def
proof (induction n arbitrary: tok sc)
  case (Suc n)
  show ?case
  proof (cases "delivered read sc")
    case (Cons t ts)
    show ?thesis
    proof (cases "ttype t = skipto \<or> precedence t > prec")
      case False
      obtain tok' sc1 where g: "get_next_scanner_token read sc = (tok', sc1)" by fastforce
      from next_delivered [OF Suc.prems(1,2) g] have
        "scanner_ok sc1" "send sc1 = fin" "delivered read sc1 = ts" "tok' = (case ts of [] \<Rightarrow> None | t # ts \<Rightarrow> Some t)"
        using Cons by auto
      moreover have "skip_loop read skipto prec n tok' sc1 = (r, sc')" using Suc.prems(4,5) Cons False g by auto
      ultimately show ?thesis using Suc.IH [of sc1 tok'] Suc.prems(3) Cons False by auto
    qed (use Suc.prems Cons in auto)
  qed (use Suc.prems in auto)
qed auto

end

end
