(* ===== verification/Bencoding.thy ===== *)
theory Bencoding
  imports Scanner Decimal Uri_Normalize
begin

text \<open>
  \<open>src/protocol/bittorrent/bencoding.c\<close>: the token reader of the BitTorrent format and the parsers of
  metainfo files and tracker responses. The memory from the start of the scanned string on is the
  string \<open>mem\<close>; the reader may look at the byte at the end of the string, which need not be part of it.

  The reader plugs into the generic scanner, which shows the parsers the list of the tokens still to
  come (\<open>Bencoding_Scan\<close>); the parsers are therefore functions on this list: \<open>get_scanner_token\<close> is its
  head and \<open>skip_scanner_token\<close> its tail.
\<close>

subsection \<open>The reader\<close>

abbreviation (input) BENCODING_TOKEN_INTEGER :: int where "BENCODING_TOKEN_INTEGER \<equiv> 105"
abbreviation (input) BENCODING_TOKEN_LIST :: int where "BENCODING_TOKEN_LIST \<equiv> 108"
abbreviation (input) BENCODING_TOKEN_DICTIONARY :: int where "BENCODING_TOKEN_DICTIONARY \<equiv> 100"
abbreviation (input) BENCODING_TOKEN_END :: int where "BENCODING_TOKEN_END \<equiv> 101"
abbreviation (input) BENCODING_TOKEN_STRING :: int where "BENCODING_TOKEN_STRING \<equiv> 256"

datatype bencoding_key =
    KEY_FILES | KEY_NAME | KEY_ANNOUNCE | KEY_ANNOUNCE_LIST | KEY_COMMENT | KEY_CREATED_BY
  | KEY_CREATION_DATE | KEY_INFO | KEY_LENGTH | KEY_MD5SUM | KEY_PATH | KEY_PIECES | KEY_PIECE_LENGTH
  | KEY_FAILURE_REASON | KEY_INTERVAL | KEY_IP | KEY_PEERS | KEY_PEER_ID | KEY_PORT
  | KEY_COMPLETE | KEY_DOWNLOADED | KEY_INCOMPLETE

definition INT_MAX :: int where "INT_MAX = 2147483647"

definition scan_bencoding_integer :: "string \<Rightarrow> nat \<Rightarrow> nat \<Rightarrow> nat" where
  "scan_bencoding_integer mem fin p = p + length (takeWhile isdigit (drop p (take fin mem)))"

definition benc_token :: "int \<Rightarrow> nat \<Rightarrow> int \<Rightarrow> nat \<Rightarrow> scan_result" where
  "benc_token type start real_length p =
     Scan_Token \<lparr>ttype = type, precedence = 0, tstring = start,
       tlength = (if real_length > 0 then real_length else int p - int start)\<rparr> p"

text \<open>\<open>scan_bencoding_token\<close>; a token of no type stops the scanner. \<open>strtoul\<close> fails from \<open>2 ^ 64\<close> on.\<close>

definition scan_bencoding_token :: "string \<Rightarrow> nat \<Rightarrow> nat \<Rightarrow> scan_result" where
  "scan_bencoding_token mem fin pos =
     (let first_char = char_at mem pos
      in if isdigit first_char then
           let p = scan_bencoding_integer mem fin (pos + 1);
               string_length = digits_val (drop pos mem)
           in if char_at mem p = CHR '':'' \<and> string_length < 2 ^ 64 \<and> string_length < INT_MAX
                 \<and> p + nat string_length < fin
              then benc_token BENCODING_TOKEN_STRING (p + 1) string_length (p + 1 + nat string_length)
              else Scan_Stop
         else if first_char = CHR ''e'' then benc_token BENCODING_TOKEN_END pos (-1) (pos + 1)
         else if first_char = CHR ''i'' then
           let p = scan_bencoding_integer mem fin (if char_at mem (pos + 1) = CHR ''-'' then pos + 2 else pos + 1)
           in if char_at mem p = CHR ''e''
              then benc_token BENCODING_TOKEN_INTEGER (pos + 1) (int p - int (pos + 1)) (p + 1)
              else Scan_Stop
         else if first_char = CHR ''d'' then benc_token BENCODING_TOKEN_DICTIONARY pos (-1) (pos + 1)
         else if first_char = CHR ''l'' then benc_token BENCODING_TOKEN_LIST pos (-1) (pos + 1)
         else Scan_Stop)"

text \<open>\<open>scan_bencoding_tokens\<close> is \<open>scan_tokens\<close> of this reader.\<close>

definition scan_bencoding_tokens :: "string \<Rightarrow> nat \<Rightarrow> scanner \<Rightarrow> token option \<times> scanner" where
  "scan_bencoding_tokens mem fin = scan_tokens (scan_bencoding_token mem fin)"

definition token_text :: "string \<Rightarrow> token \<Rightarrow> string" where
  "token_text mem t = take (nat (tlength t)) (drop (tstring t) mem)"

fun skip_nested :: "int \<Rightarrow> token list \<Rightarrow> token list" where
  "skip_nested nesting_level [] = []"
| "skip_nested nesting_level (t # ts) =
     (let level = (if ttype t = BENCODING_TOKEN_DICTIONARY \<or> ttype t = BENCODING_TOKEN_LIST then nesting_level + 1
                   else if ttype t = BENCODING_TOKEN_END then nesting_level - 1 else nesting_level)
      in if level > 0 then skip_nested level ts else ts)"

definition skip_bencoding_tokens :: "token list \<Rightarrow> token list" where
  "skip_bencoding_tokens ts = skip_nested 0 ts"

subsection \<open>Dictionary entries\<close>

definition bencoding_dictionary_entries :: "(string \<times> bencoding_key \<times> int) list" where
  "bencoding_dictionary_entries =
     [(''announce list'', KEY_ANNOUNCE_LIST, BENCODING_TOKEN_LIST), (''announce'', KEY_ANNOUNCE, BENCODING_TOKEN_STRING),
      (''comment'', KEY_COMMENT, BENCODING_TOKEN_STRING), (''complete'', KEY_COMPLETE, BENCODING_TOKEN_INTEGER),
      (''created by'', KEY_CREATED_BY, BENCODING_TOKEN_STRING), (''creation date'', KEY_CREATION_DATE, BENCODING_TOKEN_INTEGER),
      (''downloaded'', KEY_DOWNLOADED, BENCODING_TOKEN_INTEGER), (''failure reason'', KEY_FAILURE_REASON, BENCODING_TOKEN_STRING),
      (''files'', KEY_FILES, BENCODING_TOKEN_LIST), (''incomplete'', KEY_INCOMPLETE, BENCODING_TOKEN_INTEGER),
      (''info'', KEY_INFO, BENCODING_TOKEN_DICTIONARY), (''interval'', KEY_INTERVAL, BENCODING_TOKEN_INTEGER),
      (''ip'', KEY_IP, BENCODING_TOKEN_STRING), (''length'', KEY_LENGTH, BENCODING_TOKEN_INTEGER),
      (''md5sum'', KEY_MD5SUM, BENCODING_TOKEN_STRING), (''name'', KEY_NAME, BENCODING_TOKEN_STRING),
      (''path'', KEY_PATH, BENCODING_TOKEN_LIST), (''peer id'', KEY_PEER_ID, BENCODING_TOKEN_STRING),
      (''peers'', KEY_PEERS, BENCODING_TOKEN_LIST), (''peers'', KEY_PEERS, BENCODING_TOKEN_STRING),
      (''piece length'', KEY_PIECE_LENGTH, BENCODING_TOKEN_INTEGER), (''pieces'', KEY_PIECES, BENCODING_TOKEN_STRING),
      (''port'', KEY_PORT, BENCODING_TOKEN_INTEGER)]"

definition scanner_token_strlcasecmp :: "string \<Rightarrow> token \<Rightarrow> string \<Rightarrow> bool" where
  "scanner_token_strlcasecmp mem t str \<longleftrightarrow> c_strlcasecmp (drop (tstring t) mem) (tlength t) str (-1) = 0"

datatype dict_entry = Entry bencoding_key token | Entry_Other | Entry_End | Entry_Error

definition check_bencoding_dictionary_entry :: "string \<Rightarrow> token list \<Rightarrow> dict_entry \<times> token list" where
  "check_bencoding_dictionary_entry mem ts =
     (case ts of
        [] \<Rightarrow> (Entry_Error, ts)
      | key # rest \<Rightarrow>
          if ttype key = BENCODING_TOKEN_END then (Entry_End, ts)
          else if ttype key \<noteq> BENCODING_TOKEN_STRING then (Entry_Other, ts)
          else (case rest of
                  [] \<Rightarrow> (Entry_Error, rest)
                | val # _ \<Rightarrow>
                    (case find (\<lambda>(name, k, t). scanner_token_strlcasecmp mem key name \<and> ttype val = t) bencoding_dictionary_entries of
                       Some (_, k, _) \<Rightarrow> (Entry k val, rest)
                     | None \<Rightarrow> (Entry_Other, rest))))"

subsection \<open>Values\<close>

text \<open>\<open>off_t\<close> arithmetic wraps around, which the overflow check relies on.\<close>

definition s64 :: "int \<Rightarrow> int" where
  "s64 x = (x + 2 ^ 63) mod 2 ^ 64 - 2 ^ 63"

fun integer_loop :: "string \<Rightarrow> int \<Rightarrow> int option" where
  "integer_loop [] n = Some n"
| "integer_loop (c # cs) n =
     (if isdigit c
      then let newint = s64 (n * 10 + digit c)
           in if newint sdiv 10 \<noteq> n then None else integer_loop cs newint
      else Some n)"

definition parse_bencoding_integer :: "string \<Rightarrow> token \<Rightarrow> int" where
  "parse_bencoding_integer mem t =
     (let s = token_text mem t
      in if deref s = CHR ''-''
         then (case integer_loop (tl s) 0 of Some n \<Rightarrow> s64 (- n) | None \<Rightarrow> 0)
         else (case integer_loop s 0 of Some n \<Rightarrow> n | None \<Rightarrow> 0))"

definition cut_NUL :: "string \<Rightarrow> string" where
  "cut_NUL s = takeWhile (\<lambda>c. c \<noteq> NUL) s"

text \<open>The path as a name below the current directory, and whether it tried to leave it.\<close>

definition normalize_bencoding_path :: "(string \<Rightarrow> bool) \<Rightarrow> string \<Rightarrow> (string \<times> bool) option" where
  "normalize_bencoding_path up path =
     (let p = normalize_uri_reparse up (cut_NUL (''file://./'' @ path))
      in if take 7 p \<noteq> ''file://'' then None
         else let malicious = dir_sep (char_at p 7)
              in Some (drop (if malicious then 8 else 9) p, malicious))"

subsection \<open>The metainfo file\<close>

datatype bittorrent_state =
    BITTORRENT_STATE_OK | BITTORRENT_STATE_ERROR | BITTORRENT_STATE_REQUEST_FAILURE
  | BITTORRENT_STATE_OUT_OF_MEM | BITTORRENT_STATE_CACHE_FAILURE | BITTORRENT_STATE_CACHE_RESUME
  | BITTORRENT_STATE_FILE_MISSING

record bittorrent_file =
  blength :: int
  md5sum :: string
  selected :: bool
  fname :: string

record bittorrent_meta =
  info_hash :: string
  creation_date :: int
  comment_of :: "string option"
  tracker_uris :: "string list"
  pieces :: nat
  piece_length :: int
  last_piece_length :: int
  piece_hash :: "string option"
  multi_file :: bool
  malicious_paths :: bool
  mname :: "string option"
  mfiles :: "bittorrent_file list"

definition empty_file :: bittorrent_file where
  "empty_file = \<lparr>blength = 0, md5sum = [], selected = False, fname = []\<rparr>"

definition empty_meta :: bittorrent_meta where
  "empty_meta = \<lparr>info_hash = replicate 20 NUL, creation_date = 0, comment_of = None, tracker_uris = [],
     pieces = 0, piece_length = 0, last_piece_length = 0, piece_hash = None, multi_file = False,
     malicious_paths = False, mname = None, mfiles = []\<rparr>"

definition add_bittorrent_file ::
  "(string \<Rightarrow> bool) \<Rightarrow> bittorrent_meta \<Rightarrow> string \<Rightarrow> bittorrent_file \<Rightarrow> bittorrent_state \<times> bittorrent_meta" where
  "add_bittorrent_file up meta path template =
     (case normalize_bencoding_path up (cut_NUL path) of
        None \<Rightarrow> (BITTORRENT_STATE_OUT_OF_MEM, meta)
      | Some (p, malicious) \<Rightarrow>
          (BITTORRENT_STATE_OK,
           meta\<lparr>malicious_paths := (malicious \<or> malicious_paths meta),
                mfiles := mfiles meta @ [template\<lparr>fname := p, selected := True\<rparr>]\<rparr>))"

fun file_path_loop :: "string \<Rightarrow> token list \<Rightarrow> string \<Rightarrow> bittorrent_state \<times> token list \<times> string" where
  "file_path_loop mem [] path = (BITTORRENT_STATE_ERROR, [], path)"
| "file_path_loop mem (t # ts) path =
     (if ttype t = BENCODING_TOKEN_END then (BITTORRENT_STATE_OK, t # ts, path)
      else if ttype t \<noteq> BENCODING_TOKEN_STRING then (BITTORRENT_STATE_ERROR, t # ts, path)
      else file_path_loop mem ts ((if length path > 0 then path @ ''/'' else path) @ token_text mem t))"

definition parse_bencoding_file_path ::
  "string \<Rightarrow> token list \<Rightarrow> string \<Rightarrow> bittorrent_state \<times> token list \<times> string" where
  "parse_bencoding_file_path mem ts path = file_path_loop mem (tl ts) path"

lemma check_entry_length:
  "check_bencoding_dictionary_entry mem ts = (e, ts') \<Longrightarrow> length ts' \<le> length ts \<and> (ts' = [] \<longrightarrow> e = Entry_Error)
     \<and> (\<forall>k v. e = Entry k v \<longrightarrow> length ts' < length ts)"
  by (auto simp: check_bencoding_dictionary_entry_def split: list.splits if_splits option.splits)

lemma skip_nested_length: "length (skip_nested n ts) \<le> length ts"
  by (induction n ts rule: skip_nested.induct) (auto simp: Let_def intro: le_SucI)

lemma skip_tokens_length: "ts \<noteq> [] \<Longrightarrow> length (skip_bencoding_tokens ts) < length ts"
  by (cases ts) (auto simp: skip_bencoding_tokens_def Let_def skip_nested_length le_imp_less_Suc)

lemma file_path_length: "file_path_loop mem ts path = (st, ts', p) \<Longrightarrow> length ts' \<le> length ts"
  by (induction mem ts path rule: file_path_loop.induct) (auto split: if_splits)


text \<open>\<open>parse_bencoding_file_dictionary\<close>: the loop over the entries of one file.\<close>

function file_dictionary_loop ::
  "string \<Rightarrow> (string \<Rightarrow> bool) \<Rightarrow> token list \<Rightarrow> bittorrent_meta \<Rightarrow> bittorrent_file \<Rightarrow> string \<Rightarrow>
     bittorrent_state \<times> bittorrent_meta \<times> token list" where
  "file_dictionary_loop mem up ts meta file path =
     (if ts = [] then (BITTORRENT_STATE_ERROR, meta, ts)
      else case check_bencoding_dictionary_entry mem ts of (entry, ts1) \<Rightarrow>
        (case entry of
           Entry_Error \<Rightarrow> (BITTORRENT_STATE_ERROR, meta, ts1)
         | Entry_End \<Rightarrow> (case add_bittorrent_file up meta path file of (st, meta') \<Rightarrow> (st, meta', tl ts1))
         | Entry_Other \<Rightarrow> file_dictionary_loop mem up (skip_bencoding_tokens ts1) meta file path
         | Entry k val \<Rightarrow>
             if k = KEY_PATH then
               (case parse_bencoding_file_path mem ts1 path of (st, ts2, path') \<Rightarrow>
                  if st \<noteq> BITTORRENT_STATE_OK then (st, meta, ts2)
                  else file_dictionary_loop mem up (tl ts2) meta file path')
             else if k = KEY_LENGTH then
               file_dictionary_loop mem up (tl ts1) meta (file\<lparr>blength := parse_bencoding_integer mem val\<rparr>) path
             else if k = KEY_MD5SUM then
               (if tlength val \<noteq> 32 then (BITTORRENT_STATE_ERROR, meta, ts1)
                else file_dictionary_loop mem up (tl ts1) meta (file\<lparr>md5sum := token_text mem val\<rparr>) path)
             else file_dictionary_loop mem up (skip_bencoding_tokens ts1) meta file path))"
  by pat_completeness auto

lemma parse_file_path_length:
  "parse_bencoding_file_path mem ts path = (st, ts', p) \<Longrightarrow> length ts' \<le> length ts"
  using file_path_length [of mem "tl ts" path st ts' p] by (auto simp: parse_bencoding_file_path_def)

lemma skip_entry_length:
  assumes "(e, ts1) = check_bencoding_dictionary_entry mem ts" "ts \<noteq> []" "e \<noteq> Entry_Error"
  shows "length (skip_bencoding_tokens ts1) < length ts" "length (tl ts1) < length ts" "length ts1 \<le> length ts" "ts1 \<noteq> []"
proof -
  note c = check_entry_length [OF assms(1) [symmetric]]
  then show "ts1 \<noteq> []" "length ts1 \<le> length ts" using assms(3) by auto
  then show "length (skip_bencoding_tokens ts1) < length ts" using skip_tokens_length [of ts1] by linarith
  show "length (tl ts1) < length ts" using \<open>ts1 \<noteq> []\<close> \<open>length ts1 \<le> length ts\<close> by (cases ts1) auto
qed

lemma entry_length:
  assumes "(Entry k v, ts1) = check_bencoding_dictionary_entry mem ts"
  shows "length ts1 < length ts"
  using check_entry_length [OF assms [symmetric]] by auto

termination file_dictionary_loop
proof (relation "measure (\<lambda>(mem, up, ts, meta, file, path). length ts)")
  fix mem :: string and ts entry ts1 k val st ts2 path' path and z :: "token list \<times> string"
  assume a: "(entry, ts1) = check_bencoding_dictionary_entry mem ts" "entry = Entry k val"
    "(st, z) = parse_bencoding_file_path mem ts1 path" "(ts2, path') = z"
  have "length ts1 < length ts" using entry_length a(1,2) by blast
  moreover have "length ts2 \<le> length ts1" using parse_file_path_length [of mem ts1 path st ts2 path'] a(3,4) by metis
  ultimately show "((mem, up, tl ts2, meta, template, path'), mem, up, ts, meta, template, path)
      \<in> measure (\<lambda>(mem, up, ts, meta, template, path). length ts)" for up :: "string \<Rightarrow> bool" and meta template by simp
qed (auto dest: skip_entry_length)

declare file_dictionary_loop.simps [simp del]


text \<open>Both the loop and its caller only go on with fewer tokens.\<close>

lemma file_dictionary_length:
  "file_dictionary_loop mem up ts meta template path = (st, meta', ts') \<Longrightarrow> length ts' \<le> length ts"
proof (induction "length ts" arbitrary: ts meta template path rule: less_induct)
  case less
  note unfold = less.prems [unfolded file_dictionary_loop.simps [of mem up ts]]
  show ?case
  proof (cases "ts = []")
    case True
    then show ?thesis using unfold by simp
  next
    case False
    obtain e ts1 where c: "check_bencoding_dictionary_entry mem ts = (e, ts1)" by fastforce
    have le: "length ts1 \<le> length ts" using check_entry_length [OF c] by simp
    have ih: "length ts' \<le> length ts" if "file_dictionary_loop mem up us m f q = (st, meta', ts')" "length us < length ts" for us m f q
      using less.hyps [OF that(2,1)] that(2) by simp
    have sk: "e \<noteq> Entry_Error \<Longrightarrow> length (skip_bencoding_tokens ts1) < length ts"
      "e \<noteq> Entry_Error \<Longrightarrow> length (tl ts1) < length ts"
      using skip_entry_length [OF c [symmetric] False] by auto
    show ?thesis
    proof (cases e)
      case (Entry k v)
      obtain st2 ts2 p2 where fp: "parse_bencoding_file_path mem ts1 path = (st2, ts2, p2)" by (metis prod_cases3)
      have l2: "length ts2 \<le> length ts1" "length (tl ts2) < length ts"
        using parse_file_path_length [OF fp] entry_length [of k v ts1 mem ts] c Entry by auto
      show ?thesis using unfold False c Entry fp sk le l2 ih by (auto split: if_splits)
    qed (use unfold False c sk le ih in \<open>auto split: prod.splits\<close>)
  qed
qed


definition parse_bencoding_file_dictionary ::
  "string \<Rightarrow> (string \<Rightarrow> bool) \<Rightarrow> bittorrent_meta \<Rightarrow> token list \<Rightarrow> bittorrent_state \<times> bittorrent_meta \<times> token list" where
  "parse_bencoding_file_dictionary mem up meta ts = file_dictionary_loop mem up (tl ts) meta empty_file []"

lemma parse_file_dictionary_length:
  "(st, meta', ts') = parse_bencoding_file_dictionary mem up meta (t # ts) \<Longrightarrow> length ts' \<le> length ts"
  using file_dictionary_length [of mem up ts meta empty_file "[]" st meta' ts'] by (simp add: parse_bencoding_file_dictionary_def)

text \<open>\<open>parse_bencoding_files_list\<close>\<close>

function files_list_loop ::
  "string \<Rightarrow> (string \<Rightarrow> bool) \<Rightarrow> token list \<Rightarrow> bittorrent_meta \<Rightarrow> bittorrent_state \<times> bittorrent_meta \<times> token list" where
  "files_list_loop mem up [] meta = (BITTORRENT_STATE_ERROR, meta, [])"
| "files_list_loop mem up (t # ts) meta =
     (if ttype t = BENCODING_TOKEN_END then (BITTORRENT_STATE_OK, meta, ts)
      else if ttype t \<noteq> BENCODING_TOKEN_DICTIONARY then (BITTORRENT_STATE_ERROR, meta, t # ts)
      else (case parse_bencoding_file_dictionary mem up meta (t # ts) of (st, meta', ts') \<Rightarrow>
              if st \<noteq> BITTORRENT_STATE_OK then (st, meta', ts')
              else files_list_loop mem up ts' meta'))"
  by pat_completeness auto
termination
  by (relation "measure (\<lambda>(mem, up, ts, meta). length ts)")
     (auto simp: less_Suc_eq_le dest: parse_file_dictionary_length)

definition parse_bencoding_files_list ::
  "string \<Rightarrow> (string \<Rightarrow> bool) \<Rightarrow> bittorrent_meta \<Rightarrow> token list \<Rightarrow> bittorrent_state \<times> bittorrent_meta \<times> token list" where
  "parse_bencoding_files_list mem up meta ts = files_list_loop mem up (tl ts) meta"

lemma files_list_length:
  "files_list_loop mem up ts meta = (st, meta', ts') \<Longrightarrow> length ts' \<le> length ts"
proof (induction mem up ts meta rule: files_list_loop.induct)
  case (2 mem up t ts meta)
  obtain st2 m2 ts2 where f: "parse_bencoding_file_dictionary mem up meta (t # ts) = (st2, m2, ts2)" by (metis prod_cases3)
  then have "length ts2 \<le> length ts" using parse_file_dictionary_length by metis
  then show ?case using 2 f by (auto split: if_splits) (meson le_SucI le_trans)
qed simp

lemma parse_files_list_length:
  "(st, meta', ts') = parse_bencoding_files_list mem up meta ts \<Longrightarrow> length ts' \<le> length ts"
  using files_list_length [of mem up "tl ts" meta st meta' ts'] by (auto simp: parse_bencoding_files_list_def)

text \<open>\<open>parse_bencoding_info_dictionary\<close>: the loop over the entries.\<close>

function info_dictionary_loop ::
  "string \<Rightarrow> (string \<Rightarrow> bool) \<Rightarrow> token list \<Rightarrow> bittorrent_meta \<Rightarrow> bittorrent_file \<Rightarrow>
     bittorrent_state \<times> bittorrent_meta \<times> token list" where
  "info_dictionary_loop mem up ts meta template =
     (if ts = [] then (BITTORRENT_STATE_ERROR, meta, ts)
      else case check_bencoding_dictionary_entry mem ts of (entry, ts1) \<Rightarrow>
        (case entry of
           Entry_Error \<Rightarrow> (BITTORRENT_STATE_ERROR, meta, ts1)
         | Entry_End \<Rightarrow>
             if multi_file meta then (BITTORRENT_STATE_OK, meta, ts1)
             else (case mname meta of
                     None \<Rightarrow> (BITTORRENT_STATE_ERROR, meta, ts1)
                   | Some nm \<Rightarrow> (case add_bittorrent_file up meta nm template of (st, meta') \<Rightarrow> (st, meta', ts1)))
         | Entry_Other \<Rightarrow> info_dictionary_loop mem up (skip_bencoding_tokens ts1) meta template
         | Entry k val \<Rightarrow>
             if k = KEY_NAME then
               (case normalize_bencoding_path up (token_text mem val) of
                  None \<Rightarrow> (BITTORRENT_STATE_OUT_OF_MEM, meta\<lparr>mname := None\<rparr>, ts1)
                | Some (nm, malicious) \<Rightarrow>
                    info_dictionary_loop mem up (tl ts1)
                      (meta\<lparr>mname := Some nm, malicious_paths := (malicious \<or> malicious_paths meta)\<rparr>) template)
             else if k = KEY_PIECES then
               (if tlength val mod 20 \<noteq> 0 then (BITTORRENT_STATE_ERROR, meta, ts1)
                else info_dictionary_loop mem up (tl ts1)
                       (meta\<lparr>pieces := nat (tlength val) div 20, piece_hash := Some (token_text mem val)\<rparr>) template)
             else if k = KEY_PIECE_LENGTH then
               (let len = parse_bencoding_integer mem val
                in if len < 0 \<or> len \<ge> INT_MAX then (BITTORRENT_STATE_ERROR, meta, ts1)
                   else info_dictionary_loop mem up (tl ts1) (meta\<lparr>piece_length := len\<rparr>) template)
             else if k = KEY_FILES then
               (case parse_bencoding_files_list mem up (meta\<lparr>multi_file := True\<rparr>) ts1 of (st, meta', ts2) \<Rightarrow>
                  if st \<noteq> BITTORRENT_STATE_OK then (st, meta', ts2)
                  else info_dictionary_loop mem up ts2 meta' template)
             else if k = KEY_LENGTH then
               info_dictionary_loop mem up (tl ts1) meta (template\<lparr>blength := parse_bencoding_integer mem val\<rparr>)
             else if k = KEY_MD5SUM then
               (if tlength val \<noteq> 32 then (BITTORRENT_STATE_ERROR, meta, ts1)
                else info_dictionary_loop mem up (tl ts1) meta (template\<lparr>md5sum := token_text mem val\<rparr>))
             else info_dictionary_loop mem up (skip_bencoding_tokens ts1) meta template))"
  by pat_completeness auto

termination info_dictionary_loop
proof (relation "measure (\<lambda>(mem, up, ts, meta, template). length ts)")
  fix mem :: string and ts entry ts1 k val st ts2 meta and meta' :: bittorrent_meta and z up
  assume a: "(entry, ts1) = check_bencoding_dictionary_entry mem ts" "entry = Entry k val"
    "(st, z) = parse_bencoding_files_list mem up (meta\<lparr>multi_file := True\<rparr>) ts1" "(meta', ts2) = z"
  have "length ts1 < length ts" using entry_length a(1,2) by blast
  moreover have "length ts2 \<le> length ts1" using parse_files_list_length [of st meta' ts2 mem up _ ts1] a(3,4) by metis
  ultimately show "((mem, up, ts2, meta', template), mem, up, ts, meta, template)
      \<in> measure (\<lambda>(mem, up, ts, meta, template). length ts)" for template by simp
qed (auto dest: skip_entry_length)

declare info_dictionary_loop.simps [simp del]

definition parse_bencoding_info_dictionary ::
  "string \<Rightarrow> (string \<Rightarrow> bool) \<Rightarrow> bittorrent_meta \<Rightarrow> token list \<Rightarrow> bittorrent_state \<times> bittorrent_meta \<times> token list" where
  "parse_bencoding_info_dictionary mem up meta ts = info_dictionary_loop mem up (tl ts) meta empty_file"


lemma info_dictionary_length:
  "info_dictionary_loop mem up ts meta template = (st, meta', ts') \<Longrightarrow> length ts' \<le> length ts"
proof (induction "length ts" arbitrary: ts meta template rule: less_induct)
  case less
  note unfold = less.prems [unfolded info_dictionary_loop.simps [of mem up ts]]
  show ?case
  proof (cases "ts = []")
    case True
    then show ?thesis using unfold by simp
  next
    case False
    obtain e ts1 where c: "check_bencoding_dictionary_entry mem ts = (e, ts1)" by fastforce
    have le: "length ts1 \<le> length ts" using check_entry_length [OF c] by simp
    have ih: "length ts' \<le> length ts" if "info_dictionary_loop mem up us m f = (st, meta', ts')" "length us < length ts" for us m f
      using less.hyps [OF that(2,1)] that(2) by simp
    have sk: "e \<noteq> Entry_Error \<Longrightarrow> length (skip_bencoding_tokens ts1) < length ts"
      "e \<noteq> Entry_Error \<Longrightarrow> length (tl ts1) < length ts"
      using skip_entry_length [OF c [symmetric] False] by auto
    show ?thesis
    proof (cases e)
      case (Entry k v)
      obtain st2 m2 ts2 where fl: "parse_bencoding_files_list mem up (meta\<lparr>multi_file := True\<rparr>) ts1 = (st2, m2, ts2)"
        by (metis prod_cases3)
      have l2: "length ts2 \<le> length ts" "length ts2 < length ts"
        using parse_files_list_length [OF fl [symmetric]] entry_length [of k v ts1 mem ts] c Entry by auto
      show ?thesis using unfold False c Entry fl sk le l2 ih
        by (auto simp: Let_def split: if_splits option.splits prod.splits)
    qed (use unfold False c sk le ih in \<open>auto split: prod.splits option.splits if_splits\<close>)
  qed
qed

lemma parse_info_dictionary_length:
  "(st, meta', ts') = parse_bencoding_info_dictionary mem up meta ts \<Longrightarrow> length ts' \<le> length ts"
  using info_dictionary_length [of mem up "tl ts" meta empty_file st meta' ts'] by (auto simp: parse_bencoding_info_dictionary_def)

text \<open>\<open>check_bittorrent_metafile\<close>\<close>

fun total_length :: "bittorrent_file list \<Rightarrow> int \<Rightarrow> int option" where
  "total_length [] n = Some n"
| "total_length (f # fs) n = (if blength f < 0 then None else total_length fs (s64 (n + blength f)))"

definition check_bittorrent_metafile :: "bittorrent_meta \<Rightarrow> bittorrent_state \<times> bittorrent_meta" where
  "check_bittorrent_metafile meta =
     (if info_hash meta = replicate 20 NUL \<or> pieces meta = 0 \<or> mname meta = None \<or> deref (the (mname meta)) = NUL
        \<or> piece_hash meta = None \<or> piece_length meta = 0 \<or> tracker_uris meta = [] \<or> mfiles meta = []
      then (BITTORRENT_STATE_ERROR, meta)
      else case total_length (mfiles meta) 0 of
             None \<Rightarrow> (BITTORRENT_STATE_ERROR, meta)
           | Some n \<Rightarrow>
               let last = n smod piece_length meta;
                   last' = (if last = 0 then piece_length meta else last);
                   meta' = meta\<lparr>last_piece_length := last' mod 2 ^ 32\<rparr>
               in if last_piece_length meta' \<noteq> last' then (BITTORRENT_STATE_ERROR, meta') else (BITTORRENT_STATE_OK, meta'))"

text \<open>
  \<open>parse_bittorrent_metafile\<close>: the loop over the entries of the file. \<open>SHA1\<close> is a function of the library;
  whether \<open>get_uri\<close> accepts a tracker's address is decided by the URI parser.
\<close>

definition is_uri :: "(string \<Rightarrow> bool) \<Rightarrow> string \<Rightarrow> bool" where
  "is_uri up s \<longleftrightarrow> s \<noteq> [] \<and> fst (parse_uri up s) = URI_ERRNO_OK"

function metafile_loop ::
  "(string \<Rightarrow> string) \<Rightarrow> string \<Rightarrow> (string \<Rightarrow> bool) \<Rightarrow> token list \<Rightarrow> bittorrent_meta \<Rightarrow> bittorrent_state \<times> bittorrent_meta" where
  "metafile_loop sha1 mem up ts meta =
     (if ts = [] then (BITTORRENT_STATE_ERROR, meta)
      else case check_bencoding_dictionary_entry mem ts of (entry, ts1) \<Rightarrow>
        (case entry of
           Entry_Error \<Rightarrow> (BITTORRENT_STATE_ERROR, meta)
         | Entry_End \<Rightarrow> check_bittorrent_metafile meta
         | Entry_Other \<Rightarrow> metafile_loop sha1 mem up (skip_bencoding_tokens ts1) meta
         | Entry k val \<Rightarrow>
             if k = KEY_ANNOUNCE then
               (let s = cut_NUL (token_text mem val)
                in metafile_loop sha1 mem up (tl ts1)
                     (if is_uri up s then meta\<lparr>tracker_uris := tracker_uris meta @ [s]\<rparr> else meta))
             else if k = KEY_INFO then
               (case parse_bencoding_info_dictionary mem up meta ts1 of (st, meta', ts2) \<Rightarrow>
                  if st \<noteq> BITTORRENT_STATE_OK then (BITTORRENT_STATE_ERROR, meta')
                  else (case ts2 of
                    [] \<Rightarrow> (BITTORRENT_STATE_ERROR, meta')
                  | t # _ \<Rightarrow>
                      metafile_loop sha1 mem up (tl ts2)
                        (meta'\<lparr>info_hash := sha1 (take (tstring t + nat (tlength t) - tstring val) (drop (tstring val) mem))\<rparr>)))
             else if k = KEY_COMMENT then
               metafile_loop sha1 mem up (tl ts1) (meta\<lparr>comment_of := Some (take 1024 (token_text mem val))\<rparr>)
             else if k = KEY_CREATION_DATE then
               metafile_loop sha1 mem up (tl ts1) (meta\<lparr>creation_date := parse_bencoding_integer mem val\<rparr>)
             else if k = KEY_CREATED_BY then metafile_loop sha1 mem up (tl ts1) meta
             else metafile_loop sha1 mem up (skip_bencoding_tokens ts1) meta))"
  by pat_completeness auto

termination metafile_loop
proof (relation "measure (\<lambda>(sha1, mem, up, ts, meta). length ts)")
  fix mem :: string and ts entry ts1 k val st ts2 meta and meta' :: bittorrent_meta and z up t u
  assume a: "(entry, ts1) = check_bencoding_dictionary_entry mem ts" "entry = Entry k val"
    "(st, z) = parse_bencoding_info_dictionary mem up meta ts1" "(meta', ts2) = z" "ts2 = t # u"
  have "length ts1 < length ts" using entry_length a(1,2) by blast
  moreover have "length ts2 \<le> length ts1" using parse_info_dictionary_length [of st meta' ts2 mem up _ ts1] a(3,4) by metis
  ultimately show "((sha1, mem, up, tl ts2, m), sha1, mem, up, ts, meta)
      \<in> measure (\<lambda>(sha1, mem, up, ts, meta). length ts)" for sha1 :: "string \<Rightarrow> string" and m using a(5) by simp
qed (auto dest: skip_entry_length)

declare metafile_loop.simps [simp del]

definition parse_metafile_tokens ::
  "(string \<Rightarrow> string) \<Rightarrow> string \<Rightarrow> (string \<Rightarrow> bool) \<Rightarrow> token list \<Rightarrow> bittorrent_state \<times> bittorrent_meta" where
  "parse_metafile_tokens sha1 mem up ts =
     (case ts of
        [] \<Rightarrow> (BITTORRENT_STATE_ERROR, empty_meta)
      | t # _ \<Rightarrow> if ttype t \<noteq> BENCODING_TOKEN_DICTIONARY then (BITTORRENT_STATE_ERROR, empty_meta)
                 else metafile_loop sha1 mem up (tl ts) empty_meta)"

text \<open>The whole function: the tokens of the file, as the scanner delivers them.\<close>

definition parse_bittorrent_metafile ::
  "(string \<Rightarrow> string) \<Rightarrow> (string \<Rightarrow> bool) \<Rightarrow> string \<Rightarrow> nat \<Rightarrow> bittorrent_state \<times> bittorrent_meta" where
  "parse_bittorrent_metafile sha1 up mem fin =
     parse_metafile_tokens sha1 mem up
       (delivered (scan_bencoding_token mem fin) (init_scanner (scan_bencoding_token mem fin) fin))"

end
