(* ===== verification/Bencoding_Scan.thy ===== *)
theory Bencoding_Scan
  imports Bencoding
begin

text \<open>
  The reader of \<open>src/protocol/bittorrent/bencoding.c\<close> as an instance of the generic scanner, and the
  round trip: the tokens of an encoded value say what the value is, and skipping skips exactly one.
\<close>

lemma scan_bencoding_integer_ge: "p \<le> scan_bencoding_integer mem fin p"
  by (simp add: scan_bencoding_integer_def)

lemma benc_reader_progress:
  assumes "scan_bencoding_token mem fin pos = Scan_Token t p"
  shows "pos < p"
proof -
  have "pos + 1 \<le> scan_bencoding_integer mem fin (pos + 1)" "pos + 2 \<le> scan_bencoding_integer mem fin (pos + 2)"
    by (rule scan_bencoding_integer_ge)+
  then show ?thesis using assms
    by (auto simp: scan_bencoding_token_def benc_token_def Let_def split: if_splits)
qed

interpretation benc: token_reader "scan_bencoding_token mem fin" fin for mem fin
proof
  fix pos t p
  show "pos < p" if "pos < fin" "scan_bencoding_token mem fin pos = Scan_Token t p" using benc_reader_progress that(2) .
  show "fin \<le> p" if "pos < fin" "scan_bencoding_token mem fin pos = Scan_End p"
    using that(2) by (auto simp: scan_bencoding_token_def benc_token_def Let_def split: if_splits)
qed

subsection \<open>The format\<close>

datatype bval = BInt int | BStr string | BList "bval list" | BDict "(string \<times> bval) list"

definition bstring :: "string \<Rightarrow> string" where
  "bstring s = decimal (length s) @ '':'' @ s"

fun bencode :: "bval \<Rightarrow> string" and bencode_list :: "bval list \<Rightarrow> string"
  and bencode_dict :: "(string \<times> bval) list \<Rightarrow> string" where
  "bencode (BInt n) = ''i'' @ print_long n @ ''e''"
| "bencode (BStr s) = bstring s"
| "bencode (BList vs) = ''l'' @ bencode_list vs @ ''e''"
| "bencode (BDict ds) = ''d'' @ bencode_dict ds @ ''e''"
| "bencode_list [] = []"
| "bencode_list (v # vs) = bencode v @ bencode_list vs"
| "bencode_dict [] = []"
| "bencode_dict ((k, v) # ds) = bstring k @ bencode v @ bencode_dict ds"

text \<open>Strings must be shorter than \<open>INT_MAX\<close>, numbers fit into \<open>off_t\<close> and are not its least value.\<close>

fun bval_ok :: "bval \<Rightarrow> bool" where
  "bval_ok (BInt n) \<longleftrightarrow> \<bar>n\<bar> < 2 ^ 63"
| "bval_ok (BStr s) \<longleftrightarrow> int (length s) < INT_MAX"
| "bval_ok (BList vs) \<longleftrightarrow> (\<forall>v \<in> set vs. bval_ok v)"
| "bval_ok (BDict ds) \<longleftrightarrow> (\<forall>(k, v) \<in> set ds. int (length k) < INT_MAX \<and> bval_ok v)"

text \<open>What a parser reads off a token.\<close>

datatype bview = VInt int | VStr string | VList | VDict | VEnd | VOther

definition token_view :: "string \<Rightarrow> token \<Rightarrow> bview" where
  "token_view mem t =
     (if ttype t = BENCODING_TOKEN_INTEGER then VInt (parse_bencoding_integer mem t)
      else if ttype t = BENCODING_TOKEN_STRING then VStr (token_text mem t)
      else if ttype t = BENCODING_TOKEN_LIST then VList
      else if ttype t = BENCODING_TOKEN_DICTIONARY then VDict
      else if ttype t = BENCODING_TOKEN_END then VEnd else VOther)"

fun views :: "bval \<Rightarrow> bview list" and views_list :: "bval list \<Rightarrow> bview list"
  and views_dict :: "(string \<times> bval) list \<Rightarrow> bview list" where
  "views (BInt n) = [VInt n]"
| "views (BStr s) = [VStr s]"
| "views (BList vs) = VList # views_list vs @ [VEnd]"
| "views (BDict ds) = VDict # views_dict ds @ [VEnd]"
| "views_list [] = []"
| "views_list (v # vs) = views v @ views_list vs"
| "views_dict [] = []"
| "views_dict ((k, v) # ds) = VStr k # views v @ views_dict ds"

subsection \<open>Numbers\<close>

lemma s64_id: "- (2 ^ 63) \<le> x \<Longrightarrow> x < 2 ^ 63 \<Longrightarrow> s64 x = x"
  by (simp add: s64_def mod_pos_pos_trivial)

lemma s64_bounds: "- (2 ^ 63) \<le> s64 x" "s64 x < 2 ^ 63"
  by (simp_all add: s64_def pos_mod_bound [of "2 ^ 64 :: int" "x + 2 ^ 63", simplified] algebra_simps)

text \<open>The overflow check is exact: dividing gives the number back if and only if nothing was lost.\<close>

lemma overflow_check:
  assumes "0 \<le> n" "n < 2 ^ 63" "0 \<le> d" "d \<le> 9"
  shows "s64 (n * 10 + d) sdiv 10 = n \<longleftrightarrow> n * 10 + d < 2 ^ 63"
proof
  assume l: "n * 10 + d < 2 ^ 63"
  then have "s64 (n * 10 + d) = n * 10 + d" using assms by (intro s64_id) auto
  then show "s64 (n * 10 + d) sdiv 10 = n" using assms by (simp add: sdiv_nonneg)
next
  assume e: "s64 (n * 10 + d) sdiv 10 = n"
  define v where "v = s64 (n * 10 + d)"
  have "v < 2 ^ 63" "v = n * 10 + d - 2 ^ 64 * ((n * 10 + d + 2 ^ 63) div 2 ^ 64)"
    using s64_bounds [of "n * 10 + d"] unfolding v_def s64_def by (simp_all add: minus_mod_eq_mult_div [symmetric])
  moreover have "v = n * 10 + v smod 10" using e sdiv_mult_smod_eq [of v 10] unfolding v_def by simp
  moreover have "v smod 10 < 10" "- 10 < v smod 10" using smod_int_range [of 10 v] by auto
  ultimately have "n * 10 + d - 10 - 10 < v" "v < 2 ^ 63" "2 ^ 64 * ((n * 10 + d + 2 ^ 63) div 2 ^ 64) < 20"
    using assms by linarith+
  then have "18446744073709551616 * ((n * 10 + d + 2 ^ 63) div 2 ^ 64) < 20" by simp
  then have "(n * 10 + d + 2 ^ 63) div 2 ^ 64 \<le> 0" by linarith
  then have "(n * 10 + d + 9223372036854775808) div 18446744073709551616 \<le> 0" by simp
  then have "n * 10 + d < 9223372036854775808" by linarith
  then show "n * 10 + d < 2 ^ 63" by simp
qed
lemma digit_bounds: "isdigit c \<Longrightarrow> 0 \<le> digit c \<and> digit c \<le> 9"
  by (auto simp: isdigit_def digit_def)

lemma foldl_digits_ge:
  "list_all isdigit ds \<Longrightarrow> 0 \<le> n \<Longrightarrow> n \<le> foldl (\<lambda>n c. n * 10 + digit c) n ds"
proof (induction ds arbitrary: n)
  case (Cons c ds)
  then have "n \<le> n * 10 + digit c" using digit_bounds [of c] by auto
  with Cons.IH [of "n * 10 + digit c"] Cons.prems show ?case by auto
qed simp

lemma integer_loop_digits:
  "list_all isdigit ds \<Longrightarrow> 0 \<le> n \<Longrightarrow> n < 2 ^ 63 \<Longrightarrow>
     integer_loop ds n = (if foldl (\<lambda>n c. n * 10 + digit c) n ds < 2 ^ 63
                          then Some (foldl (\<lambda>n c. n * 10 + digit c) n ds) else None)"
proof (induction ds arbitrary: n)
  case (Cons c ds)
  note d = digit_bounds [of c] Cons.prems
  let ?m = "n * 10 + digit c"
  have o: "s64 ?m sdiv 10 = n \<longleftrightarrow> ?m < 2 ^ 63" using d by (intro overflow_check) auto
  show ?case
  proof (cases "?m < 2 ^ 63")
    case True
    then have "s64 ?m = ?m" using d by (intro s64_id) auto
    then show ?thesis using True o d Cons.IH [of ?m] by (simp add: Let_def)
  next
    case False
    then have "\<not> foldl (\<lambda>n c. n * 10 + digit c) ?m ds < 2 ^ 63"
      using foldl_digits_ge [of ds ?m] d by auto
    then show ?thesis using False o d by (simp add: Let_def)
  qed
qed simp

lemma integer_loop_decimal: "integer_loop (decimal n) 0 = (if int n < 2 ^ 63 then Some (int n) else None)"
  using integer_loop_digits [of "decimal n" 0] decimal_digits [of n] foldl_decimal [of n] by (simp add: list_all_iff)

lemma parse_integer_print:
  assumes "token_text mem t = print_long n"
  shows "parse_bencoding_integer mem t = (if \<bar>n\<bar> < 2 ^ 63 then n else 0)"
proof -
  have h: "deref (decimal m) \<noteq> CHR ''-''" for m
    using decimal_head [of m] by (cases "decimal m") (auto simp: isdigit_def)
  show ?thesis
  proof (cases "n < 0")
    case True
    then show ?thesis using assms integer_loop_decimal [of "nat (- n)"] s64_id [of n]
      by (simp add: parse_bencoding_integer_def print_long_def)
  next
    case False
    then show ?thesis using assms integer_loop_decimal [of "nat n"] h [of "nat n"]
      by (simp add: parse_bencoding_integer_def print_long_def)
  qed
qed


subsection \<open>Reading an encoded value\<close>

abbreviation benc_stream :: "string \<Rightarrow> nat \<Rightarrow> nat \<Rightarrow> token list \<times> bool" where
  "benc_stream mem fin p \<equiv> token_stream (scan_bencoding_token mem fin) fin (fin - p) p"

text \<open>The tokens between two positions are \<open>vs\<close>.\<close>

definition reads :: "string \<Rightarrow> nat \<Rightarrow> nat \<Rightarrow> nat \<Rightarrow> bview list \<Rightarrow> bool" where
  "reads mem fin p q vs \<longleftrightarrow> (\<exists>ts. benc_stream mem fin p = (ts @ fst (benc_stream mem fin q), snd (benc_stream mem fin q))
     \<and> map (token_view mem) ts = vs)"

lemma reads_refl [simp]: "reads mem fin p p []"
  by (simp add: reads_def)

lemma reads_trans: "reads mem fin p q vs \<Longrightarrow> reads mem fin q r ws \<Longrightarrow> reads mem fin p r (vs @ ws)"
  unfolding reads_def by (metis append.assoc fst_conv snd_conv map_append)

lemma reads_token:
  "p < fin \<Longrightarrow> scan_bencoding_token mem fin p = Scan_Token t q \<Longrightarrow> token_view mem t = v \<Longrightarrow> reads mem fin p q [v]"
  unfolding reads_def by (intro exI [of _ "[t]"]) (auto simp: benc.stream_step split: prod.splits)

lemma char_at_pre: "char_at (pre @ c # s) (length pre) = c"
  by (simp add: char_at_def)

lemma char_at_after: "char_at (pre @ s) (length pre + i) = char_at s i"
  by (simp add: char_at_def nth_append)

lemma scan_digits_run:
  assumes "mem = pre @ ds @ c # rest" "list_all isdigit ds" "\<not> isdigit c" "length pre + length ds \<le> fin"
  shows "scan_bencoding_integer mem fin (length pre) = length pre + length ds"
    and "char_at mem (length pre + length ds) = c"
proof -
  have d: "drop (length pre) (take fin mem) = ds @ take (fin - (length pre + length ds)) (c # rest)"
    using assms(1,4) by simp
  have "takeWhile isdigit (take n (c # rest)) = []" for n using assms(3) by (cases n) simp_all
  then have "takeWhile isdigit (ds @ take (fin - (length pre + length ds)) (c # rest)) = ds"
    using assms(2) by (simp add: takeWhile_append list_all_iff takeWhile_eq_all_conv)
  then show "scan_bencoding_integer mem fin (length pre) = length pre + length ds"
    by (simp add: scan_bencoding_integer_def d)
  show "char_at mem (length pre + length ds) = c"
    using assms(1) char_at_pre [of "pre @ ds" c rest] by simp
qed

lemma reads_char:
  assumes "mem = pre @ c # rest" "length pre < fin"
    and "(c, v) \<in> {(CHR ''e'', VEnd), (CHR ''l'', VList), (CHR ''d'', VDict)}"
  shows "reads mem fin (length pre) (length pre + 1) [v]"
proof -
  let ?t = "\<lparr>ttype = int (uchar c), precedence = 0, tstring = length pre, tlength = 1\<rparr>"
  have "char_at mem (length pre) = c" using assms(1) char_at_pre by simp
  then have "scan_bencoding_token mem fin (length pre) = Scan_Token ?t (length pre + 1)"
    using assms(3) by (auto simp: scan_bencoding_token_def benc_token_def isdigit_def)
  moreover have "token_view mem ?t = v" using assms(3) by (auto simp: token_view_def)
  ultimately show ?thesis using reads_token assms(2) by blast
qed

lemma reads_string:
  assumes "mem = pre @ bstring s @ rest" "length pre + length (bstring s) \<le> fin" "int (length s) < INT_MAX"
  shows "reads mem fin (length pre) (length pre + length (bstring s)) [VStr s]"
proof -
  obtain d ds where d: "decimal (length s) = d # ds" by (cases "decimal (length s)") auto
  have isd: "isdigit d" "list_all isdigit ds" using decimal_digits [of "length s"] d by (auto simp: list_all_iff)
  have m: "mem = (pre @ [d]) @ ds @ CHR '':'' # s @ rest" using assms(1) d by (simp add: bstring_def)
  have colon: "\<not> isdigit (CHR '':'')" by (simp add: isdigit_def)
  have len: "length (bstring s) = length ds + length s + 2" by (simp add: bstring_def d)
  note r = scan_digits_run [OF m isd(2) colon, of fin]
  have p: "scan_bencoding_integer mem fin (length pre + 1) = length pre + 1 + length ds"
    "char_at mem (length pre + 1 + length ds) = CHR '':''"
    using r assms(2) len by simp_all
  have v: "digits_val (drop (length pre) mem) = int (length s)"
    using digits_val_decimal [OF colon, of "length s" "s @ rest"] assms(1) by (simp add: bstring_def)
  let ?t = "\<lparr>ttype = BENCODING_TOKEN_STRING, precedence = 0, tstring = length pre + 2 + length ds, tlength = int (length s)\<rparr>"
  have h: "char_at mem (length pre) = d" using m char_at_pre [of pre d "ds @ CHR '':'' # s @ rest"] by simp
  have "scan_bencoding_token mem fin (length pre) = Scan_Token ?t (length pre + length (bstring s))"
    using h isd(1) p v assms(2,3) len
    by (auto simp: scan_bencoding_token_def Let_def benc_token_def INT_MAX_def)
  moreover have "token_view mem ?t = VStr s"
    using m by (simp add: token_view_def token_text_def)
  moreover have "length pre < fin" using assms(2) len by simp
  ultimately show ?thesis using reads_token by blast
qed

lemma reads_int:
  assumes "mem = pre @ CHR ''i'' # print_long n @ CHR ''e'' # rest" "length pre + length (print_long n) + 2 \<le> fin" "\<bar>n\<bar> < 2 ^ 63"
  shows "reads mem fin (length pre) (length pre + length (print_long n) + 2) [VInt n]"
proof -
  have e: "\<not> isdigit (CHR ''e'')" by (simp add: isdigit_def)
  define sign ds where "sign = (if n < 0 then ''-'' else [])" and "ds = decimal (nat \<bar>n\<bar>)"
  then have s: "print_long n = sign @ ds" "list_all isdigit ds" "ds \<noteq> []" "sign = (if n < 0 then ''-'' else [])"
    using decimal_digits by (auto simp: print_long_def list_all_iff)
  have m: "mem = (pre @ CHR ''i'' # sign) @ ds @ CHR ''e'' # rest" using assms(1) s(1) by simp
  have hd: "char_at mem (length pre) = CHR ''i''" using assms(1) char_at_pre [of pre] by simp
  have minus: "char_at mem (length pre + 1) = CHR ''-'' \<longleftrightarrow> n < 0"
  proof -
    have "char_at mem (length pre + 1) = deref (sign @ ds @ CHR ''e'' # rest)"
      using assms(1) s(1) char_at_after [of pre "CHR ''i'' # print_long n @ CHR ''e'' # rest" 1] by simp
    moreover have "isdigit (deref (ds @ CHR ''e'' # rest))" using s(2,3) by (cases ds) auto
    ultimately show ?thesis using s(4) by (auto simp: isdigit_def)
  qed
  have le: "length (pre @ CHR ''i'' # sign) + length ds \<le> fin" using assms(2) s(1) by simp
  note r = scan_digits_run [OF m s(2) e le]
  have start: "(if char_at mem (length pre + 1) = CHR ''-'' then length pre + 2 else length pre + 1) = length (pre @ CHR ''i'' # sign)"
    using minus s(4) by simp
  let ?t = "\<lparr>ttype = BENCODING_TOKEN_INTEGER, precedence = 0, tstring = length pre + 1, tlength = int (length (print_long n))\<rparr>"
  have pos: "length (print_long n) > 0" using s(1,3) by simp
  have p: "scan_bencoding_integer mem fin (length (pre @ CHR ''i'' # sign)) = length pre + 1 + length (print_long n)"
    "char_at mem (length pre + 1 + length (print_long n)) = CHR ''e''"
    using r s(1) by (simp_all add: add.assoc)
  have "scan_bencoding_token mem fin (length pre) = Scan_Token ?t (length pre + length (print_long n) + 2)"
    unfolding scan_bencoding_token_def Let_def start p hd using p(2) pos
    by (simp add: benc_token_def isdigit_def)
  moreover have "token_text mem ?t = print_long n" using assms(1) by (simp add: token_text_def)
  then have "token_view mem ?t = VInt n" using parse_integer_print [of mem ?t n] assms(3) by (simp add: token_view_def)
  moreover have "length pre < fin" using assms(2) by simp
  ultimately show ?thesis using reads_token by blast
qed


lemma reads_value:
  "bval_ok v \<Longrightarrow> mem = pre @ bencode v @ rest \<Longrightarrow> length pre + length (bencode v) \<le> fin \<Longrightarrow>
     reads mem fin (length pre) (length pre + length (bencode v)) (views v)"
  "\<forall>v \<in> set vs. bval_ok v \<Longrightarrow> mem = pre @ bencode_list vs @ rest \<Longrightarrow> length pre + length (bencode_list vs) \<le> fin \<Longrightarrow>
     reads mem fin (length pre) (length pre + length (bencode_list vs)) (views_list vs)"
  "\<forall>(k, v) \<in> set ds. int (length k) < INT_MAX \<and> bval_ok v \<Longrightarrow> mem = pre @ bencode_dict ds @ rest \<Longrightarrow>
     length pre + length (bencode_dict ds) \<le> fin \<Longrightarrow>
     reads mem fin (length pre) (length pre + length (bencode_dict ds)) (views_dict ds)"
proof (induction v and vs and ds arbitrary: pre rest and pre rest and pre rest rule: bencode_bencode_list_bencode_dict.induct)
  case (1 n)
  then show ?case using reads_int [of mem pre n rest fin] by simp
next
  case (2 s)
  then show ?case using reads_string [of mem pre s rest fin] by simp
next
  case (3 vs)
  have "reads mem fin (length pre) (length pre + 1) [VList]"
    using 3(3,4) by (intro reads_char [of _ _ "CHR ''l''"]) auto
  moreover have "reads mem fin (length pre + 1) (length pre + 1 + length (bencode_list vs)) (views_list vs)"
    using 3(1) [of "pre @ ''l''" "''e'' @ rest"] 3(2-4) by simp
  moreover have "reads mem fin (length pre + 1 + length (bencode_list vs)) (length pre + 2 + length (bencode_list vs)) [VEnd]"
    using 3(3,4) reads_char [of mem "pre @ ''l'' @ bencode_list vs" "CHR ''e''" rest fin] by simp
  ultimately show ?case using reads_trans [OF reads_trans] by fastforce
next
  case (4 ds)
  have "reads mem fin (length pre) (length pre + 1) [VDict]"
    using 4(3,4) by (intro reads_char [of _ _ "CHR ''d''"]) auto
  moreover have "reads mem fin (length pre + 1) (length pre + 1 + length (bencode_dict ds)) (views_dict ds)"
    using 4(1) [of "pre @ ''d''" "''e'' @ rest"] 4(2-4) by simp
  moreover have "reads mem fin (length pre + 1 + length (bencode_dict ds)) (length pre + 2 + length (bencode_dict ds)) [VEnd]"
    using 4(3,4) reads_char [of mem "pre @ ''d'' @ bencode_dict ds" "CHR ''e''" rest fin] by simp
  ultimately show ?case using reads_trans [OF reads_trans] by fastforce
next
  case (6 v vs)
  have "reads mem fin (length pre) (length pre + length (bencode v)) (views v)"
    using 6(1) [of pre "bencode_list vs @ rest"] 6(3-5) by simp
  moreover have "reads mem fin (length pre + length (bencode v)) (length pre + length (bencode v) + length (bencode_list vs)) (views_list vs)"
    using 6(2) [of "pre @ bencode v" rest] 6(3-5) by simp
  ultimately show ?case using reads_trans by (fastforce simp: add.assoc)
next
  case (8 k v ds)
  have "reads mem fin (length pre) (length pre + length (bstring k)) [VStr k]"
    using reads_string [of mem pre k "bencode v @ bencode_dict ds @ rest" fin] 8(3-5) by simp
  moreover have "reads mem fin (length pre + length (bstring k)) (length pre + length (bstring k) + length (bencode v)) (views v)"
    using 8(1) [of "pre @ bstring k" "bencode_dict ds @ rest"] 8(3-5) by simp
  moreover have "reads mem fin (length pre + length (bstring k) + length (bencode v))
      (length pre + length (bstring k) + length (bencode v) + length (bencode_dict ds)) (views_dict ds)"
    using 8(2) [of "pre @ bstring k @ bencode v" rest] 8(3-5) by (simp add: add.assoc)
  ultimately show ?case using reads_trans [OF reads_trans] by (fastforce simp: add.assoc)
qed simp_all


subsection \<open>Skipping a value, and reading it back\<close>

lemma view_types:
  "token_view mem t = VInt n \<Longrightarrow> ttype t = BENCODING_TOKEN_INTEGER"
  "token_view mem t = VStr s \<Longrightarrow> ttype t = BENCODING_TOKEN_STRING"
  "token_view mem t = VList \<Longrightarrow> ttype t = BENCODING_TOKEN_LIST"
  "token_view mem t = VDict \<Longrightarrow> ttype t = BENCODING_TOKEN_DICTIONARY"
  "token_view mem t = VEnd \<Longrightarrow> ttype t = BENCODING_TOKEN_END"
  by (auto simp: token_view_def split: if_splits)

text \<open>Below the surface, a whole value leaves the nesting level as it was.\<close>

lemma skip_nested_value:
  "map (token_view mem) ts = views v \<Longrightarrow> 0 < n \<Longrightarrow> skip_nested n (ts @ rest) = skip_nested n rest"
  "map (token_view mem) ts = views_list vs \<Longrightarrow> 0 < n \<Longrightarrow> skip_nested n (ts @ rest) = skip_nested n rest"
  "map (token_view mem) ts = views_dict ds \<Longrightarrow> 0 < n \<Longrightarrow> skip_nested n (ts @ rest) = skip_nested n rest"
proof (induction v and vs and ds arbitrary: ts n rest and ts n rest and ts n rest rule: views_views_list_views_dict.induct)
  case (3 vs)
  then obtain t us e where t: "ts = t # us @ [e]" "ttype t = BENCODING_TOKEN_LIST" "map (token_view mem) us = views_list vs"
    "ttype e = BENCODING_TOKEN_END" by (auto simp: map_eq_Cons_conv map_eq_append_conv view_types dest: view_types(5) [OF sym])
  then show ?case using 3(1) [of us "n + 1" "e # rest"] 3(3) by simp
next
  case (4 ds)
  then obtain t us e where t: "ts = t # us @ [e]" "ttype t = BENCODING_TOKEN_DICTIONARY" "map (token_view mem) us = views_dict ds"
    "ttype e = BENCODING_TOKEN_END" by (auto simp: map_eq_Cons_conv map_eq_append_conv view_types dest: view_types(5) [OF sym])
  then show ?case using 4(1) [of us "n + 1" "e # rest"] 4(3) by simp
next
  case (6 v vs)
  then obtain us ws where "ts = us @ ws" "map (token_view mem) us = views v" "map (token_view mem) ws = views_list vs"
    by (auto simp: map_eq_append_conv)
  then show ?case using 6(1) [of us n "ws @ rest"] 6(2) [of ws n rest] 6(4) by simp
next
  case (8 k v ds)
  then obtain t us ws where "ts = t # us @ ws" "ttype t = BENCODING_TOKEN_STRING" "map (token_view mem) us = views v"
    "map (token_view mem) ws = views_dict ds"
    by (auto simp: map_eq_append_conv map_eq_Cons_conv view_types)
  then show ?case using 8(1) [of us n "ws @ rest"] 8(2) [of ws n rest] 8(4) by simp
qed (auto simp: map_eq_Cons_conv Let_def dest!: view_types)

lemma skip_tokens_value:
  assumes "map (token_view mem) ts = views v"
  shows "skip_bencoding_tokens (ts @ rest) = rest"
proof (cases v)
  case (BList vs)
  then obtain t us e where t: "ts = t # us @ [e]" "ttype t = BENCODING_TOKEN_LIST" "map (token_view mem) us = views_list vs"
    "ttype e = BENCODING_TOKEN_END" using assms by (auto simp: map_eq_Cons_conv map_eq_append_conv view_types dest: view_types(5) [OF sym])
  then show ?thesis using skip_nested_value(2) [OF t(3), of 1 "e # rest"] by (simp add: skip_bencoding_tokens_def)
next
  case (BDict ds)
  then obtain t us e where t: "ts = t # us @ [e]" "ttype t = BENCODING_TOKEN_DICTIONARY" "map (token_view mem) us = views_dict ds"
    "ttype e = BENCODING_TOKEN_END" using assms by (auto simp: map_eq_Cons_conv map_eq_append_conv view_types dest: view_types(5) [OF sym])
  then show ?thesis using skip_nested_value(3) [OF t(3), of 1 "e # rest"] by (simp add: skip_bencoding_tokens_def)
qed (use assms in \<open>auto simp: skip_bencoding_tokens_def map_eq_Cons_conv Let_def dest!: view_types\<close>)

lemma views_not_end: "\<exists>x xs. views v = x # xs \<and> x \<noteq> VEnd"
  by (cases v) auto

lemma views_prefix_free:
  "views v @ xs = views w @ ys \<Longrightarrow> v = w \<and> xs = ys"
  "views_list vs @ VEnd # xs = views_list ws @ VEnd # ys \<Longrightarrow> vs = ws \<and> xs = ys"
  "views_dict ds @ VEnd # xs = views_dict es @ VEnd # ys \<Longrightarrow> ds = es \<and> xs = ys"
proof (induction v and vs and ds arbitrary: xs w ys and xs ws ys and xs es ys rule: views_views_list_views_dict.induct)
  case (1 n)
  then show ?case by (cases w) auto
next
  case (2 s)
  then show ?case by (cases w) auto
next
  case (3 vs)
  then show ?case by (cases w) auto
next
  case (4 ds)
  then show ?case by (cases w) auto
next
  case 5
  then show ?case using views_not_end by (cases ws) (auto, metis append_Cons list.inject)
next
  case (6 v vs)
  obtain x r where v: "views v = x # r" "x \<noteq> VEnd" using views_not_end by blast
  then obtain u us where ws: "ws = u # us" using 6(3) by (cases ws) auto
  then have "views v @ views_list vs @ VEnd # xs = views u @ views_list us @ VEnd # ys" using 6(3) by simp
  from 6(1) [OF this] have e: "v = u" "views_list vs @ VEnd # xs = views_list us @ VEnd # ys" by simp_all
  from 6(2) [OF e(2)] show ?case using ws e(1) by simp
next
  case 7
  then show ?case by (cases es) auto
next
  case (8 k v ds)
  obtain k' v' es' where es: "es = (k', v') # es'" using 8(3) by (cases es) auto
  have kk: "k = k'" and "views v @ views_dict ds @ VEnd # xs = views v' @ views_dict es' @ VEnd # ys"
    using 8(3) es by simp_all
  from 8(1) [OF this(2)] have e: "v = v'" "views_dict ds @ VEnd # xs = views_dict es' @ VEnd # ys" by simp_all
  from 8(2) [OF e(2)] show ?case using es kk e(1) by simp
qed

subsection \<open>What the scanner delivers\<close>

lemma init_delivers:
  "delivered (scan_bencoding_token mem fin) (init_scanner (scan_bencoding_token mem fin) fin) = cut_stopped (benc_stream mem fin 0)"
  using benc.init_delivered [of mem fin] by simp

lemma delivered_value:
  assumes "bval_ok v"
  shows "map (token_view (bencode v)) (delivered (scan_bencoding_token (bencode v) (length (bencode v)))
      (init_scanner (scan_bencoding_token (bencode v) (length (bencode v))) (length (bencode v)))) = views v"
proof -
  let ?mem = "bencode v"
  have "reads ?mem (length ?mem) 0 (length ?mem) (views v)"
    using reads_value(1) [OF assms, of ?mem "[]" "[]" "length ?mem"] by simp
  then obtain ts where "benc_stream ?mem (length ?mem) 0 = (ts, False)" "map (token_view ?mem) ts = views v"
    unfolding reads_def by auto
  then show ?thesis by (simp add: init_delivers cut_stopped_def)
qed

text \<open>
  C29: Bencoded data is read back exactly: the tokens the scanner delivers for an encoded value carry
  its numbers and strings in order, no other value gives the same tokens, and
  \<open>skip_bencoding_tokens\<close> skips precisely the tokens of one value, however deeply it is nested.
\<close>
theorem bencoding_round_trip:
  assumes "bval_ok v"
    and "ts = delivered (scan_bencoding_token (bencode v) (length (bencode v)))
           (init_scanner (scan_bencoding_token (bencode v) (length (bencode v))) (length (bencode v)))"
  shows "map (token_view (bencode v)) ts = views v
    \<and> (\<forall>w. map (token_view (bencode v)) ts = views w \<longrightarrow> w = v)
    \<and> (\<forall>rest. skip_bencoding_tokens (ts @ rest) = rest)"
proof (intro conjI allI impI)
  show m: "map (token_view (bencode v)) ts = views v" using delivered_value [OF assms(1)] assms(2) by simp
  show "w = v" if "map (token_view (bencode v)) ts = views w" for w
    using views_prefix_free(1) [of v "[]" w "[]"] m that by simp
  show "skip_bencoding_tokens (ts @ rest) = rest" for rest using skip_tokens_value [OF m] .
qed

definition example_value :: bval where
  "example_value = BDict [(''a'', BList [BInt (-7), BStr ''xy''])]"

theorem bencoding_round_trip_witness:
  "bencode example_value = ''d1:ali-7e2:xyee''
   \<and> map (token_view (bencode example_value)) (delivered (scan_bencoding_token (bencode example_value) 15)
       (init_scanner (scan_bencoding_token (bencode example_value) 15) 15))
     = [VDict, VStr ''a'', VList, VInt (-7), VStr ''xy'', VEnd, VEnd]"
proof -
  have e: "bencode example_value = ''d1:ali-7e2:xyee''"
    by code_simp
  have ok: "bval_ok example_value" by (simp add: example_value_def INT_MAX_def)
  have v: "views example_value = [VDict, VStr ''a'', VList, VInt (-7), VStr ''xy'', VEnd, VEnd]"
    by (simp add: example_value_def)
  have "length (bencode example_value) = 15" unfolding e by simp
  with bencoding_round_trip [OF ok refl] v have
    "map (token_view (bencode example_value)) (delivered (scan_bencoding_token (bencode example_value) 15)
       (init_scanner (scan_bencoding_token (bencode example_value) 15) 15))
     = [VDict, VStr ''a'', VList, VInt (-7), VStr ''xy'', VEnd, VEnd]" by metis
  with e show ?thesis by blast
qed

text \<open>
  C30: The token table with its lookahead refines a plain list of tokens: for any input, after any
  number of calls of \<open>get_next_scanner_token\<close> the current token is the next one of the list (the
  tokens of the whole input, without the last if the reader asked to stop), and the assertion on
  the table holds.
\<close>
theorem bencoding_scanner_refines:
  "get_scanner_token (((\<lambda>sc. snd (get_next_scanner_token (scan_bencoding_token mem fin) sc)) ^^ n)
       (init_scanner (scan_bencoding_token mem fin) fin))
     = (case drop n (cut_stopped (benc_stream mem fin 0)) of [] \<Rightarrow> None | t # ts \<Rightarrow> Some t)
   \<and> check_scanner (((\<lambda>sc. snd (get_next_scanner_token (scan_bencoding_token mem fin) sc)) ^^ n)
       (init_scanner (scan_bencoding_token mem fin) fin))"
proof -
  let ?r = "scan_bencoding_token mem fin"
  let ?sc = "\<lambda>n. ((\<lambda>sc. snd (get_next_scanner_token ?r sc)) ^^ n) (init_scanner ?r fin)"
  have "scanner_ok (?sc n) \<and> send (?sc n) = fin \<and> check_scanner (?sc n)
      \<and> delivered ?r (?sc n) = drop n (cut_stopped (benc_stream mem fin 0))"
  proof (induction n)
    case 0
    then show ?case using benc.init_delivered [of mem fin] by (simp add: scanner_ok_check)
  next
    case (Suc n)
    obtain r sc' where g: "get_next_scanner_token ?r (?sc n) = (r, sc')" by fastforce
    show ?case using benc.next_delivered [OF _ _ g] Suc g by (simp add: tl_drop drop_Suc scanner_ok_check)
  qed
  then show ?thesis using benc.get_delivered [of "?sc n" mem fin] by auto
qed

text \<open>
  When the reader asks to stop, the scanner also forgets the last valid token: a metainfo file with a
  newline at its end loses the token that closes it.
\<close>
lemma stop_drops_token:
  "map ttype (delivered (scan_bencoding_token ''i5e'' 3) (init_scanner (scan_bencoding_token ''i5e'' 3) 3)) = [BENCODING_TOKEN_INTEGER]"
  "delivered (scan_bencoding_token (''i5e'' @ [LF]) 4) (init_scanner (scan_bencoding_token (''i5e'' @ [LF]) 4) 4) = []"
  by code_simp+

end
