(* ===== verification/Bencoding_Paths.thy ===== *)
theory Bencoding_Paths
  imports Bencoding_Scan Uri_Edge_Cases
begin

text \<open>
  The names of the files of a torrent come from its author. \<open>normalize_bencoding_path\<close> runs them through
  the URI normalisation to keep them below the download directory. Here it is computed on the segments
  of the path, and the one gap, the characters at which a URI path ends, is shown.
\<close>






subsection \<open>Through the URI normalisation\<close>



lemma parse_fragment_post_same [simp]:
  "protocol (parse_fragment_post u n) = protocol u" "protocollen (parse_fragment_post u n) = protocollen u"
  "hostlen (parse_fragment_post u n) = hostlen u"
  by (simp_all add: parse_fragment_post_def Let_def)










text \<open>
  The gap: for the URI parser the path ends at a number sign, so what follows it is copied as it is.
  The name leaves the directory and is not reported.
\<close>
lemma torrent_path_escapes:
  "normalize_bencoding_path (\<lambda>_. False) ''a#/../../../b'' = Some (''a#/../../../b'', False)"
  by code_simp

end
