(* ===== verification/Bencoding_Meta.thy ===== *)
theory Bencoding_Meta
  imports Bencoding_Paths
begin

text \<open>
  What the metainfo parsers of \<open>src/protocol/bittorrent/bencoding.c\<close> guarantee. Every token lies inside
  the buffer; the loops keep an invariant of the metainfo they fill in; the final check turns it into
  the facts the rest of the BitTorrent code relies on.
\<close>

subsection \<open>Tokens lie inside the buffer\<close>

definition token_in :: "string \<Rightarrow> token \<Rightarrow> bool" where
  "token_in mem t \<longleftrightarrow> 0 \<le> tlength t \<and> tstring t + nat (tlength t) \<le> length mem"

abbreviation tokens_in :: "string \<Rightarrow> token list \<Rightarrow> bool" where
  "tokens_in mem ts \<equiv> \<forall>t \<in> set ts. token_in mem t"

lemma char_at_inside: "char_at s i \<noteq> NUL \<Longrightarrow> i < length s"
  by (auto simp: char_at_def split: if_splits)

lemma scan_token_in:
  assumes "scan_bencoding_token mem fin pos = Scan_Token t p" "pos < fin" "fin \<le> length mem"
  shows "token_in mem t"
proof -
  let ?q = "scan_bencoding_integer mem fin (if char_at mem (pos + 1) = CHR ''-'' then pos + 2 else pos + 1)"
  have "pos + 1 \<le> ?q" using scan_bencoding_integer_ge [of "pos + 2" mem fin] scan_bencoding_integer_ge [of "pos + 1" mem fin] by simp
  moreover have "?q < length mem" if "char_at mem ?q = CHR ''e''" using char_at_inside [of mem ?q] that by simp
  ultimately show ?thesis using assms
    by (auto simp: scan_bencoding_token_def benc_token_def Let_def token_in_def split: if_splits)
qed

lemma stream_tokens_in:
  "fin \<le> length mem \<Longrightarrow> tokens_in mem (fst (token_stream (scan_bencoding_token mem fin) fin n pos))"
  by (induction "scan_bencoding_token mem fin" fin n pos rule: token_stream.induct)
     (auto split: scan_result.splits prod.splits dest: scan_token_in)

lemma delivered_tokens_in:
  assumes "fin \<le> length mem"
  shows "tokens_in mem (delivered (scan_bencoding_token mem fin) (init_scanner (scan_bencoding_token mem fin) fin))"
proof -
  have "tokens_in mem (cut_stopped (benc_stream mem fin 0))"
    using stream_tokens_in [OF assms] by (auto simp: cut_stopped_def dest: in_set_butlastD)
  then show ?thesis by (simp add: init_delivers)
qed

lemma length_token_text: "token_in mem t \<Longrightarrow> length (token_text mem t) = nat (tlength t)"
  unfolding token_in_def token_text_def by simp linarith

subsection \<open>The parsers only go forward\<close>

lemma check_entry_set:
  assumes "check_bencoding_dictionary_entry mem ts = (e, ts')"
  shows "set ts' \<subseteq> set ts" "e = Entry k v \<Longrightarrow> v \<in> set ts"
  using assms by (auto simp: check_bencoding_dictionary_entry_def split: list.splits if_splits option.splits)

lemma skip_nested_set: "set (skip_nested n ts) \<subseteq> set ts"
  by (induction n ts rule: skip_nested.induct) (auto simp: Let_def)

lemma skip_tokens_set: "set (skip_bencoding_tokens ts) \<subseteq> set ts"
  by (simp add: skip_bencoding_tokens_def skip_nested_set)

lemma file_path_set: "file_path_loop mem ts path = (st, ts', p) \<Longrightarrow> set ts' \<subseteq> set ts"
  by (induction mem ts path rule: file_path_loop.induct) (auto split: if_splits)

lemma tl_set: "set (tl ts) \<subseteq> set ts"
  by (cases ts) auto

lemma parse_file_path_set: "parse_bencoding_file_path mem ts path = (st, ts', p) \<Longrightarrow> set ts' \<subseteq> set ts"
  using file_path_set [of mem "tl ts" path st ts' p] tl_set [of ts] by (auto simp: parse_bencoding_file_path_def)

subsection \<open>The invariant\<close>

definition file_sound :: "(string \<Rightarrow> bool) \<Rightarrow> bool \<Rightarrow> bittorrent_file \<Rightarrow> bool" where
  "file_sound up flag f \<longleftrightarrow> selected f \<and> length (md5sum f) \<in> {0, 32}
     \<and> (\<exists>path mal. normalize_bencoding_path up path = Some (fname f, mal) \<and> (mal \<longrightarrow> flag))"

definition meta_sound :: "(string \<Rightarrow> bool) \<Rightarrow> bittorrent_meta \<Rightarrow> bool" where
  "meta_sound up m \<longleftrightarrow> list_all (file_sound up (malicious_paths m)) (mfiles m)
     \<and> (\<forall>h. piece_hash m = Some h \<longrightarrow> length h = 20 * pieces m)
     \<and> 0 \<le> piece_length m \<and> piece_length m < INT_MAX
     \<and> list_all (is_uri up) (tracker_uris m)"

lemma file_sound_mono: "file_sound up flag f \<Longrightarrow> (flag \<longrightarrow> flag') \<Longrightarrow> file_sound up flag' f"
  by (auto simp: file_sound_def)

lemma files_sound_mono: "list_all (file_sound up flag) fs \<Longrightarrow> (flag \<longrightarrow> flag') \<Longrightarrow> list_all (file_sound up flag') fs"
  by (auto simp: list_all_iff intro: file_sound_mono)

lemma add_file_sound:
  assumes "add_bittorrent_file up m path f = (st, m')" "meta_sound up m" "length (md5sum f) \<in> {0, 32}"
  shows "meta_sound up m'"
proof (cases "normalize_bencoding_path up (cut_NUL path)")
  case None
  then show ?thesis using assms by (simp add: add_bittorrent_file_def)
next
  case (Some r)
  obtain p mal where r: "r = (p, mal)" by fastforce
  have m': "m' = m\<lparr>malicious_paths := (mal \<or> malicious_paths m), mfiles := mfiles m @ [f\<lparr>fname := p, selected := True\<rparr>]\<rparr>"
    using assms(1) Some r by (simp add: add_bittorrent_file_def)
  have "file_sound up (mal \<or> malicious_paths m) (f\<lparr>fname := p, selected := True\<rparr>)"
    using Some r assms(3) by (auto simp: file_sound_def)
  then show ?thesis using assms(2) files_sound_mono [of up "malicious_paths m" "mfiles m" "mal \<or> malicious_paths m"]
    unfolding m' meta_sound_def by simp
qed

lemma file_dictionary_sound:
  "file_dictionary_loop mem up ts m f path = (st, m', ts') \<Longrightarrow> tokens_in mem ts \<Longrightarrow> meta_sound up m
   \<Longrightarrow> length (md5sum f) \<in> {0, 32} \<Longrightarrow> meta_sound up m' \<and> set ts' \<subseteq> set ts"
proof (induction "length ts" arbitrary: ts m f path rule: less_induct)
  case less
  note unfold = less.prems(1) [unfolded file_dictionary_loop.simps [of mem up ts]]
  show ?case
  proof (cases "ts = []")
    case True
    then show ?thesis using unfold less.prems(3) by simp
  next
    case False
    obtain e ts1 where c: "check_bencoding_dictionary_entry mem ts = (e, ts1)" by fastforce
    note s1 = check_entry_set [OF c]
    have ih: "meta_sound up m' \<and> set ts' \<subseteq> set ts"
      if "file_dictionary_loop mem up us m g q = (st, m', ts')" "length us < length ts" "set us \<subseteq> set ts" "length (md5sum g) \<in> {0, 32}"
      for us g q
      using less.hyps [OF that(2,1) _ less.prems(3) that(4)] that(3) less.prems(2) by blast
    have sk: "length (skip_bencoding_tokens ts1) < length ts" "length (tl ts1) < length ts" if "e \<noteq> Entry_Error"
      using skip_entry_length [OF c [symmetric] False that] by auto
    have sets: "set (skip_bencoding_tokens ts1) \<subseteq> set ts" "set (tl ts1) \<subseteq> set ts"
      using skip_tokens_set [of ts1] tl_set [of ts1] s1(1) by blast+
    show ?thesis
    proof (cases e)
      case (Entry k v)
      have ts: "ts1 \<noteq> []" "e \<noteq> Entry_Error" using Entry check_entry_length [OF c] by auto
      have v: "token_in mem v" using s1(2) [OF Entry] less.prems(2) by blast
      obtain st2 ts2 p2 where fp: "parse_bencoding_file_path mem ts1 path = (st2, ts2, p2)" by (metis prod_cases3)
      have l2: "length (tl ts2) < length ts" "set ts2 \<subseteq> set ts" "set (tl ts2) \<subseteq> set ts"
        using parse_file_path_length [OF fp] entry_length [of k v ts1 mem ts] c Entry parse_file_path_set [OF fp] s1(1) tl_set [of ts2]
        by auto
      consider (path) "k = KEY_PATH" | (len) "k = KEY_LENGTH" | (md5) "k = KEY_MD5SUM" | (other) "k \<notin> {KEY_PATH, KEY_LENGTH, KEY_MD5SUM}"
        by blast
      then show ?thesis
      proof cases
        case path
        then show ?thesis using unfold False c Entry fp l2 ih [of "tl ts2" f p2] less.prems(3,4) by (simp split: if_splits)
      next
        case len
        then show ?thesis using unfold False c Entry ih [of "tl ts1" "f\<lparr>blength := parse_bencoding_integer mem v\<rparr>" path] sk ts sets less.prems(4)
          by simp
      next
        case md5
        then show ?thesis using unfold False c Entry ih [of "tl ts1" "f\<lparr>md5sum := token_text mem v\<rparr>" path] sk ts sets less.prems(3)
          length_token_text [OF v] s1(1) by (simp split: if_splits)
      next
        case other
        then show ?thesis using unfold False c Entry ih [of "skip_bencoding_tokens ts1" f path] sk ts sets less.prems(4) by simp
      qed
    next
      case Entry_End
      obtain st2 m2 where a: "add_bittorrent_file up m path f = (st2, m2)" by fastforce
      then show ?thesis using unfold False c Entry_End add_file_sound [OF a less.prems(3,4)] sets by auto
    qed (use unfold False c sk ih [of "skip_bencoding_tokens ts1" f path] sets s1 less.prems(3,4) in simp_all)
  qed
qed

lemma parse_file_dictionary_sound:
  assumes "parse_bencoding_file_dictionary mem up m ts = (st, m', ts')" "tokens_in mem ts" "meta_sound up m"
  shows "meta_sound up m' \<and> set ts' \<subseteq> set ts"
  using file_dictionary_sound [of mem up "tl ts" m empty_file "[]" st m' ts'] assms tl_set [of ts]
  by (auto simp: parse_bencoding_file_dictionary_def empty_file_def)

lemma files_list_sound:
  "files_list_loop mem up ts m = (st, m', ts') \<Longrightarrow> tokens_in mem ts \<Longrightarrow> meta_sound up m \<Longrightarrow>
   meta_sound up m' \<and> set ts' \<subseteq> set ts"
proof (induction mem up ts m rule: files_list_loop.induct)
  case (2 mem up t ts m)
  obtain st2 m2 ts2 where f: "parse_bencoding_file_dictionary mem up m (t # ts) = (st2, m2, ts2)" by (metis prod_cases3)
  note s = parse_file_dictionary_sound [OF f 2(3,4)]
  consider (fin) "ttype t = BENCODING_TOKEN_END" | (type) "ttype t \<noteq> BENCODING_TOKEN_END" "ttype t \<noteq> BENCODING_TOKEN_DICTIONARY"
    | (bad) "ttype t = BENCODING_TOKEN_DICTIONARY" "st2 \<noteq> BITTORRENT_STATE_OK"
    | (step) "ttype t = BENCODING_TOKEN_DICTIONARY" "st2 = BITTORRENT_STATE_OK" by blast
  then show ?case
  proof cases
    case step
    then have l: "files_list_loop mem up ts2 m2 = (st, m', ts')" using 2(2) f by simp
    have "meta_sound up m' \<and> set ts' \<subseteq> set ts2"
      using 2(1) [OF _ _ f [symmetric] refl _ l] step s 2(3) by auto
    then show ?thesis using s by blast
  qed (use 2(2,4) f s in auto)
qed simp

lemma parse_files_list_sound:
  assumes "parse_bencoding_files_list mem up m ts = (st, m', ts')" "tokens_in mem ts" "meta_sound up m"
  shows "meta_sound up m' \<and> set ts' \<subseteq> set ts"
  using files_list_sound [of mem up "tl ts" m st m' ts'] assms tl_set [of ts] by (auto simp: parse_bencoding_files_list_def)

text \<open>The assignments of the info dictionary.\<close>

lemma meta_sound_simps [simp]:
  "meta_sound up (m\<lparr>mname := nm\<rparr>) = meta_sound up m"
  "meta_sound up (m\<lparr>multi_file := b\<rparr>) = meta_sound up m"
  "meta_sound up (m\<lparr>info_hash := h\<rparr>) = meta_sound up m"
  "meta_sound up (m\<lparr>comment_of := cm\<rparr>) = meta_sound up m"
  "meta_sound up (m\<lparr>creation_date := d\<rparr>) = meta_sound up m"
  by (simp_all add: meta_sound_def)

lemma meta_sound_intros:
  "meta_sound up m \<Longrightarrow> meta_sound up (m\<lparr>mname := nm, malicious_paths := (mal \<or> malicious_paths m)\<rparr>)"
  "meta_sound up m \<Longrightarrow> 0 \<le> len \<Longrightarrow> len < INT_MAX \<Longrightarrow> meta_sound up (m\<lparr>piece_length := len\<rparr>)"
  "meta_sound up m \<Longrightarrow> token_in mem v \<Longrightarrow> tlength v mod 20 = 0 \<Longrightarrow>
     meta_sound up (m\<lparr>pieces := nat (tlength v) div 20, piece_hash := Some (token_text mem v)\<rparr>)"
  "meta_sound up m \<Longrightarrow> is_uri up u \<Longrightarrow> meta_sound up (m\<lparr>tracker_uris := tracker_uris m @ [u]\<rparr>)"
proof -
  show "meta_sound up m \<Longrightarrow> meta_sound up (m\<lparr>mname := nm, malicious_paths := (mal \<or> malicious_paths m)\<rparr>)"
    using files_sound_mono [of up "malicious_paths m" "mfiles m" "mal \<or> malicious_paths m"] by (simp add: meta_sound_def)
  assume v: "token_in mem v" "tlength v mod 20 = 0"
  then have "nat (tlength v) mod 20 = 0" using nat_mod_distrib [of "tlength v" 20] by (simp add: token_in_def)
  then show "meta_sound up m \<Longrightarrow> meta_sound up (m\<lparr>pieces := nat (tlength v) div 20, piece_hash := Some (token_text mem v)\<rparr>)"
    using length_token_text [OF v(1)] by (auto simp: meta_sound_def)
qed (simp_all add: meta_sound_def)

lemma info_dictionary_sound:
  "info_dictionary_loop mem up ts m f = (st, m', ts') \<Longrightarrow> tokens_in mem ts \<Longrightarrow> meta_sound up m
   \<Longrightarrow> length (md5sum f) \<in> {0, 32} \<Longrightarrow> meta_sound up m' \<and> set ts' \<subseteq> set ts"
proof (induction "length ts" arbitrary: ts m f rule: less_induct)
  case less
  note unfold = less.prems(1) [unfolded info_dictionary_loop.simps [of mem up ts]]
  show ?case
  proof (cases "ts = []")
    case True
    then show ?thesis using unfold less.prems(3) by simp
  next
    case False
    obtain e ts1 where c: "check_bencoding_dictionary_entry mem ts = (e, ts1)" by fastforce
    note s1 = check_entry_set [OF c]
    have ih: "meta_sound up m' \<and> set ts' \<subseteq> set ts"
      if "info_dictionary_loop mem up us n g = (st, m', ts')" "length us < length ts" "set us \<subseteq> set ts"
        "meta_sound up n" "length (md5sum g) \<in> {0, 32}" for us n g
      using less.hyps [OF that(2,1) _ that(4,5)] that(3) less.prems(2) by blast
    have sk: "length (skip_bencoding_tokens ts1) < length ts" "length (tl ts1) < length ts" if "e \<noteq> Entry_Error"
      using skip_entry_length [OF c [symmetric] False that] by auto
    have sets: "set (skip_bencoding_tokens ts1) \<subseteq> set ts" "set (tl ts1) \<subseteq> set ts"
      using skip_tokens_set [of ts1] tl_set [of ts1] s1(1) by blast+
    show ?thesis
    proof (cases e)
      case (Entry k v)
      have ne: "e \<noteq> Entry_Error" using Entry by simp
      have v: "token_in mem v" using s1(2) [OF Entry] less.prems(2) by blast
      note env = False c Entry s1(1) less.prems(3)
      note next_ih = ih [of "tl ts1", OF _ sk(2) [OF ne] sets(2)]
      consider (name) "k = KEY_NAME" | (pieces) "k = KEY_PIECES" | (plen) "k = KEY_PIECE_LENGTH" | (files) "k = KEY_FILES"
        | (len) "k = KEY_LENGTH" | (md5) "k = KEY_MD5SUM"
        | (other) "k \<notin> {KEY_NAME, KEY_PIECES, KEY_PIECE_LENGTH, KEY_FILES, KEY_LENGTH, KEY_MD5SUM}" by blast
      then show ?thesis
      proof cases
        case name
        show ?thesis
        proof (cases "normalize_bencoding_path up (token_text mem v)")
          case None
          then show ?thesis using unfold env name meta_sound_simps(1) by auto
        next
          case (Some r)
          obtain nm mal where r: "r = (nm, mal)" by fastforce
          show ?thesis using unfold env name Some r
              next_ih [OF _ meta_sound_intros(1) [OF less.prems(3), of mal "Some nm"] less.prems(4)] by simp
        qed
      next
        case pieces
        then show ?thesis using unfold env next_ih [OF _ meta_sound_intros(3) [OF less.prems(3) v] less.prems(4)]
          by (auto split: if_splits)
      next
        case plen
        then show ?thesis
          using unfold env next_ih [OF _ meta_sound_intros(2) [OF less.prems(3), of "parse_bencoding_integer mem v"] less.prems(4)]
          by (auto simp: Let_def split: if_splits)
      next
        case files
        obtain st2 m2 ts2 where fl: "parse_bencoding_files_list mem up (m\<lparr>multi_file := True\<rparr>) ts1 = (st2, m2, ts2)"
          by (metis prod_cases3)
        have p: "meta_sound up m2" "set ts2 \<subseteq> set ts"
          using parse_files_list_sound [OF fl] s1(1) less.prems(2,3) by auto
        have "length ts2 < length ts"
          using parse_files_list_length [OF fl [symmetric]] entry_length [of k v ts1 mem ts] c Entry by auto
        then show ?thesis using unfold env files fl p ih [OF _ _ p(2,1) less.prems(4)] by (auto split: if_splits)
      next
        case len
        then show ?thesis using unfold env next_ih [OF _ less.prems(3), of "f\<lparr>blength := parse_bencoding_integer mem v\<rparr>"] less.prems(4)
          by simp
      next
        case md5
        then show ?thesis using unfold env next_ih [OF _ less.prems(3), of "f\<lparr>md5sum := token_text mem v\<rparr>"] length_token_text [OF v]
          by (auto split: if_splits)
      next
        case other
        then show ?thesis using unfold env ih [OF _ sk(1) [OF ne] sets(1) less.prems(3,4)] by simp
      qed
    next
      case Entry_End
      show ?thesis
      proof (cases "multi_file m \<or> mname m = None")
        case True
        then show ?thesis using unfold False c Entry_End s1(1) less.prems(3) by (auto split: if_splits)
      next
        case F: False
        then obtain nm where nm: "mname m = Some nm" by auto
        obtain st2 m2 where a: "add_bittorrent_file up m nm f = (st2, m2)" by fastforce
        then show ?thesis using unfold False c Entry_End F nm add_file_sound [OF a less.prems(3,4)] s1(1) by auto
      qed
    qed (use unfold False c sk ih [of "skip_bencoding_tokens ts1" m f] sets s1 less.prems(3,4) in simp_all)
  qed
qed

lemma parse_info_dictionary_sound:
  assumes "parse_bencoding_info_dictionary mem up m ts = (st, m', ts')" "tokens_in mem ts" "meta_sound up m"
  shows "meta_sound up m' \<and> set ts' \<subseteq> set ts"
  using info_dictionary_sound [of mem up "tl ts" m empty_file st m' ts'] assms tl_set [of ts]
  by (auto simp: parse_bencoding_info_dictionary_def empty_file_def)

subsection \<open>The final check\<close>

definition metafile_ok :: "(string \<Rightarrow> bool) \<Rightarrow> bittorrent_meta \<Rightarrow> bool" where
  "metafile_ok up m \<longleftrightarrow> meta_sound up m
     \<and> (\<exists>h. piece_hash m = Some h \<and> length h = 20 * pieces m \<and> 0 < pieces m)
     \<and> 0 < piece_length m \<and> 0 < last_piece_length m \<and> last_piece_length m \<le> piece_length m
     \<and> last_piece_length m mod piece_length m = s64 (sum_list (map blength (mfiles m))) mod piece_length m
     \<and> (\<forall>f \<in> set (mfiles m). 0 \<le> blength f) \<and> mfiles m \<noteq> [] \<and> tracker_uris m \<noteq> []
     \<and> (\<exists>nm. mname m = Some nm \<and> nm \<noteq> []) \<and> info_hash m \<noteq> replicate 20 NUL"

lemma total_length_nonneg: "total_length fs n = Some k \<Longrightarrow> \<forall>f \<in> set fs. 0 \<le> blength f"
  by (induction fs n rule: total_length.induct) (auto split: if_splits)

lemma s64_add: "s64 (s64 a + b) = s64 (a + b)"
proof -
  have "(s64 a + b + 2 ^ 63) mod 2 ^ 64 = ((a + 2 ^ 63) mod 2 ^ 64 + b) mod 2 ^ 64"
    unfolding s64_def by (simp add: algebra_simps del: mod_add_left_eq mod_add_right_eq)
  also have "\<dots> = (a + b + 2 ^ 63) mod 2 ^ 64" by (simp only: mod_add_left_eq) (simp add: add_ac)
  finally show ?thesis by (simp add: s64_def)
qed

lemma total_length_sum: "total_length fs n = Some k \<Longrightarrow> n = s64 n \<Longrightarrow> k = s64 (n + sum_list (map blength fs))"
proof (induction fs n rule: total_length.induct)
  case (2 f fs n)
  have t: "total_length fs (s64 (n + blength f)) = Some k" "\<not> blength f < 0" using 2(2) by (auto split: if_splits)
  have "s64 (n + blength f) = s64 (s64 (n + blength f))" using s64_add [of "n + blength f" 0] by simp
  from 2(1) [OF t(2,1) this] show ?case using s64_add [of "n + blength f" "sum_list (map blength fs)"] by (simp add: add.assoc)
qed simp

lemma smod_negative: "n < 0 \<Longrightarrow> 0 < p \<Longrightarrow> n smod p = - ((- n) mod p)" for n p :: int
  by (simp add: signed_modulo_int_def)

lemma smod_last:
  fixes n p :: int
  assumes "0 < p" "l = (if n smod p = 0 then p else n smod p)" "0 \<le> l"
  shows "0 < l \<and> l \<le> p \<and> l mod p = n mod p"
proof (cases "0 \<le> n")
  case True
  then show ?thesis using assms smod_nonneg [of n p] pos_mod_bound [of p n] pos_mod_sign [of p n] by (auto simp: less_le)
next
  case False
  have le: "0 \<le> (- n) mod p" using assms(1) by simp
  have "(- n) mod p = 0"
  proof (rule ccontr)
    assume "(- n) mod p \<noteq> 0"
    then have "n smod p < 0" using le smod_negative [of n p] assms(1) False by linarith
    then show False using assms(2,3) by simp
  qed
  then have "n mod p = 0" by (metis mod_minus_eq add.inverse_inverse minus_zero mod_0)
  then show ?thesis using assms smod_negative [of n p] False \<open>(- n) mod p = 0\<close> by simp
qed

lemma check_metafile_ok:
  assumes "check_bittorrent_metafile m = (BITTORRENT_STATE_OK, m')" "meta_sound up m"
  shows "metafile_ok up m'"
proof -
  obtain n where n: "total_length (mfiles m) 0 = Some n"
    using assms(1) by (auto simp: check_bittorrent_metafile_def split: if_splits option.splits)
  define l where "l = (if n smod piece_length m = 0 then piece_length m else n smod piece_length m)"
  have c: "info_hash m \<noteq> replicate 20 NUL" "pieces m \<noteq> 0" "mname m \<noteq> None" "deref (the (mname m)) \<noteq> NUL"
    "piece_hash m \<noteq> None" "piece_length m \<noteq> 0" "tracker_uris m \<noteq> []" "mfiles m \<noteq> []"
    "l mod 2 ^ 32 = l" "m' = m\<lparr>last_piece_length := l\<rparr>"
    using assms(1) n unfolding check_bittorrent_metafile_def l_def
    by (auto simp: Let_def split: if_splits option.splits)
  have p: "0 < piece_length m" "piece_length m < INT_MAX" using assms(2) c(6) by (auto simp: meta_sound_def)
  have "0 \<le> l" using c(9) by (metis pos_mod_sign zero_less_numeral zero_less_power)
  note pos = smod_last [OF p(1) l_def this]
  obtain h nm where h: "piece_hash m = Some h" "mname m = Some nm" using c(3,5) by auto
  then have "nm \<noteq> []" using c(4) by auto
  moreover have "n = s64 (sum_list (map blength (mfiles m)))" using total_length_sum [OF n] by (simp add: s64_def)
  ultimately show ?thesis using assms(2) c pos p h total_length_nonneg [OF n]
    unfolding metafile_ok_def c(10) by (auto simp: meta_sound_def)
qed

lemma metafile_loop_ok:
  "metafile_loop sha1 mem up ts m = (BITTORRENT_STATE_OK, m') \<Longrightarrow> tokens_in mem ts \<Longrightarrow> meta_sound up m \<Longrightarrow> metafile_ok up m'"
proof (induction "length ts" arbitrary: ts m rule: less_induct)
  case less
  note unfold = less.prems(1) [unfolded metafile_loop.simps [of sha1 mem up ts]]
  have ne: "ts \<noteq> []" using unfold by auto
  obtain e ts1 where c: "check_bencoding_dictionary_entry mem ts = (e, ts1)" by fastforce
  note s1 = check_entry_set [OF c]
  have ih: "metafile_ok up m'"
    if "metafile_loop sha1 mem up us n = (BITTORRENT_STATE_OK, m')" "length us < length ts" "set us \<subseteq> set ts" "meta_sound up n" for us n
    using less.hyps [OF that(2,1) _ that(4)] that(3) less.prems(2) by blast
  have sk: "length (skip_bencoding_tokens ts1) < length ts" "length (tl ts1) < length ts" if "e \<noteq> Entry_Error"
    using skip_entry_length [OF c [symmetric] ne that] by auto
  have sets: "set (skip_bencoding_tokens ts1) \<subseteq> set ts" "set (tl ts1) \<subseteq> set ts"
    using skip_tokens_set [of ts1] tl_set [of ts1] s1(1) by blast+
  show ?case
  proof (cases e)
    case (Entry k v)
    have e: "e \<noteq> Entry_Error" using Entry by simp
    note env = ne c Entry
    note next_ih = ih [of "tl ts1", OF _ sk(2) [OF e] sets(2)]
    consider (announce) "k = KEY_ANNOUNCE" | (info) "k = KEY_INFO" | (comment) "k = KEY_COMMENT" | (date) "k = KEY_CREATION_DATE"
      | (creator) "k = KEY_CREATED_BY" | (other) "k \<notin> {KEY_ANNOUNCE, KEY_INFO, KEY_COMMENT, KEY_CREATION_DATE, KEY_CREATED_BY}" by blast
    then show ?thesis
    proof cases
      case announce
      let ?s = "cut_NUL (token_text mem v)"
      show ?thesis
      proof (cases "is_uri up ?s")
        case True
        then show ?thesis using unfold env announce next_ih [OF _ meta_sound_intros(4) [OF less.prems(3) True]] by (simp add: Let_def)
      next
        case False
        then show ?thesis using unfold env announce next_ih [OF _ less.prems(3)] by (simp add: Let_def)
      qed
    next
      case info
      obtain st2 m2 ts2 where p: "parse_bencoding_info_dictionary mem up m ts1 = (st2, m2, ts2)" by (metis prod_cases3)
      have ok: "st2 = BITTORRENT_STATE_OK" "ts2 \<noteq> []"
        using unfold env info p by (auto split: if_splits list.splits)
      have s2: "meta_sound up m2" "set ts2 \<subseteq> set ts"
        using parse_info_dictionary_sound [OF p] s1(1) less.prems(2,3) by auto
      have "length (tl ts2) < length ts" "set (tl ts2) \<subseteq> set ts"
        using parse_info_dictionary_length [OF p [symmetric]] entry_length [of k v ts1 mem ts] c Entry tl_set [of ts2] s2 by auto
      then show ?thesis using unfold env info p ok ih [of "tl ts2"] s2(1) by (cases ts2) simp_all
    next
      case comment
      then show ?thesis using unfold env next_ih less.prems(3) by simp
    next
      case date
      then show ?thesis using unfold env next_ih less.prems(3) by simp
    next
      case creator
      then show ?thesis using unfold env next_ih less.prems(3) by simp
    next
      case other
      then show ?thesis using unfold env ih [OF _ sk(1) [OF e] sets(1) less.prems(3)] by simp
    qed
  next
    case Entry_Other
    then show ?thesis using unfold ne c ih [OF _ sk(1) sets(1) less.prems(3)] by simp
  next
    case Entry_End
    then show ?thesis using unfold ne c check_metafile_ok [OF _ less.prems(3)] by simp
  qed (use unfold ne c in simp)
qed

text \<open>
  C32: A metainfo file that the parser accepts is sane: the hash string holds twenty bytes for each
  of its pieces, of which there is one at least; the piece length is positive and below \<open>INT_MAX\<close>,
  the last piece is not empty, not longer than the others, and leaves the same remainder as the total
  length of the files (in 64 bits, with wrap-around); no length is negative; every tracker address parses; checksums have their fixed length;
  and every file name is the outcome of the path normalisation, with the flag for malicious paths
  set when that reported one.
\<close>
theorem parse_bittorrent_metafile_sane:
  assumes "parse_bittorrent_metafile sha1 up mem fin = (BITTORRENT_STATE_OK, m)" "fin \<le> length mem"
  shows "metafile_ok up m"
proof -
  let ?ts = "delivered (scan_bencoding_token mem fin) (init_scanner (scan_bencoding_token mem fin) fin)"
  have "parse_metafile_tokens sha1 mem up ?ts = (BITTORRENT_STATE_OK, m)"
    using assms(1) by (simp add: parse_bittorrent_metafile_def)
  then have "metafile_loop sha1 mem up (tl ?ts) empty_meta = (BITTORRENT_STATE_OK, m)"
    by (auto simp: parse_metafile_tokens_def split: list.splits if_splits)
  moreover have "tokens_in mem (tl ?ts)" using delivered_tokens_in [OF assms(2)] tl_set [of ?ts] by blast
  moreover have "meta_sound up empty_meta" by (simp add: meta_sound_def empty_meta_def INT_MAX_def)
  ultimately show ?thesis by (rule metafile_loop_ok)
qed

definition example_torrent :: bval where
  "example_torrent = BDict
     [(''announce'', BStr ''http://t/''),
      (''info'', BDict
        [(''length'', BInt 6), (''name'', BStr ''../f''), (''piece length'', BInt 64),
         (''pieces'', BStr (replicate 20 (CHR ''h'')))])]"

definition torrent_tokens :: "token list" where
  "torrent_tokens = map (\<lambda>(type, start, len). \<lparr>ttype = type, precedence = 0, tstring = start, tlength = len\<rparr>)
     [(100, 0, 1), (256, 3, 8), (256, 13, 9), (256, 24, 4), (100, 28, 1), (256, 31, 6), (105, 38, 1), (256, 42, 4),
      (256, 48, 4), (256, 55, 12), (105, 68, 2), (256, 73, 6), (256, 82, 20), (101, 102, 1), (101, 103, 1)]"

lemma torrent_scanned:
  "delivered (scan_bencoding_token (bencode example_torrent) 104) (init_scanner (scan_bencoding_token (bencode example_torrent) 104) 104)
     = torrent_tokens"
  by code_simp

lemma torrent_entries:
  "check_bencoding_dictionary_entry (bencode example_torrent) (drop 1 torrent_tokens) = (Entry KEY_ANNOUNCE (torrent_tokens ! 2), drop 2 torrent_tokens)"
  "check_bencoding_dictionary_entry (bencode example_torrent) (drop 3 torrent_tokens) = (Entry KEY_INFO (torrent_tokens ! 4), drop 4 torrent_tokens)"
  "check_bencoding_dictionary_entry (bencode example_torrent) (drop 5 torrent_tokens) = (Entry KEY_LENGTH (torrent_tokens ! 6), drop 6 torrent_tokens)"
  "check_bencoding_dictionary_entry (bencode example_torrent) (drop 7 torrent_tokens) = (Entry KEY_NAME (torrent_tokens ! 8), drop 8 torrent_tokens)"
  "check_bencoding_dictionary_entry (bencode example_torrent) (drop 9 torrent_tokens) = (Entry KEY_PIECE_LENGTH (torrent_tokens ! 10), drop 10 torrent_tokens)"
  "check_bencoding_dictionary_entry (bencode example_torrent) (drop 11 torrent_tokens) = (Entry KEY_PIECES (torrent_tokens ! 12), drop 12 torrent_tokens)"
  "check_bencoding_dictionary_entry (bencode example_torrent) (drop 13 torrent_tokens) = (Entry_End, drop 13 torrent_tokens)"
  "check_bencoding_dictionary_entry (bencode example_torrent) (drop 14 torrent_tokens) = (Entry_End, drop 14 torrent_tokens)"
  by code_simp+

lemma torrent_values:
  "cut_NUL (token_text (bencode example_torrent) (torrent_tokens ! 2)) = ''http://t/''"
  "is_uri (\<lambda>_. False) ''http://t/''"
  "parse_bencoding_integer (bencode example_torrent) (torrent_tokens ! 6) = 6"
  "normalize_bencoding_path (\<lambda>_. False) (token_text (bencode example_torrent) (torrent_tokens ! 8)) = Some (''f'', True)"
  "normalize_bencoding_path (\<lambda>_. False) (cut_NUL ''f'') = Some (''f'', False)"
  "parse_bencoding_integer (bencode example_torrent) (torrent_tokens ! 10) = 64"
  "tlength (torrent_tokens ! 12) = 20" "6 smod 64 = (6 :: int)" "s64 6 = 6"
  by code_simp+

lemma torrent_drops:
  "length torrent_tokens = 15" "tl (drop i torrent_tokens) = drop (i + 1) torrent_tokens"
  "(case torrent_tokens of [] \<Rightarrow> a | t # u \<Rightarrow> g t u) = g (torrent_tokens ! 0) (drop 1 torrent_tokens)" "tl torrent_tokens = drop 1 torrent_tokens" "ttype (torrent_tokens ! 0) = BENCODING_TOKEN_DICTIONARY"
  "drop 13 torrent_tokens = torrent_tokens ! 13 # drop 14 torrent_tokens"
  by (simp_all add: torrent_tokens_def drop_Suc [symmetric] tl_drop)

theorem parse_bittorrent_metafile_sane_witness:
  "\<exists>m. parse_bittorrent_metafile (\<lambda>_. replicate 20 (CHR ''x'')) (\<lambda>_. False) (bencode example_torrent) 104
      = (BITTORRENT_STATE_OK, m)
    \<and> metafile_ok (\<lambda>_. False) m \<and> last_piece_length m = 6 \<and> malicious_paths m
    \<and> map fname (mfiles m) = [''f'']"
proof -
  let ?mem = "bencode example_torrent"
  let ?r = "parse_bittorrent_metafile (\<lambda>_. replicate 20 (CHR ''x'')) (\<lambda>_. False) ?mem 104"
  let ?f = "empty_file\<lparr>blength := 6, fname := ''f'', selected := True\<rparr>"
  let ?m = "empty_meta\<lparr>tracker_uris := [''http://t/''], mname := Some ''f'', piece_length := 64, pieces := 1,
      piece_hash := Some (token_text ?mem (torrent_tokens ! 12)), malicious_paths := True, mfiles := [?f]\<rparr>"
  have "parse_bencoding_info_dictionary ?mem (\<lambda>_. False) (empty_meta\<lparr>tracker_uris := [''http://t/'']\<rparr>) (drop 4 torrent_tokens)
      = (BITTORRENT_STATE_OK, ?m, drop 13 torrent_tokens)"
    by (simp add: parse_bencoding_info_dictionary_def info_dictionary_loop.simps torrent_drops(1,2) torrent_entries
        torrent_values add_bittorrent_file_def empty_meta_def empty_file_def INT_MAX_def Let_def)
  then have r: "?r = (BITTORRENT_STATE_OK, ?m\<lparr>info_hash := replicate 20 (CHR ''x''), last_piece_length := 6\<rparr>)"
    unfolding parse_bittorrent_metafile_def torrent_scanned parse_metafile_tokens_def torrent_drops(3,4)
    by (simp add: metafile_loop.simps torrent_drops(1,2,5,6) torrent_entries torrent_entries(1) [unfolded One_nat_def] torrent_values check_bittorrent_metafile_def
        empty_meta_def empty_file_def Let_def)
  have "length ?mem = 104" by code_simp
  then have "metafile_ok (\<lambda>_. False) (?m\<lparr>info_hash := replicate 20 (CHR ''x''), last_piece_length := 6\<rparr>)"
    using parse_bittorrent_metafile_sane [OF r] by simp
  with r show ?thesis by (intro exI) auto
qed

end
