(* ===== verification/History.thy ===== *)
theory History
  imports Prelude
begin

text \<open>
  \<open>src/session/history.c\<close>: the list of visited locations with the current one as a pointer into it, how
  pages are added and removed, and going back and forward. Also the part of \<open>ses_forward\<close>
  (\<open>src/session/task.c\<close>) that changes the history. A location is its address; the list holds the
  locations in the order of the ring without the list head, so the head as a neighbour is \<open>None\<close>.

  The abstract view of a history is a zipper: the pages behind, the current one, the pages ahead.
\<close>

type_synonym location = nat

record ses_history =
  visited :: "location list"
  at_loc :: "location option"

subsection \<open>The list primitives of \<open>src/util/lists.h\<close>\<close>

definition list_next :: "location list \<Rightarrow> location \<Rightarrow> location option" where
  "list_next l p = (case dropWhile (\<lambda>q. q \<noteq> p) l of _ # q # _ \<Rightarrow> Some q | _ \<Rightarrow> None)"

definition list_prev :: "location list \<Rightarrow> location \<Rightarrow> location option" where
  "list_prev l p = list_next (rev l) p"

definition add_at_pos :: "location list \<Rightarrow> location \<Rightarrow> location \<Rightarrow> location list" where
  "add_at_pos l p x = takeWhile (\<lambda>q. q \<noteq> p) l @ p # x # tl (dropWhile (\<lambda>q. q \<noteq> p) l)"

subsection \<open>Operations\<close>

definition create_history :: ses_history where
  "create_history = \<lparr>visited = [], at_loc = None\<rparr>"

fun free_history :: "location list \<Rightarrow> location list" where
  "free_history [] = []"
| "free_history (loc # l) = free_history l"

definition destroy_history :: "ses_history \<Rightarrow> ses_history" where
  "destroy_history h = h\<lparr>visited := free_history (visited h), at_loc := None\<rparr>"

lemma list_next_in: "list_next l p = Some q \<Longrightarrow> q \<in> set l"
  unfolding list_next_def
  by (auto split: list.splits) (metis list.set_intros(1) list.set_intros(2) set_dropWhileD)

function clean_loop :: "location list \<Rightarrow> location \<Rightarrow> location list" where
  "clean_loop l c = (case list_next l c of None \<Rightarrow> l | Some loc \<Rightarrow> clean_loop (remove1 loc l) c)"
  by pat_completeness auto
termination
  by (relation "measure (\<lambda>(l, c). length l)")
     (auto dest!: list_next_in simp: length_remove1 Suc_le_eq length_pos_if_in_set intro: diff_less)

declare clean_loop.simps [simp del]

definition clean_unhistory :: "ses_history \<Rightarrow> ses_history" where
  "clean_unhistory h =
     (case at_loc h of None \<Rightarrow> h | Some c \<Rightarrow> h\<lparr>visited := clean_loop (visited h) c\<rparr>)"

definition add_to_history :: "ses_history \<Rightarrow> location \<Rightarrow> ses_history" where
  "add_to_history h loc =
     (case at_loc h of
        None \<Rightarrow> h\<lparr>visited := loc # visited h, at_loc := Some loc\<rparr>
      | Some c \<Rightarrow> h\<lparr>visited := add_at_pos (visited h) c loc, at_loc := Some loc\<rparr>)"

definition del_from_history :: "ses_history \<Rightarrow> location \<Rightarrow> ses_history" where
  "del_from_history h loc =
     (let cur = (if at_loc h = Some loc
                 then (case list_prev (visited h) loc of Some p \<Rightarrow> Some p | None \<Rightarrow> list_next (visited h) loc)
                 else at_loc h)
      in h\<lparr>visited := remove1 loc (visited h), at_loc := cur\<rparr>)"

subsection \<open>Moving\<close>

fun forward_loop :: "location list \<Rightarrow> nat \<Rightarrow> location \<Rightarrow> location" where
  "forward_loop l 0 loc = loc"
| "forward_loop l (Suc n) loc = (case list_next l loc of None \<Rightarrow> loc | Some q \<Rightarrow> forward_loop l n q)"

text \<open>The loop backwards; the second result is the counter when the loop is left.\<close>

fun back_loop :: "location list \<Rightarrow> nat \<Rightarrow> location \<Rightarrow> location \<times> int" where
  "back_loop l 0 loc = (loc, 1)"
| "back_loop l (Suc n) loc = (case list_prev l loc of None \<Rightarrow> (loc, - int n) | Some q \<Rightarrow> back_loop l n q)"

text \<open>The result of \<open>go_history_by_n\<close> and the location that \<open>go_history\<close> is called with.\<close>

definition go_history_by_n :: "ses_history \<Rightarrow> int \<Rightarrow> int \<times> location option" where
  "go_history_by_n h n =
     (case at_loc h of
        None \<Rightarrow> (-1, None)
      | Some loc \<Rightarrow>
          if n > 0 then (0, Some (forward_loop (visited h) (nat n) loc))
          else (case back_loop (visited h) (nat (- n)) loc of (loc', n') \<Rightarrow>
                  if n' = 0 \<and> list_prev (visited h) loc' = None then (-1, None) else (0, Some loc')))"

definition go_back :: "ses_history \<Rightarrow> int \<times> location option" where
  "go_back h = go_history_by_n h (-1)"

definition go_unback :: "ses_history \<Rightarrow> int \<times> location option" where
  "go_unback h = go_history_by_n h 1"

subsection \<open>The tasks of a session\<close>

datatype task_type = TASK_NONE | TASK_FORWARD | TASK_IMGMAP | TASK_RELOAD | TASK_HISTORY

text \<open>The part of the session that these functions use. \<open>NULL\<close> as the target of a task is \<open>None\<close>.\<close>

record session =
  history :: ses_history
  task :: task_type
  target :: "location option"
  target_frame :: string
  loading_uri :: string
  loc_uri :: "location \<Rightarrow> string"
  keep_unhistory :: bool

datatype go_action = Abort_And_Reload | No_Action | Goto location string

definition go_history :: "session \<Rightarrow> location \<Rightarrow> go_action" where
  "go_history ses loc =
     (if task ses \<noteq> TASK_NONE then Abort_And_Reload
      else if at_loc (history ses) = None then No_Action
      else Goto loc (loc_uri ses loc))"

text \<open>
  \<open>ses_forward\<close>: \<open>new\<close> is the address of the fresh location and \<open>new2\<close> that of the second one, when
  the frame of the task is not found; \<open>found\<close> says whether \<open>ses_find_frame\<close> or \<open>ses_find_iframe\<close>
  finds it. \<open>None\<close> is the NULL result.
\<close>

definition add_location :: "session \<Rightarrow> location \<Rightarrow> string \<Rightarrow> session" where
  "add_location ses new uri =
     ses\<lparr>history := add_to_history (history ses) new, loc_uri := (loc_uri ses)(new := uri)\<rparr>"

definition ses_forward :: "session \<Rightarrow> bool \<Rightarrow> bool \<Rightarrow> location \<Rightarrow> location \<Rightarrow> session option" where
  "ses_forward ses loaded_in_frame found new new2 =
     (let plain = (\<lambda>s x. if loaded_in_frame then None else Some (add_location s x (loading_uri s)));
          done = (if target_frame ses \<noteq> [] then
                    (case at_loc (history ses) of
                       None \<Rightarrow> None
                     | Some c \<Rightarrow>
                         let s = (if loaded_in_frame then ses else add_location ses new (loc_uri ses c))
                         in if found then Some s
                            else plain ((if loaded_in_frame then s
                                         else s\<lparr>history := del_from_history (history s) new\<rparr>)\<lparr>target_frame := []\<rparr>) new2)
                  else plain ses new)
      in case done of
           None \<Rightarrow> None
         | Some s \<Rightarrow> Some (if task s = TASK_FORWARD then s\<lparr>history := clean_unhistory (history s)\<rparr> else s))"

text \<open>\<open>ses_history_move\<close>; a failed allocation in \<open>ses_forward\<close> is not modelled.\<close>

definition ses_history_move :: "session \<Rightarrow> bool \<Rightarrow> location \<Rightarrow> location \<Rightarrow> session" where
  "ses_history_move ses found new new2 =
     (if at_loc (history ses) = None \<or> target ses = None then ses
      else
        let loc = the (target ses);
            s = ses\<lparr>history := (history ses)\<lparr>at_loc := Some loc\<rparr>\<rparr>
        in if loc_uri s loc = loading_uri s then s
           else
             let s1 = s\<lparr>history := del_from_history (history s) loc\<rparr>;
                 s2 = (case ses_forward s1 False found new new2 of Some s2 \<Rightarrow> s2 | None \<Rightarrow> s1)
             in if keep_unhistory s2 then s2\<lparr>history := clean_unhistory (history s2)\<rparr> else s2)"

subsection \<open>The zipper\<close>

definition hzip :: "location list \<Rightarrow> location \<Rightarrow> location list \<Rightarrow> ses_history" where
  "hzip behind c ahead = \<lparr>visited = behind @ c # ahead, at_loc = Some c\<rparr>"

lemma hzip_sel [simp]: "visited (hzip b c a) = b @ c # a" "at_loc (hzip b c a) = Some c"
  by (simp_all add: hzip_def)

lemma upto_current:
  assumes "c \<notin> set b"
  shows "dropWhile (\<lambda>q. q \<noteq> c) (b @ c # a) = c # a" "takeWhile (\<lambda>q. q \<noteq> c) (b @ c # a) = b"
  using assms by (induction b) auto

lemma list_next_zip: "c \<notin> set b \<Longrightarrow> list_next (b @ c # a) c = (case a of [] \<Rightarrow> None | q # _ \<Rightarrow> Some q)"
  by (simp add: list_next_def upto_current split: list.splits)

lemma list_prev_zip:
  assumes "c \<notin> set a"
  shows "list_prev (b @ c # a) c = (if b = [] then None else Some (last b))"
  using assms list_next_zip [of c "rev a" "rev b"] by (cases b rule: rev_cases) (simp_all add: list_prev_def)

lemma clean_loop_zip: "distinct (b @ c # a) \<Longrightarrow> clean_loop (b @ c # a) c = b @ [c]"
proof (induction a)
  case Nil
  then show ?case by (subst clean_loop.simps) (simp add: list_next_zip)
next
  case (Cons q a)
  then have "remove1 q (b @ c # q # a) = b @ c # a" by (simp add: remove1_append)
  with Cons show ?case by (subst clean_loop.simps) (simp add: list_next_zip)
qed

lemma clean_zip: "distinct (b @ c # a) \<Longrightarrow> clean_unhistory (hzip b c a) = hzip b c []"
  by (simp add: clean_unhistory_def clean_loop_zip hzip_def)

lemma add_zip: "c \<notin> set b \<Longrightarrow> add_to_history (hzip b c a) x = hzip (b @ [c]) x a"
  by (simp add: add_to_history_def add_at_pos_def upto_current hzip_def)

lemma add_create: "add_to_history create_history x = hzip [] x []"
  by (simp add: add_to_history_def create_history_def hzip_def)

text \<open>Deleting the current location goes to the one before it, else to the one after it.\<close>

definition del_current :: "location list \<Rightarrow> location list \<Rightarrow> ses_history" where
  "del_current b a =
     (case rev b of
        p # b' \<Rightarrow> hzip (rev b') p a
      | [] \<Rightarrow> (case a of q # a' \<Rightarrow> hzip [] q a' | [] \<Rightarrow> create_history))"

lemma del_current_zip:
  assumes "distinct (b @ c # a)"
  shows "del_from_history (hzip b c a) c = del_current b a"
proof -
  have r: "remove1 c (b @ c # a) = b @ a" using assms by (simp add: remove1_append)
  show ?thesis
  proof (cases b rule: rev_cases)
    case Nil
    then show ?thesis using assms r list_next_zip [of c "[]" a] list_prev_zip [of c a "[]"]
      by (cases a) (simp_all add: del_from_history_def del_current_def Let_def hzip_def create_history_def)
  next
    case (snoc b' p)
    then show ?thesis using assms r list_prev_zip [of c a b]
      by (simp add: del_from_history_def del_current_def Let_def hzip_def)
  qed
qed

lemma del_other_zip:
  assumes "distinct (b @ c # a)" "x \<noteq> c"
  shows "del_from_history (hzip b c a) x = hzip (remove1 x b) c (remove1 x a)"
proof -
  have "x \<in> set b \<Longrightarrow> x \<notin> set a" using assms(1) by auto
  then have "remove1 x (b @ c # a) = remove1 x b @ c # remove1 x a"
    using assms(2) by (auto simp: remove1_append remove1_idem)
  then show ?thesis using assms(2) by (simp add: del_from_history_def Let_def hzip_def)
qed

lemma forward_loop_zip:
  "distinct (b @ c # a) \<Longrightarrow> forward_loop (b @ c # a) n c = (c # a) ! min n (length a)"
proof (induction n arbitrary: b c a)
  case (Suc n)
  show ?case
  proof (cases a)
    case Nil
    then show ?thesis using Suc.prems by (simp add: list_next_zip)
  next
    case (Cons q a')
    then show ?thesis using Suc.IH [of "b @ [c]" q a'] Suc.prems by (simp add: list_next_zip)
  qed
qed simp

lemma back_loop_zip:
  "distinct (b @ c # a) \<Longrightarrow> back_loop (b @ c # a) n c =
     ((c # rev b) ! min n (length b), if n \<le> length b then 1 else - int (n - length b - 1))"
proof (induction n arbitrary: b c a)
  case (Suc n)
  show ?case
  proof (cases b rule: rev_cases)
    case Nil
    then show ?thesis using Suc.prems list_prev_zip [of c a b] by simp
  next
    case (snoc b' p)
    then show ?thesis using Suc.IH [of b' p "c # a"] Suc.prems list_prev_zip [of c a b] by simp
  qed
qed simp

subsection \<open>Reachable histories\<close>

inductive hist_reach :: "ses_history \<Rightarrow> bool" where
  created: "hist_reach create_history"
| added: "hist_reach h \<Longrightarrow> x \<notin> set (visited h) \<Longrightarrow> hist_reach (add_to_history h x)"
| deleted: "hist_reach h \<Longrightarrow> x \<in> set (visited h) \<Longrightarrow> hist_reach (del_from_history h x)"
| cleaned: "hist_reach h \<Longrightarrow> hist_reach (clean_unhistory h)"
| moved: "hist_reach h \<Longrightarrow> x \<in> set (visited h) \<Longrightarrow> hist_reach (h\<lparr>at_loc := Some x\<rparr>)"
| destroyed: "hist_reach h \<Longrightarrow> hist_reach (destroy_history h)"

definition zipped :: "ses_history \<Rightarrow> bool" where
  "zipped h \<longleftrightarrow> h = create_history \<or> (\<exists>b c a. h = hzip b c a \<and> distinct (b @ c # a))"

lemma zipped_create [simp]: "zipped create_history"
  by (simp add: zipped_def)

lemma zipped_hzip: "distinct (b @ c # a) \<Longrightarrow> zipped (hzip b c a)"
  by (auto simp: zipped_def)

lemma free_history_Nil [simp]: "free_history l = []"
  by (induction l) simp_all

lemma zipped_del_current: "distinct (b @ c # a) \<Longrightarrow> zipped (del_current b a)"
proof (cases b rule: rev_cases)
  case (snoc b' p)
  assume "distinct (b @ c # a)"
  then show ?thesis using snoc by (auto simp: del_current_def intro: zipped_hzip)
next
  case Nil
  assume "distinct (b @ c # a)"
  then show ?thesis using Nil zipped_hzip [of "[]" "hd a" "tl a"] by (cases a) (simp_all add: del_current_def)
qed

lemma hist_reach_zipped: "hist_reach h \<Longrightarrow> zipped h"
proof (induction rule: hist_reach.induct)
  case (added h x)
  then show ?case by (auto simp: zipped_def [of h] add_zip add_create intro!: zipped_hzip)
next
  case (deleted h x)
  then consider "h = create_history" | b c a where "h = hzip b c a" "distinct (b @ c # a)" by (auto simp: zipped_def)
  then show ?case
  proof cases
    case 1
    then show ?thesis using deleted(2) by (simp add: create_history_def)
  next
    case 2
    then show ?thesis
    proof (cases "x = c")
      case True
      then show ?thesis using 2 del_current_zip zipped_del_current by metis
    next
      case False
      have "distinct (remove1 x b @ c # remove1 x a)" using 2(2) notin_set_remove1 by (auto dest: notin_set_remove1)
      then show ?thesis using del_other_zip [OF 2(2) False] 2(1) zipped_hzip by metis
    qed
  qed
next
  case (cleaned h)
  then show ?case by (auto simp: zipped_def [of h] clean_zip clean_unhistory_def [of create_history] intro!: zipped_hzip) (simp add: create_history_def zipped_def)
next
  case (moved h x)
  then have d: "distinct (visited h)" by (auto simp: zipped_def create_history_def)
  obtain b a where "visited h = b @ x # a" using moved(2) split_list by metis
  then show ?case using d zipped_hzip [of b x a] by (cases h) (simp add: hzip_def)
next
  case (destroyed h)
  then show ?case by (simp add: destroy_history_def create_history_def zipped_def)
qed simp

lemma hzip_inject:
  "hzip b c a = hzip b' c' a' \<Longrightarrow> c \<notin> set b \<Longrightarrow> c' \<notin> set b' \<Longrightarrow> b = b' \<and> c = c' \<and> a = a'"
  using upto_current [of c b a] upto_current [of c b' a'] by (auto simp: hzip_def)

lemma zipped_distinct: "zipped h \<Longrightarrow> distinct (visited h)"
  by (auto simp: zipped_def create_history_def)

lemma moved_zip: "(hzip (b @ [p]) c a)\<lparr>at_loc := Some p\<rparr> = hzip b p (c # a)"
  by (simp add: hzip_def)

text \<open>
  C33: In every reachable state the history is empty or a zipper of distinct locations, and the list
  surgery is what one expects of it: a page is added right behind the current one and becomes
  current, cleaning drops exactly the pages ahead, and deleting the current page falls back to the
  one before it, else to the one after it.
\<close>
theorem history_is_zipper:
  assumes "hist_reach h"
  shows "h = create_history \<or>
    (\<exists>b c a. h = hzip b c a \<and> distinct (b @ c # a) \<and> clean_unhistory h = hzip b c []
      \<and> (\<forall>x. x \<notin> set (visited h) \<longrightarrow> add_to_history h x = hzip (b @ [c]) x a)
      \<and> del_from_history h c = del_current b a
      \<and> (\<forall>x \<in> set b \<union> set a. del_from_history h x = hzip (remove1 x b) c (remove1 x a)))"
proof -
  consider "h = create_history" | b c a where "h = hzip b c a" "distinct (b @ c # a)"
    using hist_reach_zipped [OF assms] by (auto simp: zipped_def)
  then show ?thesis
  proof cases
    case 2
    have "del_from_history h x = hzip (remove1 x b) c (remove1 x a)" if "x \<in> set b \<union> set a" for x
      using del_other_zip [OF 2(2), of x] 2 that by auto
    moreover have "c \<notin> set b" using 2(2) by simp
    ultimately have "h = hzip b c a \<and> distinct (b @ c # a) \<and> clean_unhistory h = hzip b c []
      \<and> (\<forall>x. x \<notin> set (visited h) \<longrightarrow> add_to_history h x = hzip (b @ [c]) x a)
      \<and> del_from_history h c = del_current b a
      \<and> (\<forall>x \<in> set b \<union> set a. del_from_history h x = hzip (remove1 x b) c (remove1 x a))"
      using 2 clean_zip add_zip del_current_zip by metis
    then show ?thesis by blast
  qed simp
qed

lemma three_pages: "hist_reach (hzip [1, 2] 3 [])"
proof -
  have "hist_reach (add_to_history (add_to_history (add_to_history create_history 1) 2) 3)"
    by (intro hist_reach.intros) (simp_all add: add_create add_zip, simp add: create_history_def)
  then show ?thesis by (simp add: add_create add_zip)
qed

theorem history_is_zipper_witness:
  "\<exists>b a. hzip [1, 2] 3 [] = hzip b 3 a \<and> del_from_history (hzip b 3 a) 3 = del_current b a
    \<and> del_current b a = hzip [1] 2 []"
proof -
  have "hzip [1, 2] 3 [] \<noteq> create_history" by (simp add: hzip_def create_history_def)
  then obtain b c a where h: "hzip [1, 2] 3 [] = hzip b c a" "distinct (b @ c # a)"
    "del_from_history (hzip [1, 2] 3 []) c = del_current b a"
    using history_is_zipper [OF three_pages] by blast
  then have "b = [1, 2]" "c = 3" "a = []" using hzip_inject [of "[1, 2]" 3 "[]" b c a] by auto
  moreover have "del_current [1, 2] [] = hzip [1] 2 []" by (simp add: del_current_def)
  ultimately show ?thesis using h(3) by blast
qed

text \<open>
  C34: Going by \<open>n\<close> pages moves that many places in the zipper and stops at its end: forward always,
  backward except when the request is exactly one page too far, which fails. Going back and then
  forward returns to the page one came from.
\<close>
theorem go_history_by_n_spec:
  assumes "hist_reach (hzip b c a)"
  shows "go_history_by_n (hzip b c a) n =
     (if n > 0 then (0, Some ((c # a) ! min (nat n) (length a)))
      else if n = - int (length b) - 1 then (-1, None)
      else (0, Some ((c # rev b) ! min (nat (- n)) (length b))))
    \<and> (\<forall>p. snd (go_back (hzip b c a)) = Some p \<longrightarrow> go_unback ((hzip b c a)\<lparr>at_loc := Some p\<rparr>) = (0, Some c))"
proof -
  have d: "distinct (b @ c # a)"
    using zipped_distinct [OF hist_reach_zipped [OF assms]] by simp
  have first: "list_prev (b @ c # a) ((c # rev b) ! length b) = None"
  proof (cases b)
    case Nil
    then show ?thesis using d list_prev_zip [of c a "[]"] by simp
  next
    case (Cons p b')
    then show ?thesis using d list_prev_zip [of p "b' @ c # a" "[]"] by (simp add: nth_append)
  qed
  have n: "go_history_by_n (hzip b c a) n =
     (if n > 0 then (0, Some ((c # a) ! min (nat n) (length a)))
      else if n = - int (length b) - 1 then (-1, None)
      else (0, Some ((c # rev b) ! min (nat (- n)) (length b))))" for n
  proof (cases "n > 0")
    case True
    then show ?thesis by (simp add: go_history_by_n_def forward_loop_zip [OF d])
  next
    case False
    note loop = back_loop_zip [OF d, of "nat (- n)"]
    show ?thesis
    proof (cases "nat (- n) \<le> length b")
      case True
      then show ?thesis using False by (simp add: go_history_by_n_def loop)
    next
      case far: False
      then show ?thesis using False first by (auto simp: go_history_by_n_def loop)
    qed
  qed
  have "go_unback ((hzip b c a)\<lparr>at_loc := Some p\<rparr>) = (0, Some c)" if "snd (go_back (hzip b c a)) = Some p" for p
  proof (cases b rule: rev_cases)
    case Nil
    then show ?thesis using that n [of "-1"] by (simp add: go_back_def)
  next
    case (snoc b' q)
    then have "p = q" using that n [of "-1"] by (simp add: go_back_def split: if_splits)
    then show ?thesis using snoc moved_zip [of q b' c a] forward_loop_zip [of b' q "c # a" 1] d
      by (simp add: go_unback_def go_history_by_n_def)
  qed
  with n show ?thesis by blast
qed

theorem go_history_by_n_spec_witness:
  "go_history_by_n (hzip [1, 2] 3 []) (-2) = (0, Some 1) \<and> go_history_by_n (hzip [1, 2] 3 []) 5 = (0, Some 3)"
  using go_history_by_n_spec [OF three_pages, of "-2"] go_history_by_n_spec [OF three_pages, of 5] by simp

text \<open>One page too far back fails, two pages too far go to the first page.\<close>
lemma one_page_too_far:
  "go_history_by_n (hzip [1] 2 []) (-2) = (-1, None)" "go_history_by_n (hzip [1] 2 []) (-3) = (0, Some 1)"
  by code_simp+

text \<open>
  When the first page of the history is loaded again under another address, its replacement ends up
  behind the second page.
\<close>
lemma history_move_reorders:
  "visited (history (ses_history_move
     \<lparr>history = hzip [1] 2 [], task = TASK_HISTORY, target = Some 1, target_frame = [],
      loading_uri = ''new'', loc_uri = (\<lambda>_. ''old''), keep_unhistory = False\<rparr> False 3 4)) = [2, 3]"
  by code_simp

text \<open>With \<open>keep_unhistory\<close> switched on, the pages ahead are thrown away.\<close>
lemma keep_unhistory_cleans:
  "visited (history (ses_history_move
     \<lparr>history = hzip [1, 2] 3 [4], task = TASK_HISTORY, target = Some 2, target_frame = [],
      loading_uri = ''new'', loc_uri = (\<lambda>_. ''old''), keep_unhistory = k\<rparr> False 5 6))
   = (if k then [1, 5] else [1, 5, 3, 4])"
  by (cases k) (simp_all add: ses_history_move_def ses_forward_def Let_def hzip_def add_location_def
      del_from_history_def list_prev_def list_next_def add_to_history_def add_at_pos_def clean_unhistory_def clean_loop.simps)

end
