(* ===== verification/Http_Body.thy ===== *)
theory Http_Body
  imports Conv Cache_Content Uri
begin

text \<open>
  The body of an HTTP response, \<open>src/protocol/http/http.c\<close>: the chunked transfer coding and the plain
  body, read from a socket buffer that is filled packet by packet and written into the cache entry of
  the connection with \<open>add_fragment\<close>.

  The buffer \<open>rb\<close> holds the \<open>length\<close> bytes that are valid. The array is not terminated, and \<open>strtol\<close> may
  read behind them: \<open>junk\<close> is what lies there. Decompression is a function of the library: it maps the
  state of the stream and the input to a new state and the output; \<open>None\<close> is a closed stream.
\<close>

abbreviation (input) CHUNK_DATA_END :: int where "CHUNK_DATA_END \<equiv> -3"
abbreviation (input) CHUNK_ZERO_SIZE :: int where "CHUNK_ZERO_SIZE \<equiv> -2"
abbreviation (input) CHUNK_SIZE :: int where "CHUNK_SIZE \<equiv> -1"
abbreviation (input) LEN_CHUNKED :: int where "LEN_CHUNKED \<equiv> -2"

datatype socket_state = SOCKET_RETRY_ONCLOSE | SOCKET_END_ONCLOSE | SOCKET_CLOSED

record 'z http_conn =
  chunk_remaining :: int
  body_length :: int
  rb :: string
  from_offset :: nat
  received :: int
  tries :: int
  content_encoded :: bool
  stream :: "'z option"
  sock :: socket_state
  cached :: entry_data
  cache_sizes :: sizes
  next_id :: nat

text \<open>The line at the start of the buffer: its length with the line end, 0 if it is not complete, -1 if it is bad.\<close>

fun line_loop :: "int \<Rightarrow> string \<Rightarrow> int" where
  "line_loop l [] = 0"
| "line_loop l (a # s) =
     (if a = LF then l + 1
      else if a = CR \<and> s \<noteq> [] \<and> hd s = LF then l + 2
      else if a = CR \<and> s = [] then 0
      else if uchar a < 32 then -1
      else line_loop (l + 1) s)"

definition is_line_in_buffer :: "string \<Rightarrow> int" where
  "is_line_in_buffer s = line_loop 0 s"

text \<open>\<open>kill_buffer_data\<close>; a number of bytes that is not in the buffer empties it.\<close>

definition kill_buffer_data :: "'z http_conn \<Rightarrow> int \<Rightarrow> 'z http_conn" where
  "kill_buffer_data conn n =
     (if n < 0 \<or> n > int (length (rb conn)) then conn\<lparr>rb := []\<rparr> else conn\<lparr>rb := drop (nat n) (rb conn)\<rparr>)"

text \<open>
  \<open>strtol\<close> in base 16: white space, a sign, a prefix, digits. The result is the value, the number of
  bytes it took (0 when there is no digit) and whether the value fits a \<open>long\<close>.
\<close>

definition xdigits :: "string \<Rightarrow> string" where
  "xdigits s = takeWhile (\<lambda>c. unhx c \<ge> 0) s"

definition strtol16 :: "string \<Rightarrow> int \<times> nat \<times> bool" where
  "strtol16 s =
     (let sp = length (takeWhile elinks_isspace s);
          s1 = drop sp s;
          sign = (if deref s1 = CHR ''-'' \<or> deref s1 = CHR ''+'' then 1 else 0);
          s2 = drop sign s1;
          prefix = (if deref s2 = CHR ''0'' \<and> (char_at s2 1 = CHR ''x'' \<or> char_at s2 1 = CHR ''X'') \<and> unhx (char_at s2 2) \<ge> 0
                    then 2 else 0);
          ds = xdigits (drop prefix s2);
          v = int (digits_value 16 ds);
          v' = (if deref s1 = CHR ''-'' then - v else v)
      in if ds = [] then (0, 0, True)
         else (v', sp + sign + prefix + length ds, - (2 ^ 63) \<le> v' \<and> v' < 2 ^ 63))"

text \<open>The size in the line of \<open>l\<close> bytes at the start of the buffer.\<close>

definition chunk_size :: "string \<Rightarrow> int option" where
  "chunk_size s =
     (case strtol16 s of (n, de, ok) \<Rightarrow>
        if \<not> ok \<or> char_at s de = NUL then None else if de = 0 then None else Some (to_int32 n))"

text \<open>\<open>add_fragment\<close> on the cache entry of the connection.\<close>

definition add_to_cache :: "'z http_conn \<Rightarrow> string \<Rightarrow> 'z http_conn" where
  "add_to_cache conn xs =
     (case add_fragment (cached conn) (from_offset conn) xs (next_id conn) (cache_sizes conn) of (ret, c, sz) \<Rightarrow>
        conn\<lparr>cached := c, cache_sizes := sz, next_id := (if xs = [] then next_id conn else next_id conn + 1),
             tries := (if ret = 1 then 0 else tries conn)\<rparr>)"

type_synonym 'z decoder = "'z option \<Rightarrow> string \<Rightarrow> 'z option \<times> string option"

definition decompress_data :: "'z decoder \<Rightarrow> 'z http_conn \<Rightarrow> string \<Rightarrow> string option \<times> 'z http_conn" where
  "decompress_data dec conn xs = (case dec (stream conn) xs of (z, ys) \<Rightarrow> (ys, conn\<lparr>stream := z\<rparr>))"

text \<open>The bytes go to the cache, decompressed if need be; \<open>shut\<close> says whether the stream is done with.\<close>

definition write_body :: "'z decoder \<Rightarrow> bool \<Rightarrow> 'z http_conn \<Rightarrow> string \<Rightarrow> string \<times> 'z http_conn" where
  "write_body dec shut conn xs =
     (if content_encoded conn
      then (case decompress_data dec conn xs of (r, c) \<Rightarrow>
              let ys = (case r of Some ys \<Rightarrow> ys | None \<Rightarrow> []);
                  c' = add_to_cache c ys
              in (ys, if shut then c'\<lparr>stream := None\<rparr> else c'))
      else (xs, add_to_cache conn xs))"

text \<open>One turn of the loop of \<open>read_chunked_http_data\<close>, with the length of the data so far.\<close>

datatype loop_action = Again | Leave | Return int | Memory_Error

definition chunk_end :: "'z http_conn \<Rightarrow> nat \<Rightarrow> loop_action \<times> 'z http_conn \<times> nat" where
  "chunk_end conn got =
     (if chunk_remaining conn = 0 \<and> rb conn \<noteq> [] then
        (if hd (rb conn) = LF then (Again, (kill_buffer_data conn 1)\<lparr>chunk_remaining := CHUNK_SIZE\<rparr>, got)
         else if hd (rb conn) \<noteq> CR \<or> length (rb conn) \<ge> 2 \<and> rb conn ! 1 \<noteq> LF then (Return (-1), conn, got)
         else if length (rb conn) < 2 then (Leave, conn, got)
         else (Again, (kill_buffer_data conn 2)\<lparr>chunk_remaining := CHUNK_SIZE\<rparr>, got))
      else (Leave, conn, got))"

definition chunk_data :: "'z decoder \<Rightarrow> 'z http_conn \<Rightarrow> int \<Rightarrow> nat \<Rightarrow> loop_action \<times> 'z http_conn \<times> nat" where
  "chunk_data dec conn len got =
     (let zero = (chunk_remaining conn = CHUNK_ZERO_SIZE);
          c1 = conn\<lparr>received := received conn + len,
                    chunk_remaining := (if chunk_remaining conn > 0 then chunk_remaining conn - len else chunk_remaining conn)\<rparr>
      in case write_body dec (zero \<or> body_length conn = 0) c1 (take (nat len) (rb conn)) of (ys, c2) \<Rightarrow>
           let c3 = kill_buffer_data (c2\<lparr>from_offset := from_offset c2 + length ys\<rparr>) len;
               got' = got + length ys
           in if zero then (Again, c3\<lparr>chunk_remaining := CHUNK_DATA_END\<rparr>, got') else chunk_end c3 got')"

definition chunk_step :: "'z decoder \<Rightarrow> string \<Rightarrow> 'z http_conn \<Rightarrow> nat \<Rightarrow> loop_action \<times> 'z http_conn \<times> nat" where
  "chunk_step dec junk conn got =
     (if chunk_remaining conn = CHUNK_DATA_END then
        (let l = is_line_in_buffer (rb conn)
         in if l = 0 then (Leave, conn, got)
            else if l = -1 then (Return (-1), conn, got)
            else let c = kill_buffer_data conn l in if l \<le> 2 then (Return 2, c, got) else (Again, c, got))
      else if chunk_remaining conn = CHUNK_SIZE then
        (let l = is_line_in_buffer (rb conn)
         in if l = 0 then (Leave, conn, got)
            else if l = -1 then (Return (-1), conn, got)
            else (case chunk_size (rb conn @ junk) of
                    None \<Rightarrow> (Return (-1), conn, got)
                  | Some n \<Rightarrow>
                      (Again, (kill_buffer_data conn l)\<lparr>chunk_remaining := (if n = 0 then CHUNK_ZERO_SIZE else n)\<rparr>, got)))
      else
        let len = (if chunk_remaining conn = CHUNK_ZERO_SIZE then 0 else min (chunk_remaining conn) (int (length (rb conn))))
        in if len < 0 then (Memory_Error, conn, got) else chunk_data dec conn len got)"

lemma add_to_cache_simps [simp]:
  "chunk_remaining (add_to_cache conn xs) = chunk_remaining conn" "rb (add_to_cache conn xs) = rb conn"
  "from_offset (add_to_cache conn xs) = from_offset conn" "body_length (add_to_cache conn xs) = body_length conn"
  "content_encoded (add_to_cache conn xs) = content_encoded conn" "sock (add_to_cache conn xs) = sock conn"
  by (simp_all add: add_to_cache_def split: prod.splits)

lemma write_body_simps:
  assumes "write_body dec shut conn xs = (ys, conn')"
  shows "chunk_remaining conn' = chunk_remaining conn" "rb conn' = rb conn" "from_offset conn' = from_offset conn"
    "body_length conn' = body_length conn" "content_encoded conn' = content_encoded conn"
  using assms by (auto simp: write_body_def decompress_data_def Let_def split: if_splits prod.splits)

lemma kill_buffer_simps [simp]:
  "chunk_remaining (kill_buffer_data conn n) = chunk_remaining conn" "from_offset (kill_buffer_data conn n) = from_offset conn"
  "content_encoded (kill_buffer_data conn n) = content_encoded conn" "cached (kill_buffer_data conn n) = cached conn"
  "body_length (kill_buffer_data conn n) = body_length conn"
  by (simp_all add: kill_buffer_data_def)

lemma rb_kill: "rb (kill_buffer_data conn n) = (if n < 0 \<or> n > int (length (rb conn)) then [] else drop (nat n) (rb conn))"
  by (simp add: kill_buffer_data_def)

lemma length_rb_kill: "length (rb (kill_buffer_data conn n)) \<le> length (rb conn)"
  "0 < n \<Longrightarrow> rb conn \<noteq> [] \<Longrightarrow> length (rb (kill_buffer_data conn n)) < length (rb conn)"
  by (auto simp: rb_kill)

lemma line_loop_bounds:
  "line_loop l s = 0 \<or> line_loop l s = -1 \<or> (l < line_loop l s \<and> line_loop l s \<le> l + int (length s))" if "0 \<le> l"
  using that
proof (induction l s rule: line_loop.induct)
  case (2 l a s)
  then show ?case by (cases s) auto
qed simp

lemma line_bounds: "is_line_in_buffer s \<noteq> 0 \<Longrightarrow> is_line_in_buffer s \<noteq> -1 \<Longrightarrow>
   0 < is_line_in_buffer s \<and> is_line_in_buffer s \<le> int (length s)"
  using line_loop_bounds [of 0 s] by (auto simp: is_line_in_buffer_def)

text \<open>A turn that is followed by another one takes bytes from the buffer or leaves the state of the last chunk.\<close>

definition chunk_measure :: "'z http_conn \<Rightarrow> nat" where
  "chunk_measure conn = 2 * length (rb conn) + (if chunk_remaining conn = CHUNK_ZERO_SIZE then 1 else 0)"

lemma chunk_end_again:
  assumes "chunk_end conn got = (Again, conn', got')"
  shows "chunk_measure conn' < chunk_measure conn"
proof -
  have c: "chunk_remaining conn = 0" "rb conn \<noteq> []" using assms by (auto simp: chunk_end_def split: if_splits)
  have "conn' = (kill_buffer_data conn 1)\<lparr>chunk_remaining := CHUNK_SIZE\<rparr>
      \<or> conn' = (kill_buffer_data conn 2)\<lparr>chunk_remaining := CHUNK_SIZE\<rparr>"
    using assms by (auto simp: chunk_end_def split: if_splits)
  then obtain n where n: "0 < n" "conn' = (kill_buffer_data conn n)\<lparr>chunk_remaining := CHUNK_SIZE\<rparr>"
    by (metis zero_less_numeral zero_less_one)
  show ?thesis unfolding n(2) using length_rb_kill(2) [OF n(1) c(2)] by (simp add: chunk_measure_def)
qed

lemma chunk_data_again:
  assumes "chunk_data dec conn len got = (Again, conn', got')"
  shows "chunk_measure conn' < chunk_measure conn"
proof -
  let ?zero = "chunk_remaining conn = CHUNK_ZERO_SIZE"
  let ?c1 = "conn\<lparr>received := received conn + len,
      chunk_remaining := (if chunk_remaining conn > 0 then chunk_remaining conn - len else chunk_remaining conn)\<rparr>"
  obtain ys c2 where w: "write_body dec (?zero \<or> body_length conn = 0) ?c1 (take (nat len) (rb conn)) = (ys, c2)" by fastforce
  let ?c3 = "kill_buffer_data (c2\<lparr>from_offset := from_offset c2 + length ys\<rparr>) len"
  have le: "length (rb ?c3) \<le> length (rb conn)"
    using length_rb_kill(1) [of "c2\<lparr>from_offset := from_offset c2 + length ys\<rparr>" len] write_body_simps(2) [OF w] by simp
  show ?thesis
  proof (cases ?zero)
    case True
    then have "conn' = ?c3\<lparr>chunk_remaining := CHUNK_DATA_END\<rparr>" using assms w by (simp add: chunk_data_def Let_def)
    then show ?thesis using le True by (simp add: chunk_measure_def)
  next
    case False
    then have e: "chunk_end ?c3 (got + length ys) = (Again, conn', got')" using assms w by (simp add: chunk_data_def Let_def)
    then have "chunk_remaining ?c3 = 0" by (auto simp: chunk_end_def split: if_splits)
    then show ?thesis using chunk_end_again [OF e] le by (simp add: chunk_measure_def)
  qed
qed

lemma chunk_step_again:
  assumes "chunk_step dec junk conn got = (Again, conn', got')"
  shows "chunk_measure conn' < chunk_measure conn"
proof -
  let ?l = "is_line_in_buffer (rb conn)"
  have line: "chunk_measure (c\<lparr>chunk_remaining := r\<rparr>) < chunk_measure conn" "chunk_measure c < chunk_measure conn"
    if "?l \<noteq> 0" "?l \<noteq> -1" "c = kill_buffer_data conn ?l" for c r
  proof -
    have "length (rb c) < length (rb conn)" using line_bounds [OF that(1,2)] length_rb_kill(2) [of ?l conn] that(3) by fastforce
    then show "chunk_measure (c\<lparr>chunk_remaining := r\<rparr>) < chunk_measure conn" "chunk_measure c < chunk_measure conn"
      by (auto simp: chunk_measure_def)
  qed
  consider "chunk_remaining conn = CHUNK_DATA_END" | "chunk_remaining conn = CHUNK_SIZE"
    | "chunk_remaining conn \<noteq> CHUNK_DATA_END" "chunk_remaining conn \<noteq> CHUNK_SIZE" by blast
  then show ?thesis
  proof cases
    case 1
    then show ?thesis using assms line by (auto simp: chunk_step_def Let_def split: if_splits)
  next
    case 2
    then show ?thesis using assms line by (auto simp: chunk_step_def Let_def split: if_splits option.splits)
  next
    case 3
    then show ?thesis using assms chunk_data_again [of dec conn _ got conn' got'] by (auto simp: chunk_step_def Let_def split: if_splits)
  qed
qed

text \<open>The loop. The results are -1 for an error, 0 or 1 for more to read, 2 at the end of the body.\<close>

function chunk_loop :: "'z decoder \<Rightarrow> string \<Rightarrow> 'z http_conn \<Rightarrow> nat \<Rightarrow> int option \<times> 'z http_conn" where
  "chunk_loop dec junk conn got =
     (case chunk_step dec junk conn got of (action, conn', got') \<Rightarrow>
        (case action of
           Again \<Rightarrow> chunk_loop dec junk conn' got'
         | Leave \<Rightarrow> (Some (if got' \<noteq> 0 then 1 else 0), conn')
         | Return r \<Rightarrow> (Some r, conn')
         | Memory_Error \<Rightarrow> (None, conn')))"
  by pat_completeness auto
termination
  by (relation "measure (\<lambda>(dec, junk, conn, got). chunk_measure conn)") (auto dest: chunk_step_again sym)

declare chunk_loop.simps [simp del]

definition read_chunked_http_data :: "'z decoder \<Rightarrow> string \<Rightarrow> 'z http_conn \<Rightarrow> int option \<times> 'z http_conn" where
  "read_chunked_http_data dec junk conn = chunk_loop dec junk conn 0"

subsection \<open>The plain body\<close>

text \<open>
  \<open>read_normal_http_data\<close>. When the decompressor gives nothing for the last bytes it is called once more
  with no input.
\<close>

definition read_normal_http_data :: "'z decoder \<Rightarrow> 'z http_conn \<Rightarrow> int \<times> 'z http_conn" where
  "read_normal_http_data dec conn =
     (let len0 = int (length (rb conn));
          len = (if body_length conn \<ge> 0 \<and> body_length conn < len0 then body_length conn else len0);
          c1 = conn\<lparr>received := received conn + len,
                    body_length := (if body_length conn > 0 then body_length conn - len else body_length conn)\<rparr>;
          xs = take (nat len) (rb conn);
          retry = (content_encoded c1 \<and> fst (decompress_data dec c1 xs) = None \<and> body_length c1 = 0 \<and> len \<noteq> 0);
          (len2, c2) = (if retry then (0, kill_buffer_data (snd (decompress_data dec c1 xs)) len) else (len, c1))
      in case write_body dec (body_length c2 = 0) c2 (take (nat len2) (rb c2)) of (ys, c3) \<Rightarrow>
           let c4 = kill_buffer_data (c3\<lparr>from_offset := from_offset c3 + length ys\<rparr>) len2
           in if body_length c4 = 0 \<and> (sock c4 = SOCKET_RETRY_ONCLOSE \<or> sock c4 = SOCKET_CLOSED) then (2, c4)
              else (if ys \<noteq> [] then 1 else 0, c4))"

text \<open>
  \<open>read_http_data\<close>: what is done after the packet. \<open>Closed\<close> is \<open>read_http_data_done\<close>, \<open>Abort\<close> is
  \<open>abort_connection\<close>; \<open>More\<close> asks the socket for more, saying whether data came.
\<close>

datatype body_action = More bool | Closed | Abort | Undefined

definition read_http_data :: "'z decoder \<Rightarrow> string \<Rightarrow> 'z http_conn \<Rightarrow> body_action \<times> 'z http_conn" where
  "read_http_data dec junk conn =
     (if sock conn = SOCKET_CLOSED \<and> \<not> content_encoded conn then (Closed, conn)
      else
        let c = (if sock conn = SOCKET_CLOSED then conn\<lparr>body_length := 0\<rparr> else conn);
            (ret, c') = (if body_length c \<noteq> LEN_CHUNKED
                         then (case read_normal_http_data dec c of (r, c1) \<Rightarrow> (Some r, c1))
                         else read_chunked_http_data dec junk c)
        in (case ret of
              None \<Rightarrow> Undefined
            | Some r \<Rightarrow> if r = 0 then More False else if r = 1 then More True else if r = 2 then Closed else Abort, c'))"

text \<open>
  A body arrives in packets: each one is appended to the buffer and \<open>read_http_data\<close> is called. With each
  packet comes what lies behind the valid bytes at that time. The packets not looked at are returned.
\<close>

fun feed :: "'z decoder \<Rightarrow> (string \<times> string) list \<Rightarrow> 'z http_conn \<Rightarrow> body_action \<times> 'z http_conn \<times> (string \<times> string) list" where
  "feed dec [] conn = (More False, conn, [])"
| "feed dec ((p, junk) # ps) conn =
     (case read_http_data dec junk (conn\<lparr>rb := rb conn @ p\<rparr>) of
        (More b, conn') \<Rightarrow> feed dec ps conn'
      | (act, conn') \<Rightarrow> (act, conn', ps))"

end
