(* ===== verification/Http_Chunked.thy ===== *)
theory Http_Chunked
  imports Http_Body Cache_Add
begin

text \<open>
  The chunked transfer coding, read as a whole: \<open>dechunk\<close> decodes a string without buffers or packets.
  The loop of \<open>read_chunked_http_data\<close> computes the same however the string is cut into packets, and
  what it writes into the cache is the decoded text.
\<close>

subsection \<open>The decoder\<close>

datatype outcome = Done string | Bad | Partial | Unclear

definition prepend :: "string \<Rightarrow> string \<times> outcome \<Rightarrow> string \<times> outcome" where
  "prepend d r = (d @ fst r, snd r)"

lemma prepend_simps [simp]: "prepend [] r = r" "prepend d (x, out) = (d @ x, out)"
  "prepend d (prepend e r) = prepend (d @ e) r" "snd (prepend d r) = snd r" "fst (prepend d r) = d @ fst r"
  by (simp_all add: prepend_def)

text \<open>
  What is unclear: a blank size line, for which \<open>strtol\<close> reads on behind the line, and a negative
  size, which is taken for a state of the decoder or for the length of a memory area.
\<close>

function dechunk :: "int \<Rightarrow> string \<Rightarrow> string \<times> outcome" where
  "dechunk st s =
     (let l = is_line_in_buffer s
      in if st = CHUNK_ZERO_SIZE then dechunk CHUNK_DATA_END s
         else if st = CHUNK_DATA_END then
           (if l = 0 then ([], Partial) else if l = -1 then ([], Bad)
            else if l \<le> 2 then ([], Done (drop (nat l) s))
            else dechunk CHUNK_DATA_END (drop (nat l) s))
         else if st = CHUNK_SIZE then
           (if l = 0 then ([], Partial) else if l = -1 then ([], Bad)
            else if list_all elinks_isspace (take (nat l) s) then ([], Unclear)
            else (case chunk_size (take (nat l) s) of
                    None \<Rightarrow> ([], Bad)
                  | Some n \<Rightarrow> if n < 0 then ([], Unclear)
                              else dechunk (if n = 0 then CHUNK_ZERO_SIZE else n) (drop (nat l) s)))
         else if st < 0 then ([], Unclear)
         else if int (length s) \<le> st then (s, Partial)
         else
           let d = take (nat st) s; r = drop (nat st) s
           in if hd r = LF then prepend d (dechunk CHUNK_SIZE (drop 1 r))
              else if hd r \<noteq> CR \<or> length r \<ge> 2 \<and> r ! 1 \<noteq> LF then (d, Bad)
              else if length r < 2 then (d, Partial)
              else prepend d (dechunk CHUNK_SIZE (drop 2 r)))"
  by pat_completeness auto
termination
proof (relation "measure (\<lambda>(st, s). 2 * length s + (if st = CHUNK_ZERO_SIZE then 1 else 0))")
  fix st s l n
  assume "l = is_line_in_buffer s" "l \<noteq> 0" "l \<noteq> -1"
  then have "0 < l" "l \<le> int (length s)" using line_bounds [of s] by auto
  then show "((CHUNK_DATA_END, drop (nat l) s), st, s) \<in> measure (\<lambda>(st, s). 2 * length s + (if st = CHUNK_ZERO_SIZE then 1 else 0))"
    "((if n = 0 then CHUNK_ZERO_SIZE else n, drop (nat l) s), st, s) \<in> measure (\<lambda>(st, s). 2 * length s + (if st = CHUNK_ZERO_SIZE then 1 else 0))"
    by auto
qed auto

declare dechunk.simps [simp del]

lemmas dechunk_zero = dechunk.simps [of "CHUNK_ZERO_SIZE", simplified]

lemma dechunk_trailer:
  "dechunk CHUNK_DATA_END s =
     (let l = is_line_in_buffer s
      in if l = 0 then ([], Partial) else if l = -1 then ([], Bad)
         else if l \<le> 2 then ([], Done (drop (nat l) s)) else dechunk CHUNK_DATA_END (drop (nat l) s))"
  by (subst dechunk.simps) (simp add: Let_def)

lemma dechunk_size:
  "dechunk CHUNK_SIZE s =
     (let l = is_line_in_buffer s
      in if l = 0 then ([], Partial) else if l = -1 then ([], Bad)
         else if list_all elinks_isspace (take (nat l) s) then ([], Unclear)
         else (case chunk_size (take (nat l) s) of
                 None \<Rightarrow> ([], Bad)
               | Some n \<Rightarrow> if n < 0 then ([], Unclear)
                           else dechunk (if n = 0 then CHUNK_ZERO_SIZE else n) (drop (nat l) s)))"
  by (subst dechunk.simps) (simp add: Let_def)

lemma dechunk_data:
  "0 \<le> st \<Longrightarrow> dechunk st s =
     (if int (length s) \<le> st then (s, Partial)
      else
        let d = take (nat st) s; r = drop (nat st) s
        in if hd r = LF then prepend d (dechunk CHUNK_SIZE (drop 1 r))
           else if hd r \<noteq> CR \<or> length r \<ge> 2 \<and> r ! 1 \<noteq> LF then (d, Bad)
           else if length r < 2 then (d, Partial)
           else prepend d (dechunk CHUNK_SIZE (drop 2 r)))"
  by (subst dechunk.simps) (simp add: Let_def)

lemma dechunk_negative: "st < -3 \<Longrightarrow> dechunk st s = ([], Unclear)"
  by (subst dechunk.simps) (simp add: Let_def)

text \<open>Data may be taken in portions.\<close>

lemma dechunk_portion:
  assumes "0 \<le> st" "int k \<le> st" "k \<le> length s"
  shows "dechunk st s = prepend (take k s) (dechunk (st - int k) (drop k s))"
proof -
  have n: "nat st = k + nat (st - int k)" using assms(2) by simp
  have d: "drop (nat (st - int k)) (drop k s) = drop (nat st) s" unfolding n by (simp add: add.commute)
  have t: "take (nat st) s = take k s @ take (nat (st - int k)) (drop k s)" unfolding n by (simp add: take_add)
  have l: "int (length (drop k s)) \<le> st - int k \<longleftrightarrow> int (length s) \<le> st" using assms(3) by auto
  have nn: "0 \<le> st - int k" using assms by simp
  show ?thesis
    unfolding dechunk_data [OF assms(1)] dechunk_data [OF nn] l d t Let_def by simp
qed

subsection \<open>Lines\<close>

lemma line_loop_append: "line_loop l s \<noteq> 0 \<Longrightarrow> 0 \<le> l \<Longrightarrow> line_loop l (s @ t) = line_loop l s"
proof (induction l s rule: line_loop.induct)
  case (2 l a s)
  then show ?case by (cases s) (auto split: if_splits)
qed simp

lemma line_append: "is_line_in_buffer s \<noteq> 0 \<Longrightarrow> is_line_in_buffer (s @ t) = is_line_in_buffer s"
  by (simp add: is_line_in_buffer_def line_loop_append)

lemma line_loop_LF:
  "0 \<le> l \<Longrightarrow> line_loop l s \<noteq> 0 \<Longrightarrow> line_loop l s \<noteq> -1 \<Longrightarrow> \<exists>xs. take (nat (line_loop l s - l)) s = xs @ [LF]"
proof (induction l s rule: line_loop.induct)
  case (2 l a s)
  consider (lf) "a = LF" | (crlf) "a = CR" "s \<noteq> []" "hd s = LF"
    | (more) "a \<noteq> LF" "\<not> (a = CR \<and> s \<noteq> [] \<and> hd s = LF)" "\<not> (a = CR \<and> s = [])" "\<not> uchar a < 32"
    using 2(3,4) by (auto split: if_splits)
  then show ?case
  proof cases
    case lf
    then show ?thesis by simp
  next
    case crlf
    then show ?thesis by (cases s) (auto intro: exI [of _ "[CR]"])
  next
    case more
    then have step: "line_loop l (a # s) = line_loop (l + 1) s" by auto
    then obtain xs where xs: "take (nat (line_loop (l + 1) s - (l + 1))) s = xs @ [LF]"
      using 2(1) [OF more] 2(2-4) step by auto
    have "l + 1 < line_loop (l + 1) s" using line_loop_bounds [of "l + 1" s] 2(2-4) step by auto
    then have "nat (line_loop (l + 1) s - l) = Suc (nat (line_loop (l + 1) s - (l + 1)))" by simp
    then show ?thesis unfolding step using xs by (auto intro: exI [of _ "a # xs"])
  qed
qed simp

lemma line_LF:
  assumes "is_line_in_buffer s \<noteq> 0" "is_line_in_buffer s \<noteq> -1"
  obtains xs where "take (nat (is_line_in_buffer s)) s = xs @ [LF]"
  using line_loop_LF [of 0 s] assms by (auto simp: is_line_in_buffer_def)

text \<open>A number in a line that is not blank is read from the line alone.\<close>

lemma takeWhile_stop: "\<not> P z \<Longrightarrow> takeWhile P (xs @ z # t) = takeWhile P xs"
  by (induction xs) auto

lemma char_at_left: "i < length xs \<Longrightarrow> char_at (xs @ ys) i = char_at xs i"
  by (simp add: char_at_def nth_append)

lemma deref_left: "xs \<noteq> [] \<Longrightarrow> deref (xs @ ys) = deref xs"
  by (cases xs) simp_all

lemma unhx_LF: "unhx LF = -1"
  by (simp add: unhx_def isdigit_def)

lemma xdigits_line: "xdigits (xs @ LF # t) = xdigits xs"
  by (simp add: xdigits_def takeWhile_stop unhx_LF)

lemma strtol16_line:
  assumes "\<not> list_all elinks_isspace (xs @ [LF])"
  shows "strtol16 (xs @ LF # t) = strtol16 (xs @ [LF])" "fst (snd (strtol16 (xs @ [LF]))) \<le> length xs"
proof -
  have "\<not> list_all elinks_isspace xs" using assms by (auto simp: elinks_isspace_def)
  then obtain sp c r where xs: "xs = sp @ c # r" "list_all elinks_isspace sp" "\<not> elinks_isspace c"
    using split_list_first_prop [of xs "\<lambda>c. \<not> elinks_isspace c"] by (auto simp: list_all_iff)
  have tw: "takeWhile elinks_isspace (sp @ c # u) = sp" for u
    using xs(2,3) by (simp add: takeWhile_append list_all_iff takeWhile_eq_all_conv)
  have u: "strtol16 (xs @ LF # t') = strtol16 (sp @ c # r @ LF # t')" for t' using xs(1) by simp
  define sg where "sg = (if c = CHR ''-'' \<or> c = CHR ''+'' then 1 else 0 :: nat)"
  define s2 where "s2 = drop sg (c # r)"
  have s2: "drop sg (c # r @ LF # t') = s2 @ LF # t'" for t' by (simp add: s2_def sg_def)
  have pre: "(deref (s2 @ LF # t') = CHR ''0'' \<and> (char_at (s2 @ LF # t') 1 = CHR ''x'' \<or> char_at (s2 @ LF # t') 1 = CHR ''X'')
      \<and> unhx (char_at (s2 @ LF # t') 2) \<ge> 0)
    \<longleftrightarrow> (deref s2 = CHR ''0'' \<and> (char_at s2 1 = CHR ''x'' \<or> char_at s2 1 = CHR ''X'') \<and> 3 \<le> length s2 \<and> unhx (char_at s2 2) \<ge> 0)" for t'
    using unhx_LF by (cases s2; cases "tl s2"; cases "tl (tl s2)") (auto simp: char_at_def numeral_2_eq_2)
  define pf where "pf = (if deref s2 = CHR ''0'' \<and> (char_at s2 1 = CHR ''x'' \<or> char_at s2 1 = CHR ''X'') \<and> 3 \<le> length s2 \<and> unhx (char_at s2 2) \<ge> 0
      then 2 else 0 :: nat)"
  have pl: "pf \<le> length s2" by (auto simp: pf_def)
  then have dp: "drop pf (s2 @ LF # t') = drop pf s2 @ LF # t'" for t' by simp
  define ds where "ds = xdigits (drop pf s2)"
  have st: "strtol16 (xs @ LF # t') =
      (let v = int (digits_value 16 ds); v' = (if c = CHR ''-'' then - v else v)
       in if ds = [] then (0, 0, True) else (v', length sp + sg + pf + length ds, - (2 ^ 63) \<le> v' \<and> v' < 2 ^ 63))" for t'
  proof -
    have dr: "drop (length sp) (sp @ c # r @ LF # t') = c # r @ LF # t'" by simp
    have de: "deref (c # r @ LF # t') = c" by simp
    show ?thesis
      unfolding u unfolding strtol16_def tw Let_def dr de sg_def [symmetric] s2
      unfolding pre pf_def [symmetric] dp xdigits_line ds_def [symmetric] ..
  qed
  show "strtol16 (xs @ LF # t) = strtol16 (xs @ [LF])" using st [of t] st [of "[]"] by simp
  have "length ds \<le> length s2 - pf" unfolding ds_def xdigits_def using length_takeWhile_le [of _ "drop pf s2"] by simp
  moreover have "length s2 = length (c # r) - sg" by (simp add: s2_def)
  moreover have "sg \<le> 1" by (simp add: sg_def)
  ultimately have "length sp + sg + pf + length ds \<le> length xs" using pl xs(1) by simp
  then show "fst (snd (strtol16 (xs @ [LF]))) \<le> length xs" using st [of "[]"] by (simp add: Let_def)
qed

lemma chunk_size_line:
  assumes "is_line_in_buffer s \<noteq> 0" "is_line_in_buffer s \<noteq> -1"
    and "\<not> list_all elinks_isspace (take (nat (is_line_in_buffer s)) s)"
  shows "chunk_size (s @ t) = chunk_size (take (nat (is_line_in_buffer s)) s)"
proof -
  let ?l = "nat (is_line_in_buffer s)"
  obtain xs where xs: "take ?l s = xs @ [LF]" using line_LF [OF assms(1,2)] .
  have s: "s @ t = xs @ LF # drop ?l s @ t" using append_take_drop_id [of ?l s] xs by (metis append.assoc append_Cons append_Nil)
  note st = strtol16_line [of xs, unfolded xs [symmetric], OF assms(3)]
  obtain n de ok where r: "strtol16 (take ?l s) = (n, de, ok)" by (metis prod_cases3)
  have "de < length (xs @ [LF])" using st(2) r by simp
  then have "char_at (s @ t) de = char_at (take ?l s) de" unfolding s xs
    using char_at_left [of de "xs @ [LF]" "drop ?l s @ t"] by simp
  moreover have "strtol16 (s @ t) = (n, de, ok)" unfolding s st(1) r ..
  ultimately show ?thesis unfolding chunk_size_def r by simp
qed

subsection \<open>Writing into the cache\<close>

text \<open>From one state to the other the bytes \<open>d\<close> went to the cache, and those before them are unchanged.\<close>

definition wrote :: "'z http_conn \<Rightarrow> string \<Rightarrow> 'z http_conn \<Rightarrow> bool" where
  "wrote a d b \<longleftrightarrow> from_offset b = from_offset a + length d \<and> content_encoded b = content_encoded a
     \<and> body_length b = body_length a \<and> sock b = sock a
     \<and> (frags_ok (frag (cached a)) \<longrightarrow> frags_ok (frag (cached b))
        \<and> (\<forall>p < from_offset a. content (frag (cached b)) p = content (frag (cached a)) p)
        \<and> (\<forall>i < length d. content (frag (cached b)) (from_offset a + i) = Some (d ! i)))"

lemma wrote_refl [simp]: "wrote a [] a"
  by (simp add: wrote_def)

lemma wrote_trans:
  assumes "wrote a d b" "wrote b e c"
  shows "wrote a (d @ e) c"
proof -
  have "content (frag (cached c)) (from_offset a + i) = Some ((d @ e) ! i)"
    if "frags_ok (frag (cached a))" "i < length (d @ e)" for i
  proof (cases "i < length d")
    case True
    then show ?thesis using assms that(1) by (auto simp: wrote_def nth_append)
  next
    case False
    then have i: "from_offset a + i = from_offset b + (i - length d)" "i - length d < length e"
      using assms(1) that(2) by (auto simp: wrote_def)
    have "content (frag (cached c)) (from_offset b + (i - length d)) = Some (e ! (i - length d))"
      using assms that(1) i(2) unfolding wrote_def by blast
    then show ?thesis using False i(1) by (simp add: nth_append)
  qed
  then show ?thesis using assms by (auto simp: wrote_def)
qed

lemma wrote_same:
  assumes "wrote a d b" "from_offset c = from_offset b" "content_encoded c = content_encoded b"
    and "body_length c = body_length b" "sock c = sock b" "cached c = cached b"
  shows "wrote a d c"
  using assms by (simp add: wrote_def)

lemma wrote_add:
  assumes "from_offset c = from_offset conn + length xs" "content_encoded c = content_encoded conn"
    and "body_length c = body_length conn" "sock c = sock conn" "cached c = cached (add_to_cache conn xs)"
  shows "wrote conn xs c"
proof (cases "xs = []")
  case True
  then show ?thesis using assms by (simp add: wrote_def add_to_cache_def add_fragment_def)
next
  case False
  obtain ret e sz where a: "add_fragment (cached conn) (from_offset conn) xs (next_id conn) (cache_sizes conn) = (ret, e, sz)"
    by (metis prod_cases3)
  then have e: "cached c = e" using assms(5) by (simp add: add_to_cache_def)
  show ?thesis
    using add_fragment_spec [OF _ False a] assms(1-4) e unfolding wrote_def added_def by auto
qed

subsection \<open>One turn of the loop\<close>

text \<open>What a turn does to the whole input, of which \<open>later\<close> has not arrived yet.\<close>

definition turn :: "string \<Rightarrow> 'z http_conn \<Rightarrow> loop_action \<Rightarrow> 'z http_conn \<Rightarrow> bool" where
  "turn later conn act conn' \<longleftrightarrow>
     (\<exists>d. wrote conn d conn' \<and>
       (let before = dechunk (chunk_remaining conn) (rb conn @ later);
            after = prepend d (dechunk (chunk_remaining conn') (rb conn' @ later))
        in case act of
             Again \<Rightarrow> before = after
           | Leave \<Rightarrow> before = after \<and> dechunk (chunk_remaining conn') (rb conn') = ([], Partial)
           | Return r \<Rightarrow> r = 2 \<and> before = (d, Done (rb conn' @ later)) \<or> r = -1 \<and> before = (d, Bad)
           | Memory_Error \<Rightarrow> False))"

lemma turn_wrote:
  assumes "wrote conn d mid" "turn later mid act conn'"
    and "dechunk (chunk_remaining conn) (rb conn @ later) = prepend d (dechunk (chunk_remaining mid) (rb mid @ later))"
  shows "turn later conn act conn'"
proof -
  obtain e where "wrote mid e conn'" and e: "let before = dechunk (chunk_remaining mid) (rb mid @ later);
            after = prepend e (dechunk (chunk_remaining conn') (rb conn' @ later))
        in case act of
             Again \<Rightarrow> before = after
           | Leave \<Rightarrow> before = after \<and> dechunk (chunk_remaining conn') (rb conn') = ([], Partial)
           | Return r \<Rightarrow> r = 2 \<and> before = (e, Done (rb conn' @ later)) \<or> r = -1 \<and> before = (e, Bad)
           | Memory_Error \<Rightarrow> False"
    using assms(2) unfolding turn_def by blast
  then have "wrote conn (d @ e) conn'" using wrote_trans [OF assms(1)] by blast
  then show ?thesis unfolding turn_def using e assms(3) by (intro exI [of _ "d @ e"]) (auto simp: Let_def split: loop_action.splits)
qed

lemma sock_kill [simp]: "sock (kill_buffer_data conn n) = sock conn"
  by (simp add: kill_buffer_data_def)

lemma chunk_end_turn:
  assumes "chunk_end conn got = (act, conn', got')" "0 \<le> chunk_remaining conn" "chunk_remaining conn = 0 \<or> rb conn = []"
  shows "turn later conn act conn'"
proof (cases "chunk_remaining conn = 0 \<and> rb conn \<noteq> []")
  case False
  then have "rb conn = []" "act = Leave" "conn' = conn" using assms by (auto simp: chunk_end_def)
  then show ?thesis using dechunk_data [OF assms(2), of "[]"] assms(2) unfolding turn_def by (intro exI [of _ "[]"]) simp
next
  case True
  obtain a u where r: "rb conn = a # u" using True by (cases "rb conn") auto
  have d: "dechunk 0 (a # v) = (if a = LF then dechunk CHUNK_SIZE v
      else if a \<noteq> CR \<or> v \<noteq> [] \<and> hd v \<noteq> LF then ([], Bad)
      else if v = [] then ([], Partial) else dechunk CHUNK_SIZE (tl v))" for v
    using dechunk_data [of 0 "a # v"] by (cases v) (simp_all add: Let_def numeral_2_eq_2)
  have w: "wrote conn [] (c\<lparr>chunk_remaining := k\<rparr>)" if "c = kill_buffer_data conn n" for c k n
    by (rule wrote_same [OF wrote_refl]) (simp_all add: that)
  consider (lf) "a = LF" | (bad) "a \<noteq> LF" "a \<noteq> CR \<or> u \<noteq> [] \<and> hd u \<noteq> LF" | (wait) "a = CR" "u = []"
    | (crlf) v where "a = CR" "u = LF # v" by (cases u) auto
  then show ?thesis
  proof cases
    case lf
    then have "act = Again" "conn' = (kill_buffer_data conn 1)\<lparr>chunk_remaining := CHUNK_SIZE\<rparr>"
      using assms(1) True r by (auto simp: chunk_end_def)
    then show ?thesis unfolding turn_def using w [of _ 1] True r lf d
      by (intro exI [of _ "[]"]) (simp add: rb_kill Let_def)
  next
    case bad
    then have "act = Return (-1)" "conn' = conn" using assms(1) True r by (auto simp: chunk_end_def hd_conv_nth Suc_le_eq split: if_splits)
    then show ?thesis unfolding turn_def using True r bad d
      by (intro exI [of _ "[]"]) (auto simp: Let_def)
  next
    case wait
    then have "act = Leave" "conn' = conn" using assms(1) True r by (auto simp: chunk_end_def)
    then show ?thesis unfolding turn_def using True r wait d
      by (intro exI [of _ "[]"]) (simp add: Let_def)
  next
    case crlf
    then have "act = Again" "conn' = (kill_buffer_data conn 2)\<lparr>chunk_remaining := CHUNK_SIZE\<rparr>"
      using assms(1) True r by (auto simp: chunk_end_def)
    then show ?thesis unfolding turn_def using w [of _ 2] True r crlf d
      by (intro exI [of _ "[]"]) (simp add: rb_kill Let_def)
  qed
qed

lemma cached_kill [simp]: "cached (kill_buffer_data conn n) = cached conn"
  by (simp add: kill_buffer_data_def)

lemma add_to_cache_cong:
  assumes "cached a = cached b" "from_offset a = from_offset b" "next_id a = next_id b" "cache_sizes a = cache_sizes b"
  shows "cached (add_to_cache a xs) = cached (add_to_cache b xs)"
  using assms by (simp add: add_to_cache_def split: prod.splits)

lemma chunk_data_turn:
  assumes "chunk_data dec conn len got = (act, conn', got')" "\<not> content_encoded conn" "0 \<le> len"
    and "chunk_remaining conn = CHUNK_ZERO_SIZE \<and> len = 0
      \<or> 0 \<le> chunk_remaining conn \<and> len = min (chunk_remaining conn) (int (length (rb conn)))"
  shows "turn later conn act conn'"
proof -
  let ?zero = "chunk_remaining conn = CHUNK_ZERO_SIZE"
  let ?xs = "take (nat len) (rb conn)"
  let ?c1 = "conn\<lparr>received := received conn + len,
      chunk_remaining := (if chunk_remaining conn > 0 then chunk_remaining conn - len else chunk_remaining conn)\<rparr>"
  let ?c2 = "add_to_cache ?c1 ?xs"
  let ?c3 = "kill_buffer_data (?c2\<lparr>from_offset := from_offset ?c2 + length ?xs\<rparr>) len"
  have step: "(act, conn', got') = (if ?zero then (Again, ?c3\<lparr>chunk_remaining := CHUNK_DATA_END\<rparr>, got + length ?xs)
      else chunk_end ?c3 (got + length ?xs))"
    using assms(1,2) by (simp add: chunk_data_def write_body_def Let_def)
  have cache: "cached ?c2 = cached (add_to_cache conn ?xs)" by (rule add_to_cache_cong) simp_all
  have w: "wrote conn ?xs ?c3" by (rule wrote_add) (use cache in simp_all)
  have le: "len \<le> int (length (rb conn))" using assms(4) by auto
  have rb3: "rb ?c3 = drop (nat len) (rb conn)" using le assms(3) by (simp add: rb_kill)
  show ?thesis
  proof (cases ?zero)
    case True
    then have l: "len = 0" "act = Again" "conn' = ?c3\<lparr>chunk_remaining := CHUNK_DATA_END\<rparr>" using assms(4) step by auto
    have "wrote conn [] conn'" using w l(1) wrote_same [OF w, of conn'] l(3) by simp
    moreover have "rb conn' = rb conn" using rb3 l by simp
    ultimately show ?thesis unfolding turn_def using l True dechunk_zero [of "rb conn @ later"]
      by (intro exI [of _ "[]"]) (simp add: Let_def)
  next
    case False
    then have st: "0 \<le> chunk_remaining conn" "len = min (chunk_remaining conn) (int (length (rb conn)))" using assms(4) by auto
    have e: "chunk_end ?c3 (got + length ?xs) = (act, conn', got')" using step False by simp
    have r3: "chunk_remaining ?c3 = chunk_remaining conn - len" using st by auto
    have stop: "chunk_remaining ?c3 = 0 \<or> rb ?c3 = []" using r3 rb3 st by (auto simp: min_def)
    have "turn later ?c3 act conn'" using chunk_end_turn [OF e _ stop] r3 st by simp
    moreover have "dechunk (chunk_remaining conn) (rb conn @ later) = prepend ?xs (dechunk (chunk_remaining ?c3) (rb ?c3 @ later))"
      using dechunk_portion [of "chunk_remaining conn" "nat len" "rb conn @ later"] st assms(3) le r3 rb3 by simp
    ultimately show ?thesis using turn_wrote [OF w] by blast
  qed
qed

lemma chunk_step_turn:
  assumes "chunk_step dec junk conn got = (act, conn', got')" "\<not> content_encoded conn"
    and clear: "snd (dechunk (chunk_remaining conn) (rb conn @ later)) \<noteq> Unclear"
  shows "turn later conn act conn'"
proof -
  let ?l = "is_line_in_buffer (rb conn)"
  have "nat ?l \<le> length (rb conn)" using line_bounds [of "rb conn"] by (cases "?l = 0"; cases "?l = -1") auto
  then have app: "?l \<noteq> 0 \<Longrightarrow> is_line_in_buffer (rb conn @ later) = ?l"
    "take (nat ?l) (rb conn @ later) = take (nat ?l) (rb conn)" "drop (nat ?l) (rb conn @ later) = drop (nat ?l) (rb conn) @ later"
    using line_append [of "rb conn"] by simp_all
  have killed: "rb (kill_buffer_data conn ?l) = drop (nat ?l) (rb conn)" if "?l \<noteq> 0" "?l \<noteq> -1"
    using line_bounds [OF that] by (simp add: rb_kill)
  have w: "wrote conn [] (kill_buffer_data conn ?l)" "wrote conn [] ((kill_buffer_data conn ?l)\<lparr>chunk_remaining := k\<rparr>)" for k
    by (rule wrote_same [OF wrote_refl]; simp)+
  consider (trailer) "chunk_remaining conn = CHUNK_DATA_END" | (size) "chunk_remaining conn = CHUNK_SIZE"
    | (data) "chunk_remaining conn \<noteq> CHUNK_DATA_END" "chunk_remaining conn \<noteq> CHUNK_SIZE" by blast
  then show ?thesis
  proof cases
    case trailer
    note d = dechunk_trailer [of "rb conn @ later", unfolded Let_def]
    consider "?l = 0" | "?l = -1" | "?l \<noteq> 0" "?l \<noteq> -1" by blast
    then show ?thesis
    proof cases
      case 1
      then have "act = Leave" "conn' = conn" using assms(1) trailer by (auto simp: chunk_step_def Let_def)
      then show ?thesis unfolding turn_def using trailer 1 dechunk_trailer [of "rb conn"] by (intro exI [of _ "[]"]) simp
    next
      case 2
      then have "act = Return (-1)" "conn' = conn" using assms(1) trailer by (auto simp: chunk_step_def Let_def)
      then show ?thesis unfolding turn_def using trailer 2 d app(1) by (intro exI [of _ "[]"]) simp
    next
      case 3
      then have "act = (if ?l \<le> 2 then Return 2 else Again)" "conn' = kill_buffer_data conn ?l"
        using assms(1) trailer by (auto simp: chunk_step_def Let_def split: if_splits)
      then show ?thesis unfolding turn_def using trailer 3 d [unfolded app(1) [OF 3(1)] app(2,3)] w killed by (intro exI [of _ "[]"]) simp
    qed
  next
    case size
    note d = dechunk_size [of "rb conn @ later", unfolded Let_def]
    consider "?l = 0" | "?l = -1" | "?l \<noteq> 0" "?l \<noteq> -1" by blast
    then show ?thesis
    proof cases
      case 1
      then have "act = Leave" "conn' = conn" using assms(1) size by (auto simp: chunk_step_def Let_def)
      then show ?thesis unfolding turn_def using size 1 dechunk_size [of "rb conn"] by (intro exI [of _ "[]"]) simp
    next
      case 2
      then have "act = Return (-1)" "conn' = conn" using assms(1) size by (auto simp: chunk_step_def Let_def)
      then show ?thesis unfolding turn_def using size 2 d app(1) by (intro exI [of _ "[]"]) simp
    next
      case 3
      let ?line = "take (nat ?l) (rb conn)"
      note d3 = d [unfolded app(1) [OF 3(1)] app(2,3)]
      have full: "\<not> list_all elinks_isspace ?line" using clear size 3 d3 by auto
      have cs: "chunk_size (rb conn @ junk) = chunk_size ?line" by (rule chunk_size_line [OF 3 full])
      show ?thesis
      proof (cases "chunk_size ?line")
        case None
        then have "act = Return (-1)" "conn' = conn" using assms(1) size 3 cs by (auto simp: chunk_step_def Let_def)
        then show ?thesis unfolding turn_def using size 3 d3 full None by (intro exI [of _ "[]"]) simp
      next
        case (Some n)
        have n: "\<not> n < 0" using clear size 3 d3 full Some by auto
        have "act = Again" "conn' = (kill_buffer_data conn ?l)\<lparr>chunk_remaining := (if n = 0 then CHUNK_ZERO_SIZE else n)\<rparr>"
          using assms(1) size 3 cs Some by (auto simp: chunk_step_def Let_def)
        then show ?thesis unfolding turn_def using size 3 d3 full Some n w killed by (intro exI [of _ "[]"]) simp
      qed
    qed
  next
    case data
    have st: "chunk_remaining conn = CHUNK_ZERO_SIZE \<or> 0 \<le> chunk_remaining conn"
      using clear data dechunk_negative [of "chunk_remaining conn"] by fastforce
    let ?len = "if chunk_remaining conn = CHUNK_ZERO_SIZE then 0 else min (chunk_remaining conn) (int (length (rb conn)))"
    have "\<not> ?len < 0" using st by auto
    then have "chunk_data dec conn ?len got = (act, conn', got')" using assms(1) data unfolding chunk_step_def Let_def by simp
    from chunk_data_turn [OF this assms(2)] st show ?thesis by auto
  qed
qed

subsection \<open>The loop and the packets\<close>

definition result :: "string \<Rightarrow> string \<times> outcome \<Rightarrow> int option \<Rightarrow> 'z http_conn \<Rightarrow> 'z http_conn \<Rightarrow> bool" where
  "result later before ret conn conn' \<longleftrightarrow>
     (\<exists>d. wrote conn d conn' \<and>
       (case ret of
          None \<Rightarrow> False
        | Some r \<Rightarrow>
            r = 2 \<and> before = (d, Done (rb conn' @ later)) \<or> r = -1 \<and> before = (d, Bad)
            \<or> r \<in> {0, 1} \<and> before = prepend d (dechunk (chunk_remaining conn') (rb conn' @ later))
                \<and> dechunk (chunk_remaining conn') (rb conn') = ([], Partial)))"

lemma chunk_loop_result:
  "chunk_loop dec junk conn got = (ret, conn') \<Longrightarrow> \<not> content_encoded conn \<Longrightarrow>
   snd (dechunk (chunk_remaining conn) (rb conn @ later)) \<noteq> Unclear \<Longrightarrow>
   result later (dechunk (chunk_remaining conn) (rb conn @ later)) ret conn conn'"
proof (induction dec junk conn got rule: chunk_loop.induct)
  case (1 dec junk conn got)
  obtain act c1 got1 where st: "chunk_step dec junk conn got = (act, c1, got1)" by (metis prod_cases3)
  obtain d where w: "wrote conn d c1" and d: "let before = dechunk (chunk_remaining conn) (rb conn @ later);
            after = prepend d (dechunk (chunk_remaining c1) (rb c1 @ later))
        in case act of
             Again \<Rightarrow> before = after
           | Leave \<Rightarrow> before = after \<and> dechunk (chunk_remaining c1) (rb c1) = ([], Partial)
           | Return r \<Rightarrow> r = 2 \<and> before = (d, Done (rb c1 @ later)) \<or> r = -1 \<and> before = (d, Bad)
           | Memory_Error \<Rightarrow> False"
    using chunk_step_turn [OF st 1(3,4)] unfolding turn_def by blast
  show ?case
  proof (cases act)
    case Again
    then have b: "dechunk (chunk_remaining conn) (rb conn @ later) = prepend d (dechunk (chunk_remaining c1) (rb c1 @ later))"
      using d by (simp add: Let_def)
    have l: "chunk_loop dec junk c1 got1 = (ret, conn')" using 1(2) st Again by (subst (asm) chunk_loop.simps) simp
    have "result later (dechunk (chunk_remaining c1) (rb c1 @ later)) ret c1 conn'"
      using 1(1) [OF st [symmetric] refl Again l] Again 1(3,4) w b by (simp add: wrote_def)
    then obtain e where "wrote c1 e conn'" and e: "case ret of
          None \<Rightarrow> False
        | Some r \<Rightarrow>
            r = 2 \<and> dechunk (chunk_remaining c1) (rb c1 @ later) = (e, Done (rb conn' @ later))
            \<or> r = -1 \<and> dechunk (chunk_remaining c1) (rb c1 @ later) = (e, Bad)
            \<or> r \<in> {0, 1} \<and> dechunk (chunk_remaining c1) (rb c1 @ later)
                = prepend e (dechunk (chunk_remaining conn') (rb conn' @ later))
                \<and> dechunk (chunk_remaining conn') (rb conn') = ([], Partial)"
      unfolding result_def by blast
    then have "wrote conn (d @ e) conn'" using wrote_trans [OF w] by blast
    then show ?thesis unfolding result_def using e b by (intro exI [of _ "d @ e"]) (auto split: option.splits)
  next
    case Leave
    then have "ret = Some (if got1 \<noteq> 0 then 1 else 0)" "conn' = c1" using 1(2) st by (subst (asm) chunk_loop.simps, simp)+
    then show ?thesis unfolding result_def using w d Leave by (intro exI [of _ d]) (auto simp: Let_def)
  next
    case (Return r)
    then have "ret = Some r" "conn' = c1" using 1(2) st by (subst (asm) chunk_loop.simps, simp)+
    then show ?thesis unfolding result_def using w d Return by (intro exI [of _ d]) (auto simp: Let_def)
  next
    case Memory_Error
    then show ?thesis using d by simp
  qed
qed

text \<open>The connection between two packets: nothing can be decoded from what is in the buffer.\<close>

definition waiting :: "'z http_conn \<Rightarrow> bool" where
  "waiting conn \<longleftrightarrow> \<not> content_encoded conn \<and> body_length conn = LEN_CHUNKED \<and> sock conn \<noteq> SOCKET_CLOSED
     \<and> dechunk (chunk_remaining conn) (rb conn) = ([], Partial)"

abbreviation received_bytes :: "(string \<times> string) list \<Rightarrow> string" where
  "received_bytes ps \<equiv> concat (map fst ps)"

lemma feed_result:
  "feed dec ps conn = (act, conn', rest) \<Longrightarrow> waiting conn \<Longrightarrow>
   dechunk (chunk_remaining conn) (rb conn @ received_bytes ps) = (d, out) \<Longrightarrow> out \<noteq> Unclear \<Longrightarrow>
   wrote conn d conn' \<and>
   (case out of
      Done r \<Rightarrow> act = Closed \<and> rb conn' @ received_bytes rest = r
    | Bad \<Rightarrow> act = Abort
    | Partial \<Rightarrow> (\<exists>b. act = More b) \<and> rest = []
    | Unclear \<Rightarrow> False)"
proof (induction dec ps conn arbitrary: d out rule: feed.induct)
  case (1 dec conn)
  then show ?case by (auto simp: waiting_def)
next
  case (2 dec p junk ps conn)
  let ?c = "conn\<lparr>rb := rb conn @ p\<rparr>"
  obtain ret c1 where l: "chunk_loop dec junk ?c 0 = (ret, c1)" by fastforce
  have read: "read_http_data dec junk ?c = (case ret of
              None \<Rightarrow> Undefined
            | Some r \<Rightarrow> if r = 0 then More False else if r = 1 then More True else if r = 2 then Closed else Abort, c1)"
    using 2(3) l by (simp add: waiting_def read_http_data_def Let_def read_chunked_http_data_def)
  have b: "dechunk (chunk_remaining ?c) (rb ?c @ received_bytes ps) = (d, out)" using 2(4) by simp
  have r: "result (received_bytes ps) (d, out) ret ?c c1"
    using chunk_loop_result [OF l, of "received_bytes ps"] b 2(3,5) by (simp add: waiting_def)
  then obtain e where w: "wrote ?c e c1" and e: "case ret of
          None \<Rightarrow> False
        | Some r \<Rightarrow>
            r = 2 \<and> (d, out) = (e, Done (rb c1 @ received_bytes ps)) \<or> r = -1 \<and> (d, out) = (e, Bad)
            \<or> r \<in> {0, 1} \<and> (d, out) = prepend e (dechunk (chunk_remaining c1) (rb c1 @ received_bytes ps))
                \<and> dechunk (chunk_remaining c1) (rb c1) = ([], Partial)"
    unfolding result_def by blast
  have w': "wrote conn e c1" using w by (simp add: wrote_def)
  obtain v where v: "ret = Some v" using e by (cases ret) auto
  consider (stop) "v = 2" "out = Done (rb c1 @ received_bytes ps)" "d = e" | (bad) "v = -1" "out = Bad" "d = e"
    | (wait) "v \<in> {0, 1}" "(d, out) = prepend e (dechunk (chunk_remaining c1) (rb c1 @ received_bytes ps))"
        "dechunk (chunk_remaining c1) (rb c1) = ([], Partial)"
    using e v by auto
  then show ?case
  proof cases
    case stop
    then have "act = Closed" "conn' = c1" "rest = ps" using 2(2) read v by auto
    then show ?thesis using stop w' by simp
  next
    case bad
    then have "act = Abort" "conn' = c1" using 2(2) read v by auto
    then show ?thesis using bad w' by simp
  next
    case wait
    then have act: "read_http_data dec junk ?c = (More (v = 1), c1)" using read v by auto
    then have f: "feed dec ps c1 = (act, conn', rest)" using 2(2) by simp
    have wt: "waiting c1" using 2(3) wait(3) w by (simp add: waiting_def wrote_def)
    obtain d2 where d2: "dechunk (chunk_remaining c1) (rb c1 @ received_bytes ps) = (d2, out)" "d = e @ d2"
      using wait(2) by (cases "dechunk (chunk_remaining c1) (rb c1 @ received_bytes ps)") auto
    from 2(1) [OF act [symmetric] refl f wt d2(1) 2(5)] show ?thesis using wrote_trans [OF w'] d2(2) by blast
  qed
qed

end
