(* ===== verification/Http_Claims.thy ===== *)
theory Http_Claims
  imports Http_Chunked
begin

text \<open>
  The properties of chunked bodies: independence of the packets, and the round trip of an encoded
  body; with the inputs for which the decoder is unclear.
\<close>

subsection \<open>The format\<close>

fun hexnum :: "nat \<Rightarrow> string" where
  "hexnum n = (if n < 16 then [hx n] else hexnum (n div 16) @ [hx (n mod 16)])"

declare hexnum.simps [simp del]

abbreviation CRLF :: string where "CRLF \<equiv> [CR, LF]"

text \<open>A chunk is its extension and its data.\<close>

definition chunk_text :: "string \<times> string \<Rightarrow> string" where
  "chunk_text c = hexnum (length (snd c)) @ fst c @ CRLF @ snd c @ CRLF"

definition chunked_body :: "(string \<times> string) list \<Rightarrow> string \<Rightarrow> string list \<Rightarrow> string" where
  "chunked_body chunks ext trailers =
     concat (map chunk_text chunks) @ ''0'' @ ext @ CRLF @ concat (map (\<lambda>t. t @ CRLF) trailers) @ CRLF"

definition printable :: "string \<Rightarrow> bool" where
  "printable s \<longleftrightarrow> list_all (\<lambda>c. 32 \<le> uchar c) s"

definition extension :: "string \<Rightarrow> bool" where
  "extension ext \<longleftrightarrow> printable ext \<and> (ext = [] \<or> hd ext = CHR '';'' \<or> hd ext = CHR '' '')"

definition body_ok :: "(string \<times> string) list \<Rightarrow> string \<Rightarrow> string list \<Rightarrow> bool" where
  "body_ok chunks ext trailers \<longleftrightarrow>
     list_all (\<lambda>(e, d). extension e \<and> d \<noteq> [] \<and> length d < 2 ^ 31) chunks \<and> extension ext
     \<and> list_all (\<lambda>t. printable t \<and> t \<noteq> []) trailers"

lemma hexnum_digits: "list_all (\<lambda>c. 0 \<le> unhx c) (hexnum n) \<and> hexnum n \<noteq> [] \<and> digits_value 16 (hexnum n) = n"
proof (induction n rule: hexnum.induct)
  case (1 n)
  show ?case
  proof (cases "n < 16")
    case True
    then show ?thesis by (simp add: hexnum.simps [of n] digits_value_def)
  next
    case False
    then show ?thesis using 1 by (simp add: hexnum.simps [of n] digits_value_snoc)
  qed
qed

lemma unhx_chars: "0 \<le> unhx c \<Longrightarrow> 32 \<le> uchar c \<and> \<not> elinks_isspace c \<and> c \<noteq> CHR ''-'' \<and> c \<noteq> CHR ''+'' \<and> c \<noteq> CHR ''x'' \<and> c \<noteq> CHR ''X''"
  by (auto simp: unhx_def isdigit_def elinks_isspace_def split: if_splits)

lemma line_loop_printable: "printable xs \<Longrightarrow> line_loop l (xs @ CR # LF # t) = l + int (length xs) + 2"
proof (induction xs arbitrary: l)
  case (Cons c xs)
  then have "32 \<le> uchar c" "c \<noteq> LF" "c \<noteq> CR" by (auto simp: printable_def)
  then show ?case using Cons by (simp add: printable_def)
qed simp

lemma line_printable: "printable xs \<Longrightarrow> is_line_in_buffer (xs @ CR # LF # t) = int (length xs) + 2"
  by (simp add: is_line_in_buffer_def line_loop_printable)

lemma strtol16_digits:
  assumes "list_all (\<lambda>c. 0 \<le> unhx c) ds" "ds \<noteq> []" "unhx e < 0" "e \<noteq> CHR ''x''" "e \<noteq> CHR ''X''"
    and "int (digits_value 16 ds) < 2 ^ 63"
  shows "strtol16 (ds @ e # t) = (int (digits_value 16 ds), length ds, True)"
proof -
  obtain c r where ds: "ds = c # r" using assms(2) by (cases ds) auto
  have c: "\<not> elinks_isspace c" "c \<noteq> CHR ''-''" "c \<noteq> CHR ''+''" using unhx_chars assms(1) ds by auto
  have tw: "takeWhile elinks_isspace (ds @ e # t) = []" using ds c(1) by simp
  have sg: "(if deref (ds @ e # t) = CHR ''-'' \<or> deref (ds @ e # t) = CHR ''+'' then 1 else 0 :: nat) = 0" using ds c by simp
  have "char_at (ds @ e # t) 1 \<noteq> CHR ''x'' \<and> char_at (ds @ e # t) 1 \<noteq> CHR ''X''"
    using ds assms(1,4,5) unhx_chars by (cases r) (auto simp: char_at_def)
  then have pf: "(if deref (ds @ e # t) = CHR ''0'' \<and> (char_at (ds @ e # t) 1 = CHR ''x'' \<or> char_at (ds @ e # t) 1 = CHR ''X'')
      \<and> unhx (char_at (ds @ e # t) 2) \<ge> 0 then 2 else 0 :: nat) = 0" by simp
  have xd: "xdigits (ds @ e # t) = ds"
    using assms(1,3) by (simp add: xdigits_def takeWhile_append list_all_iff takeWhile_eq_all_conv)
  have m: "deref (ds @ e # t) \<noteq> CHR ''-''" using ds c by simp
  show ?thesis unfolding strtol16_def tw Let_def list.size drop0 sg pf xd using assms(2,6) m by simp
qed

lemma dechunk_size_line:
  assumes "n < 2 ^ 31" "extension ext"
  shows "dechunk CHUNK_SIZE (hexnum n @ ext @ CRLF @ t) = dechunk (if n = 0 then CHUNK_ZERO_SIZE else int n) t"
proof -
  let ?h = "hexnum n"
  note h = hexnum_digits [of n]
  have pr: "printable (?h @ ext)" using h unhx_chars assms(2) by (auto simp: printable_def extension_def list_all_iff)
  have l: "is_line_in_buffer (?h @ ext @ CRLF @ t) = int (length (?h @ ext)) + 2"
    using line_printable [OF pr, of t] by simp
  have line: "take (nat (int (length (?h @ ext)) + 2)) (?h @ ext @ CRLF @ t) = ?h @ ext @ CRLF"
    "drop (nat (int (length (?h @ ext)) + 2)) (?h @ ext @ CRLF @ t) = t"
    by (simp_all add: nat_add_distrib)
  obtain e u where e: "ext @ CRLF = e # u" "unhx e < 0" "e \<noteq> CHR ''x''" "e \<noteq> CHR ''X''" "e \<noteq> NUL"
    using assms(2) by (cases ext) (auto simp: extension_def unhx_def isdigit_def)
  have "strtol16 (?h @ ext @ CRLF) = (int n, length ?h, True)"
    using strtol16_digits [of ?h e u] h e assms(1) by simp
  moreover have "char_at (?h @ ext @ CRLF) (length ?h) = e" unfolding e(1) by (simp add: char_at_def)
  ultimately have cs: "chunk_size (?h @ ext @ CRLF) = Some (int n)"
    using e(5) h assms(1) by (simp add: chunk_size_def to_int32_def)
  have "\<not> list_all elinks_isspace ?h" using h unhx_chars by (cases ?h) auto
  then show ?thesis unfolding dechunk_size l Let_def line using cs by simp
qed

lemma dechunk_chunk:
  assumes "extension e" "d \<noteq> []" "length d < 2 ^ 31"
  shows "dechunk CHUNK_SIZE (chunk_text (e, d) @ t) = prepend d (dechunk CHUNK_SIZE t)"
proof -
  have "dechunk CHUNK_SIZE (chunk_text (e, d) @ t) = dechunk (int (length d)) (d @ CRLF @ t)"
    using dechunk_size_line [OF assms(3,1), of "d @ CRLF @ t"] assms(2) by (simp add: chunk_text_def)
  also have "\<dots> = prepend d (dechunk CHUNK_SIZE t)"
    by (subst dechunk_data) (simp_all add: Let_def numeral_2_eq_2)
  finally show ?thesis .
qed

lemma dechunk_trailers:
  "list_all (\<lambda>t. printable t \<and> t \<noteq> []) ts \<Longrightarrow> dechunk CHUNK_DATA_END (concat (map (\<lambda>t. t @ CRLF) ts) @ CRLF @ rest) = ([], Done rest)"
proof (induction ts)
  case Nil
  then show ?case using line_printable [of "[]" rest] by (subst dechunk_trailer) (simp add: printable_def Let_def)
next
  case (Cons t ts)
  let ?s = "concat (map (\<lambda>t. t @ CRLF) ts) @ CRLF @ rest"
  have l: "is_line_in_buffer (t @ CR # LF # ?s) = int (length t) + 2" using Cons.prems by (intro line_printable) simp
  have "drop (nat (int (length t) + 2)) (t @ CR # LF # ?s) = ?s" by (simp add: nat_add_distrib)
  moreover have "\<not> int (length t) + 2 \<le> 2" using Cons.prems by (cases t) auto
  ultimately have "dechunk CHUNK_DATA_END (t @ CR # LF # ?s) = dechunk CHUNK_DATA_END ?s"
    using l by (subst dechunk_trailer) (simp add: Let_def)
  then show ?case using Cons by simp
qed

lemma dechunk_body:
  assumes "body_ok chunks ext trailers"
  shows "dechunk CHUNK_SIZE (chunked_body chunks ext trailers @ rest) = (concat (map snd chunks), Done rest)"
proof -
  let ?tl = "''0'' @ ext @ CRLF @ concat (map (\<lambda>t. t @ CRLF) trailers) @ CRLF @ rest"
  have zero: "hexnum 0 = ''0''" by (simp add: hexnum.simps hx_def) code_simp
  have fin: "dechunk CHUNK_SIZE ?tl = ([], Done rest)"
    using dechunk_size_line [of 0 ext "concat (map (\<lambda>t. t @ CRLF) trailers) @ CRLF @ rest"] assms
      dechunk_trailers [of trailers rest] dechunk_zero zero by (simp add: body_ok_def)
  have "list_all (\<lambda>(e, d). extension e \<and> d \<noteq> [] \<and> length d < 2 ^ 31) cs \<Longrightarrow>
      dechunk CHUNK_SIZE (concat (map chunk_text cs) @ ?tl) = (concat (map snd cs), Done rest)" for cs
  proof (induction cs)
    case Nil
    then show ?case using fin by simp
  next
    case (Cons c cs)
    then show ?case using dechunk_chunk [of "fst c" "snd c" "concat (map chunk_text cs) @ ?tl"] by auto
  qed
  then show ?thesis using assms by (simp add: body_ok_def chunked_body_def)
qed

subsection \<open>Properties\<close>

text \<open>A connection on which the header of a chunked response has just been read.\<close>

definition body_start :: "'z http_conn \<Rightarrow> bool" where
  "body_start conn \<longleftrightarrow> chunk_remaining conn = CHUNK_SIZE \<and> rb conn = [] \<and> body_length conn = LEN_CHUNKED
     \<and> sock conn \<noteq> SOCKET_CLOSED \<and> \<not> content_encoded conn"

lemma body_start_waiting: "body_start conn \<Longrightarrow> waiting conn"
  using dechunk_size [of "[]"] by (simp add: body_start_def waiting_def is_line_in_buffer_def)

text \<open>
  C35: However a chunked response is cut into packets, and whatever lies behind the valid bytes of the
  buffer, the loop over the chunks decodes what \<open>dechunk\<close> decodes from the whole: the same bytes go
  to the cache, one behind the other from the position of the connection on, the transfer is
  finished, aborted or waits for more accordingly, and the bytes behind the body are left over.
  Excluded are blank and negative sizes, for which the decoder has no meaning.
\<close>
theorem chunked_any_packets:
  assumes "body_start conn" "feed dec packets conn = (act, conn', rest)"
    and "dechunk CHUNK_SIZE (received_bytes packets) = (d, out)" "out \<noteq> Unclear"
  shows "from_offset conn' = from_offset conn + length d
    \<and> (frags_ok (frag (cached conn)) \<longrightarrow> frags_ok (frag (cached conn'))
        \<and> (\<forall>i < length d. content (frag (cached conn')) (from_offset conn + i) = Some (d ! i)))
    \<and> (case out of
         Done r \<Rightarrow> act = Closed \<and> rb conn' @ received_bytes rest = r
       | Bad \<Rightarrow> act = Abort
       | Partial \<Rightarrow> (\<exists>b. act = More b) \<and> rest = []
       | Unclear \<Rightarrow> False)"
proof -
  have "dechunk (chunk_remaining conn) (rb conn @ received_bytes packets) = (d, out)"
    using assms(1,3) by (simp add: body_start_def)
  from feed_result [OF assms(2) body_start_waiting [OF assms(1)] this assms(4)] show ?thesis
    by (auto simp: wrote_def)
qed

definition empty_entry :: entry_data where
  "empty_entry = \<lparr>frag = [], elength = 0, incomplete = True, cache_id = 0\<rparr>"

definition new_conn :: "unit http_conn" where
  "new_conn = \<lparr>chunk_remaining = CHUNK_SIZE, body_length = LEN_CHUNKED, rb = [], from_offset = 0, received = 0, tries = 0,
     content_encoded = False, stream = None, sock = SOCKET_END_ONCLOSE, cached = empty_entry, cache_sizes = (0, 0), next_id = 1\<rparr>"

abbreviation no_decoder :: "unit decoder" where
  "no_decoder \<equiv> (\<lambda>z xs. (z, None))"

lemma new_conn_start: "body_start new_conn" "frags_ok (frag (cached new_conn))" "from_offset new_conn = 0"
  by (simp_all add: new_conn_def body_start_def empty_entry_def)

theorem chunked_any_packets_witness:
  "\<exists>act conn' rest. feed no_decoder [(''3'' @ [CR], ''junk''), ([LF] @ ''ab'', []), (''c'' @ CRLF @ ''5'', [])] new_conn = (act, conn', rest)
    \<and> from_offset conn' = 3 \<and> content (frag (cached conn')) 2 = Some (CHR ''c'') \<and> (\<exists>b. act = More b)"
proof -
  let ?ps = "[(''3'' @ [CR], ''junk''), ([LF] @ ''ab'', []), (''c'' @ CRLF @ ''5'', [])]"
  obtain act conn' rest where f: "feed no_decoder ?ps new_conn = (act, conn', rest)" by (metis prod_cases3)
  have d: "dechunk CHUNK_SIZE (received_bytes ?ps) = (''abc'', Partial)" by code_simp
  have "content (frag (cached conn')) (from_offset new_conn + 2) = Some (''abc'' ! 2)"
    "from_offset conn' = from_offset new_conn + 3" "\<exists>b. act = More b"
    using chunked_any_packets [OF new_conn_start(1) f d] new_conn_start(2) by auto
  then have "content (frag (cached conn')) 2 = Some (CHR ''c'')" "from_offset conn' = 3" "\<exists>b. act = More b"
    using new_conn_start(3) by (simp_all add: numeral_2_eq_2)
  with f show ?thesis by blast
qed

text \<open>
  C36: A body in the chunked coding, with any extensions and trailers, arrives in the cache as the
  concatenation of its chunks, whatever the packets are; the transfer ends with the body and what
  follows it stays for the next response.
\<close>
theorem chunked_body_round_trip:
  assumes "body_start conn" "frags_ok (frag (cached conn))" "body_ok chunks ext trailers"
    and "received_bytes packets = chunked_body chunks ext trailers @ after"
    and "feed dec packets conn = (act, conn', rest)"
  shows "act = Closed \<and> rb conn' @ received_bytes rest = after
    \<and> from_offset conn' = from_offset conn + length (concat (map snd chunks))
    \<and> (\<forall>i < length (concat (map snd chunks)).
         content (frag (cached conn')) (from_offset conn + i) = Some (concat (map snd chunks) ! i))"
proof -
  have "dechunk (chunk_remaining conn) (rb conn @ received_bytes packets) = (concat (map snd chunks), Done after)"
    using dechunk_body [OF assms(3), of after] assms(1,4) by (simp add: body_start_def)
  from feed_result [OF assms(5) body_start_waiting [OF assms(1)] this] show ?thesis
    using assms(2) by (simp add: wrote_def)
qed

theorem chunked_body_round_trip_witness:
  "\<exists>conn' rest. feed no_decoder [(''3;a'' @ CRLF @ ''ab'', []), (''c'' @ CRLF @ ''0'', ''7''), (CRLF @ CRLF @ ''HTTP'', [])] new_conn
      = (Closed, conn', rest)
    \<and> rb conn' @ received_bytes rest = ''HTTP'' \<and> content (frag (cached conn')) 2 = Some (CHR ''c'')"
proof -
  let ?ps = "[(''3;a'' @ CRLF @ ''ab'', []), (''c'' @ CRLF @ ''0'', ''7''), (CRLF @ CRLF @ ''HTTP'', [])]"
  obtain act conn' rest where f: "feed no_decoder ?ps new_conn = (act, conn', rest)" by (metis prod_cases3)
  have "hexnum (length ''abc'') = ''3''" by code_simp
  then have r: "received_bytes ?ps = chunked_body [('';a'', ''abc'')] [] [] @ ''HTTP''"
    unfolding chunked_body_def chunk_text_def by simp
  have ok: "body_ok [('';a'', ''abc'')] [] []" by (simp add: body_ok_def extension_def printable_def)
  have c: "act = Closed" "rb conn' @ received_bytes rest = ''HTTP''"
    "content (frag (cached conn')) (from_offset new_conn + 2) = Some (concat (map snd [('';a'', ''abc'')]) ! 2)"
    using chunked_body_round_trip [OF new_conn_start(1,2) ok r f] by auto
  then have "content (frag (cached conn')) 2 = Some (CHR ''c'')" using new_conn_start(3) by (simp add: numeral_2_eq_2)
  with f c(1,2) show ?thesis by auto
qed

subsection \<open>What is not excluded\<close>

text \<open>A negative size is accepted and becomes the length of a memory area.\<close>
lemma negative_size:
  "fst (read_http_data no_decoder [] (new_conn\<lparr>rb := ''-5'' @ CRLF @ ''abc''\<rparr>)) = Undefined"
  by code_simp

text \<open>Sizes are cut to 32 bits: \<open>2 ^ 32\<close> is the size of the last chunk.\<close>
lemma size_truncated: "chunk_size (hexnum (2 ^ 32) @ CRLF) = Some 0"
proof -
  let ?h = "hexnum (2 ^ 32)"
  note h = hexnum_digits [of "2 ^ 32"]
  have "int (digits_value 16 ?h) = 2 ^ 32" using h by simp
  then have "strtol16 (?h @ CRLF) = (2 ^ 32, length ?h, True)"
    using strtol16_digits [of ?h CR "[LF]"] h by (simp add: unhx_def isdigit_def)
  moreover have "char_at (?h @ CRLF) (length ?h) = CR" by (simp add: char_at_def)
  ultimately show ?thesis using h by (simp add: chunk_size_def to_int32_def)
qed

text \<open>A trailer line of one character that ends in a line feed alone is taken for the end of the body.\<close>
lemma short_trailer_ends: "dechunk CHUNK_SIZE (''0'' @ CRLF @ ''x'' @ [LF] @ ''y: z'' @ CRLF @ CRLF) = ([], Done (''y: z'' @ CRLF @ CRLF))"
  by code_simp

text \<open>
  For a blank line \<open>strtol\<close> reads the next line, if that has arrived or something like a number lies
  behind the valid bytes; so the outcome depends on the packets.
\<close>
lemma blank_size_line:
  "fst (feed no_decoder [([LF], []), (''1'' @ CRLF, [])] new_conn) = Abort" "chunk_size ([LF] @ ''1'' @ CRLF) = Some 1"
  by code_simp+

end
