(* ===== verification/Fastfind.thy ===== *)
theory Fastfind
  imports Util_String
begin

text \<open>
  \<open>src/util/fastfind.c\<close>: the index over a fixed list of keywords (HTML elements, colours,
  character sets) as a tree of arrays, and its search. The memory blocks of the leafsets are
  the list \<open>blocks\<close>, addressed by position; a freed block is \<open>None\<close>, and fresh blocks go to
  the end. \<open>leafsets\<close> is the array of pointers to them, whose element 0 the code never uses,
  and \<open>leafsets_count\<close> is its length less one. The 32-bit nodes are the configured variant
  (\<open>USE_32_BITS\<close>), so \<open>struct ff_node\<close> is \<open>struct ff_node_c\<close>; values are stored in their bit
  fields. An access outside an array, through the index \<open>-1\<close> or to a freed block is the
  outcome \<open>Undefined\<close>; a failed assertion, which ends with a NULL index, is \<open>Failed\<close>.
  Allocations succeed. The C library's \<open>toupper\<close>, which depends on the locale, is an argument.
\<close>

subsection \<open>Data\<close>

record ff_node =
  ff_e :: bool
  ff_c :: bool
  ff_p :: nat
  ff_l :: nat
  ff_ch :: nat

record 'd ff_data =
  ff_pointer :: 'd
  ff_keylen :: nat

record 'd fastfind_info =
  ff_datas :: "'d ff_data list"
  blocks :: "ff_node list option list"
  leafsets :: "nat list"
  root_leafset :: nat
  min_key_len :: nat
  max_key_len :: nat
  uniq_chars :: "char list"
  ff_count :: nat
  idxtab :: "int list"
  case_aware :: bool
  locale_indep :: bool
  compress :: bool

datatype 'a ff_result = Undefined | Failed | Returned 'a

definition POINTER_INDEX_BITS :: nat where "POINTER_INDEX_BITS = 10"
definition LEAFSET_INDEX_BITS :: nat where "LEAFSET_INDEX_BITS = 13"
definition COMP_CHAR_INDEX_BITS :: nat where "COMP_CHAR_INDEX_BITS = 7"
definition FF_MAX_KEYS :: nat where "FF_MAX_KEYS = 2 ^ POINTER_INDEX_BITS"
definition FF_MAX_LEAFSETS :: nat where "FF_MAX_LEAFSETS = 2 ^ LEAFSET_INDEX_BITS - 1"
definition FF_MAX_CHARS :: nat where "FF_MAX_CHARS = 2 ^ COMP_CHAR_INDEX_BITS"
definition FF_MAX_KEYLEN :: nat where "FF_MAX_KEYLEN = 255"

definition leafsets_count :: "'d fastfind_info \<Rightarrow> nat" where
  "leafsets_count info = length (leafsets info) - 1"

definition uniq_chars_count :: "'d fastfind_info \<Rightarrow> nat" where
  "uniq_chars_count info = length (uniq_chars info)"

definition empty_node :: ff_node where
  "empty_node = \<lparr>ff_e = False, ff_c = False, ff_p = 0, ff_l = 0, ff_ch = 0\<rparr>"

text \<open>The node at position \<open>j\<close> of the block at address \<open>a\<close>, and its update.\<close>

definition node_at :: "'d fastfind_info \<Rightarrow> nat \<Rightarrow> nat \<Rightarrow> ff_node option" where
  "node_at info a j =
     (if a < length (blocks info)
      then case blocks info ! a of
             None \<Rightarrow> None
           | Some b \<Rightarrow> if j < length b then Some (b ! j) else None
      else None)"

definition set_node :: "nat \<Rightarrow> nat \<Rightarrow> ff_node \<Rightarrow> 'd fastfind_info \<Rightarrow> 'd fastfind_info" where
  "set_node a j nd info =
     info\<lparr>blocks := (blocks info)[a := map_option (\<lambda>b. b[j := nd]) (blocks info ! a)]\<rparr>"

subsection \<open>Building the index\<close>

definition init_fastfind :: "bool \<Rightarrow> bool \<Rightarrow> bool \<Rightarrow> 'd fastfind_info" where
  "init_fastfind ca li co =
     \<lparr>ff_datas = [], blocks = [None], leafsets = [0], root_leafset = 0,
      min_key_len = FF_MAX_KEYLEN, max_key_len = 0, uniq_chars = [], ff_count = 0, idxtab = [],
      case_aware = ca, locale_indep = li, compress = co\<rparr>"

definition ifcase :: "(char \<Rightarrow> int) \<Rightarrow> 'd fastfind_info \<Rightarrow> char \<Rightarrow> int" where
  "ifcase toupper info c =
     (if case_aware info then schar c
      else if locale_indep info then schar (c_toupper c) else toupper c)"

definition char2idx :: "char \<Rightarrow> 'd fastfind_info \<Rightarrow> int" where
  "char2idx c info =
     (let n = length (takeWhile (\<lambda>x. x \<noteq> c) (uniq_chars info))
      in if n < uniq_chars_count info then int n else -1)"

definition init_idxtab :: "'d fastfind_info \<Rightarrow> 'd fastfind_info" where
  "init_idxtab info = info\<lparr>idxtab := map (\<lambda>i. char2idx (char_of i) info) [0..<FF_MAX_CHARS]\<rparr>"

text \<open>The conversion of an \<open>int\<close> to \<open>unsigned char\<close>.\<close>

definition byte_of :: "int \<Rightarrow> char" where
  "byte_of k = char_of (nat (k mod 256))"

fun scan_chars :: "(char \<Rightarrow> int) \<Rightarrow> string \<Rightarrow> 'd fastfind_info \<Rightarrow> 'd fastfind_info ff_result" where
  "scan_chars toupper [] info = Returned info"
| "scan_chars toupper (c # cs) info =
     (let k = ifcase toupper info c
      in if \<not> k < int FF_MAX_CHARS then Failed
         else if char2idx (byte_of k) info = -1
         then if \<not> uniq_chars_count info < FF_MAX_CHARS then Failed
              else scan_chars toupper cs (info\<lparr>uniq_chars := uniq_chars info @ [byte_of k]\<rparr>)
         else scan_chars toupper cs info)"

fun scan_keys ::
  "(char \<Rightarrow> int) \<Rightarrow> (string \<times> 'd) list \<Rightarrow> 'd fastfind_info \<Rightarrow> 'd fastfind_info ff_result" where
  "scan_keys toupper [] info = Returned info"
| "scan_keys toupper ((key, d) # kvs) info =
     (let key_len = length key
      in if \<not> (0 < key_len \<and> key_len \<le> FF_MAX_KEYLEN) then Failed
         else case scan_chars toupper key
                     (info\<lparr>min_key_len := min key_len (min_key_len info),
                           max_key_len := max key_len (max_key_len info)\<rparr>) of
                Returned info \<Rightarrow> scan_keys toupper kvs (info\<lparr>ff_count := ff_count info + 1\<rparr>)
              | r \<Rightarrow> r)"

definition alloc_leafset :: "'d fastfind_info \<Rightarrow> 'd fastfind_info ff_result" where
  "alloc_leafset info =
     (if \<not> leafsets_count info < FF_MAX_LEAFSETS then Failed
      else Returned (info\<lparr>blocks := blocks info @ [Some (replicate (uniq_chars_count info) empty_node)],
                          leafsets := leafsets info @ [length (blocks info)]\<rparr>))"

definition add_to_ff_data :: "'d \<Rightarrow> nat \<Rightarrow> 'd fastfind_info \<Rightarrow> 'd fastfind_info" where
  "add_to_ff_data p key_len info =
     info\<lparr>ff_datas := ff_datas info @ [\<lparr>ff_pointer = p, ff_keylen = key_len\<rparr>]\<rparr>"

text \<open>
  \<open>info->idxtab[k]\<close>, used as the index of a node: a position in the table and a node there
  exist only for the characters of the alphabet.
\<close>

definition idx_of :: "'d fastfind_info \<Rightarrow> int \<Rightarrow> nat option" where
  "idx_of info k =
     (if 0 \<le> k \<and> k < int (length (idxtab info)) \<and> 0 \<le> idxtab info ! nat k
      then Some (nat (idxtab info ! nat k)) else None)"

text \<open>The loop that descends from the leafset at \<open>a\<close> along a key and enters its data.\<close>

fun enter_key ::
  "(char \<Rightarrow> int) \<Rightarrow> 'd \<Rightarrow> nat \<Rightarrow> string \<Rightarrow> nat \<Rightarrow> 'd fastfind_info \<Rightarrow> 'd fastfind_info ff_result" where
  "enter_key toupper d key_len [] a info = Undefined"
| "enter_key toupper d key_len (c # cs) a info =
     (case idx_of info (ifcase toupper info c) of
        None \<Rightarrow> Undefined
      | Some idx \<Rightarrow>
          (case node_at info a idx of
             None \<Rightarrow> Undefined
           | Some nd \<Rightarrow>
               if cs = []
               then Returned (add_to_ff_data d key_len
                      (set_node a idx (nd\<lparr>ff_e := True,
                        ff_p := length (ff_datas info) mod 2 ^ POINTER_INDEX_BITS\<rparr>) info))
               else if ff_l nd = 0
               then (case alloc_leafset info of
                       Returned info \<Rightarrow>
                         let l = leafsets_count info mod 2 ^ LEAFSET_INDEX_BITS;
                             info = set_node a idx (nd\<lparr>ff_l := l\<rparr>) info
                         in enter_key toupper d key_len cs (leafsets info ! l) info
                     | r \<Rightarrow> r)
               else enter_key toupper d key_len cs (leafsets info ! ff_l nd) info))"

fun enter_keys ::
  "(char \<Rightarrow> int) \<Rightarrow> (string \<times> 'd) list \<Rightarrow> 'd fastfind_info \<Rightarrow> 'd fastfind_info ff_result" where
  "enter_keys toupper [] info = Returned info"
| "enter_keys toupper ((key, d) # kvs) info =
     (case enter_key toupper d (length key) key (root_leafset info) info of
        Returned info \<Rightarrow> enter_keys toupper kvs info
      | r \<Rightarrow> r)"

subsection \<open>Compression\<close>

definition compress_node :: "nat \<Rightarrow> nat \<Rightarrow> nat \<Rightarrow> 'd fastfind_info \<Rightarrow> 'd fastfind_info" where
  "compress_node a i pos info =
     (case node_at info a pos of
        None \<Rightarrow> info
      | Some nd \<Rightarrow>
          info\<lparr>blocks := (blocks info)[leafsets info ! i := None]
                           @ [Some [nd\<lparr>ff_c := True, ff_ch := pos mod 2 ^ COMP_CHAR_INDEX_BITS\<rparr>]],
               leafsets := (leafsets info)[i := length (blocks info)]\<rparr>)"

text \<open>
  The first loop of \<open>compress_tree\<close> over the nodes \<open>is\<close> of the leafset at \<open>a\<close>, with the
  function \<open>rec\<close> for the recursive call: the number of nodes in use and the last of them.
\<close>

fun compress_children ::
  "(nat \<Rightarrow> 'd fastfind_info \<Rightarrow> 'd fastfind_info ff_result) \<Rightarrow> nat \<Rightarrow> nat list \<Rightarrow> nat \<times> nat
    \<Rightarrow> 'd fastfind_info \<Rightarrow> ('d fastfind_info \<times> nat \<times> nat) ff_result" where
  "compress_children rec a [] cp info = Returned (info, cp)"
| "compress_children rec a (i # is) (cnt, pos) info =
     (case node_at info a i of
        None \<Rightarrow> Undefined
      | Some nd \<Rightarrow>
          if ff_c nd then compress_children rec a is (cnt, pos) info
          else case (if ff_l nd = 0 then Returned info else rec (leafsets info ! ff_l nd) info) of
                 Returned info \<Rightarrow>
                   compress_children rec a is
                     (if ff_l nd \<noteq> 0 \<or> ff_e nd then (cnt + 1, i) else (cnt, pos)) info
               | Undefined \<Rightarrow> Undefined
               | Failed \<Rightarrow> Failed)"

text \<open>
  The recursion goes down a tree, as the leafset a node points to was allocated after its
  own: the number of leafsets bounds its depth and is the fuel; it never runs out
  (\<open>Failed\<close>).
\<close>

primrec compress_tree :: "nat \<Rightarrow> nat \<Rightarrow> 'd fastfind_info \<Rightarrow> 'd fastfind_info ff_result" where
  "compress_tree 0 a info = Failed"
| "compress_tree (Suc n) a info =
     (case compress_children (compress_tree n) a [0..<uniq_chars_count info] (0, 0) info of
        Returned (info, cnt, pos) \<Rightarrow>
          (case node_at info a pos of
             None \<Rightarrow> Undefined
           | Some nd \<Rightarrow>
               if cnt \<noteq> 1 \<or> ff_c nd then Returned info
               else case List.find (\<lambda>i. leafsets info ! i = a) [1..<leafsets_count info] of
                      Some i \<Rightarrow> Returned (compress_node a i pos info)
                    | None \<Rightarrow> Returned info)
      | Undefined \<Rightarrow> Undefined
      | Failed \<Rightarrow> Failed)"

text \<open>
  \<open>fastfind_index\<close> on the list of keys and data its iterator \<open>index->next\<close> yields, with its
  three flags. An empty list gives NULL, like a failed assertion.
\<close>

definition fastfind_index ::
  "(char \<Rightarrow> int) \<Rightarrow> bool \<Rightarrow> bool \<Rightarrow> bool \<Rightarrow> (string \<times> 'd) list \<Rightarrow> 'd fastfind_info ff_result" where
  "fastfind_index toupper ca li co kvs =
     (case scan_keys toupper kvs (init_fastfind ca li co) of
        Returned info \<Rightarrow>
          if ff_count info = 0 then Failed
          else (case alloc_leafset (init_idxtab info) of
                  Returned info \<Rightarrow>
                    if \<not> ff_count info < FF_MAX_KEYS then Failed
                    else (case enter_keys toupper kvs
                                 (info\<lparr>root_leafset := leafsets info ! leafsets_count info\<rparr>) of
                            Returned info \<Rightarrow>
                              if compress info
                              then compress_tree (leafsets_count info) (root_leafset info) info
                              else Returned info
                          | r \<Rightarrow> r)
                | r \<Rightarrow> r)
      | r \<Rightarrow> r)"

subsection \<open>Search\<close>

text \<open>
  The loop \<open>FF_SEARCH\<close> over the characters that are left of the key, with \<open>current\<close> at the
  start of the leafset at \<open>a\<close>. The table \<open>idxtab\<close> is read at negative \<open>k\<close>, too.
\<close>

fun ff_search ::
  "(char \<Rightarrow> int) \<Rightarrow> nat \<Rightarrow> string \<Rightarrow> nat \<Rightarrow> 'd fastfind_info \<Rightarrow> 'd option ff_result" where
  "ff_search toupper key_len [] a info = Returned None"
| "ff_search toupper key_len (c # cs) a info =
     (let k = ifcase toupper info c
      in if int FF_MAX_CHARS \<le> k then Returned None
         else if k < 0 then Undefined
         else if idxtab info ! nat k < 0 then Returned None
         else let lidx = nat (idxtab info ! nat k)
         in case node_at info a 0 of
              None \<Rightarrow> Undefined
            | Some current \<Rightarrow>
                if ff_c current \<and> ff_ch current \<noteq> lidx then Returned None
                else case (if ff_c current then Some current else node_at info a lidx) of
                       None \<Rightarrow> Undefined
                     | Some current \<Rightarrow>
                         if ff_e current \<and> key_len = ff_keylen (ff_datas info ! ff_p current)
                         then Returned (Some (ff_pointer (ff_datas info ! ff_p current)))
                         else if ff_l current = 0 then Returned None
                         else ff_search toupper key_len cs (leafsets info ! ff_l current) info)"

definition fastfind_search ::
  "(char \<Rightarrow> int) \<Rightarrow> 'd fastfind_info \<Rightarrow> string \<Rightarrow> nat \<Rightarrow> 'd option ff_result" where
  "fastfind_search toupper info key key_len =
     (if key_len > max_key_len info then Returned None
      else if key_len < min_key_len info then Returned None
      else ff_search toupper key_len (map (char_at key) [0..<key_len]) (root_leafset info) info)"

end
