(* ===== verification/Fastfind_Tree.thy ===== *)
theory Fastfind_Tree
  imports Fastfind
begin

text \<open>
  The tree behind the arrays of the keyword index. A leafset, named by its number in the array
  of leafsets, and a position in it give a step: whether a key ends there, the data, and the
  number of the next leafset. The steps form a tree from leafset 1 on; a plain and a
  compressed leafset are two forms of the same steps. The entries of the tree are the keys
  entered so far, and the search finds exactly these.
\<close>

subsection \<open>Steps and walks\<close>

type_synonym steps = "nat \<Rightarrow> nat \<Rightarrow> (bool \<times> nat \<times> nat) option"

definition used_node :: "ff_node \<Rightarrow> (bool \<times> nat \<times> nat) option" where
  "used_node nd = (if ff_e nd \<or> ff_l nd \<noteq> 0 then Some (ff_e nd, ff_p nd, ff_l nd) else None)"

definition block_steps :: "ff_node list \<Rightarrow> nat \<Rightarrow> (bool \<times> nat \<times> nat) option" where
  "block_steps b j =
     (if ff_c (b ! 0) then if ff_ch (b ! 0) = j then used_node (b ! 0) else None
      else if j < length b then used_node (b ! j) else None)"

definition info_steps :: "'d fastfind_info \<Rightarrow> steps" where
  "info_steps info i j =
     (if 1 \<le> i \<and> i \<le> leafsets_count info
      then case blocks info ! (leafsets info ! i) of
             Some b \<Rightarrow> block_steps b j
           | None \<Rightarrow> None
      else None)"

definition step_link :: "steps \<Rightarrow> nat \<Rightarrow> nat \<Rightarrow> nat" where
  "step_link F i j = (case F i j of Some (e, p, l) \<Rightarrow> l | None \<Rightarrow> 0)"

definition step_end :: "steps \<Rightarrow> nat \<Rightarrow> nat \<Rightarrow> nat option" where
  "step_end F i j = (case F i j of Some (e, p, l) \<Rightarrow> if e then Some p else None | None \<Rightarrow> None)"

fun walk :: "steps \<Rightarrow> nat \<Rightarrow> nat list \<Rightarrow> nat option" where
  "walk F i [] = Some i"
| "walk F i (j # w) = (if step_link F i j = 0 then None else walk F (step_link F i j) w)"

definition tree_entry :: "steps \<Rightarrow> nat list \<Rightarrow> nat \<Rightarrow> nat option" where
  "tree_entry F w j = (case walk F 1 w of None \<Rightarrow> None | Some i \<Rightarrow> step_end F i j)"

lemma walk_append:
  "walk F i (v @ w) = (case walk F i v of None \<Rightarrow> None | Some k \<Rightarrow> walk F k w)"
  by (induction v arbitrary: i) auto

lemma step_end_link [simp]: "F i j = None \<Longrightarrow> step_end F i j = None \<and> step_link F i j = 0"
  by (simp add: step_end_def step_link_def)

text \<open>The steps form a tree: links go to later leafsets, and no two links to the same one.\<close>

definition tree_steps :: "steps \<Rightarrow> nat \<Rightarrow> bool" where
  "tree_steps F n \<longleftrightarrow> 1 \<le> n
    \<and> (\<forall>i j. step_link F i j \<noteq> 0 \<longrightarrow> 1 \<le> i \<and> i < step_link F i j \<and> step_link F i j \<le> n)
    \<and> (\<forall>i j i' j'. step_link F i j \<noteq> 0 \<longrightarrow> step_link F i j = step_link F i' j' \<longrightarrow> i = i' \<and> j = j')"

lemma tree_stepsD:
  assumes "tree_steps F n" "step_link F i j \<noteq> 0"
  shows "1 \<le> i" "i < step_link F i j" "step_link F i j \<le> n"
  using assms unfolding tree_steps_def by blast+

lemma tree_steps_inj:
  "tree_steps F n \<Longrightarrow> step_link F i j \<noteq> 0 \<Longrightarrow> step_link F i j = step_link F i' j' \<Longrightarrow> i = i' \<and> j = j'"
  unfolding tree_steps_def by blast

lemma walk_bounds:
  "tree_steps F n \<Longrightarrow> 1 \<le> i \<Longrightarrow> i \<le> n \<Longrightarrow> walk F i w = Some k \<Longrightarrow> i \<le> k \<and> k \<le> n"
proof (induction w arbitrary: i)
  case (Cons j w)
  then have l: "step_link F i j \<noteq> 0" "walk F (step_link F i j) w = Some k"
    by (auto split: if_splits)
  show ?case using Cons.IH [OF Cons.prems(1) _ _ l(2)] tree_stepsD [OF Cons.prems(1) l(1)] by linarith
qed simp

lemma walk_root:
  assumes "tree_steps F n" "walk F 1 w = Some k"
  shows "1 \<le> k \<and> k \<le> n"
  using walk_bounds [OF assms(1) _ _ assms(2)] assms(1) by (simp add: tree_steps_def)

lemma walk_snocD:
  "walk F i (w @ [j]) = Some k \<Longrightarrow> \<exists>m. walk F i w = Some m \<and> step_link F m j = k \<and> k \<noteq> 0"
  by (auto simp: walk_append split: option.splits if_splits)

lemma walk_inj:
  "tree_steps F n \<Longrightarrow> walk F 1 v = Some k \<Longrightarrow> walk F 1 w = Some k \<Longrightarrow> v = w"
proof (induction v arbitrary: w k rule: rev_induct)
  case Nil
  show ?case
  proof (cases w rule: rev_cases)
    case (snoc w' j)
    then obtain m where m: "walk F 1 w' = Some m" "step_link F m j = k" "k \<noteq> 0"
      using walk_snocD Nil(3) by blast
    then have "1 \<le> m" "m < k" using walk_root [OF Nil(1) m(1)] tree_stepsD [OF Nil(1), of m j] by auto
    then show ?thesis using Nil(2) by simp
  qed simp
next
  case (snoc j v)
  obtain m where m: "walk F 1 v = Some m" "step_link F m j = k" "k \<noteq> 0"
    using walk_snocD snoc.prems(2) by blast
  show ?case
  proof (cases w rule: rev_cases)
    case Nil
    then have "k = 1" using snoc.prems(3) by simp
    then show ?thesis using walk_root [OF snoc.prems(1) m(1)] tree_stepsD [OF snoc.prems(1), of m j] m by auto
  next
    case w: (snoc w' j')
    then obtain m' where m': "walk F 1 w' = Some m'" "step_link F m' j' = k"
      using walk_snocD snoc.prems(3) by blast
    have "m = m' \<and> j = j'" using tree_steps_inj [OF snoc.prems(1), of m j m' j'] m m' by simp
    then show ?thesis using snoc.IH [OF snoc.prems(1) m(1)] m'(1) w by simp
  qed
qed

subsection \<open>Adding a leafset and adding a key to the steps\<close>

lemma link_walk:
  assumes t: "tree_steps F n" and i: "1 \<le> i" "i \<le> n" and free: "step_link F i j = 0"
    and G: "\<And>i' j'. step_link G i' j' = (if i' = i \<and> j' = j then Suc n else step_link F i' j')"
  shows "walk G 1 w = walk F 1 w \<or> (walk F 1 w = None \<and> walk G 1 w = Some (Suc n))"
proof (induction w rule: rev_induct)
  case (snoc k w)
  show ?case
  proof (cases "walk F 1 w")
    case None
    have "step_link F (Suc n) k = 0" using tree_stepsD [OF t, of "Suc n" k] by fastforce
    then have "step_link G (Suc n) k = 0" using G i by auto
    then show ?thesis using snoc None by (auto simp: walk_append)
  next
    case (Some m)
    then show ?thesis using snoc G free by (auto simp: walk_append)
  qed
qed simp

lemma link_tree:
  assumes t: "tree_steps F n" and i: "1 \<le> i" "i \<le> n" and free: "step_link F i j = 0"
    and G: "\<And>i' j'. step_link G i' j' = (if i' = i \<and> j' = j then Suc n else step_link F i' j')"
  shows "tree_steps G (Suc n)"
proof -
  have le: "step_link F i' j' \<le> n" for i' j'
    using tree_stepsD (3) [OF t, of i' j'] by (cases "step_link F i' j' = 0") auto
  have 1: "1 \<le> i' \<and> i' < step_link G i' j' \<and> step_link G i' j' \<le> Suc n" if nz: "step_link G i' j' \<noteq> 0" for i' j'
  proof (cases "i' = i \<and> j' = j")
    case True
    then show ?thesis using i G [of i' j'] by simp
  next
    case False
    have eq: "step_link G i' j' = step_link F i' j'" using G [of i' j'] unfolding if_not_P [OF False] .
    then show ?thesis using tree_stepsD [OF t, of i' j'] nz by simp
  qed
  have 2: "a = c \<and> b = d" if nz: "step_link G a b \<noteq> 0" and same: "step_link G a b = step_link G c d" for a b c d
  proof -
    have new: "step_link F x y \<noteq> Suc n" for x y using le [of x y] by simp
    have keep: "\<not> (x = i \<and> y = j) \<Longrightarrow> step_link G x y = step_link F x y" for x y
      by (rule trans [OF G if_not_P])
    have changed: "step_link G x y = Suc n \<longleftrightarrow> x = i \<and> y = j" for x y
    proof (cases "x = i \<and> y = j")
      case True
      then show ?thesis using trans [OF G [of x y] if_P [OF True]] by blast
    next
      case False
      then show ?thesis using new [of x y] by (simp only: keep [OF False] False)
    qed
    show ?thesis
    proof (cases "a = i \<and> b = j")
      case True
      then show ?thesis using same changed by metis
    next
      case False
      then have "\<not> (c = i \<and> d = j)" using same changed by metis
      from keep [OF False] keep [OF this] have "step_link F a b \<noteq> 0" "step_link F a b = step_link F c d"
        using nz same by simp_all
      then show ?thesis by (rule tree_steps_inj [OF t])
    qed
  qed
  show ?thesis unfolding tree_steps_def
  proof (intro conjI allI impI)
    fix a b c d
    assume "step_link G a b \<noteq> 0" "step_link G a b = step_link G c d"
    then have "a = c \<and> b = d" by (rule 2)
    then show "a = c" "b = d" by auto
  qed (use 1 in auto)
qed

lemma link_entry:
  assumes "tree_steps F n" "1 \<le> i" "i \<le> n" "step_link F i j = 0"
    and G: "\<And>i' j'. step_link G i' j' = (if i' = i \<and> j' = j then Suc n else step_link F i' j')"
    and E: "\<And>i' j'. step_end G i' j' = step_end F i' j'" and new: "\<And>j. step_end F (Suc n) j = None"
  shows "tree_entry G w k = tree_entry F w k"
proof -
  have "step_end G = step_end F" using E by (intro ext) simp
  then show ?thesis using link_walk [OF assms(1-4) G, of w] new by (cases "walk F 1 w") (auto simp: tree_entry_def)
qed

lemma end_entry:
  assumes "tree_steps F n" "walk F 1 u = Some i"
    and G: "\<And>i' j'. step_link G i' j' = step_link F i' j'"
    and E: "\<And>i' j'. step_end G i' j' = (if i' = i \<and> j' = j then Some p else step_end F i' j')"
  shows "tree_entry G w k = (if w = u \<and> k = j then Some p else tree_entry F w k)"
proof -
  have "walk G m w = walk F m w" for m w by (induction w arbitrary: m) (simp_all add: G)
  then have te: "tree_entry G w k = (case walk F 1 w of None \<Rightarrow> None | Some m \<Rightarrow> step_end G m k)"
    by (simp add: tree_entry_def)
  show ?thesis
  proof (cases "walk F 1 w")
    case None
    then show ?thesis using te assms(2) by (auto simp: tree_entry_def)
  next
    case (Some m)
    then have "m = i \<longleftrightarrow> w = u" using walk_inj [OF assms(1,2), of w] assms(2) by auto
    then show ?thesis using te Some E [of m k] by (simp add: tree_entry_def)
  qed
qed

subsection \<open>The search\<close>

text \<open>The tree with the data holds the map \<open>M\<close> from words over the alphabet to data.\<close>

definition holds_map :: "steps \<Rightarrow> 'd ff_data list \<Rightarrow> (nat list \<rightharpoonup> 'd) \<Rightarrow> bool" where
  "holds_map F ds M \<longleftrightarrow> (\<forall>w j. case tree_entry F w j of
       None \<Rightarrow> M (w @ [j]) = None
     | Some p \<Rightarrow> p < length ds \<and> ff_keylen (ds ! p) = Suc (length w)
                 \<and> M (w @ [j]) = Some (ff_pointer (ds ! p)))"

fun steps_search :: "steps \<Rightarrow> 'd ff_data list \<Rightarrow> nat \<Rightarrow> nat option list \<Rightarrow> nat \<Rightarrow> 'd option" where
  "steps_search F ds key_len [] i = None"
| "steps_search F ds key_len (None # js) i = None"
| "steps_search F ds key_len (Some j # js) i =
     (case F i j of
        None \<Rightarrow> None
      | Some (e, p, l) \<Rightarrow>
          if e \<and> key_len = ff_keylen (ds ! p) then Some (ff_pointer (ds ! p))
          else if l = 0 then None else steps_search F ds key_len js l)"

lemma holds_mapD:
  assumes "holds_map F ds M"
  shows "tree_entry F w j = None \<Longrightarrow> M (w @ [j]) = None"
    and "tree_entry F w j = Some p \<Longrightarrow> ff_keylen (ds ! p) = Suc (length w) \<and> M (w @ [j]) = Some (ff_pointer (ds ! p))"
  using spec [OF spec [OF assms [unfolded holds_map_def], of w], of j] by simp_all

lemma holds_map_stuck:
  assumes h: "holds_map F ds M" and w: "walk F 1 w = None"
  shows "M (w @ js @ [k]) = None"
proof -
  have "tree_entry F (w @ js) k = None" using w by (simp add: tree_entry_def walk_append)
  from holds_mapD(1) [OF h this] show ?thesis by simp
qed

lemma steps_search_holds:
  assumes h: "holds_map F ds M"
  shows "walk F 1 u = Some i \<Longrightarrow>
    steps_search F ds (length u + length ojs) ojs i
    = (if ojs = [] \<or> None \<in> set ojs then None else M (u @ map the ojs))"
proof (induction ojs arbitrary: u i)
  case (Cons oj ojs)
  show ?case
  proof (cases oj)
    case (Some j)
    have entry: "tree_entry F u j = step_end F i j" using Cons.prems by (simp add: tree_entry_def)
    have next_walk: "walk F 1 (u @ [j]) = (if step_link F i j = 0 then None else Some (step_link F i j))"
      using Cons.prems by (simp add: walk_append)
    have stuck: "M (u @ j # map the ojs) = None" if "step_link F i j = 0" "ojs \<noteq> []"
    proof -
      from that(2) obtain oks k where o: "ojs = oks @ [k]" by (cases ojs rule: rev_cases) auto
      show ?thesis using holds_map_stuck [OF h, of "u @ [j]" "map the oks" "the k"] next_walk that(1) by (simp add: o)
    qed
    show ?thesis
    proof (cases "F i j")
      case None
      then show ?thesis using Some stuck holds_mapD(1) [OF h, of u j] entry by (cases "ojs = []") simp_all
    next
      case (Some epl)
      obtain e p l where epl: "F i j = Some (e, p, l)" using Some by (cases epl) auto
      then have link: "step_link F i j = l" and en: "tree_entry F u j = (if e then Some p else None)"
        by (simp_all add: step_link_def entry step_end_def)
      show ?thesis
      proof (cases "ojs = []")
        case True
        then show ?thesis using epl en holds_mapD [OF h, of u j] \<open>oj = Some j\<close> by auto
      next
        case ne: False
        have nomatch: "\<not> (e \<and> length u + length (oj # ojs) = ff_keylen (ds ! p))"
          using holds_mapD(2) [OF h, of u j p] en ne by auto
        show ?thesis
        proof (cases "l = 0")
          case True
          then show ?thesis using stuck [OF _ ne] link nomatch epl \<open>oj = Some j\<close> by auto
        next
          case False
          then have "walk F 1 (u @ [j]) = Some l" using next_walk link by simp
          from Cons.IH [OF this] show ?thesis using False ne nomatch epl \<open>oj = Some j\<close> by auto
        qed
      qed
    qed
  qed simp
qed simp

subsection \<open>The arrays and the steps\<close>

text \<open>
  A leafset is a full array of plain nodes, or a single compressed node with its position.
\<close>

definition plain_block :: "nat \<Rightarrow> ff_node list \<Rightarrow> bool" where
  "plain_block u b \<longleftrightarrow> length b = u \<and> (\<forall>nd \<in> set b. \<not> ff_c nd)"

definition packed_block :: "nat \<Rightarrow> ff_node list \<Rightarrow> bool" where
  "packed_block u b \<longleftrightarrow> (\<exists>nd. b = [nd] \<and> ff_c nd \<and> ff_ch nd < u)"

definition leafset_block :: "'d fastfind_info \<Rightarrow> nat \<Rightarrow> ff_node list option" where
  "leafset_block info i =
     (if 1 \<le> i \<and> i \<le> leafsets_count info \<and> leafsets info ! i < length (blocks info)
      then blocks info ! (leafsets info ! i) else None)"

definition good_blocks :: "'d fastfind_info \<Rightarrow> bool" where
  "good_blocks info \<longleftrightarrow> 0 < uniq_chars_count info \<and> leafsets info \<noteq> []
    \<and> (\<forall>i. 1 \<le> i \<longrightarrow> i \<le> leafsets_count info \<longrightarrow>
         (\<exists>b. leafset_block info i = Some b
              \<and> (plain_block (uniq_chars_count info) b \<or> packed_block (uniq_chars_count info) b)))"

definition good_idxtab :: "'d fastfind_info \<Rightarrow> bool" where
  "good_idxtab info \<longleftrightarrow> length (idxtab info) = FF_MAX_CHARS
    \<and> (\<forall>k < FF_MAX_CHARS. idxtab info ! k < int (uniq_chars_count info))"

lemma good_blockE:
  assumes "good_blocks info" "1 \<le> i" "i \<le> leafsets_count info"
  obtains b where "leafset_block info i = Some b"
    "plain_block (uniq_chars_count info) b \<or> packed_block (uniq_chars_count info) b"
  using assms unfolding good_blocks_def by blast

lemma leafset_blockD:
  "leafset_block info i = Some b \<Longrightarrow> info_steps info i = block_steps b
    \<and> node_at info (leafsets info ! i) j = (if j < length b then Some (b ! j) else None)"
  by (auto simp: leafset_block_def info_steps_def node_at_def split: if_splits)

lemma block_steps_plain:
  assumes "plain_block u b" "0 < u"
  shows "block_steps b j = (if j < u then used_node (b ! j) else None)"
proof -
  have "b ! 0 \<in> set b" using assms by (auto simp: plain_block_def)
  then have "\<not> ff_c (b ! 0)" using assms(1) by (simp add: plain_block_def)
  then show ?thesis using assms(1) by (simp add: block_steps_def plain_block_def)
qed

text \<open>One character of the search: the node it reads and the step of the tree.\<close>

lemma search_node:
  assumes g: "good_blocks info" and i: "1 \<le> i" "i \<le> leafsets_count info" and j: "j < uniq_chars_count info"
  obtains current where "node_at info (leafsets info ! i) 0 = Some current"
      "ff_c current" "ff_ch current \<noteq> j" "info_steps info i j = None"
  | current nd where "node_at info (leafsets info ! i) 0 = Some current"
      "\<not> (ff_c current \<and> ff_ch current \<noteq> j)"
      "(if ff_c current then Some current else node_at info (leafsets info ! i) j) = Some nd"
      "info_steps info i j = used_node nd"
proof -
  obtain b where b: "leafset_block info i = Some b"
    "plain_block (uniq_chars_count info) b \<or> packed_block (uniq_chars_count info) b"
    using good_blockE [OF g i] .
  note at = leafset_blockD [OF b(1)]
  show ?thesis
  proof (cases "packed_block (uniq_chars_count info) b")
    case True
    then obtain nd where nd: "b = [nd]" "ff_c nd" by (auto simp: packed_block_def)
    then have 0: "node_at info (leafsets info ! i) 0 = Some nd" using at [of 0] by simp
    show ?thesis
    proof (cases "ff_ch nd = j")
      case True
      then show ?thesis using that(2) [of nd nd] 0 nd at by (simp add: block_steps_def)
    next
      case False
      then show ?thesis using that(1) [of nd] 0 nd at by (simp add: block_steps_def)
    qed
  next
    case False
    then have p: "plain_block (uniq_chars_count info) b" using b(2) by simp
    then have "length b = uniq_chars_count info" by (simp add: plain_block_def)
    then have nodes: "node_at info (leafsets info ! i) 0 = Some (b ! 0)"
      "node_at info (leafsets info ! i) j = Some (b ! j)" "b ! 0 \<in> set b"
      using at j by auto
    then have "\<not> ff_c (b ! 0)" using p by (simp add: plain_block_def)
    then show ?thesis using that(2) [of "b ! 0" "b ! j"] nodes at j block_steps_plain [OF p, of j] by simp
  qed
qed

lemma ff_search_steps:
  assumes g: "good_blocks info" and t: "tree_steps (info_steps info) (leafsets_count info)"
    and ix: "good_idxtab info"
  shows "1 \<le> i \<Longrightarrow> i \<le> leafsets_count info \<Longrightarrow> \<forall>c \<in> set cs. 0 \<le> ifcase toupper info c \<Longrightarrow>
    ff_search toupper key_len cs (leafsets info ! i) info
    = Returned (steps_search (info_steps info) (ff_datas info) key_len
        (map (\<lambda>c. idx_of info (ifcase toupper info c)) cs) i)"
proof (induction cs arbitrary: i)
  case (Cons c cs)
  define k where "k = ifcase toupper info c"
  have k: "0 \<le> k" using Cons.prems by (simp add: k_def)
  have len: "length (idxtab info) = FF_MAX_CHARS" using ix by (simp add: good_idxtab_def)
  consider "int FF_MAX_CHARS \<le> k" | "k < int FF_MAX_CHARS" "idxtab info ! nat k < 0"
    | "k < int FF_MAX_CHARS" "0 \<le> idxtab info ! nat k" by linarith
  then show ?case
  proof cases
    case 3
    define j where "j = nat (idxtab info ! nat k)"
    have "nat k < FF_MAX_CHARS" using 3(1) k by linarith
    then have "idxtab info ! nat k < int (uniq_chars_count info)" using ix by (simp add: good_idxtab_def)
    then have j: "j < uniq_chars_count info" using 3(2) by (simp add: j_def)
    have idx: "idx_of info k = Some j" using 3 k len by (simp add: idx_of_def j_def)
    show ?thesis
    proof (rule search_node [OF g Cons.prems(1,2) j], goal_cases)
      case (1 current)
      then show ?thesis using 3 k idx by (simp add: Let_def k_def [symmetric] j_def [symmetric])
    next
      case (2 current nd)
      have tail: "ff_search toupper key_len cs (leafsets info ! ff_l nd) info
        = Returned (steps_search (info_steps info) (ff_datas info) key_len
            (map (\<lambda>c. idx_of info (ifcase toupper info c)) cs) (ff_l nd))" if "ff_l nd \<noteq> 0"
      proof -
        have "step_link (info_steps info) i j = ff_l nd" using 2(4) that by (simp add: step_link_def used_node_def)
        then show ?thesis using tree_stepsD [OF t, of i j] that Cons by simp
      qed
      show ?thesis using 2 3 k idx tail
        by (cases "ff_c current") (auto simp: Let_def k_def [symmetric] j_def [symmetric] used_node_def)
    qed
  qed (use k len in \<open>simp_all add: Let_def idx_of_def k_def [symmetric]\<close>)
qed simp

end
