(* ===== verification/Fastfind_Build.thy ===== *)
theory Fastfind_Build
  imports Fastfind_Tree
begin

text \<open>
  Building the tree: entering a key adds exactly its entry, and the index holds the map from
  folded keys to data, where the later of two equal keys counts.
\<close>

subsection \<open>The blocks while the tree is built\<close>

text \<open>Leafset \<open>i\<close> is the block at address \<open>i\<close>, a full array, until the tree is compressed.\<close>

definition plain_blocks :: "'d fastfind_info \<Rightarrow> bool" where
  "plain_blocks info \<longleftrightarrow> 0 < uniq_chars_count info \<and> blocks info \<noteq> []
    \<and> leafsets info = [0..<length (blocks info)]
    \<and> (\<forall>i. 1 \<le> i \<longrightarrow> i < length (blocks info) \<longrightarrow>
         (\<exists>b. blocks info ! i = Some b \<and> plain_block (uniq_chars_count info) b))"

lemma plain_blocks_leafsets: "plain_blocks info \<Longrightarrow> leafsets info = [0..<length (blocks info)]"
  unfolding plain_blocks_def by blast

lemma plain_blocks_count: "plain_blocks info \<Longrightarrow> length (blocks info) = Suc (leafsets_count info)"
  by (cases "blocks info") (simp_all add: plain_blocks_def leafsets_count_def)

lemma plain_blocks_length: "plain_blocks info \<Longrightarrow> length (leafsets info) = Suc (leafsets_count info)"
  using plain_blocks_count [of info] by (simp only: plain_blocks_leafsets length_upt diff_zero)

lemma plain_blocks_alphabet: "plain_blocks info \<Longrightarrow> 0 < uniq_chars_count info"
  by (simp add: plain_blocks_def)

lemma plain_blocks_leafset [simp]: "plain_blocks info \<Longrightarrow> i \<le> leafsets_count info \<Longrightarrow> leafsets info ! i = i"
proof -
  assume "plain_blocks info" "i \<le> leafsets_count info"
  then have "leafsets info = [0..<length (blocks info)]" "0 + i < length (blocks info)"
    using plain_blocks_count [of info] plain_blocks_leafsets [of info] by linarith+
  then show "leafsets info ! i = i" by (simp only: nth_upt)
qed

lemma plain_blocksE:
  assumes "plain_blocks info" "1 \<le> i" "i \<le> leafsets_count info"
  obtains b where "blocks info ! i = Some b" "plain_block (uniq_chars_count info) b" "leafset_block info i = Some b"
proof -
  have "i < length (blocks info)" using assms plain_blocks_count [of info] by simp
  then obtain b where b: "blocks info ! i = Some b" "plain_block (uniq_chars_count info) b"
    using assms(1,2) unfolding plain_blocks_def by blast
  then have "leafset_block info i = Some b"
    using assms \<open>i < length (blocks info)\<close> by (simp add: leafset_block_def)
  with b show ?thesis using that by blast
qed

lemma plain_blocks_good: "plain_blocks info \<Longrightarrow> good_blocks info"
  unfolding good_blocks_def
proof (intro conjI allI impI)
  assume p: "plain_blocks info"
  then show "0 < uniq_chars_count info" "leafsets info \<noteq> []" by (simp_all add: plain_blocks_def)
  fix i assume "1 \<le> i" "i \<le> leafsets_count info"
  then show "\<exists>b. leafset_block info i = Some b
    \<and> (plain_block (uniq_chars_count info) b \<or> packed_block (uniq_chars_count info) b)"
    using plain_blocksE [OF p] by metis
qed

lemma plain_blocks_steps:
  assumes "plain_blocks info" "1 \<le> i" "i \<le> leafsets_count info" "j < uniq_chars_count info"
  obtains nd where "node_at info i j = Some nd" "\<not> ff_c nd" "info_steps info i j = used_node nd"
proof -
  obtain b where b: "plain_block (uniq_chars_count info) b" "leafset_block info i = Some b"
    using plain_blocksE [OF assms(1-3)] .
  have len: "length b = uniq_chars_count info" using b(1) by (simp add: plain_block_def)
  have nd: "node_at info i j = Some (b ! j)" using leafset_blockD [OF b(2), of j] assms len by simp
  have "b ! j \<in> set b" using len assms(4) by simp
  then have "\<not> ff_c (b ! j)" using b(1) by (simp add: plain_block_def)
  moreover have "info_steps info i j = used_node (b ! j)"
    using leafset_blockD [OF b(2)] block_steps_plain [OF b(1), of j] assms(4) by simp
  ultimately show ?thesis using that [OF nd] by blast
qed

lemma plain_blocks_outside:
  assumes "plain_blocks info" "\<not> (1 \<le> i \<and> i \<le> leafsets_count info \<and> j < uniq_chars_count info)"
  shows "info_steps info i j = None"
proof (cases "1 \<le> i \<and> i \<le> leafsets_count info")
  case True
  then obtain b where b: "plain_block (uniq_chars_count info) b" "leafset_block info i = Some b"
    using plain_blocksE [OF assms(1)] by metis
  then show ?thesis using leafset_blockD [OF b(2)] block_steps_plain [OF b(1), of j]
      plain_blocks_alphabet [OF assms(1)] assms True by simp
qed (auto simp: info_steps_def)

lemma set_node_fields [simp]:
  "leafsets (set_node a j nd info) = leafsets info"
  "uniq_chars (set_node a j nd info) = uniq_chars info"
  "ff_datas (set_node a j nd info) = ff_datas info"
  "idxtab (set_node a j nd info) = idxtab info"
  "case_aware (set_node a j nd info) = case_aware info"
  "locale_indep (set_node a j nd info) = locale_indep info"
  "root_leafset (set_node a j nd info) = root_leafset info"
  "length (blocks (set_node a j nd info)) = length (blocks info)"
  "leafsets_count (set_node a j nd info) = leafsets_count info"
  "uniq_chars_count (set_node a j nd info) = uniq_chars_count info"
  by (simp_all add: set_node_def leafsets_count_def uniq_chars_count_def)

lemma plain_block_update:
  "plain_block u b \<Longrightarrow> \<not> ff_c nd \<Longrightarrow> plain_block u (b[j := nd])"
  by (auto simp: plain_block_def dest!: subsetD [OF set_update_subset_insert])

lemma set_node_blocks:
  assumes p: "plain_blocks info" and i: "1 \<le> i" "i \<le> leafsets_count info" and nd: "\<not> ff_c nd"
  shows "plain_blocks (set_node i j nd info)"
proof -
  obtain b where b: "blocks info ! i = Some b" "plain_block (uniq_chars_count info) b"
    using plain_blocksE [OF p i] .
  have "\<exists>b. blocks (set_node i j nd info) ! k = Some b \<and> plain_block (uniq_chars_count info) b"
    if k: "1 \<le> k" "k < length (blocks info)" for k
  proof (cases "k = i")
    case True
    then show ?thesis using b plain_block_update [OF b(2) nd] k by (simp add: set_node_def)
  next
    case False
    then show ?thesis using p k by (simp add: set_node_def plain_blocks_def)
  qed
  moreover have "blocks (set_node i j nd info) \<noteq> []" using p by (simp add: set_node_def plain_blocks_def)
  ultimately show ?thesis using p unfolding plain_blocks_def [of "set_node i j nd info"]
    by (simp add: plain_blocks_def [of info])
qed

lemma set_node_steps:
  assumes p: "plain_blocks info" and i: "1 \<le> i" "i \<le> leafsets_count info" and j: "j < uniq_chars_count info"
    and nd: "\<not> ff_c nd"
  shows "info_steps (set_node i j nd info) k m
    = (if k = i \<and> m = j then used_node nd else info_steps info k m)"
proof (cases "1 \<le> k \<and> k \<le> leafsets_count info")
  case True
  obtain b where b: "blocks info ! k = Some b" "plain_block (uniq_chars_count info) b" "leafset_block info k = Some b"
    using plain_blocksE [OF p] True by metis
  note q = set_node_blocks [OF p i nd, of j]
  obtain b' where b': "blocks (set_node i j nd info) ! k = Some b'" "plain_block (uniq_chars_count info) b'"
      "leafset_block (set_node i j nd info) k = Some b'"
    using plain_blocksE [OF q, of k] True by auto
  have len: "k < length (blocks info)" using True plain_blocks_count [OF p] by simp
  have "b' = (if k = i then b[j := nd] else b)" using b(1) b'(1) len by (auto simp: set_node_def)
  moreover have "length b = uniq_chars_count info" using b(2) by (simp add: plain_block_def)
  ultimately show ?thesis
    using leafset_blockD [OF b(3)] leafset_blockD [OF b'(3)] block_steps_plain [OF b(2), of m]
      block_steps_plain [OF b'(2), of m] j by auto
qed (use i in \<open>auto simp: info_steps_def\<close>)

lemma alloc_leafset_plain:
  assumes p: "plain_blocks info" and a: "alloc_leafset info = Returned info'"
  shows "plain_blocks info'" "leafsets_count info' = Suc (leafsets_count info)"
    and "info_steps info' = info_steps info"
    and "uniq_chars info' = uniq_chars info" "ff_datas info' = ff_datas info" "idxtab info' = idxtab info"
    and "case_aware info' = case_aware info" "locale_indep info' = locale_indep info"
    and "root_leafset info' = root_leafset info"
proof -
  have i': "info' = info\<lparr>blocks := blocks info @ [Some (replicate (uniq_chars_count info) empty_node)],
                          leafsets := leafsets info @ [length (blocks info)]\<rparr>"
    using a by (simp add: alloc_leafset_def split: if_splits)
  then show fields: "leafsets_count info' = Suc (leafsets_count info)" "uniq_chars info' = uniq_chars info"
    "ff_datas info' = ff_datas info" "idxtab info' = idxtab info"
    "case_aware info' = case_aware info" "locale_indep info' = locale_indep info"
    "root_leafset info' = root_leafset info"
    using p by (simp_all add: leafsets_count_def plain_blocks_def)
  have u: "uniq_chars_count info' = uniq_chars_count info" using fields by (simp add: uniq_chars_count_def)
  have new: "plain_block (uniq_chars_count info) (replicate (uniq_chars_count info) empty_node)"
    by (auto simp: plain_block_def empty_node_def)
  have "\<exists>b. blocks info' ! k = Some b \<and> plain_block (uniq_chars_count info) b"
    if "1 \<le> k" "k < length (blocks info')" for k
  proof (cases "k < length (blocks info)")
    case True
    then show ?thesis using p that i' by (simp add: plain_blocks_def nth_append)
  next
    case False
    then show ?thesis using new that i' by (simp add: nth_append)
  qed
  then show q: "plain_blocks info'" using p u i' by (simp add: plain_blocks_def)
  show "info_steps info' = info_steps info"
  proof (intro ext)
    fix k m
    consider "1 \<le> k" "k \<le> leafsets_count info" | "k = Suc (leafsets_count info)"
      | "k = 0 \<or> Suc (leafsets_count info) < k" by linarith
    then show "info_steps info' k m = info_steps info k m"
    proof cases
      case 1
      then show ?thesis using p q fields(1) i' plain_blocks_count [OF p] plain_blocks_length [OF p]
        by (simp add: info_steps_def nth_append)
    next
      case 2
      then have "info_steps info' k = block_steps (replicate (uniq_chars_count info) empty_node)"
        using q fields(1) i' plain_blocks_count [OF p] plain_blocks_length [OF p]
        by (simp add: info_steps_def nth_append fun_eq_iff)
      then show ?thesis using 2 block_steps_plain [OF new, of m] p
        by (simp add: info_steps_def plain_blocks_def used_node_def empty_node_def)
    next
      case 3
      then show ?thesis using fields(1) by (auto simp: info_steps_def)
    qed
  qed
qed

text \<open>The fields that only the first pass over the keys sets.\<close>

definition same_frame :: "'d fastfind_info \<Rightarrow> 'd fastfind_info \<Rightarrow> bool" where
  "same_frame info info' \<longleftrightarrow>
     info' = info\<lparr>blocks := blocks info', leafsets := leafsets info', ff_datas := ff_datas info'\<rparr>"

lemma same_frame_fields:
  assumes "same_frame info info'"
  shows "uniq_chars info' = uniq_chars info" "uniq_chars_count info' = uniq_chars_count info"
    "idxtab info' = idxtab info" "root_leafset info' = root_leafset info"
    "min_key_len info' = min_key_len info" "max_key_len info' = max_key_len info"
    "compress info' = compress info" "ifcase toupper info' = ifcase toupper info"
    "idx_of info' = idx_of info"
proof -
  have "case_aware info' = case_aware info" "locale_indep info' = locale_indep info"
    "idxtab info' = idxtab info" "uniq_chars info' = uniq_chars info"
    by (subst assms [unfolded same_frame_def], simp)+
  then show "ifcase toupper info' = ifcase toupper info" "idx_of info' = idx_of info"
    "uniq_chars_count info' = uniq_chars_count info"
    "idxtab info' = idxtab info" "uniq_chars info' = uniq_chars info"
    by (simp_all add: fun_eq_iff ifcase_def idx_of_def uniq_chars_count_def)
qed (subst assms [unfolded same_frame_def], simp)+

lemma same_frame_refl: "same_frame info info"
  by (simp add: same_frame_def)

lemma same_frame_trans:
  "same_frame info info' \<Longrightarrow> same_frame info' info'' \<Longrightarrow> same_frame info info''"
proof -
  assume 1: "same_frame info info'" and 2: "same_frame info' info''"
  have "info'' = info'\<lparr>blocks := blocks info'', leafsets := leafsets info'', ff_datas := ff_datas info''\<rparr>"
    using 2 unfolding same_frame_def .
  also have "\<dots> = info\<lparr>blocks := blocks info'', leafsets := leafsets info'', ff_datas := ff_datas info''\<rparr>"
    by (subst 1 [unfolded same_frame_def]) simp
  finally show ?thesis unfolding same_frame_def .
qed

lemma same_frame_set_node: "same_frame info (set_node a j nd info)"
  by (simp add: same_frame_def set_node_def)

lemma same_frame_alloc: "alloc_leafset info = Returned info' \<Longrightarrow> same_frame info info'"
  by (auto simp: same_frame_def alloc_leafset_def split: if_splits)

subsection \<open>Entering a key\<close>

text \<open>Linking a fresh leafset to a free node keeps the tree and its entries.\<close>

lemma link_leafset:
  assumes p: "plain_blocks info" and t: "tree_steps (info_steps info) (leafsets_count info)"
    and a: "1 \<le> a" "a \<le> leafsets_count info" and j: "j < uniq_chars_count info"
    and nd: "node_at info a j = Some nd" "ff_l nd = 0" "\<not> ff_c nd" "info_steps info a j = used_node nd"
    and room: "leafsets_count info < FF_MAX_LEAFSETS"
  obtains info1 info2 where
    "alloc_leafset info = Returned info1"
    "info2 = set_node a j (nd\<lparr>ff_l := leafsets_count info1 mod 2 ^ LEAFSET_INDEX_BITS\<rparr>) info1"
    "leafsets_count info1 mod 2 ^ LEAFSET_INDEX_BITS = Suc (leafsets_count info)"
    "plain_blocks info2" "tree_steps (info_steps info2) (leafsets_count info2)"
    "leafsets_count info2 = Suc (leafsets_count info)" "ff_datas info2 = ff_datas info"
    "same_frame info info2" "step_link (info_steps info2) a j = Suc (leafsets_count info)"
    "\<And>w k. tree_entry (info_steps info2) w k = tree_entry (info_steps info) w k"
    "\<And>w m. walk (info_steps info) 1 w = Some m \<Longrightarrow> walk (info_steps info2) 1 w = Some m"
proof -
  let ?n = "leafsets_count info"
  obtain info1 where i1: "alloc_leafset info = Returned info1" using room by (simp add: alloc_leafset_def)
  note al = alloc_leafset_plain [OF p i1]
  have l: "leafsets_count info1 mod 2 ^ LEAFSET_INDEX_BITS = Suc ?n"
    using al(2) room by (simp add: FF_MAX_LEAFSETS_def LEAFSET_INDEX_BITS_def)
  define info2 where "info2 = set_node a j (nd\<lparr>ff_l := leafsets_count info1 mod 2 ^ LEAFSET_INDEX_BITS\<rparr>) info1"
  have u1: "uniq_chars_count info1 = uniq_chars_count info" using al(4) by (simp add: uniq_chars_count_def)
  have a1: "a \<le> leafsets_count info1" using a al(2) by simp
  have c: "\<not> ff_c (nd\<lparr>ff_l := x\<rparr>)" for x using nd(3) by simp
  have p2: "plain_blocks info2" unfolding info2_def by (rule set_node_blocks [OF al(1) a(1) a1 c])
  have st: "info_steps info2 k m = (if k = a \<and> m = j then Some (ff_e nd, ff_p nd, Suc ?n) else info_steps info k m)" for k m
    unfolding info2_def using set_node_steps [OF al(1) a(1) a1 _ c, of j "Suc ?n" k m] j u1 al(3) l
    by (simp add: used_node_def)
  have free: "step_link (info_steps info) a j = 0" using nd by (simp add: step_link_def used_node_def)
  have G: "step_link (info_steps info2) k m = (if k = a \<and> m = j then Suc ?n else step_link (info_steps info) k m)" for k m
    using st [of k m] by (simp add: step_link_def)
  have E: "step_end (info_steps info2) k m = step_end (info_steps info) k m" for k m
    using st [of k m] nd by (auto simp: step_end_def used_node_def)
  have new: "step_end (info_steps info) (Suc ?n) k = None" for k by (simp add: info_steps_def step_end_def)
  have n2: "leafsets_count info2 = Suc ?n" using al(2) by (simp add: info2_def)
  show ?thesis
  proof (rule that [OF i1 info2_def l p2 _ n2])
    show "tree_steps (info_steps info2) (leafsets_count info2)"
      unfolding n2 by (rule link_tree [OF t a free G])
    show "ff_datas info2 = ff_datas info" using al(5) by (simp add: info2_def)
    show "same_frame info info2" unfolding info2_def
      by (rule same_frame_trans [OF same_frame_alloc [OF i1] same_frame_set_node])
    show "step_link (info_steps info2) a j = Suc ?n" using G [of a j] by simp
    show "tree_entry (info_steps info2) w k = tree_entry (info_steps info) w k" for w k
      by (rule link_entry [OF t a free G E new])
    show "walk (info_steps info2) 1 w = Some m" if "walk (info_steps info) 1 w = Some m" for w m
      using link_walk [OF t a free G, of w] that by simp
  qed
qed


text \<open>The data at the end of the key.\<close>

lemma mark_end:
  assumes p: "plain_blocks info" and t: "tree_steps (info_steps info) (leafsets_count info)"
    and wk: "walk (info_steps info) 1 u = Some a" and j: "j < uniq_chars_count info"
    and nd: "\<not> ff_c nd" "info_steps info a j = used_node nd"
    and i2: "info2 = add_to_ff_data d key_len (set_node a j (nd\<lparr>ff_e := True, ff_p := p\<rparr>) info)"
  shows "plain_blocks info2" "tree_steps (info_steps info2) (leafsets_count info2)"
    "leafsets_count info2 = leafsets_count info" "same_frame info info2"
    "ff_datas info2 = ff_datas info @ [\<lparr>ff_pointer = d, ff_keylen = key_len\<rparr>]"
    "tree_entry (info_steps info2) w k
      = (if w = u \<and> k = j then Some p else tree_entry (info_steps info) w k)"
proof -
  let ?i1 = "set_node a j (nd\<lparr>ff_e := True, ff_p := p\<rparr>) info"
  have a: "1 \<le> a" "a \<le> leafsets_count info" using walk_root [OF t wk] by simp_all
  have c: "\<not> ff_c (nd\<lparr>ff_e := True, ff_p := p\<rparr>)" using nd by simp
  have same: "blocks info2 = blocks ?i1" "leafsets info2 = leafsets info" "uniq_chars info2 = uniq_chars info"
    using i2 by (simp_all add: add_to_ff_data_def)
  then show n: "leafsets_count info2 = leafsets_count info" by (simp add: leafsets_count_def)
  have s2: "info_steps info2 = info_steps ?i1"
    using same n by (intro ext) (simp add: info_steps_def)
  have "plain_blocks ?i1" by (rule set_node_blocks [OF p a c])
  then show "plain_blocks info2" using same by (simp add: plain_blocks_def uniq_chars_count_def)
  have st: "info_steps info2 k m
    = (if k = a \<and> m = j then Some (True, p, ff_l nd) else info_steps info k m)" for k m
    using set_node_steps [OF p a j c, of k m] by (simp add: s2 used_node_def)
  have G: "step_link (info_steps info2) k m = step_link (info_steps info) k m" for k m
    using st [of k m] nd by (auto simp: step_link_def used_node_def)
  have E: "step_end (info_steps info2) k m = (if k = a \<and> m = j then Some p else step_end (info_steps info) k m)" for k m
    using st [of k m] by (simp add: step_end_def)
  show "tree_steps (info_steps info2) (leafsets_count info2)" using t unfolding tree_steps_def G n .
  show "same_frame info info2" unfolding i2 by (simp add: same_frame_def add_to_ff_data_def set_node_def)
  show "ff_datas info2 = ff_datas info @ [\<lparr>ff_pointer = d, ff_keylen = key_len\<rparr>]"
    unfolding i2 by (simp add: add_to_ff_data_def)
  show "tree_entry (info_steps info2) w k
      = (if w = u \<and> k = j then Some p else tree_entry (info_steps info) w k)"
    by (rule end_entry [OF t wk G E])
qed

lemma enter_key_effect:
  assumes "plain_blocks info" "tree_steps (info_steps info) (leafsets_count info)"
    "walk (info_steps info) 1 u = Some a" "cs \<noteq> []"
    "\<And>c. c \<in> set cs \<Longrightarrow> idx_of info (ifcase toupper info c) = Some (f c) \<and> f c < uniq_chars_count info"
    "length (ff_datas info) < FF_MAX_KEYS" "leafsets_count info + length cs \<le> Suc FF_MAX_LEAFSETS"
  shows "\<exists>info'. enter_key toupper d key_len cs a info = Returned info' \<and> plain_blocks info'
    \<and> tree_steps (info_steps info') (leafsets_count info') \<and> same_frame info info'
    \<and> leafsets_count info' < leafsets_count info + length cs
    \<and> ff_datas info' = ff_datas info @ [\<lparr>ff_pointer = d, ff_keylen = key_len\<rparr>]
    \<and> (\<forall>w k. tree_entry (info_steps info') w k
          = (if w @ [k] = u @ map f cs then Some (length (ff_datas info)) else tree_entry (info_steps info) w k))"
  using assms
proof (induction cs arbitrary: u a info)
  case (Cons c cs)
  define j where "j = f c"
  have ix: "idx_of info (ifcase toupper info c) = Some j" and j: "j < uniq_chars_count info"
    using Cons.prems(5) [of c] by (simp_all add: j_def)
  have a: "1 \<le> a" "a \<le> leafsets_count info" using walk_root [OF Cons.prems(2,3)] by simp_all
  obtain nd where nd: "node_at info a j = Some nd" "\<not> ff_c nd" "info_steps info a j = used_node nd"
    using plain_blocks_steps [OF Cons.prems(1) a j] .
  show ?case
  proof (cases "cs = []")
    case True
    have p: "length (ff_datas info) mod 2 ^ POINTER_INDEX_BITS = length (ff_datas info)"
      using Cons.prems(6) by (simp add: FF_MAX_KEYS_def)
    define info2 where "info2 = add_to_ff_data d key_len
      (set_node a j (nd\<lparr>ff_e := True, ff_p := length (ff_datas info)\<rparr>) info)"
    note m = mark_end [OF Cons.prems(1-3) j nd(2,3) info2_def]
    have "enter_key toupper d key_len (c # cs) a info = Returned info2"
      using True ix nd(1) p by (simp add: info2_def)
    then show ?thesis using m True by (auto simp: j_def)
  next
    case ne: False
    have dist: "w @ [k] = u @ f c # map f cs \<longleftrightarrow> w @ [k] = (u @ [j]) @ map f cs" for w k
      by (simp add: j_def)
    show ?thesis
    proof (cases "ff_l nd = 0")
      case True
      have room: "leafsets_count info < FF_MAX_LEAFSETS" using Cons.prems(7) ne by (cases cs) auto
      obtain info1 info2 where i: "alloc_leafset info = Returned info1"
        "info2 = set_node a j (nd\<lparr>ff_l := leafsets_count info1 mod 2 ^ LEAFSET_INDEX_BITS\<rparr>) info1"
        "leafsets_count info1 mod 2 ^ LEAFSET_INDEX_BITS = Suc (leafsets_count info)"
        "plain_blocks info2" "tree_steps (info_steps info2) (leafsets_count info2)"
        "leafsets_count info2 = Suc (leafsets_count info)" "ff_datas info2 = ff_datas info"
        "same_frame info info2" "step_link (info_steps info2) a j = Suc (leafsets_count info)"
        "\<And>w k. tree_entry (info_steps info2) w k = tree_entry (info_steps info) w k"
        "\<And>w m. walk (info_steps info) 1 w = Some m \<Longrightarrow> walk (info_steps info2) 1 w = Some m"
        using link_leafset [OF Cons.prems(1,2) a j nd(1) True nd(2,3) room] by blast
      note fr = same_frame_fields [OF i(8)]
      have w2: "walk (info_steps info2) 1 (u @ [j]) = Some (Suc (leafsets_count info))"
        using i(11) [OF Cons.prems(3)] i(9) by (simp add: walk_append)
      have "leafsets info2 ! Suc (leafsets_count info) = Suc (leafsets_count info)"
        using i(4,6) by simp
      then have "leafsets info1 ! Suc (leafsets_count info) = Suc (leafsets_count info)"
        unfolding i(2) by simp
      then have step: "enter_key toupper d key_len (c # cs) a info
        = enter_key toupper d key_len cs (Suc (leafsets_count info)) info2"
        using ne ix nd(1) True i(1-4,6) by (simp add: Let_def)
      show ?thesis unfolding step list.map dist
        using Cons.IH [OF i(4,5) w2 ne _ _ _] Cons.prems(5-7) i(6,7,10) fr same_frame_trans [OF i(8)]
        by fastforce
    next
      case False
      then have link: "step_link (info_steps info) a j = ff_l nd" using nd(3) by (simp add: step_link_def used_node_def)
      have w2: "walk (info_steps info) 1 (u @ [j]) = Some (ff_l nd)"
        using Cons.prems(3) link False by (simp add: walk_append)
      have "ff_l nd \<le> leafsets_count info" using walk_root [OF Cons.prems(2) w2] by simp
      then have step: "enter_key toupper d key_len (c # cs) a info = enter_key toupper d key_len cs (ff_l nd) info"
        using ne ix nd(1) False Cons.prems(1) by simp
      show ?thesis unfolding step list.map dist
        using Cons.IH [OF Cons.prems(1,2) w2 ne] Cons.prems(5-7) by fastforce
    qed
  qed
qed simp


text \<open>The keys one after the other, on a map over words of the alphabet.\<close>

lemma holds_map_enter:
  assumes h: "holds_map F ds M"
    and e: "\<And>w k. tree_entry G w k = (if w @ [k] = v then Some (length ds) else tree_entry F w k)"
  shows "holds_map G (ds @ [\<lparr>ff_pointer = d, ff_keylen = length v\<rparr>]) (M(v \<mapsto> d))"
  unfolding holds_map_def
proof (intro allI)
  fix w k
  have "case tree_entry F w k of None \<Rightarrow> M (w @ [k]) = None
     | Some p \<Rightarrow> p < length ds \<and> ff_keylen (ds ! p) = Suc (length w) \<and> M (w @ [k]) = Some (ff_pointer (ds ! p))"
    using h unfolding holds_map_def by blast
  then show "case tree_entry G w k of None \<Rightarrow> (M(v \<mapsto> d)) (w @ [k]) = None
     | Some p \<Rightarrow> p < length (ds @ [\<lparr>ff_pointer = d, ff_keylen = length v\<rparr>])
         \<and> ff_keylen ((ds @ [\<lparr>ff_pointer = d, ff_keylen = length v\<rparr>]) ! p) = Suc (length w)
         \<and> (M(v \<mapsto> d)) (w @ [k]) = Some (ff_pointer ((ds @ [\<lparr>ff_pointer = d, ff_keylen = length v\<rparr>]) ! p))"
    unfolding e [of w k] by (cases "tree_entry F w k") (auto simp: nth_append)
qed

definition folded_map :: "('a \<Rightarrow> 'b) \<Rightarrow> ('a list \<times> 'd) list \<Rightarrow> 'b list \<rightharpoonup> 'd" where
  "folded_map f kvs = map_of (rev (map (\<lambda>(k, d). (map f k, d)) kvs))"

lemma folded_map_simps [simp]:
  "folded_map f [] = Map.empty"
  "folded_map f ((k, d) # kvs) = [map f k \<mapsto> d] ++ folded_map f kvs"
  by (simp_all add: folded_map_def)

lemma enter_keys_effect:
  assumes "plain_blocks info" "tree_steps (info_steps info) (leafsets_count info)"
    "root_leafset info = 1" "holds_map (info_steps info) (ff_datas info) M"
    "\<And>k d. (k, d) \<in> set kvs \<Longrightarrow> k \<noteq> []"
    "\<And>k d c. (k, d) \<in> set kvs \<Longrightarrow> c \<in> set k \<Longrightarrow>
       idx_of info (ifcase toupper info c) = Some (f c) \<and> f c < uniq_chars_count info"
    "length (ff_datas info) + length kvs \<le> FF_MAX_KEYS"
    "leafsets_count info + sum_list (map (length \<circ> fst) kvs) \<le> Suc FF_MAX_LEAFSETS"
  shows "\<exists>info'. enter_keys toupper kvs info = Returned info' \<and> plain_blocks info'
    \<and> tree_steps (info_steps info') (leafsets_count info') \<and> same_frame info info'
    \<and> holds_map (info_steps info') (ff_datas info') (M ++ folded_map f kvs)"
  using assms
proof (induction kvs arbitrary: info M)
  case Nil
  then show ?case using same_frame_refl by auto
next
  case (Cons kv kvs)
  obtain key d where kv: "kv = (key, d)" by (cases kv)
  have w: "walk (info_steps info) 1 [] = Some 1" by simp
  have len: "leafsets_count info + length key \<le> Suc FF_MAX_LEAFSETS" using Cons.prems(8) kv by simp
  have ne: "key \<noteq> []" using Cons.prems(5) [of key d] kv by simp
  have ix: "idx_of info (ifcase toupper info c) = Some (f c) \<and> f c < uniq_chars_count info" if "c \<in> set key" for c
    using Cons.prems(6) [of key d c] kv that by simp
  have room: "length (ff_datas info) < FF_MAX_KEYS" using Cons.prems(7) by simp
  obtain i1 where i1: "enter_key toupper d (length key) key 1 info = Returned i1" "plain_blocks i1"
      "tree_steps (info_steps i1) (leafsets_count i1)" "same_frame info i1"
      "leafsets_count i1 < leafsets_count info + length key"
      "ff_datas i1 = ff_datas info @ [\<lparr>ff_pointer = d, ff_keylen = length key\<rparr>]"
      "\<And>w k. tree_entry (info_steps i1) w k
          = (if w @ [k] = map f key then Some (length (ff_datas info)) else tree_entry (info_steps info) w k)"
    using enter_key_effect [OF Cons.prems(1,2) w ne ix room len, of d "length key"] by auto
  note fr = same_frame_fields [OF i1(4)]
  have h: "holds_map (info_steps i1) (ff_datas i1) (M(map f key \<mapsto> d))"
    using holds_map_enter [OF Cons.prems(4) i1(7), of d] by (simp add: i1(6))
  have root: "root_leafset i1 = 1" using fr Cons.prems(3) by simp
  have ne': "k \<noteq> []" if "(k, d) \<in> set kvs" for k d
    by (rule Cons.prems(5) [of k d]) (use that in simp)
  have ix': "idx_of i1 (ifcase toupper i1 c) = Some (f c) \<and> f c < uniq_chars_count i1"
    if "(k, d) \<in> set kvs" "c \<in> set k" for k d c
    unfolding fr by (rule Cons.prems(6) [of k d c]) (use that in simp_all)
  have cnt: "length (ff_datas i1) + length kvs \<le> FF_MAX_KEYS" using Cons.prems(7) i1(6) by simp
  have lv: "leafsets_count i1 + sum_list (map (length \<circ> fst) kvs) \<le> Suc FF_MAX_LEAFSETS"
    using Cons.prems(8) i1(5) kv by (simp add: comp_def)
  have "\<exists>i2. enter_keys toupper kvs i1 = Returned i2 \<and> plain_blocks i2
      \<and> tree_steps (info_steps i2) (leafsets_count i2) \<and> same_frame i1 i2
      \<and> holds_map (info_steps i2) (ff_datas i2) (M(map f key \<mapsto> d) ++ folded_map f kvs)"
    by (rule Cons.IH [OF i1(2,3) root h _ _ cnt lv]) (rule ne', assumption, rule ix', assumption+)
  then obtain i2 where i2: "enter_keys toupper kvs i1 = Returned i2" "plain_blocks i2"
      "tree_steps (info_steps i2) (leafsets_count i2)" "same_frame i1 i2"
      "holds_map (info_steps i2) (ff_datas i2) (M(map f key \<mapsto> d) ++ folded_map f kvs)"
    by blast
  have "M ++ folded_map f (kv # kvs) = M(map f key \<mapsto> d) ++ folded_map f kvs"
    by (simp add: kv)
  moreover have "enter_keys toupper (kv # kvs) info = Returned i2"
    using i1(1) i2(1) Cons.prems(3) kv by simp
  ultimately show ?case using i2 same_frame_trans [OF i1(4)] by metis
qed

subsection \<open>The alphabet\<close>

definition fold_char :: "(char \<Rightarrow> int) \<Rightarrow> bool \<Rightarrow> bool \<Rightarrow> char \<Rightarrow> int" where
  "fold_char toupper ca li c = (if ca then schar c else if li then schar (c_toupper c) else toupper c)"

lemma ifcase_fold_char: "ifcase toupper info = fold_char toupper (case_aware info) (locale_indep info)"
  by (simp add: fun_eq_iff ifcase_def fold_char_def)

lemma ifcase_updates [simp]:
  "ifcase toupper (info\<lparr>uniq_chars := uq\<rparr>) = ifcase toupper info"
  "ifcase toupper (info\<lparr>min_key_len := n\<rparr>) = ifcase toupper info"
  "ifcase toupper (info\<lparr>max_key_len := n\<rparr>) = ifcase toupper info"
  "ifcase toupper (info\<lparr>ff_count := n\<rparr>) = ifcase toupper info"
  by (simp_all add: ifcase_fold_char)

definition ascii_alphabet :: "'d fastfind_info \<Rightarrow> bool" where
  "ascii_alphabet info \<longleftrightarrow> distinct (uniq_chars info) \<and> (\<forall>c \<in> set (uniq_chars info). uchar c < 128)"

lemma byte_of_ascii: "0 \<le> k \<Longrightarrow> k < 128 \<Longrightarrow> uchar (byte_of k) = nat k"
  by (simp add: byte_of_def)

lemma takeWhile_ends: "length (takeWhile P xs) < length xs \<longleftrightarrow> (\<exists>x \<in> set xs. \<not> P x)"
  by (induction xs) auto

lemma char2idx_absent: "char2idx c info = -1 \<longleftrightarrow> c \<notin> set (uniq_chars info)"
  using takeWhile_ends [of "\<lambda>x. x \<noteq> c" "uniq_chars info"]
  by (auto simp: char2idx_def Let_def uniq_chars_count_def)

lemma char2idx_present:
  assumes "c \<in> set (uniq_chars info)"
  shows "0 \<le> char2idx c info" "char2idx c info < int (uniq_chars_count info)"
    and "uniq_chars info ! nat (char2idx c info) = c"
proof -
  let ?n = "length (takeWhile (\<lambda>x. x \<noteq> c) (uniq_chars info))"
  have n: "?n < length (uniq_chars info)" using assms by (simp add: takeWhile_ends)
  then have i: "char2idx c info = int ?n" by (simp add: char2idx_def uniq_chars_count_def)
  then show "0 \<le> char2idx c info" "char2idx c info < int (uniq_chars_count info)"
    using n by (simp_all add: uniq_chars_count_def)
  have "uniq_chars info ! ?n = c" using nth_length_takeWhile [OF n] by simp
  then show "uniq_chars info ! nat (char2idx c info) = c" by (simp add: i)
qed

lemma ascii_alphabet_size: "ascii_alphabet info \<Longrightarrow> uniq_chars_count info \<le> FF_MAX_CHARS"
proof -
  assume a: "ascii_alphabet info"
  have inj: "inj_on uchar (set (uniq_chars info))" by (rule inj_onI) (rule char_eqI)
  have "uchar ` set (uniq_chars info) \<subseteq> {..<128}" using a by (auto simp: ascii_alphabet_def)
  then have "card (uchar ` set (uniq_chars info)) \<le> card {..<128 :: nat}" by (intro card_mono) simp_all
  then show ?thesis using card_image [OF inj] distinct_card [of "uniq_chars info"] a
    by (simp add: ascii_alphabet_def uniq_chars_count_def FF_MAX_CHARS_def COMP_CHAR_INDEX_BITS_def)
qed

lemma ascii_alphabet_room:
  assumes "ascii_alphabet info" "uchar c < 128" "c \<notin> set (uniq_chars info)"
  shows "uniq_chars_count info < FF_MAX_CHARS"
  using ascii_alphabet_size [of "info\<lparr>uniq_chars := c # uniq_chars info\<rparr>"] assms
  by (simp add: ascii_alphabet_def uniq_chars_count_def)

text \<open>The first pass: the alphabet covers the keys, and the lengths bound theirs.\<close>

lemma scan_chars_effect:
  assumes "\<And>c. c \<in> set cs \<Longrightarrow> 0 \<le> ifcase toupper info c \<and> ifcase toupper info c < 128"
    "ascii_alphabet info"
  shows "\<exists>uq. scan_chars toupper cs info = Returned (info\<lparr>uniq_chars := uq\<rparr>)
    \<and> ascii_alphabet (info\<lparr>uniq_chars := uq\<rparr>)
    \<and> set uq = set (uniq_chars info) \<union> (\<lambda>c. byte_of (ifcase toupper info c)) ` set cs"
  using assms
proof (induction cs arbitrary: info)
  case Nil
  then show ?case by (intro exI [of _ "uniq_chars info"]) simp
next
  case (Cons c cs)
  define k where "k = ifcase toupper info c"
  have k: "0 \<le> k" "k < 128" using Cons.prems(1) [of c] by (simp_all add: k_def)
  have ascii: "uchar (byte_of k) < 128" using byte_of_ascii [OF k] k by simp
  show ?case
  proof (cases "byte_of k \<in> set (uniq_chars info)")
    case True
    then have "scan_chars toupper (c # cs) info = scan_chars toupper cs info"
      using k by (simp add: Let_def k_def [symmetric] char2idx_absent FF_MAX_CHARS_def COMP_CHAR_INDEX_BITS_def)
    moreover have "insert (byte_of k) (set (uniq_chars info)) = set (uniq_chars info)" using True by blast
    ultimately show ?thesis using Cons.IH [of info] Cons.prems True by (auto simp: k_def)
  next
    case False
    let ?i = "info\<lparr>uniq_chars := uniq_chars info @ [byte_of k]\<rparr>"
    have "scan_chars toupper (c # cs) info = scan_chars toupper cs ?i"
      using False k ascii_alphabet_room [OF Cons.prems(2) ascii False]
      by (simp add: Let_def k_def [symmetric] char2idx_absent FF_MAX_CHARS_def COMP_CHAR_INDEX_BITS_def)
    moreover have "ascii_alphabet ?i" using Cons.prems(2) False ascii by (simp add: ascii_alphabet_def)
    ultimately show ?thesis using Cons.IH [of ?i] Cons.prems(1) by (auto simp: k_def)
  qed
qed

definition first_pass ::
  "'d fastfind_info \<Rightarrow> (string \<times> 'd) list \<Rightarrow> char list \<Rightarrow> nat \<Rightarrow> nat \<Rightarrow> 'd fastfind_info" where
  "first_pass info kvs uq mn mx =
     info\<lparr>uniq_chars := uq, min_key_len := mn, max_key_len := mx, ff_count := ff_count info + length kvs\<rparr>"

text \<open>The keys the index is made for: not empty, not too long, and folded to ASCII.\<close>

definition valid_keys :: "(char \<Rightarrow> int) \<Rightarrow> (string \<times> 'd) list \<Rightarrow> bool" where
  "valid_keys up kvs \<longleftrightarrow> (\<forall>(k, d) \<in> set kvs. k \<noteq> [] \<and> length k \<le> FF_MAX_KEYLEN
     \<and> (\<forall>c \<in> set k. 0 \<le> up c \<and> up c < 128))"

lemma scan_keys_effect:
  assumes "valid_keys (ifcase toupper info) kvs" "ascii_alphabet info"
  shows "\<exists>uq mn mx. scan_keys toupper kvs info = Returned (first_pass info kvs uq mn mx)
    \<and> ascii_alphabet (first_pass info kvs uq mn mx)
    \<and> (\<forall>k d c. (k, d) \<in> set kvs \<longrightarrow> c \<in> set k \<longrightarrow> byte_of (ifcase toupper info c) \<in> set uq)
    \<and> set (uniq_chars info) \<subseteq> set uq
    \<and> (\<forall>k d. (k, d) \<in> set kvs \<longrightarrow> mn \<le> length k \<and> length k \<le> mx)
    \<and> mn \<le> min_key_len info \<and> max_key_len info \<le> mx"
  using assms
proof (induction kvs arbitrary: info)
  case Nil
  have fp: "first_pass info [] (uniq_chars info) (min_key_len info) (max_key_len info) = info"
    by (simp add: first_pass_def)
  show ?case
    by (rule exI [of _ "uniq_chars info"], rule exI [of _ "min_key_len info"],
        rule exI [of _ "max_key_len info"]) (simp add: fp Nil(2))
next
  case (Cons kv kvs)
  obtain key d where kv: "kv = (key, d)" by (cases kv)
  let ?i0 = "info\<lparr>min_key_len := min (length key) (min_key_len info), max_key_len := max (length key) (max_key_len info)\<rparr>"
  have "0 \<le> ifcase toupper ?i0 c \<and> ifcase toupper ?i0 c < 128" if "c \<in> set key" for c
    using Cons.prems(1) that kv by (simp add: valid_keys_def)
  moreover have "ascii_alphabet ?i0" using Cons.prems(2) by (simp add: ascii_alphabet_def)
  ultimately obtain uq where uq: "scan_chars toupper key ?i0 = Returned (?i0\<lparr>uniq_chars := uq\<rparr>)"
      "ascii_alphabet (?i0\<lparr>uniq_chars := uq\<rparr>)"
      "set uq = set (uniq_chars info) \<union> (\<lambda>c. byte_of (ifcase toupper info c)) ` set key"
    using scan_chars_effect [of key toupper ?i0] by auto
  let ?i1 = "?i0\<lparr>uniq_chars := uq, ff_count := ff_count info + 1\<rparr>"
  have al: "ascii_alphabet ?i1" using uq(2) by (simp add: ascii_alphabet_def)
  have ok: "valid_keys (ifcase toupper ?i1) kvs" using Cons.prems(1) by (simp add: valid_keys_def)
  obtain uq' mn mx where r: "scan_keys toupper kvs ?i1 = Returned (first_pass ?i1 kvs uq' mn mx)"
      "ascii_alphabet (first_pass ?i1 kvs uq' mn mx)"
      "\<forall>k d c. (k, d) \<in> set kvs \<longrightarrow> c \<in> set k \<longrightarrow> byte_of (ifcase toupper info c) \<in> set uq'"
      "set (uniq_chars ?i1) \<subseteq> set uq'" "\<forall>k d. (k, d) \<in> set kvs \<longrightarrow> mn \<le> length k \<and> length k \<le> mx"
      "mn \<le> min_key_len ?i1" "max_key_len ?i1 \<le> mx"
    using Cons.IH [OF ok al] unfolding ifcase_updates by blast
  have fp: "first_pass ?i1 kvs uq' mn mx = first_pass info (kv # kvs) uq' mn mx"
    by (simp add: first_pass_def)
  have key: "0 < length key \<and> length key \<le> FF_MAX_KEYLEN" using Cons.prems(1) kv by (simp add: valid_keys_def)
  have "scan_keys toupper (kv # kvs) info = Returned (first_pass info (kv # kvs) uq' mn mx)"
    using r(1) uq(1) key by (simp add: kv first_pass_def Let_def)
  then show ?case
  proof (intro exI conjI)
    show "ascii_alphabet (first_pass info (kv # kvs) uq' mn mx)" using r(2) by (simp only: fp)
    show "\<forall>k d c. (k, d) \<in> set (kv # kvs) \<longrightarrow> c \<in> set k \<longrightarrow> byte_of (ifcase toupper info c) \<in> set uq'"
      using r(3,4) uq(3) by (auto simp: kv)
    show "set (uniq_chars info) \<subseteq> set uq'" using r(4) uq(3) by auto
    show "\<forall>k d. (k, d) \<in> set (kv # kvs) \<longrightarrow> mn \<le> length k \<and> length k \<le> mx"
      using r(5-7) by (auto simp: kv)
  qed (use r(6,7) in simp_all)
qed


subsection \<open>What the index represents\<close>

lemma folded_map_cong:
  "(\<And>k d. (k, d) \<in> set kvs \<Longrightarrow> map f k = v \<longleftrightarrow> map h k = w) \<Longrightarrow> folded_map f kvs v = folded_map h kvs w"
proof (induction kvs)
  case (Cons kv kvs)
  obtain k d where kv: "kv = (k, d)" by (cases kv)
  have "folded_map f kvs v = folded_map h kvs w" by (rule Cons.IH) (rule Cons.prems, erule list.set_intros)
  then show ?case using Cons.prems [of k d] kv by (auto simp: map_add_def split: option.splits)
qed simp

lemma map_eq_cong:
  "(\<And>c c'. c \<in> set xs \<Longrightarrow> c' \<in> set ys \<Longrightarrow> f c = f c' \<longleftrightarrow> h c = h c')
    \<Longrightarrow> map f xs = map f ys \<longleftrightarrow> map h xs = map h ys"
  by (induction xs ys rule: list_induct2') auto

lemma folded_map_None:
  "(\<And>k d. (k, d) \<in> set kvs \<Longrightarrow> map f k \<noteq> v) \<Longrightarrow> folded_map f kvs v = None"
proof (induction kvs)
  case (Cons kv kvs)
  obtain k d where kv: "kv = (k, d)" by (cases kv)
  have "folded_map f kvs v = None" by (rule Cons.IH) (rule Cons.prems, erule list.set_intros)
  then show ?case using Cons.prems [of k d] kv by (auto simp: map_add_def)
qed simp

definition key_index :: "'d fastfind_info \<Rightarrow> (char \<Rightarrow> int) \<Rightarrow> char \<Rightarrow> nat" where
  "key_index info up c = nat (idxtab info ! nat (up c))"

definition represents :: "'d fastfind_info \<Rightarrow> (char \<Rightarrow> int) \<Rightarrow> (string \<times> 'd) list \<Rightarrow> bool" where
  "represents info up kvs \<longleftrightarrow> good_blocks info \<and> good_idxtab info
    \<and> tree_steps (info_steps info) (leafsets_count info)
    \<and> holds_map (info_steps info) (ff_datas info) (folded_map (key_index info up) kvs)
    \<and> (\<forall>(k, d) \<in> set kvs. k \<noteq> [] \<and> min_key_len info \<le> length k \<and> length k \<le> max_key_len info
         \<and> (\<forall>c \<in> set k. 0 \<le> up c \<and> up c < 128 \<and> 0 \<le> idxtab info ! nat (up c)))
    \<and> (\<forall>x y. x < 128 \<longrightarrow> y < 128 \<longrightarrow> 0 \<le> idxtab info ! x \<longrightarrow> idxtab info ! x = idxtab info ! y \<longrightarrow> x = y)"

lemma represents_search:
  assumes r: "represents info up kvs" and up: "ifcase toupper info = up"
    and pos: "\<And>c. c \<in> set cs \<Longrightarrow> 0 \<le> up c"
  shows "ff_search toupper (length cs) cs (leafsets info ! 1) info = Returned (folded_map up kvs (map up cs))"
proof -
  let ?f = "key_index info up" and ?ojs = "map (\<lambda>c. idx_of info (up c)) cs"
  have ix: "length (idxtab info) = 128" using r
    by (simp add: represents_def good_idxtab_def FF_MAX_CHARS_def COMP_CHAR_INDEX_BITS_def)
  have keys: "k \<noteq> []" "\<forall>c \<in> set k. 0 \<le> up c \<and> up c < 128 \<and> 0 \<le> idxtab info ! nat (up c)" if "(k, d) \<in> set kvs" for k d
    using r that unfolding represents_def by fast+
  have inj: "nat (up c) = nat (up c')" if "up c < 128" "up c' < 128" "0 \<le> up c" "0 \<le> up c'"
    "0 \<le> idxtab info ! nat (up c)" "idxtab info ! nat (up c) = idxtab info ! nat (up c')" for c c'
  proof -
    have "nat (up c) < 128" "nat (up c') < 128" using that by linarith+
    then show ?thesis using r that(5,6) unfolding represents_def by blast
  qed
  have n: "1 \<le> leafsets_count info" and g: "good_blocks info" "good_idxtab info"
    and t: "tree_steps (info_steps info) (leafsets_count info)"
    and h: "holds_map (info_steps info) (ff_datas info) (folded_map ?f kvs)"
    using r by (auto simp: represents_def tree_steps_def)
  have "ff_search toupper (length cs) cs (leafsets info ! 1) info
    = Returned (steps_search (info_steps info) (ff_datas info) (length cs) ?ojs 1)"
    using ff_search_steps [OF g(1) t g(2) order.refl n, of cs toupper "length cs"] pos by (simp add: up)
  also have "steps_search (info_steps info) (ff_datas info) (length cs) ?ojs 1
    = (if ?ojs = [] \<or> None \<in> set ?ojs then None else folded_map ?f kvs (map the ?ojs))"
    using steps_search_holds [OF h, of "[]" 1 ?ojs] by simp
  also have "\<dots> = folded_map up kvs (map up cs)"
  proof (cases "cs = [] \<or> (\<exists>c \<in> set cs. idx_of info (up c) = None)")
    case True
    have "map up k \<noteq> map up cs" if kd: "(k, d) \<in> set kvs" for k d
    proof
      assume eq: "map up k = map up cs"
      from True show False
      proof
        assume "\<exists>c \<in> set cs. idx_of info (up c) = None"
        then obtain c where c: "c \<in> set cs" "idx_of info (up c) = None" by blast
        then have "up c \<in> up ` set k" using eq by (metis image_eqI set_map)
        then obtain c' where "c' \<in> set k" "up c = up c'" by blast
        then show False using c(2) keys(2) [OF kd] ix by (auto simp: idx_of_def split: if_splits)
      qed (use eq keys(1) [OF kd] in simp)
    qed
    then have "folded_map up kvs (map up cs) = None" by (rule folded_map_None)
    moreover have "?ojs = [] \<or> None \<in> set ?ojs" using True by (force simp: image_iff)
    ultimately show ?thesis by presburger
  next
    case False
    have the: "map the ?ojs = map ?f cs" and ok: "\<forall>c \<in> set cs. up c < 128 \<and> 0 \<le> idxtab info ! nat (up c)"
      using False ix by (auto simp: idx_of_def key_index_def split: if_splits)
    have "map ?f k = map ?f cs \<longleftrightarrow> map up k = map up cs" if kd: "(k, d) \<in> set kvs" for k d
    proof -
      have "?f c = ?f c' \<longleftrightarrow> up c = up c'" if c: "c \<in> set k" "c' \<in> set cs" for c c'
      proof
        assume "?f c = ?f c'"
        then have "idxtab info ! nat (up c) = idxtab info ! nat (up c')"
          using keys(2) [OF kd] ok c by (simp add: key_index_def eq_nat_nat_iff)
        then show "up c = up c'" using inj [of c c'] keys(2) [OF kd] ok pos c by fastforce
      qed (simp add: key_index_def)
      then show ?thesis by (intro map_eq_cong) blast
    qed
    then have "folded_map ?f kvs (map ?f cs) = folded_map up kvs (map up cs)" by (rule folded_map_cong)
    moreover have "\<not> (?ojs = [] \<or> None \<in> set ?ojs)" using False by (force simp: image_iff)
    ultimately show ?thesis by (simp only: the if_False)
  qed
  finally show ?thesis .
qed

theorem represents_fastfind_search:
  assumes r: "represents info up kvs" and up: "ifcase toupper info = up"
    and root: "leafsets info ! 1 = root_leafset info"
    and pos: "\<And>i. i < key_len \<Longrightarrow> 0 \<le> up (char_at key i)"
  shows "fastfind_search toupper info key key_len
    = Returned (folded_map up kvs (map up (map (char_at key) [0..<key_len])))"
proof (cases "min_key_len info \<le> key_len \<and> key_len \<le> max_key_len info")
  case True
  let ?cs = "map (char_at key) [0..<key_len]"
  have "0 \<le> up c" if "c \<in> set ?cs" for c using that pos by auto
  from represents_search [of info up kvs toupper ?cs, OF r up this] show ?thesis using True root
    by (simp add: fastfind_search_def)
next
  case False
  have "map up k \<noteq> map up (map (char_at key) [0..<key_len])" if "(k, d) \<in> set kvs" for k d
  proof
    assume "map up k = map up (map (char_at key) [0..<key_len])"
    then have "length k = key_len" by (metis length_map length_upt minus_nat.diff_0)
    then show False using r that False unfolding represents_def by fastforce
  qed
  then have "folded_map up kvs (map up (map (char_at key) [0..<key_len])) = None" by (rule folded_map_None)
  then show ?thesis using False by (auto simp: fastfind_search_def)
qed


subsection \<open>The index before compression\<close>

definition small_keys :: "(string \<times> 'd) list \<Rightarrow> bool" where
  "small_keys kvs \<longleftrightarrow> kvs \<noteq> [] \<and> length kvs < FF_MAX_KEYS
     \<and> sum_list (map (length \<circ> fst) kvs) \<le> FF_MAX_LEAFSETS"

lemma init_idxtab_good:
  assumes "ascii_alphabet info" and i: "info' = init_idxtab info"
  shows "good_idxtab info'"
    and "\<And>k. 0 \<le> k \<Longrightarrow> k < 128 \<Longrightarrow> idxtab info' ! nat k = char2idx (byte_of k) info"
    and "\<And>x y. x < 128 \<Longrightarrow> y < 128 \<Longrightarrow> 0 \<le> idxtab info' ! x \<Longrightarrow> idxtab info' ! x = idxtab info' ! y \<Longrightarrow> x = y"
proof -
  have tab: "idxtab info' ! x = char2idx (char_of x) info" if "x < 128" for x
    using that i by (simp add: init_idxtab_def FF_MAX_CHARS_def COMP_CHAR_INDEX_BITS_def)
  have bound: "char2idx c info < int (uniq_chars_count info)" if "0 \<le> char2idx c info" for c
    using that char2idx_absent [of c info] char2idx_present(2) [of c info] by fastforce
  have cnt: "length (uniq_chars info') = uniq_chars_count info"
    using i by (simp add: init_idxtab_def uniq_chars_count_def)
  have neg: "idxtab info' ! x < int (uniq_chars_count info)" if "x < 128" for x
    using tab [OF that] bound [of "char_of x"] by (cases "0 \<le> char2idx (char_of x) info") auto
  show "good_idxtab info'" using neg cnt i
    by (simp add: good_idxtab_def init_idxtab_def FF_MAX_CHARS_def COMP_CHAR_INDEX_BITS_def uniq_chars_count_def)
  show "idxtab info' ! nat k = char2idx (byte_of k) info" if "0 \<le> k" "k < 128" for k
    using tab [of "nat k"] that by (simp add: byte_of_def)
  show "x = y" if xy: "x < 128" "y < 128" "0 \<le> idxtab info' ! x" "idxtab info' ! x = idxtab info' ! y" for x y
  proof -
    have "char2idx (char_of x) info = char2idx (char_of y) info" "0 \<le> char2idx (char_of x) info"
      using xy tab by simp_all
    moreover have "char_of z \<in> set (uniq_chars info)" if "0 \<le> char2idx (char_of z) info" for z :: nat
      using that char2idx_absent [of "char_of z" info] by fastforce
    ultimately have "char_of x = (char_of y :: char)" using char2idx_present(3) by metis
    then have "uchar (char_of x) = uchar (char_of y)" by simp
    then show "x = y" using xy(1,2) by simp
  qed
qed

lemma root_alloc:
  assumes "blocks info = [None]" "leafsets info = [0]" "0 < uniq_chars_count info" "ff_datas info = []"
  obtains info1 where "alloc_leafset info = Returned info1" "plain_blocks info1" "leafsets_count info1 = 1"
    "leafsets info1 ! leafsets_count info1 = 1" "\<And>i j. info_steps info1 i j = None" "same_frame info info1"
    "ff_datas info1 = []" "ff_count info1 = ff_count info"
proof -
  have z: "leafsets_count info = 0" using assms by (simp add: leafsets_count_def)
  have "plain_blocks info" using assms by (auto simp: plain_blocks_def)
  moreover obtain info1 where i1: "alloc_leafset info = Returned info1"
    using z by (simp add: alloc_leafset_def FF_MAX_LEAFSETS_def LEAFSET_INDEX_BITS_def)
  moreover have "info_steps info i j = None" for i j using z by (cases i) (simp_all add: info_steps_def)
  moreover have "ff_count info1 = ff_count info" using i1 by (auto simp: alloc_leafset_def split: if_splits)
  ultimately show ?thesis using alloc_leafset_plain [of info info1] same_frame_alloc [OF i1] z assms(4)
    by (intro that [of info1]) simp_all
qed

lemma build_represents:
  assumes up: "up = fold_char toupper ca li" and v: "valid_keys up kvs" and s: "small_keys kvs"
  obtains info where "fastfind_index toupper ca li co kvs
      = (if co then compress_tree (leafsets_count info) 1 info else Returned info)"
    "plain_blocks info" "represents info up kvs" "ifcase toupper info = up" "root_leafset info = 1"
    "uniq_chars_count info \<le> FF_MAX_CHARS"
proof -
  let ?i0 = "init_fastfind ca li co"
  have if0: "ifcase toupper ?i0 = up" by (simp add: up ifcase_fold_char init_fastfind_def)
  have a0: "ascii_alphabet ?i0" by (simp add: ascii_alphabet_def init_fastfind_def)
  obtain uq mn mx where sc: "scan_keys toupper kvs ?i0 = Returned (first_pass ?i0 kvs uq mn mx)"
      "ascii_alphabet (first_pass ?i0 kvs uq mn mx)"
      "\<forall>k d c. (k, d) \<in> set kvs \<longrightarrow> c \<in> set k \<longrightarrow> byte_of (up c) \<in> set uq"
      "\<forall>k d. (k, d) \<in> set kvs \<longrightarrow> mn \<le> length k \<and> length k \<le> mx"
    using scan_keys_effect [OF _ a0, of toupper kvs] v unfolding if0 by blast
  define i1 where "i1 = first_pass ?i0 kvs uq mn mx"
  define i2 where "i2 = init_idxtab i1"
  have uq: "uniq_chars i1 = uq" by (simp add: i1_def first_pass_def)
  note ix = init_idxtab_good [OF sc(2) [folded i1_def] i2_def]
  obtain k d where kd: "(k, d) \<in> set kvs" using s by (cases kvs) (auto simp: small_keys_def)
  then have "k \<noteq> []" using v by (auto simp: valid_keys_def)
  then have "uq \<noteq> []" using sc(3) kd by (cases k) fastforce+
  then have pre: "blocks i2 = [None]" "leafsets i2 = [0]" "0 < uniq_chars_count i2" "ff_datas i2 = []"
    by (simp_all add: i2_def init_idxtab_def i1_def first_pass_def init_fastfind_def uniq_chars_count_def)
  obtain i3 where i3: "alloc_leafset i2 = Returned i3" "plain_blocks i3" "leafsets_count i3 = 1"
      "leafsets i3 ! leafsets_count i3 = 1" "\<And>i j. info_steps i3 i j = None" "same_frame i2 i3"
      "ff_datas i3 = []" "ff_count i3 = ff_count i2"
    using root_alloc [OF pre] by metis
  define i4 where "i4 = i3\<lparr>root_leafset := 1\<rparr>"
  have cnt4: "leafsets_count i4 = 1" using i3(3) by (simp add: i4_def leafsets_count_def)
  have p4: "plain_blocks i4" using i3(2) by (simp add: i4_def plain_blocks_def uniq_chars_count_def)
  have "info_steps i4 = info_steps i3" by (auto simp: fun_eq_iff i4_def info_steps_def leafsets_count_def)
  then have none: "info_steps i4 i j = None" for i j using i3(5) by simp
  have t4: "tree_steps (info_steps i4) (leafsets_count i4)" using cnt4 by (simp add: tree_steps_def step_link_def none)
  have h4: "holds_map (info_steps i4) (ff_datas i4) Map.empty"
    by (auto simp: holds_map_def tree_entry_def none split: option.splits)
  note fr = same_frame_fields [OF i3(6)]
  have if2: "ifcase toupper i2 = up"
    using if0 by (simp add: i2_def init_idxtab_def i1_def first_pass_def ifcase_fold_char)
  have same4: "ifcase toupper i4 = up" "idxtab i4 = idxtab i2" "uniq_chars_count i4 = uniq_chars_count i1"
      "compress i4 = co" "min_key_len i4 = mn" "max_key_len i4 = mx" "ff_count i4 = length kvs"
    using fr if2 i3(8) by (simp_all add: i4_def ifcase_fold_char uniq_chars_count_def i2_def init_idxtab_def i1_def
        first_pass_def init_fastfind_def)
  have ok: "0 \<le> up c \<and> up c < 128 \<and> 0 \<le> idxtab i4 ! nat (up c) \<and> idxtab i4 ! nat (up c) < int (uniq_chars_count i4)"
    if "(k, d) \<in> set kvs" "c \<in> set k" for k d c
  proof -
    have r: "0 \<le> up c" "up c < 128" using v that by (auto simp: valid_keys_def)
    have "byte_of (up c) \<in> set (uniq_chars i1)" unfolding uq using sc(3) that by blast
    then show ?thesis using char2idx_present [of "byte_of (up c)" i1] ix(2) [OF r] r same4 by simp
  qed
  have len: "length (idxtab i4) = 128" using ix(1) same4 by (simp add: good_idxtab_def FF_MAX_CHARS_def COMP_CHAR_INDEX_BITS_def)
  have ne: "k \<noteq> []" if "(k, d) \<in> set kvs" for k d using v that by (auto simp: valid_keys_def)
  have at: "idx_of i4 (ifcase toupper i4 c) = Some (key_index i4 up c) \<and> key_index i4 up c < uniq_chars_count i4"
    if "(k, d) \<in> set kvs" "c \<in> set k" for k d c
    using ok [OF that] len same4(1) by (auto simp: idx_of_def key_index_def)
  have room: "length (ff_datas i4) + length kvs \<le> FF_MAX_KEYS"
    "leafsets_count i4 + sum_list (map (length \<circ> fst) kvs) \<le> Suc FF_MAX_LEAFSETS"
    using s i3(7) cnt4 by (simp_all add: small_keys_def i4_def)
  have "\<exists>i5. enter_keys toupper kvs i4 = Returned i5 \<and> plain_blocks i5
    \<and> tree_steps (info_steps i5) (leafsets_count i5) \<and> same_frame i4 i5
    \<and> holds_map (info_steps i5) (ff_datas i5) (Map.empty ++ folded_map (key_index i4 up) kvs)"
    by (rule enter_keys_effect [OF p4 t4 _ h4 _ _ room]) (simp add: i4_def, rule ne, assumption, rule at, assumption+)
  then obtain i5 where i5: "enter_keys toupper kvs i4 = Returned i5" "plain_blocks i5"
      "tree_steps (info_steps i5) (leafsets_count i5)" "same_frame i4 i5"
      "holds_map (info_steps i5) (ff_datas i5) (folded_map (key_index i4 up) kvs)" by auto
  note fr5 = same_frame_fields [OF i5(4)]
  have root: "root_leafset i5 = 1" using fr5 by (simp add: i4_def)
  have idx5: "key_index i5 up = key_index i4 up" by (simp add: fun_eq_iff key_index_def fr5)
  have "represents i5 up kvs" unfolding represents_def
  proof (intro conjI)
    show "good_blocks i5" by (rule plain_blocks_good [OF i5(2)])
    show "good_idxtab i5" using ix(1) same4 fr5 by (simp add: good_idxtab_def i2_def init_idxtab_def uniq_chars_count_def)
    show "holds_map (info_steps i5) (ff_datas i5) (folded_map (key_index i5 up) kvs)" using i5(5) by (simp add: idx5)
    show "\<forall>(k, d)\<in>set kvs. k \<noteq> [] \<and> min_key_len i5 \<le> length k \<and> length k \<le> max_key_len i5
      \<and> (\<forall>c\<in>set k. 0 \<le> up c \<and> up c < 128 \<and> 0 \<le> idxtab i5 ! nat (up c))"
      using sc(4) ne ok fr5 same4 by auto
    show "\<forall>x y. x < 128 \<longrightarrow> y < 128 \<longrightarrow> 0 \<le> idxtab i5 ! x \<longrightarrow> idxtab i5 ! x = idxtab i5 ! y \<longrightarrow> x = y"
      unfolding fr5 same4 using ix(3) by blast
  qed (rule i5(3))
  moreover have "fastfind_index toupper ca li co kvs
      = (if co then compress_tree (leafsets_count i5) 1 i5 else Returned i5)"
  proof -
    have "0 < ff_count i1 \<and> ff_count i3 < FF_MAX_KEYS"
      using s i3(8) by (cases kvs) (simp_all add: small_keys_def i1_def i2_def init_idxtab_def first_pass_def init_fastfind_def)
    moreover have "enter_keys toupper kvs (i3\<lparr>root_leafset := 1\<rparr>) = Returned i5" using i5(1) by (simp only: i4_def)
    moreover have "compress i5 = co" using fr5 same4 by simp
    ultimately show ?thesis
      using sc(1) [folded i1_def] i3(1) [unfolded i2_def] i3(4) root by (simp add: fastfind_index_def)
  qed
  moreover have "uniq_chars_count i5 \<le> FF_MAX_CHARS"
    using ascii_alphabet_size [OF sc(2) [folded i1_def]] fr5 same4 by simp
  ultimately show ?thesis using i5(2) fr5 same4 root by (intro that [of i5]) simp_all
qed

end
