(* ===== verification/Fastfind_Claims.thy ===== *)
theory Fastfind_Claims
  imports Fastfind_Build
begin

text \<open>
  Compression keeps the steps of the tree, so that the search in the finished index is the
  lookup of the folded key, and the two ways in which the code leaves its memory.
\<close>

subsection \<open>Compression keeps the steps\<close>

definition subtree :: "steps \<Rightarrow> nat \<Rightarrow> nat set" where
  "subtree F i = {k. \<exists>w. walk F i w = Some k}"

definition sound_blocks :: "steps \<Rightarrow> nat \<Rightarrow> 'd fastfind_info \<Rightarrow> bool" where
  "sound_blocks F n info \<longleftrightarrow> good_blocks info \<and> inj_on ((!) (leafsets info)) {1..n}
     \<and> leafsets_count info = n \<and> info_steps info = F \<and> uniq_chars_count info \<le> FF_MAX_CHARS"

definition plain_leafset :: "'d fastfind_info \<Rightarrow> nat \<Rightarrow> bool" where
  "plain_leafset info i \<longleftrightarrow> (\<exists>b. leafset_block info i = Some b \<and> plain_block (uniq_chars_count info) b)"

definition unchanged_outside :: "nat set \<Rightarrow> 'd fastfind_info \<Rightarrow> 'd fastfind_info \<Rightarrow> bool" where
  "unchanged_outside K info info' \<longleftrightarrow> same_frame info info' \<and> ff_datas info' = ff_datas info
     \<and> (\<forall>k. 1 \<le> k \<longrightarrow> k \<le> leafsets_count info \<longrightarrow> k \<notin> K \<longrightarrow>
          leafsets info' ! k = leafsets info ! k \<and> leafset_block info' k = leafset_block info k)"

lemma good_block_ex:
  "good_blocks info \<Longrightarrow> 1 \<le> i \<Longrightarrow> i \<le> leafsets_count info \<Longrightarrow> \<exists>b. leafset_block info i = Some b
    \<and> (plain_block (uniq_chars_count info) b \<or> packed_block (uniq_chars_count info) b)"
  by (simp add: good_blocks_def)

lemma leafset_block_address: "leafset_block info i = Some b \<Longrightarrow> leafsets info ! i < length (blocks info)"
  by (simp add: leafset_block_def split: if_splits)

lemma unchanged_outside_refl: "unchanged_outside K info info"
  by (simp add: unchanged_outside_def same_frame_refl)

lemma unchanged_outside_trans:
  assumes "unchanged_outside K info info1" "unchanged_outside L info1 info2"
    "leafsets_count info1 = leafsets_count info" "K \<subseteq> M" "L \<subseteq> M"
  shows "unchanged_outside M info info2"
  unfolding unchanged_outside_def
proof (intro conjI allI impI)
  show "same_frame info info2" using assms(1,2) same_frame_trans by (auto simp: unchanged_outside_def)
  fix k assume "1 \<le> k" "k \<le> leafsets_count info" "k \<notin> M"
  moreover from this have "k \<notin> K" "k \<notin> L" using assms by auto
  ultimately show "leafsets info2 ! k = leafsets info ! k" "leafset_block info2 k = leafset_block info k"
    using assms(1-3) by (simp_all add: unchanged_outside_def)
qed (use assms in \<open>simp add: unchanged_outside_def\<close>)

lemma unchanged_plain:
  assumes "unchanged_outside K info info'" "1 \<le> k" "k \<le> leafsets_count info" "k \<notin> K"
  shows "plain_leafset info' k \<longleftrightarrow> plain_leafset info k"
  using assms same_frame_fields(2) [of info info'] by (auto simp: unchanged_outside_def plain_leafset_def)

text \<open>Subtrees of different nodes of a leafset are disjoint, and do not contain it.\<close>

lemma subtree_disjoint:
  assumes t: "tree_steps F n" and r: "walk F 1 u = Some i"
    and l: "step_link F i j \<noteq> 0" "step_link F i j' \<noteq> 0" "j \<noteq> j'"
  shows "subtree F (step_link F i j) \<inter> subtree F (step_link F i j') = {}"
proof (rule ccontr)
  assume "subtree F (step_link F i j) \<inter> subtree F (step_link F i j') \<noteq> {}"
  then obtain k w w' where "walk F (step_link F i j) w = Some k" "walk F (step_link F i j') w' = Some k"
    by (auto simp: subtree_def)
  then have "walk F 1 (u @ j # w) = Some k" "walk F 1 (u @ j' # w') = Some k"
    using r l by (simp_all add: walk_append)
  from walk_inj [OF t this] show False using l(3) by simp
qed

lemma subtree_below:
  assumes "tree_steps F n" "step_link F i j \<noteq> 0" "k \<in> subtree F (step_link F i j)"
  shows "i < k \<and> k \<le> n"
  using assms walk_bounds [OF assms(1), of "step_link F i j" _ k] tree_stepsD [OF assms(1,2)]
  by (fastforce simp: subtree_def)

lemma subtree_child: "step_link F i j \<noteq> 0 \<Longrightarrow> subtree F (step_link F i j) \<subseteq> subtree F i"
  unfolding subtree_def by (auto intro: exI [of _ "j # w" for w])

lemma subtree_self: "i \<in> subtree F i"
  unfolding subtree_def by (auto intro: exI [of _ "[]"])

text \<open>One leafset with a single used node is replaced by that node.\<close>

lemma compress_node_sound:
  assumes s: "sound_blocks F n info" and i: "1 \<le> i" "i \<le> n" and p: "plain_leafset info i"
    and pos: "pos < uniq_chars_count info" and only: "\<And>j. F i j \<noteq> None \<Longrightarrow> j = pos"
    and i': "info' = compress_node (leafsets info ! i) i pos info"
  shows "sound_blocks F n info'" "unchanged_outside {i} info info'"
    "blocks info' ! (leafsets info ! i) = None"
proof -
  have n: "leafsets_count info = n" and F: "info_steps info = F" and g: "good_blocks info"
    and inj: "inj_on ((!) (leafsets info)) {1..n}" and u: "uniq_chars_count info \<le> FF_MAX_CHARS"
    using s by (auto simp: sound_blocks_def)
  obtain b where b: "leafset_block info i = Some b" "plain_block (uniq_chars_count info) b"
    using p by (auto simp: plain_leafset_def)
  have len: "length b = uniq_chars_count info" using b(2) by (simp add: plain_block_def)
  have at: "node_at info (leafsets info ! i) pos = Some (b ! pos)" using leafset_blockD [OF b(1)] pos len by simp
  have mod: "pos mod 2 ^ COMP_CHAR_INDEX_BITS = pos" using pos u by (simp add: FF_MAX_CHARS_def)
  define nd where "nd = (b ! pos)\<lparr>ff_c := True, ff_ch := pos\<rparr>"
  have i'': "info' = info\<lparr>blocks := (blocks info)[leafsets info ! i := None] @ [Some [nd]],
      leafsets := (leafsets info)[i := length (blocks info)]\<rparr>"
    unfolding i' compress_node_def using at mod by (simp add: nd_def)
  have li: "i < length (leafsets info)" using i n by (simp add: leafsets_count_def)
  have ai: "leafsets info ! i < length (blocks info)" by (rule leafset_block_address [OF b(1)])
  have n': "leafsets_count info' = n" and u': "uniq_chars_count info' = uniq_chars_count info"
    using n by (simp_all add: i'' leafsets_count_def uniq_chars_count_def)
  show "blocks info' ! (leafsets info ! i) = None" using ai by (simp add: i'' nth_append)
  have other: "leafsets info' ! k = leafsets info ! k" "leafset_block info' k = leafset_block info k"
    "leafsets info ! k < length (blocks info)" if k: "1 \<le> k" "k \<le> n" "k \<noteq> i" for k
  proof -
    show ls: "leafsets info' ! k = leafsets info ! k" using k by (simp add: i'')
    have ne: "leafsets info ! k \<noteq> leafsets info ! i" using inj_on_eq_iff [OF inj, of k i] k i by simp
    obtain c where "leafset_block info k = Some c" using good_block_ex [OF g, of k] k n by blast
    then show ak: "leafsets info ! k < length (blocks info)" by (rule leafset_block_address)
    show "leafset_block info' k = leafset_block info k"
      using ls ne ak n n' k by (simp add: leafset_block_def) (simp add: i'' nth_append)
  qed
  have self: "leafset_block info' i = Some [nd]" "leafsets info' ! i = length (blocks info)"
    using i n n' li by (simp_all add: leafset_block_def i'' nth_append)
  have packed: "packed_block (uniq_chars_count info) [nd]" using pos by (simp add: packed_block_def nd_def)
  show "unchanged_outside {i} info info'"
    using other n by (auto simp: unchanged_outside_def same_frame_def i'')
  have "good_blocks info'" unfolding good_blocks_def
  proof (intro conjI allI impI)
    show "0 < uniq_chars_count info'" "leafsets info' \<noteq> []" using pos u' li by (auto simp: i'')
    fix k assume "1 \<le> k" "k \<le> leafsets_count info'"
    then show "\<exists>b. leafset_block info' k = Some b \<and> (plain_block (uniq_chars_count info') b \<or> packed_block (uniq_chars_count info') b)"
      using self(1) packed other(2) [of k] good_block_ex [OF g, of k] n n' u' by (cases "k = i") simp_all
  qed
  moreover have "inj_on ((!) (leafsets info')) {1..n}"
  proof (rule inj_onI)
    fix x y assume xy: "x \<in> {1..n}" "y \<in> {1..n}" "leafsets info' ! x = leafsets info' ! y"
    show "x = y"
    proof (cases "x = i \<or> y = i")
      case True
      then show ?thesis using xy self other [of x] other [of y] by (metis atLeastAtMost_iff less_irrefl)
    next
      case False
      then show ?thesis using xy other(1) [of x] other(1) [of y] inj_onD [OF inj, of x y] by simp
    qed
  qed
  moreover have "info_steps info' = F"
  proof (intro ext)
    fix k m
    show "info_steps info' k m = F k m"
    proof (cases "1 \<le> k \<and> k \<le> n \<and> k \<noteq> i")
      case True
      then obtain c where c: "leafset_block info k = Some c" using good_block_ex [OF g, of k] n by blast
      then show ?thesis using leafset_blockD [OF c] leafset_blockD [of info' k c] other(2) [of k] True F by metis
    next
      case False
      show ?thesis
      proof (cases "k = i")
        case True
        have "info_steps info i = block_steps b" using leafset_blockD [OF b(1)] by blast
        then have Fi: "F i m = (if m < uniq_chars_count info then used_node (b ! m) else None)"
          using F block_steps_plain [OF b(2), of m] pos by simp
        have "info_steps info' i = block_steps [nd]" using leafset_blockD [OF self(1)] by blast
        then have I: "info_steps info' i m = (if pos = m then used_node (b ! pos) else None)"
          by (simp add: block_steps_def nd_def used_node_def)
        show ?thesis
        proof (cases "pos = m")
          case True
          then show ?thesis using I Fi pos \<open>k = i\<close> by simp
        next
          case False
          then have "F i m = None" using only [of m] by blast
          then show ?thesis using I False \<open>k = i\<close> by simp
        qed
      next
        case no: False
        with False have "\<not> (1 \<le> k \<and> k \<le> n)" by blast
        then show ?thesis using n n' F by (auto simp: info_steps_def)
      qed
    qed
  qed
  ultimately show "sound_blocks F n info'" using n' u u' by (simp add: sound_blocks_def)
qed


text \<open>
  The loop over the nodes of a leafset, given the induction hypothesis for the recursive
  calls: it keeps the steps, touches only the subtrees of the nodes, counts the used ones.
\<close>

definition compress_ok :: "steps \<Rightarrow> nat \<Rightarrow> (nat \<Rightarrow> 'd fastfind_info \<Rightarrow> 'd fastfind_info ff_result) \<Rightarrow> nat \<Rightarrow> bool" where
  "compress_ok F n rec i \<longleftrightarrow> (\<forall>info. sound_blocks F n info \<longrightarrow> (\<forall>k \<in> subtree F i. plain_leafset info k) \<longrightarrow>
     (\<exists>info'. rec (leafsets info ! i) info = Returned info' \<and> sound_blocks F n info'
        \<and> unchanged_outside (subtree F i) info info'))"

fun used_nodes :: "steps \<Rightarrow> nat \<Rightarrow> nat list \<Rightarrow> nat \<times> nat \<Rightarrow> nat \<times> nat" where
  "used_nodes F i [] cp = cp"
| "used_nodes F i (j # js) (cnt, pos) = used_nodes F i js (if F i j \<noteq> None then (cnt + 1, j) else (cnt, pos))"

lemma plain_leafset_steps:
  assumes s: "sound_blocks F n info" and p: "plain_leafset info i" and j: "j < uniq_chars_count info"
  obtains nd where "node_at info (leafsets info ! i) j = Some nd" "\<not> ff_c nd" "F i j = used_node nd"
proof -
  obtain b where b: "leafset_block info i = Some b" "plain_block (uniq_chars_count info) b"
    using p by (auto simp: plain_leafset_def)
  have len: "length b = uniq_chars_count info" using b(2) by (simp add: plain_block_def)
  then have "b ! j \<in> set b" using j by simp
  then have "\<not> ff_c (b ! j)" using b(2) by (simp add: plain_block_def)
  moreover have "node_at info (leafsets info ! i) j = Some (b ! j)" using leafset_blockD [OF b(1), of j] j len by simp
  moreover have "F i j = used_node (b ! j)"
    using leafset_blockD [OF b(1)] block_steps_plain [OF b(2), of j] s j by (auto simp: sound_blocks_def)
  ultimately show ?thesis using that by blast
qed

lemma compress_children_sound:
  assumes t: "tree_steps F n" and r: "walk F 1 u = Some i"
    and rec: "\<And>j. step_link F i j \<noteq> 0 \<Longrightarrow> compress_ok F n rec (step_link F i j)"
  shows "sound_blocks F n info \<Longrightarrow> plain_leafset info i \<Longrightarrow> distinct js \<Longrightarrow>
    (\<And>j. j \<in> set js \<Longrightarrow> j < uniq_chars_count info) \<Longrightarrow>
    (\<And>j k. j \<in> set js \<Longrightarrow> step_link F i j \<noteq> 0 \<Longrightarrow> k \<in> subtree F (step_link F i j) \<Longrightarrow> plain_leafset info k) \<Longrightarrow>
    \<exists>info'. compress_children rec (leafsets info ! i) js (cnt, pos) info
        = Returned (info', used_nodes F i js (cnt, pos))
      \<and> sound_blocks F n info' \<and> unchanged_outside (subtree F i - {i}) info info'"
proof (induction js arbitrary: info cnt pos)
  case Nil
  then show ?case using unchanged_outside_refl by auto
next
  case (Cons j js)
  obtain nd where nd: "node_at info (leafsets info ! i) j = Some nd" "\<not> ff_c nd" "F i j = used_node nd"
    using plain_leafset_steps [OF Cons.prems(1,2), of j] Cons.prems(4) by auto
  have i: "1 \<le> i" "i \<le> n" using walk_root [OF t r] by simp_all
  have link: "step_link F i j = ff_l nd" by (simp add: step_link_def nd(3) used_node_def)
  have used: "(ff_l nd \<noteq> 0 \<or> ff_e nd) = (F i j \<noteq> None)" by (auto simp: nd(3) used_node_def)
  let ?K = "if ff_l nd = 0 then {} else subtree F (ff_l nd)"
  have "\<exists>info1. (if ff_l nd = 0 then Returned info else rec (leafsets info ! ff_l nd) info) = Returned info1
      \<and> sound_blocks F n info1 \<and> unchanged_outside ?K info info1"
  proof (cases "ff_l nd = 0")
    case True
    then show ?thesis using Cons.prems(1) unchanged_outside_refl by auto
  next
    case False
    then have "\<forall>k \<in> subtree F (ff_l nd). plain_leafset info k" using Cons.prems(5) [of j] link by simp
    then show ?thesis using rec [of j] Cons.prems(1) link False by (auto simp: compress_ok_def)
  qed
  then obtain info1 where i1: "(if ff_l nd = 0 then Returned info else rec (leafsets info ! ff_l nd) info) = Returned info1"
      "sound_blocks F n info1" "unchanged_outside ?K info info1" by blast
  have n: "leafsets_count info = n" "leafsets_count info1 = n" using Cons.prems(1) i1(2) by (simp_all add: sound_blocks_def)
  have u: "uniq_chars_count info1 = uniq_chars_count info"
    using i1(3) by (auto simp: unchanged_outside_def dest: same_frame_fields(2))
  have below: "?K \<subseteq> subtree F i - {i}"
    using subtree_child [of F i j] subtree_below [OF t, of i j] link by auto
  then have "i \<notin> ?K" by blast
  then have same: "leafsets info1 ! i = leafsets info ! i" "plain_leafset info1 i"
    using i1(3) i n(1) unchanged_plain [OF i1(3), of i] Cons.prems(2) by (auto simp: unchanged_outside_def)
  have plain1: "plain_leafset info1 k"
    if j': "j' \<in> set js" "step_link F i j' \<noteq> 0" "k \<in> subtree F (step_link F i j')" for j' k
  proof -
    have "j' \<noteq> j" using j' Cons.prems(3) by auto
    then have "k \<notin> ?K" using subtree_disjoint [OF t r _ j'(2), of j] j'(3) link by auto
    moreover have "1 \<le> k" "k \<le> n" using subtree_below [OF t j'(2,3)] i by simp_all
    ultimately show ?thesis using unchanged_plain [OF i1(3), of k] Cons.prems(5) [of j' k] j' n by simp
  qed
  let ?cp = "if F i j \<noteq> None then (cnt + 1, j) else (cnt, pos)"
  have "\<exists>info2. compress_children rec (leafsets info1 ! i) js (fst ?cp, snd ?cp) info1
        = Returned (info2, used_nodes F i js (fst ?cp, snd ?cp))
      \<and> sound_blocks F n info2 \<and> unchanged_outside (subtree F i - {i}) info1 info2"
    by (rule Cons.IH [OF i1(2) same(2)]) (use Cons.prems(3,4) plain1 u in auto)
  then obtain info2 where i2: "compress_children rec (leafsets info ! i) js ?cp info1
        = Returned (info2, used_nodes F i js ?cp)"
      "sound_blocks F n info2" "unchanged_outside (subtree F i - {i}) info1 info2"
    unfolding prod.collapse same(1) by blast
  have "compress_children rec (leafsets info ! i) (j # js) (cnt, pos) info
      = Returned (info2, used_nodes F i (j # js) (cnt, pos))"
    using nd(1,2) i1(1) i2(1) used by simp
  moreover have "unchanged_outside (subtree F i - {i}) info info2"
    using unchanged_outside_trans [OF i1(3) i2(3) _ below] n by simp
  ultimately show ?case using i2(2) by blast
qed

lemma used_nodes_none: "\<forall>j \<in> set js. F i j = None \<Longrightarrow> used_nodes F i js cp = cp"
  by (induction js arbitrary: cp) auto

lemma used_nodes_count: "fst (used_nodes F i js (cnt, pos)) = cnt + length (filter (\<lambda>j. F i j \<noteq> None) js)"
  by (induction js arbitrary: cnt pos) auto

lemma used_nodes_one:
  "filter (\<lambda>j. F i j \<noteq> None) js = [p] \<Longrightarrow> used_nodes F i js (cnt, pos) = (cnt + 1, p)"
proof (induction js arbitrary: pos)
  case (Cons j js)
  show ?case
  proof (cases "F i j = None")
    case False
    then have "filter (\<lambda>j. F i j \<noteq> None) js = []" "j = p" using Cons.prems by auto
    then have "\<forall>j \<in> set js. F i j = None" unfolding filter_empty_conv by blast
    then show ?thesis using used_nodes_none False \<open>j = p\<close> by simp
  qed (use Cons in auto)
qed simp

lemma used_nodes_last:
  "snd (used_nodes F i js (cnt, pos)) \<in> insert pos (set js)"
  by (induction js arbitrary: cnt pos) fastforce+


lemma find_injective:
  assumes "inj_on f {1..n}" "1 \<le> i" "i \<le> n"
  shows "List.find (\<lambda>k. f k = f i) [1..<n] = (if i < n then Some i else None)"
proof (cases "i < n")
  case True
  have "List.find (\<lambda>k. f k = f i) [1..<n] = Some i"
    unfolding find_Some_iff
  proof (intro exI conjI allI impI)
    show "i - 1 < length [1..<n]" "f ([1..<n] ! (i - 1)) = f i" "i = [1..<n] ! (i - 1)"
      using True assms(2) by simp_all
    fix j assume j: "j < i - 1"
    then have "[1..<n] ! j = 1 + j" using True by simp
    then show "f ([1..<n] ! j) \<noteq> f i" using j True assms inj_on_eq_iff [OF assms(1), of "1 + j" i] by simp
  qed
  then show ?thesis using True by simp
next
  case False
  have "f k \<noteq> f i" if "k \<in> set [1..<n]" for k
    using that False assms inj_on_eq_iff [OF assms(1), of k i] by auto
  then show ?thesis using False by (simp add: find_None_iff)
qed

text \<open>What \<open>compress_tree\<close> does with a leafset after its subtrees.\<close>

lemma compress_tree_step:
  fixes info :: "'d fastfind_info"
  assumes t: "tree_steps F n" and r: "walk F 1 u = Some i"
    and rec: "\<And>j. step_link F i j \<noteq> 0 \<Longrightarrow> compress_ok F n (compress_tree m :: _ \<Rightarrow> 'd fastfind_info \<Rightarrow> _) (step_link F i j)"
    and s: "sound_blocks F n info" and p: "\<And>k. k \<in> subtree F i \<Longrightarrow> plain_leafset info k"
  obtains info1 used where "used = filter (\<lambda>j. F i j \<noteq> None) [0..<uniq_chars_count info]"
    "sound_blocks F n info1" "unchanged_outside (subtree F i - {i}) info info1" "plain_leafset info1 i"
    "compress_tree (Suc m) (leafsets info ! i) info = Returned
      (if length used = 1 \<and> i < n then compress_node (leafsets info1 ! i) i (hd used) info1 else info1)"
proof -
  let ?used = "filter (\<lambda>j. F i j \<noteq> None) [0..<uniq_chars_count info]"
  have i: "1 \<le> i" "i \<le> n" using walk_root [OF t r] by simp_all
  have pi: "plain_leafset info i" using p subtree_self by blast
  have "\<exists>info1. compress_children (compress_tree m) (leafsets info ! i) [0..<uniq_chars_count info] (0, 0) info
        = Returned (info1, used_nodes F i [0..<uniq_chars_count info] (0, 0))
      \<and> sound_blocks F n info1 \<and> unchanged_outside (subtree F i - {i}) info info1"
  proof (rule compress_children_sound [OF t r rec s pi])
    show "plain_leafset info k" if "step_link F i j \<noteq> 0" "k \<in> subtree F (step_link F i j)" for j k
      using p subtree_child [OF that(1)] that(2) by blast
  qed simp_all
  then obtain info1 where c1: "compress_children (compress_tree m) (leafsets info ! i) [0..<uniq_chars_count info] (0, 0) info
        = Returned (info1, used_nodes F i [0..<uniq_chars_count info] (0, 0))"
      "sound_blocks F n info1" "unchanged_outside (subtree F i - {i}) info info1" by blast
  obtain cnt pos where cp: "used_nodes F i [0..<uniq_chars_count info] (0, 0) = (cnt, pos)" by fastforce
  note c = c1(1) [unfolded cp] cp [symmetric] c1(2,3)
  have n: "leafsets_count info = n" "leafsets_count info1 = n" using s c(3) by (simp_all add: sound_blocks_def)
  have u: "uniq_chars_count info1 = uniq_chars_count info" "0 < uniq_chars_count info"
    using c(4) s by (auto simp: unchanged_outside_def sound_blocks_def good_blocks_def dest: same_frame_fields(2))
  have same: "leafsets info1 ! i = leafsets info ! i" using c(4) i n by (auto simp: unchanged_outside_def)
  have p1: "plain_leafset info1 i" using unchanged_plain [OF c(4), of i] i n pi by simp
  have posb: "pos < uniq_chars_count info1"
    using used_nodes_last [of F i "[0..<uniq_chars_count info]" 0 0] c(2) [symmetric] u by auto
  obtain nd where nd: "node_at info1 (leafsets info1 ! i) pos = Some nd" "\<not> ff_c nd"
    using plain_leafset_steps [OF c(3) p1 posb] by blast
  have cnt: "cnt = length ?used" using used_nodes_count [of F i "[0..<uniq_chars_count info]" 0 0] c(2) [symmetric] by simp
  have pos: "pos = hd ?used" if one: "length ?used = 1"
  proof -
    from one obtain q where q: "?used = [q]" by (auto simp: length_Suc_conv)
    from used_nodes_one [of F i "[0..<uniq_chars_count info]" q 0 0, OF q] c(2) have "pos = q" by simp
    with q show ?thesis by simp
  qed
  have inj: "inj_on ((!) (leafsets info1)) {1..n}" using c(3) by (simp add: sound_blocks_def)
  have "compress_tree (Suc m) (leafsets info ! i) info = Returned
      (if length ?used = 1 \<and> i < n then compress_node (leafsets info1 ! i) i (hd ?used) info1 else info1)"
    using c(1) nd cnt pos find_injective [OF inj i] n same by simp
  then show ?thesis using that [OF refl c(3,4) p1] by blast
qed

lemma single_used:
  assumes "length (filter (\<lambda>j. F i j \<noteq> None) [0..<u]) = 1" "\<And>j. F i j \<noteq> None \<Longrightarrow> j < u"
  shows "hd (filter (\<lambda>j. F i j \<noteq> None) [0..<u]) < u"
    and "F i j \<noteq> None \<Longrightarrow> j = hd (filter (\<lambda>j. F i j \<noteq> None) [0..<u])"
proof -
  let ?l = "filter (\<lambda>j. F i j \<noteq> None) [0..<u]"
  obtain q where q: "?l = [q]" using assms(1) by (metis One_nat_def length_0_conv length_Suc_conv)
  then have "q \<in> set ?l" by simp
  then show "hd ?l < u" using q by simp
  show "j = hd ?l" if "F i j \<noteq> None"
  proof -
    have "j \<in> set ?l" using that assms(2) by simp
    then have "j \<in> {q}" unfolding q by simp
    then show ?thesis unfolding q by simp
  qed
qed

lemma plain_leafset_range:
  assumes s: "sound_blocks F n info" and p: "plain_leafset info i" and j: "F i j \<noteq> None"
  shows "j < uniq_chars_count info"
proof (rule ccontr)
  assume a: "\<not> j < uniq_chars_count info"
  obtain b where b: "leafset_block info i = Some b" "plain_block (uniq_chars_count info) b"
    using p by (auto simp: plain_leafset_def)
  have u: "0 < uniq_chars_count info" using s by (simp add: sound_blocks_def good_blocks_def)
  have "F i = block_steps b" using leafset_blockD [OF b(1)] s by (auto simp: sound_blocks_def)
  then show False using block_steps_plain [OF b(2) u, of j] a j by simp
qed

lemma compress_tree_sound:
  "tree_steps F n \<Longrightarrow> walk F 1 u = Some i \<Longrightarrow> n < m + i
    \<Longrightarrow> compress_ok F n (compress_tree m :: _ \<Rightarrow> 'd fastfind_info \<Rightarrow> _) i"
proof (induction m arbitrary: u i)
  case 0
  then show ?case using walk_root [OF 0(1,2)] by simp
next
  case (Suc m)
  have i: "1 \<le> i" "i \<le> n" using walk_root [OF Suc.prems(1,2)] by simp_all
  have rec: "compress_ok F n (compress_tree m :: _ \<Rightarrow> 'd fastfind_info \<Rightarrow> _) (step_link F i j)" if l: "step_link F i j \<noteq> 0" for j
  proof (rule Suc.IH [OF Suc.prems(1)])
    show "walk F 1 (u @ [j]) = Some (step_link F i j)" using Suc.prems(2) l by (simp add: walk_append)
    show "n < m + step_link F i j" using tree_stepsD [OF Suc.prems(1) l] Suc.prems(3) by simp
  qed
  show ?case unfolding compress_ok_def
  proof (intro allI impI)
    fix info :: "'d fastfind_info"
    assume s: "sound_blocks F n info" and p: "\<forall>k \<in> subtree F i. plain_leafset info k"
    obtain info1 used where c: "used = filter (\<lambda>j. F i j \<noteq> None) [0..<uniq_chars_count info]"
      "sound_blocks F n info1" "unchanged_outside (subtree F i - {i}) info info1" "plain_leafset info1 i"
      "compress_tree (Suc m) (leafsets info ! i) info = Returned
        (if length used = 1 \<and> i < n then compress_node (leafsets info1 ! i) i (hd used) info1 else info1)"
      using compress_tree_step [OF Suc.prems(1,2) rec s] p by metis
    have n: "leafsets_count info1 = leafsets_count info" using s c(2) by (simp add: sound_blocks_def)
    have u: "uniq_chars_count info1 = uniq_chars_count info"
      using c(3) by (auto simp: unchanged_outside_def dest: same_frame_fields(2))
    show "\<exists>info'. compress_tree (Suc m) (leafsets info ! i) info = Returned info'
      \<and> sound_blocks F n info' \<and> unchanged_outside (subtree F i) info info'"
    proof (cases "length used = 1 \<and> i < n")
      case True
      have rng: "j < uniq_chars_count info" if "F i j \<noteq> None" for j
        using plain_leafset_range [OF c(2,4) that] u by simp
      have one: "length (filter (\<lambda>j. F i j \<noteq> None) [0..<uniq_chars_count info]) = 1" using True c(1) by simp
      note su = single_used [of F i "uniq_chars_count info", OF one rng, folded c(1)]
      have hd: "hd used < uniq_chars_count info1" using su(1) u by simp
      define info2 where "info2 = compress_node (leafsets info1 ! i) i (hd used) info1"
      note cn = compress_node_sound [OF c(2) i c(4) hd su(2) info2_def]
      have "unchanged_outside (subtree F i) info info2"
        by (rule unchanged_outside_trans [OF c(3) cn(2) n]) (use subtree_self in auto)
      then show ?thesis using c(5) cn(1) True by (simp add: info2_def)
    next
      case False
      have "unchanged_outside (subtree F i) info info1"
        by (rule unchanged_outside_trans [OF c(3) unchanged_outside_refl [of "{}"] n]) auto
      then show ?thesis using c(2,5) False by auto
    qed
  qed
qed


subsection \<open>The search in the finished index\<close>

lemma holds_map_first:
  assumes h: "holds_map F ds M" and m: "M (j # w) \<noteq> None"
  shows "F 1 j \<noteq> None"
proof
  assume none: "F 1 j = None"
  obtain v k where v: "j # w = v @ [k]" by (cases "j # w" rule: rev_cases) auto
  have "tree_entry F v k = None"
  proof (cases v)
    case Nil
    then show ?thesis using v none by (simp add: tree_entry_def)
  next
    case (Cons j' v')
    then show ?thesis using v none by (simp add: tree_entry_def)
  qed
  then show False using holds_mapD(1) [OF h] m v by simp
qed

lemma folded_map_mem: "(k, d) \<in> set kvs \<Longrightarrow> folded_map f kvs (map f k) \<noteq> None"
proof (induction kvs)
  case (Cons kv kvs)
  then show ?case by (cases kv) (auto simp: map_add_def split: option.splits)
qed simp

lemma represents_first:
  assumes r: "represents info up kvs" and kd: "(k, d) \<in> set kvs"
  shows "info_steps info 1 (key_index info up (hd k)) \<noteq> None"
proof -
  have h: "holds_map (info_steps info) (ff_datas info) (folded_map (key_index info up) kvs)"
    using r by (simp add: represents_def)
  have "k \<noteq> []" using r kd unfolding represents_def by fast
  then obtain c k' where k: "k = c # k'" by (cases k) auto
  show ?thesis using holds_map_first [OF h, of "key_index info up c" "map (key_index info up) k'"]
      folded_map_mem [OF kd, of "key_index info up"] k by simp
qed

lemma compress_tree_represents:
  assumes p: "plain_blocks info" and r: "represents info up kvs" and u: "uniq_chars_count info \<le> FF_MAX_CHARS"
    and root: "root_leafset info = 1"
    and diff: "(k, d) \<in> set kvs" "(k', d') \<in> set kvs" "up (hd k) \<noteq> up (hd k')"
  obtains info' where "compress_tree (leafsets_count info) 1 info = Returned info'" "represents info' up kvs"
    "leafsets info' ! 1 = root_leafset info'" "same_frame info info'"
proof -
  let ?F = "info_steps info" and ?n = "leafsets_count info"
  have t: "tree_steps ?F ?n" and g: "good_blocks info" using r by (simp_all add: represents_def)
  have n1: "1 \<le> ?n" using t by (simp add: tree_steps_def)
  have w: "walk ?F 1 [] = Some 1" by simp
  have s: "sound_blocks ?F ?n info"
    using g u p by (auto simp: sound_blocks_def inj_on_def)
  have pl: "plain_leafset info i" if "i \<in> subtree ?F 1" for i
  proof -
    have "1 \<le> i" "i \<le> ?n" using that walk_root [OF t] by (auto simp: subtree_def)
    then show ?thesis using plain_blocksE [OF p] by (metis plain_leafset_def)
  qed
  obtain m where m: "?n = Suc m" using n1 by (cases ?n) auto
  have rec: "compress_ok ?F ?n (compress_tree m :: _ \<Rightarrow> 'a fastfind_info \<Rightarrow> _) (step_link ?F 1 j)"
    if l: "step_link ?F 1 j \<noteq> 0" for j
    by (rule compress_tree_sound [OF t, of "[j]"]) (use l tree_stepsD [OF t l] m in simp_all)
  obtain info1 used where c: "used = filter (\<lambda>j. ?F 1 j \<noteq> None) [0..<uniq_chars_count info]"
    "sound_blocks ?F ?n info1" "unchanged_outside (subtree ?F 1 - {1}) info info1"
    "compress_tree (Suc m) (leafsets info ! 1) info = Returned
      (if length used = 1 \<and> 1 < ?n then compress_node (leafsets info1 ! 1) 1 (hd used) info1 else info1)"
    using compress_tree_step [OF t w rec s pl] by metis
  have "length used \<noteq> 1"
  proof
    assume "length used = 1"
    then obtain q where q: "used = [q]" by (metis One_nat_def length_0_conv length_Suc_conv)
    have mem: "key_index info up (hd x) = q" if "(x, y) \<in> set kvs" for x y
    proof -
      have "?F 1 (key_index info up (hd x)) \<noteq> None" by (rule represents_first [OF r that])
      moreover from this have "key_index info up (hd x) < uniq_chars_count info"
        using plain_leafset_range [OF s pl] subtree_self by metis
      ultimately have "key_index info up (hd x) \<in> set used" by (simp add: c(1))
      then show ?thesis using q by simp
    qed
    have rng: "0 \<le> up (hd x) \<and> up (hd x) < 128 \<and> 0 \<le> idxtab info ! nat (up (hd x))" if "(x, y) \<in> set kvs" for x y
    proof -
      have "x \<noteq> [] \<and> (\<forall>c \<in> set x. 0 \<le> up c \<and> up c < 128 \<and> 0 \<le> idxtab info ! nat (up c))"
        using r that unfolding represents_def by fast
      then show ?thesis by simp
    qed
    have "idxtab info ! nat (up (hd k)) = idxtab info ! nat (up (hd k'))"
      using mem [OF diff(1)] mem [OF diff(2)] rng [OF diff(1)] rng [OF diff(2)]
      unfolding key_index_def by linarith
    moreover have "nat (up (hd k)) < 128" "nat (up (hd k')) < 128"
      using rng [OF diff(1)] rng [OF diff(2)] by linarith+
    ultimately have "nat (up (hd k)) = nat (up (hd k'))"
      using r rng [OF diff(1)] unfolding represents_def by blast
    then show False using rng [OF diff(1)] rng [OF diff(2)] diff(3) by (simp add: eq_nat_nat_iff)
  qed
  then have res: "compress_tree ?n 1 info = Returned info1" using c(4) m p n1 by simp
  have fr: "same_frame info info1" "ff_datas info1 = ff_datas info" "leafsets info1 ! 1 = leafsets info ! 1"
    using c(3) n1 by (auto simp: unchanged_outside_def)
  note ff = same_frame_fields [OF fr(1)]
  have "good_blocks info1" "info_steps info1 = ?F" "leafsets_count info1 = ?n"
    using c(2) by (simp_all add: sound_blocks_def)
  then have "represents info1 up kvs" using r ff fr(2)
    by (simp add: represents_def good_idxtab_def key_index_def [abs_def])
  moreover have "leafsets info1 ! 1 = root_leafset info1" using fr(3) ff root p n1 by simp
  ultimately show ?thesis using that res fr(1) by blast
qed

text \<open>
  C37: The index over any list of non-empty ASCII keywords within its limits is built without
  error, and from then on every search, for a key of any length and in any case whose characters
  are ASCII (no byte from \<open>0x80\<close> on, which reads outside of an array: \<open>fastfind_negative_index\<close>),
  returns exactly what a look through the list would: the data of the last keyword that equals
  the key in the chosen folding of case, or NULL when there is none. The array of leafsets, the
  private alphabet and the compression of leafsets with a single entry change nothing about
  it. With compression, two keywords have to begin with different characters
  (\<open>fastfind_root_freed\<close> shows what happens otherwise).
\<close>

theorem fastfind_search_exact:
  assumes "valid_keys (fold_char toupper ca li) kvs" "small_keys kvs"
    "co \<Longrightarrow> \<exists>(k, d) \<in> set kvs. \<exists>(k', d') \<in> set kvs.
       fold_char toupper ca li (hd k) \<noteq> fold_char toupper ca li (hd k')"
  shows "\<exists>info. fastfind_index toupper ca li co kvs = Returned info
    \<and> (\<forall>key key_len. (\<forall>i < key_len. 0 \<le> fold_char toupper ca li (char_at key i)) \<longrightarrow>
         fastfind_search toupper info key key_len
         = Returned (map_of (rev (map (\<lambda>(k, d). (map (fold_char toupper ca li) k, d)) kvs))
             (map (\<lambda>i. fold_char toupper ca li (char_at key i)) [0..<key_len])))"
proof -
  define up where "up = fold_char toupper ca li"
  obtain info where i: "fastfind_index toupper ca li co kvs
      = (if co then compress_tree (leafsets_count info) 1 info else Returned info)"
    "plain_blocks info" "represents info up kvs" "ifcase toupper info = up" "root_leafset info = 1"
    "uniq_chars_count info \<le> FF_MAX_CHARS"
    using build_represents [OF up_def assms(1,2) [folded up_def], of co] .
  have "1 \<le> leafsets_count info" using i(3) by (simp add: represents_def tree_steps_def)
  then have root: "leafsets info ! 1 = root_leafset info" using i(2,5) by simp
  have "\<exists>info'. fastfind_index toupper ca li co kvs = Returned info' \<and> represents info' up kvs
      \<and> ifcase toupper info' = up \<and> leafsets info' ! 1 = root_leafset info'"
  proof (cases co)
    case True
    from assms(3) [OF this, folded up_def] obtain k d k' d'
      where diff: "(k, d) \<in> set kvs" "(k', d') \<in> set kvs" "up (hd k) \<noteq> up (hd k')" by blast
    obtain info' where c: "compress_tree (leafsets_count info) 1 info = Returned info'" "represents info' up kvs"
      "leafsets info' ! 1 = root_leafset info'" "same_frame info info'"
      using compress_tree_represents [OF i(2,3,6,5) diff] .
    then show ?thesis using True i(1,4) same_frame_fields(8) [OF c(4), of toupper] by auto
  qed (use i root in auto)
  then obtain info' where i': "fastfind_index toupper ca li co kvs = Returned info'" "represents info' up kvs"
      "ifcase toupper info' = up" "leafsets info' ! 1 = root_leafset info'" by blast
  show ?thesis using i'(1) represents_fastfind_search [OF i'(2,3,4)]
    by (auto simp: up_def [symmetric] folded_map_def comp_def)
qed

theorem fastfind_search_exact_witness:
  "\<exists>info. fastfind_index (\<lambda>c. schar (c_toupper c)) False True True
      [(''h1'', 1), (''body'', 2), (''bodyrock'', 3), (''BODY'', 4 :: nat)] = Returned info
    \<and> fastfind_search (\<lambda>c. schar (c_toupper c)) info ''Body>'' 4 = Returned (Some 4)
    \<and> fastfind_search (\<lambda>c. schar (c_toupper c)) info ''bodyr'' 5 = Returned None"
proof -
  let ?up = "fold_char (\<lambda>c. schar (c_toupper c)) False True"
  let ?kvs = "[(''h1'', 1), (''body'', 2), (''bodyrock'', 3), (''BODY'', 4 :: nat)]"
  have v: "valid_keys ?up ?kvs" "small_keys ?kvs" by code_simp+
  have d: "\<exists>(k, d) \<in> set ?kvs. \<exists>(k', d') \<in> set ?kvs. ?up (hd k) \<noteq> ?up (hd k')" by code_simp
  obtain info where i: "fastfind_index (\<lambda>c. schar (c_toupper c)) False True True ?kvs = Returned info"
    "\<forall>key key_len. (\<forall>i < key_len. 0 \<le> ?up (char_at key i)) \<longrightarrow>
         fastfind_search (\<lambda>c. schar (c_toupper c)) info key key_len
         = Returned (map_of (rev (map (\<lambda>(k, d). (map ?up k, d)) ?kvs)) (map (\<lambda>i. ?up (char_at key i)) [0..<key_len]))"
    using fastfind_search_exact [OF v d, of True] by (elim exE conjE) (rule that)
  have "0 \<le> ?up NUL" by code_simp
  then have pos: "0 \<le> ?up (char_at s j)" if "list_all (\<lambda>c. 0 \<le> ?up c) s" for s j
    using that by (simp add: char_at_def list_all_length)
  have "list_all (\<lambda>c. 0 \<le> ?up c) ''Body>''" "list_all (\<lambda>c. 0 \<le> ?up c) ''bodyr''" by code_simp+
  note pos [OF this(1)] pos [OF this(2)]
  moreover have "map_of (rev (map (\<lambda>(k, d). (map ?up k, d)) ?kvs)) (map (\<lambda>i. ?up (char_at ''Body>'' i)) [0..<4]) = Some 4"
    "map_of (rev (map (\<lambda>(k, d). (map ?up k, d)) ?kvs)) (map (\<lambda>i. ?up (char_at ''bodyr'' i)) [0..<5]) = None"
    by (simp_all add: upt_rec fold_char_def char_at_def cchar_simps)
  ultimately show ?thesis using i(1) i(2) [rule_format, of 4 "''Body>''"] i(2) [rule_format, of 5 "''bodyr''"] by auto
qed


subsection \<open>Where the code leaves its memory\<close>

text \<open>
  A byte from 0x80 on is a negative \<open>char\<close>; folded by \<open>c_toupper\<close> it stays negative, and the
  test \<open>k >= FF_MAX_CHARS\<close> lets it through to \<open>idxtab[k]\<close>. Such keys come from the colour
  attributes of HTML pages.
\<close>

lemma fastfind_negative_index:
  assumes "fold_char toupper (case_aware info) (locale_indep info) (deref key) < 0"
    "min_key_len info \<le> key_len" "key_len \<le> max_key_len info" "0 < key_len"
  shows "fastfind_search toupper info key key_len = Undefined"
proof -
  obtain n where n: "key_len = Suc n" using assms(4) by (cases key_len) auto
  have "map (char_at key) [0..<key_len] = deref key # map (char_at key) [1..<key_len]"
    unfolding n by (subst upt_conv_Cons) simp_all
  then show ?thesis using assms by (simp add: fastfind_search_def ifcase_fold_char Let_def FF_MAX_CHARS_def COMP_CHAR_INDEX_BITS_def)
qed

text \<open>
  When all keys begin with the same character, the root leafset itself is compressed: its
  block is freed, and \<open>root_leafset\<close> still points to it.
\<close>

lemma fastfind_root_freed:
  "(case fastfind_index (\<lambda>c. schar (c_toupper c)) False True True [(''ab'', 1), (''ac'', 2 :: nat)] of
      Returned info \<Rightarrow> blocks info ! root_leafset info = None
        \<and> fastfind_search (\<lambda>c. schar (c_toupper c)) info ''ab'' 2 = Undefined
    | r \<Rightarrow> False)"
  by code_simp

end
