(* ===== verification/Conn_Queue.thy ===== *)
theory Conn_Queue
  imports Uri_String
begin

text \<open>
  \<open>src/network/connection.c\<close>: the queue of connections, the numbers of connections to each
  host, and the scheduler that starts, suspends and interrupts connections.

  A connection in the queue is named by its address \<open>conn_addr\<close>, where the code has a pointer;
  \<open>next_addr\<close> is the address the next one gets. Its \<open>id\<close>, the field \<open>conn_id\<close>, is taken from a
  counter of 32 bits that wraps, so two connections can have the same. The code calls back into the rest of the program (the callbacks
  of downloads, the protocol handler that \<open>run_connection\<close> starts) only at the end of an
  operation on this state, or, in \<open>check_queue\<close>, right before it starts over from the head
  of the queue; so an operation here ends where the code calls back, and whatever the callee
  does to the queue is a further operation. The progress meters, timers and sockets of a
  connection are outside the model. \<open>assertm\<close> without a recovery path goes on, as the code
  does. URIs come from the URI cache, so equal values stand for equal pointers.
\<close>

subsection \<open>State\<close>

definition PRI_MAIN :: nat where "PRI_MAIN = 0"
definition PRI_IMG :: nat where "PRI_IMG = 4"
definition PRI_CANCEL :: nat where "PRI_CANCEL = 6"
definition PRIORITIES :: nat where "PRIORITIES = 7"

definition S_WAIT :: int where "S_WAIT = 0"
definition S_TRANS :: int where "S_TRANS = 8"
definition S_OK :: int where "S_OK = -100000"
definition S_INTERRUPTED :: int where "S_INTERRUPTED = -100001"
definition S_INTERNAL :: int where "S_INTERNAL = -100003"

definition is_in_result_state :: "int \<Rightarrow> bool" where "is_in_result_state st \<longleftrightarrow> st < 0"
definition is_in_progress_state :: "int \<Rightarrow> bool" where "is_in_progress_state st \<longleftrightarrow> st \<ge> 0"
definition is_in_connecting_state :: "int \<Rightarrow> bool" where
  "is_in_connecting_state st \<longleftrightarrow> S_WAIT < st \<and> st < S_TRANS"
definition is_in_transfering_state :: "int \<Rightarrow> bool" where "is_in_transfering_state st \<longleftrightarrow> st \<ge> S_TRANS"

record download =
  dl_id :: nat
  dl_pri :: nat
  dl_state :: int
  dl_prev_error :: int

record connection =
  conn_addr :: nat
  conn_id :: "32 word"
  conn_uri :: uri
  proxied_uri :: uri
  referrer :: "uri option"
  downloads :: "download list"
  conn_state :: int
  prev_error :: int
  tries :: int
  running :: bool
  detached :: bool
  curl :: bool
  is_aborted :: bool
  pri :: "int list"

record host_connection =
  hc_uri :: uri
  hc_refcount :: int

record conn_queue =
  next_addr :: nat
  connection_id :: "32 word"
  active_connections :: int
  connection_queue :: "connection list"
  host_connections :: "host_connection list"

text \<open>Access to a queued connection through its pointer.\<close>

definition conn_at :: "nat \<Rightarrow> conn_queue \<Rightarrow> connection option" where
  "conn_at cid s = List.find (\<lambda>c. conn_addr c = cid) (connection_queue s)"

definition upd_conn :: "nat \<Rightarrow> (connection \<Rightarrow> connection) \<Rightarrow> conn_queue \<Rightarrow> conn_queue" where
  "upd_conn cid f s =
     s\<lparr>connection_queue := map (\<lambda>c. if conn_addr c = cid then f c else c) (connection_queue s)\<rparr>"

definition del_conn :: "nat \<Rightarrow> conn_queue \<Rightarrow> conn_queue" where
  "del_conn cid s = s\<lparr>connection_queue := filter (\<lambda>c. conn_addr c \<noteq> cid) (connection_queue s)\<rparr>"

definition get_priority :: "connection \<Rightarrow> nat" where
  "get_priority c = length (takeWhile (\<lambda>p. p = 0) (take PRIORITIES (pri c)))"

definition get_connections_count :: "conn_queue \<Rightarrow> nat" where
  "get_connections_count s = length (connection_queue s)"

definition get_connections_connecting_count :: "conn_queue \<Rightarrow> nat" where
  "get_connections_connecting_count s =
     length (filter (\<lambda>c. is_in_connecting_state (conn_state c)) (connection_queue s))"

definition get_connections_transfering_count :: "conn_queue \<Rightarrow> nat" where
  "get_connections_transfering_count s =
     length (filter (\<lambda>c. is_in_transfering_state (conn_state c)) (connection_queue s))"

subsection \<open>Connections to a host\<close>

definition same_host :: "uri \<Rightarrow> uri \<Rightarrow> bool" where
  "same_host a b \<longleftrightarrow> compare_uri (a = b) a b URI_HOST"

definition get_host_connection :: "connection \<Rightarrow> host_connection list \<Rightarrow> host_connection option" where
  "get_host_connection c hosts =
     (if host (conn_uri c) = None then None
      else List.find (\<lambda>h. same_host (hc_uri h) (conn_uri c)) hosts)"

text \<open>The updates through the pointer that \<open>get_host_connection\<close> returns.\<close>

fun add_host_refcount :: "uri \<Rightarrow> int \<Rightarrow> host_connection list \<Rightarrow> host_connection list" where
  "add_host_refcount u d [] = []"
| "add_host_refcount u d (h # hs) =
     (if same_host (hc_uri h) u then h\<lparr>hc_refcount := hc_refcount h + d\<rparr> # hs
      else h # add_host_refcount u d hs)"

fun del_host :: "uri \<Rightarrow> host_connection list \<Rightarrow> host_connection list" where
  "del_host u [] = []"
| "del_host u (h # hs) = (if same_host (hc_uri h) u then hs else h # del_host u hs)"

definition add_host_connection :: "connection \<Rightarrow> host_connection list \<Rightarrow> host_connection list" where
  "add_host_connection c hosts =
     (case get_host_connection c hosts of
        Some h \<Rightarrow> add_host_refcount (conn_uri c) 1 hosts
      | None \<Rightarrow> if host (conn_uri c) \<noteq> None then \<lparr>hc_uri = conn_uri c, hc_refcount = 1\<rparr> # hosts else hosts)"

definition done_host_connection :: "connection \<Rightarrow> host_connection list \<Rightarrow> host_connection list" where
  "done_host_connection c hosts =
     (case get_host_connection c hosts of
        None \<Rightarrow> hosts
      | Some h \<Rightarrow>
          if hc_refcount h - 1 \<noteq> 0 then add_host_refcount (conn_uri c) (-1) hosts
          else del_host (conn_uri c) hosts)"

subsection \<open>The queue\<close>

definition init_connection ::
  "nat \<Rightarrow> 32 word \<Rightarrow> uri \<Rightarrow> uri \<Rightarrow> uri option \<Rightarrow> nat \<Rightarrow> connection" where
  "init_connection cid n u proxied refr priority =
     \<lparr>conn_addr = cid, conn_id = n, conn_uri = u, proxied_uri = proxied,
      referrer = (case refr of
         None \<Rightarrow> None
       | Some r \<Rightarrow>
           if protocol r \<noteq> PROTOCOL_FILE
              \<or> (protocol u = PROTOCOL_FILE \<or> protocol u = PROTOCOL_MAILCAP \<or> protocol u = PROTOCOL_MAILCAP_HTML)
           then Some r else None),
      downloads = [], conn_state = 0, prev_error = 0, tries = 0, running = False, detached = False,
      curl = False, is_aborted = False, pri = (replicate PRIORITIES 0)[priority := 1]\<rparr>"

fun insert_conn :: "connection \<Rightarrow> connection list \<Rightarrow> connection list" where
  "insert_conn conn [] = [conn]"
| "insert_conn conn (c # cs) =
     (if get_priority c > get_priority conn then conn # c # cs else c # insert_conn conn cs)"

definition add_to_queue :: "connection \<Rightarrow> conn_queue \<Rightarrow> conn_queue" where
  "add_to_queue conn s = s\<lparr>connection_queue := insert_conn conn (connection_queue s)\<rparr>"

text \<open>
  One pass of \<open>sort_queue\<close>. After an exchange, \<open>conn\<close> is behind its successor, so the loop goes
  on with the connection after both. The flag is \<open>swp\<close>.
\<close>

fun sort_pass :: "connection list \<Rightarrow> connection list \<times> bool" where
  "sort_pass (conn # n # cs) =
     (if get_priority n < get_priority conn
      then (let (cs', swp) = sort_pass cs in (n # conn # cs', True))
      else (let (cs', swp) = sort_pass (n # cs) in (conn # cs', swp)))"
| "sort_pass cs = (cs, False)"

text \<open>The loop of \<open>sort_queue\<close>; a call that does not return would be \<open>None\<close>.\<close>

partial_function (option) sort_loop :: "connection list \<Rightarrow> connection list option" where
  "sort_loop q = (let (q', swp) = sort_pass q in if swp then sort_loop q' else Some q')"

definition sort_queue :: "conn_queue \<Rightarrow> conn_queue option" where
  "sort_queue s = map_option (\<lambda>q. s\<lparr>connection_queue := q\<rparr>) (sort_loop (connection_queue s))"

subsection \<open>States of a connection\<close>

definition set_connection_state :: "nat \<Rightarrow> int \<Rightarrow> conn_queue \<Rightarrow> conn_queue" where
  "set_connection_state cid st s = upd_conn cid (\<lambda>c.
     let pe = (if is_in_result_state (conn_state c) \<and> is_in_progress_state st
               then conn_state c else prev_error c)
     in c\<lparr>prev_error := pe, conn_state := st,
          downloads := map (\<lambda>d. d\<lparr>dl_state := st, dl_prev_error := pe\<rparr>) (downloads c)\<rparr>) s"

definition free_connection_data :: "nat \<Rightarrow> conn_queue \<Rightarrow> conn_queue" where
  "free_connection_data cid s =
     (case conn_at cid s of
        None \<Rightarrow> s
      | Some c \<Rightarrow>
          let active = active_connections s - 1;
              s = upd_conn cid (\<lambda>c. c\<lparr>running := False\<rparr>) s
                    \<lparr>active_connections := (if active \<ge> 0 then active else 0)\<rparr>
          in if conn_state c \<noteq> S_WAIT
             then s\<lparr>host_connections := done_host_connection c (host_connections s)\<rparr> else s)"

definition done_connection :: "nat \<Rightarrow> conn_queue \<Rightarrow> conn_queue" where
  "done_connection cid s =
     (case conn_at cid s of
        None \<Rightarrow> s
      | Some c \<Rightarrow>
          del_conn cid (if \<not> is_in_result_state (conn_state c) then set_connection_state cid S_INTERNAL s else s))"

definition suspend_connection :: "nat \<Rightarrow> conn_queue \<Rightarrow> conn_queue" where
  "suspend_connection cid s = set_connection_state cid S_WAIT (free_connection_data cid s)"

text \<open>\<open>run_connection\<close> up to the call of the protocol handler.\<close>

definition run_connection :: "nat \<Rightarrow> conn_queue \<Rightarrow> conn_queue" where
  "run_connection cid s =
     (case conn_at cid s of
        None \<Rightarrow> s
      | Some c \<Rightarrow>
          if running c then s
          else upd_conn cid (\<lambda>c. c\<lparr>running := True\<rparr>)
                 (s\<lparr>host_connections := add_host_connection c (host_connections s),
                    active_connections := active_connections s + 1\<rparr>))"

text \<open>\<open>terminate\<close> is \<open>program.terminate\<close>.\<close>

definition abort_connection :: "bool \<Rightarrow> nat \<Rightarrow> int \<Rightarrow> conn_queue \<Rightarrow> conn_queue" where
  "abort_connection terminate cid st s =
     (case conn_at cid s of
        None \<Rightarrow> s
      | Some c \<Rightarrow>
          if curl c \<and> st = S_INTERRUPTED \<and> \<not> terminate
          then upd_conn cid (\<lambda>c. c\<lparr>is_aborted := True\<rparr>) s
          else let s = set_connection_state cid st s
               in done_connection cid (if running c then free_connection_data cid s else s))"

definition retry_connection :: "int \<Rightarrow> nat \<Rightarrow> int \<Rightarrow> conn_queue \<Rightarrow> conn_queue" where
  "retry_connection max_tries cid st s =
     (case conn_at cid s of
        None \<Rightarrow> s
      | Some c \<Rightarrow>
          let s = free_connection_data cid (set_connection_state cid st s)
          in if post (conn_uri c) \<noteq> None then done_connection cid s
             else let n = (if max_tries \<noteq> 0 then tries c + 1 else tries c);
                      s = upd_conn cid (\<lambda>c. c\<lparr>tries := n\<rparr>) s
                  in if max_tries \<noteq> 0 \<and> n \<ge> max_tries then done_connection cid s
                     else run_connection cid (upd_conn cid (\<lambda>c. c\<lparr>prev_error := conn_state c\<rparr>) s))"

text \<open>The end of \<open>add_keepalive_connection\<close>: the connection leaves, its socket stays.\<close>

definition release_connection :: "nat \<Rightarrow> conn_queue \<Rightarrow> conn_queue" where
  "release_connection cid s = done_connection cid (free_connection_data cid s)"

subsection \<open>The scheduler\<close>

text \<open>The loop over the queue from its end, for a connection to suspend.\<close>

fun suspend_victim :: "nat \<Rightarrow> uri option \<Rightarrow> connection list \<Rightarrow> connection option" where
  "suspend_victim priority u [] = None"
| "suspend_victim priority u (c # cs) =
     (if get_priority c \<le> priority then None
      else if conn_state c = S_WAIT then suspend_victim priority u cs
      else if post (conn_uri c) \<noteq> None \<and> get_priority c < PRI_CANCEL then suspend_victim priority u cs
      else if (case u of Some u \<Rightarrow> \<not> same_host u (conn_uri c) | None \<Rightarrow> False) then suspend_victim priority u cs
      else Some c)"

definition try_to_suspend_connection :: "connection \<Rightarrow> uri option \<Rightarrow> conn_queue \<Rightarrow> int \<times> conn_queue" where
  "try_to_suspend_connection conn u s =
     (case suspend_victim (get_priority conn) u (rev (connection_queue s)) of
        None \<Rightarrow> (-1, s)
      | Some c \<Rightarrow> (0, suspend_connection (conn_addr c) s))"

definition try_connection :: "connection \<Rightarrow> int \<Rightarrow> int \<Rightarrow> conn_queue \<Rightarrow> int \<times> conn_queue" where
  "try_connection conn max_conns_to_host max_conns s =
     (case get_host_connection conn (host_connections s) of
        Some h \<Rightarrow>
          if hc_refcount h \<ge> max_conns_to_host
          then (case try_to_suspend_connection conn (Some (hc_uri h)) s of (r, s') \<Rightarrow> (if r \<noteq> 0 then 0 else -1, s'))
          else if active_connections s \<ge> max_conns
          then (case try_to_suspend_connection conn None s of (r, s') \<Rightarrow> (if r \<noteq> 0 then 0 else -1, s'))
          else (1, run_connection (conn_addr conn) s)
      | None \<Rightarrow>
          if active_connections s \<ge> max_conns
          then (case try_to_suspend_connection conn None s of (r, s') \<Rightarrow> (if r \<noteq> 0 then 0 else -1, s'))
          else (1, run_connection (conn_addr conn) s))"

text \<open>
  The two inner loops of \<open>check_queue\<close>, with the test of their condition: the rest of the
  queue from \<open>conn\<close> on as far as it has the priority \<open>p\<close>. The result is the state at the
  \<open>goto again\<close>, or \<open>None\<close> if the loop comes to its end.
\<close>

fun try_group ::
  "(connection \<Rightarrow> bool) \<Rightarrow> nat \<Rightarrow> int \<Rightarrow> int \<Rightarrow> connection list \<Rightarrow> conn_queue \<Rightarrow> conn_queue option" where
  "try_group want p mh mc [] s = None"
| "try_group want p mh mc (c # cs) s =
     (if get_priority c \<noteq> p then None
      else if conn_state c = S_WAIT \<and> want c
      then (case try_connection c mh mc s of (r, s') \<Rightarrow>
              if r \<noteq> 0 then Some s' else try_group want p mh mc cs s')
      else try_group want p mh mc cs s)"

text \<open>\<open>kept\<close> tells the connections for which \<open>get_keepalive_connection\<close> finds one.\<close>

function try_groups ::
  "(connection \<Rightarrow> bool) \<Rightarrow> int \<Rightarrow> int \<Rightarrow> connection list \<Rightarrow> conn_queue \<Rightarrow> conn_queue option" where
  "try_groups kept mh mc [] s = None"
| "try_groups kept mh mc (c # cs) s =
     (case try_group kept (get_priority c) mh mc (c # cs) s of
        Some s' \<Rightarrow> Some s'
      | None \<Rightarrow>
          (case try_group (\<lambda>_. True) (get_priority c) mh mc (c # cs) s of
             Some s' \<Rightarrow> Some s'
           | None \<Rightarrow> try_groups kept mh mc (dropWhile (\<lambda>c'. get_priority c' = get_priority c) cs) s))"
  by pat_completeness auto
termination
  by (relation "measure (\<lambda>(kept, mh, mc, cs, s). length cs)") (auto simp: le_imp_less_Suc length_dropWhile_le)

text \<open>One round of \<open>check_queue\<close> from \<open>again\<close> to the next \<open>goto again\<close>.\<close>

definition check_queue_round :: "(connection \<Rightarrow> bool) \<Rightarrow> int \<Rightarrow> int \<Rightarrow> conn_queue \<Rightarrow> conn_queue option" where
  "check_queue_round kept mh mc s = try_groups kept mh mc (connection_queue s) s"

text \<open>The loop at \<open>again2\<close>, from the end of the queue: the first connection it interrupts.\<close>

fun cancelled_conn :: "connection list \<Rightarrow> connection option" where
  "cancelled_conn [] = None"
| "cancelled_conn (c # cs) =
     (if get_priority c < PRI_CANCEL then None
      else if conn_state c = S_WAIT then Some c else cancelled_conn cs)"

definition interrupt_cancelled :: "conn_queue \<Rightarrow> conn_queue option" where
  "interrupt_cancelled s =
     (case cancelled_conn (rev (connection_queue s)) of
        None \<Rightarrow> None
      | Some c \<Rightarrow> Some (done_connection (conn_addr c) (set_connection_state (conn_addr c) S_INTERRUPTED s)))"

text \<open>
  The whole of \<open>check_queue\<close>, where nothing but the protocol handlers touches the queue meanwhile.
  The handler of a connection \<open>run_connection\<close> has just made \<open>running\<close> leaves it in the state
  \<open>st\<close>, or aborts it with that state if it is a result; \<open>kept\<close> looks at the keepalive connections.
\<close>

definition start_protocol :: "(connection \<Rightarrow> int) \<Rightarrow> conn_queue \<Rightarrow> conn_queue" where
  "start_protocol st s =
     (case List.find (\<lambda>c. running c \<and> conn_state c = S_WAIT) (connection_queue s) of
        None \<Rightarrow> s
      | Some c \<Rightarrow>
          if is_in_result_state (st c) then abort_connection False (conn_addr c) (st c) s
          else set_connection_state (conn_addr c) (st c) s)"

partial_function (option) check_starts ::
  "(connection \<Rightarrow> int) \<Rightarrow> (conn_queue \<Rightarrow> connection \<Rightarrow> bool) \<Rightarrow> int \<Rightarrow> int \<Rightarrow> conn_queue \<Rightarrow> conn_queue option" where
  "check_starts st kept mh mc s =
     (case check_queue_round (kept s) mh mc s of
        None \<Rightarrow> Some s
      | Some s' \<Rightarrow> check_starts st kept mh mc (start_protocol st s'))"

partial_function (option) interrupt_all :: "conn_queue \<Rightarrow> conn_queue option" where
  "interrupt_all s = (case interrupt_cancelled s of None \<Rightarrow> Some s | Some s' \<Rightarrow> interrupt_all s')"

definition check_queue ::
  "(connection \<Rightarrow> int) \<Rightarrow> (conn_queue \<Rightarrow> connection \<Rightarrow> bool) \<Rightarrow> int \<Rightarrow> int \<Rightarrow> conn_queue \<Rightarrow> conn_queue option" where
  "check_queue st kept mh mc s =
     (case check_starts st kept mh mc s of None \<Rightarrow> None | Some s' \<Rightarrow> interrupt_all s')"

subsection \<open>Downloads\<close>

text \<open>
  The part of \<open>load_uri\<close> behind the cache and the proxies: \<open>proxy_uri\<close> and \<open>proxied\<close> are the
  valid URIs these yielded; \<open>found\<close> tells that the cache serves the request after all
  (\<open>CACHE_MODE_ALWAYS\<close>). \<open>download->callback\<close> follows at the end.
\<close>

definition attach_download :: "download option \<Rightarrow> nat \<Rightarrow> int \<Rightarrow> int \<Rightarrow> connection \<Rightarrow> connection" where
  "attach_download dl p st pe c =
     (case dl of
        None \<Rightarrow> c
      | Some d \<Rightarrow> c\<lparr>downloads := d\<lparr>dl_pri := p, dl_state := st, dl_prev_error := pe\<rparr> # downloads c\<rparr>)"

definition load_uri ::
  "uri \<Rightarrow> uri \<Rightarrow> uri option \<Rightarrow> download option \<Rightarrow> nat \<Rightarrow> bool \<Rightarrow> conn_queue \<Rightarrow> conn_queue" where
  "load_uri proxy_uri proxied refr dl p found s =
     (case List.find (\<lambda>c. \<not> detached c \<and> compare_uri (conn_uri c = proxy_uri) (conn_uri c) proxy_uri URI_NONE)
             (connection_queue s) of
        Some c \<Rightarrow>
          let bump = (\<lambda>c. c\<lparr>pri := (pri c)[p := pri c ! p + 1]\<rparr>);
              s = (if get_priority c > p then add_to_queue (bump c) (del_conn (conn_addr c) s)
                   else upd_conn (conn_addr c) bump s)
          in if dl = None then s
             else set_connection_state (conn_addr c) (conn_state c)
                    (upd_conn (conn_addr c) (attach_download dl p (conn_state c) (prev_error c)) s)
      | None \<Rightarrow>
          if dl \<noteq> None \<and> found then s
          else let cid = next_addr s;
                   conn = attach_download dl p S_OK 0 (init_connection cid (connection_id s) proxy_uri proxied refr p)
               in set_connection_state cid S_WAIT (add_to_queue conn (s\<lparr>next_addr := next_addr s + 1, connection_id := connection_id s + 1\<rparr>)))"

definition try_to_load_image :: "uri \<Rightarrow> uri \<Rightarrow> uri option \<Rightarrow> conn_queue \<Rightarrow> conn_queue" where
  "try_to_load_image proxy_uri proxied refr s =
     (let cid = next_addr s;
          conn = init_connection cid (connection_id s) proxy_uri proxied refr PRI_IMG
      in run_connection cid (set_connection_state cid S_WAIT (add_to_queue conn (s\<lparr>next_addr := next_addr s + 1, connection_id := connection_id s + 1\<rparr>))))"

definition cancel_download :: "bool \<Rightarrow> nat \<Rightarrow> nat \<Rightarrow> bool \<Rightarrow> conn_queue \<Rightarrow> conn_queue option" where
  "cancel_download terminate cid did interrupt s =
     (case conn_at cid s of
        None \<Rightarrow> Some s
      | Some c \<Rightarrow>
          (case List.find (\<lambda>d. dl_id d = did) (downloads c) of
             None \<Rightarrow> Some s
           | Some d \<Rightarrow>
               if is_in_result_state (dl_state d) then Some s
               else let p = pri c ! dl_pri d - 1;
                        c' = c\<lparr>downloads := filter (\<lambda>d. dl_id d \<noteq> did) (downloads c),
                               pri := (pri c)[dl_pri d := if p \<ge> 0 then p else 0]\<rparr>;
                        s = (if downloads c' = []
                             then let s = upd_conn cid (\<lambda>_. c'\<lparr>pri := (pri c')[PRI_CANCEL := pri c' ! PRI_CANCEL + 1]\<rparr>) s
                                  in if detached c \<or> interrupt then abort_connection terminate cid S_INTERRUPTED s else s
                             else upd_conn cid (\<lambda>_. c') s)
                    in sort_queue s))"

definition move_download :: "bool \<Rightarrow> nat \<Rightarrow> nat \<Rightarrow> nat \<Rightarrow> nat \<Rightarrow> conn_queue \<Rightarrow> conn_queue option" where
  "move_download terminate cid old new newpri s =
     (case conn_at cid s of
        None \<Rightarrow> Some s
      | Some c \<Rightarrow>
          (case List.find (\<lambda>d. dl_id d = old) (downloads c) of
             None \<Rightarrow> Some s
           | Some d \<Rightarrow>
               if is_in_result_state (dl_state d) then Some s
               else case sort_queue (upd_conn cid (\<lambda>c. c\<lparr>pri := (pri c)[newpri := pri c ! newpri + 1],
                           downloads := d\<lparr>dl_id := new, dl_pri := newpri\<rparr> # downloads c\<rparr>) s) of
                      None \<Rightarrow> None
                    | Some s \<Rightarrow> cancel_download terminate cid old False s))"


text \<open>
  \<open>detach_connection\<close>, once it has found that the connection does not fit into the cache and
  serves one download only; \<open>is_entry_used\<close> is about the cache entry of a connection.
\<close>

definition detach_conn :: "nat \<Rightarrow> conn_queue \<Rightarrow> conn_queue" where
  "detach_conn cid s = upd_conn cid (\<lambda>c. c\<lparr>detached := True\<rparr>) s"

text \<open>
  \<open>do_keepalive_connection_callback\<close> up to the call of \<open>done\<close>: a connection that tells the server
  to quit. \<open>found\<close> is what \<open>has_keepalive_connection\<close> returns.
\<close>

definition do_keepalive_connection_callback :: "uri \<Rightarrow> uri \<Rightarrow> bool \<Rightarrow> conn_queue \<Rightarrow> int \<times> conn_queue" where
  "do_keepalive_connection_callback proxy_uri proxied found s =
     (let cid = next_addr s;
          conn = init_connection cid (connection_id s) proxy_uri proxied None PRI_CANCEL;
          s = add_to_queue conn (s\<lparr>next_addr := next_addr s + 1, connection_id := connection_id s + 1\<rparr>)
      in if \<not> found then (0, done_connection cid (free_connection_data cid s))
         else (1, upd_conn cid (\<lambda>c. c\<lparr>running := True\<rparr>)
                 (s\<lparr>host_connections := add_host_connection conn (host_connections s),
                    active_connections := active_connections s + 1\<rparr>)))"

text \<open>The loops over the whole queue, where no callback touches it; each may call back.\<close>

partial_function (option) abort_all_connections :: "bool \<Rightarrow> conn_queue \<Rightarrow> conn_queue option" where
  "abort_all_connections terminate s =
     (case connection_queue s of
        [] \<Rightarrow> Some s
      | c # cs \<Rightarrow> abort_all_connections terminate (abort_connection terminate (conn_addr c) S_INTERRUPTED s))"

definition abort_background_connections :: "bool \<Rightarrow> conn_queue \<Rightarrow> conn_queue" where
  "abort_background_connections terminate s =
     foldl (\<lambda>s c. if get_priority c \<ge> PRI_CANCEL then abort_connection terminate (conn_addr c) S_INTERRUPTED s else s)
       s (connection_queue s)"

end
