(* ===== verification/Conn_Sort.thy ===== *)
theory Conn_Sort
  imports Conn_Queue "HOL-Library.Multiset"
begin

text \<open>
  The order of the connection queue: \<open>sort_queue\<close> comes to an end and is the stable sort by
  priority, and a new connection goes behind those of its own priority.
\<close>

fun inversions :: "connection list \<Rightarrow> nat" where
  "inversions [] = 0"
| "inversions (c # cs) = length (filter (\<lambda>d. get_priority d < get_priority c) cs) + inversions cs"

lemma sort_pass_filter:
  "filter (\<lambda>c. get_priority c = k) (fst (sort_pass q)) = filter (\<lambda>c. get_priority c = k) q"
  by (induction q rule: sort_pass.induct) (auto split: prod.splits)

lemma sort_pass_mset: "mset (fst (sort_pass q)) = mset q"
  by (induction q rule: sort_pass.induct) (auto split: prod.splits)

lemma sort_pass_done: "\<not> snd (sort_pass q) \<Longrightarrow> fst (sort_pass q) = q \<and> sorted (map get_priority q)"
proof (induction q rule: sort_pass.induct)
  case (1 conn n cs)
  then have le: "\<not> get_priority n < get_priority conn" by (auto split: prod.splits)
  then have "\<not> snd (sort_pass (n # cs))" using 1(3) by (auto split: prod.splits)
  then have "fst (sort_pass (n # cs)) = n # cs" "sorted (map get_priority (n # cs))" using 1(2) le by auto
  then show ?case using le by (auto split: prod.splits)
qed simp_all

lemma filter_mset_length: "mset xs = mset ys \<Longrightarrow> length (filter P xs) = length (filter P ys)"
  by (metis mset_filter size_mset)

lemma sort_pass_inversions:
  "inversions (fst (sort_pass q)) \<le> inversions q
    \<and> (snd (sort_pass q) \<longrightarrow> inversions (fst (sort_pass q)) < inversions q)"
proof (induction q rule: sort_pass.induct)
  case (1 conn n cs)
  show ?case
  proof (cases "get_priority n < get_priority conn")
    case True
    obtain cs' swp where p: "sort_pass cs = (cs', swp)" by fastforce
    have m: "mset cs' = mset cs" using sort_pass_mset [of cs] p by simp
    have "inversions cs' \<le> inversions cs" using 1(1) [OF True] p by simp
    then show ?thesis using True p filter_mset_length [OF m] by simp
  next
    case False
    obtain cs' swp where p: "sort_pass (n # cs) = (cs', swp)" by fastforce
    have m: "mset cs' = mset (n # cs)" using sort_pass_mset [of "n # cs"] p by simp
    show ?thesis using 1(2) [OF False] False p filter_mset_length [OF m] by simp
  qed
qed simp_all

lemma sort_key_by_filter:
  assumes "mset ys = mset xs" "\<And>k. filter (\<lambda>x. f x = k) ys = filter (\<lambda>x. f x = k) xs" "sorted (map f ys)"
  shows "sort_key f xs = ys"
proof (rule properties_for_sort_key [OF assms(1) _ assms(3)])
  have flip: "filter (\<lambda>x. f k = f x) zs = filter (\<lambda>x. f x = f k) zs" for k zs
    by (rule filter_cong) auto
  show "filter (\<lambda>x. f k = f x) ys = filter (\<lambda>x. f k = f x) xs" for k
    unfolding flip by (rule assms(2))
qed

lemma sort_loop_stable: "sort_loop q = Some (sort_key get_priority q)"
proof (induction "inversions q" arbitrary: q rule: less_induct)
  case less
  obtain q' swp where p: "sort_pass q = (q', swp)" by fastforce
  show ?case
  proof (cases swp)
    case True
    then have "sort_loop q' = Some (sort_key get_priority q')"
      using less sort_pass_inversions [of q] p by simp
    moreover have "sort_key get_priority q = sort_key get_priority q'"
    proof (rule sort_key_by_filter)
      show "mset (sort_key get_priority q') = mset q" using sort_pass_mset [of q] p by simp
      show "filter (\<lambda>x. get_priority x = k) (sort_key get_priority q') = filter (\<lambda>x. get_priority x = k) q" for k
        using sort_pass_filter [of k q] p by (simp add: sort_key_stable)
    qed simp
    ultimately show ?thesis using p True by (simp add: sort_loop.simps [of q])
  next
    case False
    then have "q' = q" "sorted (map get_priority q)" using sort_pass_done [of q] p by simp_all
    moreover from this have "sort_key get_priority q = q" by (intro sort_key_by_filter) simp_all
    ultimately show ?thesis using p False by (simp add: sort_loop.simps [of q])
  qed
qed

lemma sort_queue_stable: "sort_queue s = Some (s\<lparr>connection_queue := sort_key get_priority (connection_queue s)\<rparr>)"
  by (simp add: sort_queue_def sort_loop_stable)

lemma insert_conn_mset [simp]: "mset (insert_conn c q) = add_mset c (mset q)"
  by (induction q) auto

lemma insert_conn_set [simp]: "set (insert_conn c q) = insert c (set q)"
  by (induction q) auto

lemma insert_conn_sorted: "sorted (map get_priority q) \<Longrightarrow> sorted (map get_priority (insert_conn c q))"
  by (induction q) (auto simp: not_less)

lemma insert_conn_split:
  "sorted (map get_priority q) \<Longrightarrow> insert_conn c q
    = filter (\<lambda>d. get_priority d \<le> get_priority c) q @ c # filter (\<lambda>d. get_priority c < get_priority d) q"
proof (induction q)
  case (Cons d q)
  then have ge: "\<forall>e \<in> set q. get_priority d \<le> get_priority e" by auto
  show ?case
  proof (cases "get_priority d > get_priority c")
    case True
    then have "filter (\<lambda>e. get_priority e \<le> get_priority c) q = []"
      "filter (\<lambda>e. get_priority c < get_priority e) q = q"
      using ge by (auto simp: filter_empty_conv filter_id_conv)
    then show ?thesis using True by simp
  qed (use Cons in simp)
qed simp

end
