(* ===== verification/Conn_Invariant.thy ===== *)
theory Conn_Invariant
  imports Conn_Sort
begin

text \<open>
  The state of the connection queue stays consistent: what each operation does to the counts
  of running connections, to the references of hosts and to the owners of connections.
\<close>

subsection \<open>Hosts\<close>

definition host_key :: "uri \<Rightarrow> string option" where
  "host_key u = component u (host u) (hostlen u)"

lemma compare_component_eq: "compare_component a b \<longleftrightarrow> a = b"
  by (auto simp: compare_component_def split: option.splits)

lemma same_host_key: "same_host a b \<longleftrightarrow> host_key a = host_key b"
proof -
  have "wants URI_HOST URI_HOST" "\<not> wants URI_HOST URI_PROTOCOL" "\<not> wants URI_HOST URI_IP_FAMILY"
    "\<not> wants URI_HOST URI_USER" "\<not> wants URI_HOST URI_PASSWORD" "\<not> wants URI_HOST URI_PORT"
    "\<not> wants URI_HOST URI_DATA" "\<not> wants URI_HOST URI_FRAGMENT" "\<not> wants URI_HOST URI_POST"
    by (simp_all add: wants_def)
  then show ?thesis by (auto simp: same_host_def compare_uri_def compare_component_eq host_key_def)
qed

lemma host_key_None: "host_key u = None \<longleftrightarrow> host u = None"
  by (simp add: host_key_def component_def)

definition host_refs :: "host_connection list \<Rightarrow> string option \<Rightarrow> int" where
  "host_refs hs k = (case List.find (\<lambda>h. host_key (hc_uri h) = k) hs of None \<Rightarrow> 0 | Some h \<Rightarrow> hc_refcount h)"

definition good_hosts :: "host_connection list \<Rightarrow> bool" where
  "good_hosts hs \<longleftrightarrow> distinct (map (\<lambda>h. host_key (hc_uri h)) hs)
    \<and> (\<forall>h \<in> set hs. host_key (hc_uri h) \<noteq> None \<and> 0 < hc_refcount h)"

lemma host_refs_simps [simp]:
  "host_refs [] k = 0"
  "host_refs (h # hs) k = (if host_key (hc_uri h) = k then hc_refcount h else host_refs hs k)"
  by (simp_all add: host_refs_def)

lemma host_refs_absent: "k \<notin> (\<lambda>h. host_key (hc_uri h)) ` set hs \<Longrightarrow> host_refs hs k = 0"
  by (induction hs) auto

lemma host_refs_present:
  "good_hosts hs \<Longrightarrow> k \<in> (\<lambda>h. host_key (hc_uri h)) ` set hs \<Longrightarrow> 0 < host_refs hs k"
  by (induction hs) (auto simp: good_hosts_def)

lemma get_host_connection_refs:
  assumes "good_hosts hs"
  shows "get_host_connection c hs = None \<Longrightarrow> host_refs hs (host_key (conn_uri c)) = 0"
    and "get_host_connection c hs = Some h \<Longrightarrow> hc_refcount h = host_refs hs (host_key (conn_uri c))
      \<and> 0 < hc_refcount h \<and> host_key (hc_uri h) = host_key (conn_uri c) \<and> host_key (conn_uri c) \<noteq> None"
proof -
  have f: "List.find (\<lambda>h. same_host (hc_uri h) (conn_uri c)) hs
    = List.find (\<lambda>h. host_key (hc_uri h) = host_key (conn_uri c)) hs"
    by (simp add: same_host_key)
  show "host_refs hs (host_key (conn_uri c)) = 0" if "get_host_connection c hs = None"
  proof (cases "host (conn_uri c) = None")
    case True
    then have "host_key (conn_uri c) = None" by (simp add: host_key_None)
    then show ?thesis using assms by (intro host_refs_absent) (auto simp: good_hosts_def)
  next
    case False
    then have "List.find (\<lambda>h. host_key (hc_uri h) = host_key (conn_uri c)) hs = None"
      using that unfolding get_host_connection_def f if_not_P [OF False] by blast
    then show ?thesis unfolding host_refs_def by simp
  qed
  show "hc_refcount h = host_refs hs (host_key (conn_uri c)) \<and> 0 < hc_refcount h
      \<and> host_key (hc_uri h) = host_key (conn_uri c) \<and> host_key (conn_uri c) \<noteq> None"
    if g: "get_host_connection c hs = Some h"
  proof -
    have ne: "host (conn_uri c) \<noteq> None" and fi: "List.find (\<lambda>h. host_key (hc_uri h) = host_key (conn_uri c)) hs = Some h"
      using g by (auto simp: get_host_connection_def f split: if_splits)
    have "h \<in> set hs" "host_key (hc_uri h) = host_key (conn_uri c)"
      using fi by (auto simp: find_Some_iff)
    then show ?thesis using fi ne assms by (auto simp: host_refs_def good_hosts_def host_key_None)
  qed
qed

lemma add_host_refcount_keys [simp]:
  "map (\<lambda>h. host_key (hc_uri h)) (add_host_refcount u d hs) = map (\<lambda>h. host_key (hc_uri h)) hs"
  by (induction hs) auto

lemma add_host_refcount_refs:
  "host_refs (add_host_refcount u d hs) k
    = host_refs hs k + (if k = host_key u \<and> k \<in> (\<lambda>h. host_key (hc_uri h)) ` set hs then d else 0)"
  by (induction hs) (auto simp: same_host_key)

lemma add_host_refcount_good:
  "good_hosts hs \<Longrightarrow> (host_key u \<in> (\<lambda>h. host_key (hc_uri h)) ` set hs \<Longrightarrow> 0 < host_refs hs (host_key u) + d)
    \<Longrightarrow> good_hosts (add_host_refcount u d hs)"
proof (induction hs)
  case (Cons h hs)
  have keys: "host_key (hc_uri h) \<notin> (\<lambda>h. host_key (hc_uri h)) ` set (add_host_refcount u d hs)"
    "host_key (hc_uri h) \<notin> (\<lambda>h. host_key (hc_uri h)) ` set hs"
    "good_hosts hs" "host_key (hc_uri h) \<noteq> None" "0 < hc_refcount h"
    using Cons.prems(1) by (simp_all add: good_hosts_def flip: set_map)
  show ?case
  proof (cases "host_key (hc_uri h) = host_key u")
    case True
    then show ?thesis using Cons.prems by (simp add: good_hosts_def same_host_key)
  next
    case False
    then have "good_hosts (add_host_refcount u d hs)" using Cons keys by simp
    then show ?thesis using False keys by (simp add: good_hosts_def same_host_key)
  qed
qed simp

lemma del_host_refs:
  "good_hosts hs \<Longrightarrow> host_refs (del_host u hs) k = (if k = host_key u then 0 else host_refs hs k)"
proof (induction hs)
  case (Cons h hs)
  then have g: "good_hosts hs" and z: "host_refs hs (host_key (hc_uri h)) = 0"
    by (simp_all add: good_hosts_def host_refs_absent)
  show ?case
  proof (cases "host_key (hc_uri h) = host_key u")
    case True
    then show ?thesis using z by (simp add: same_host_key)
  next
    case False
    then show ?thesis using Cons.IH [OF g] by (cases "k = host_key u") (simp_all add: same_host_key)
  qed
qed simp

lemma del_host_subset: "set (del_host u hs) \<subseteq> set hs"
  by (induction hs) auto

lemma del_host_good: "good_hosts hs \<Longrightarrow> good_hosts (del_host u hs)"
proof (induction hs)
  case (Cons h hs)
  have g: "good_hosts hs" and new: "host_key (hc_uri h) \<notin> (\<lambda>h. host_key (hc_uri h)) ` set hs"
    and h: "host_key (hc_uri h) \<noteq> None" "0 < hc_refcount h"
    using Cons.prems by (simp_all add: good_hosts_def)
  have "(\<lambda>h. host_key (hc_uri h)) ` set (del_host u hs) \<subseteq> (\<lambda>h. host_key (hc_uri h)) ` set hs"
    by (rule image_mono) (rule del_host_subset)
  with new have "host_key (hc_uri h) \<notin> (\<lambda>h. host_key (hc_uri h)) ` set (del_host u hs)" by blast
  then have "good_hosts (h # del_host u hs)" using Cons.IH [OF g] h by (simp add: good_hosts_def)
  then show ?case using g by simp
qed simp

lemma add_host_connection_refs:
  assumes g: "good_hosts hs"
  shows "good_hosts (add_host_connection c hs)"
    and "host_refs (add_host_connection c hs) k
      = host_refs hs k + (if k = host_key (conn_uri c) \<and> k \<noteq> None then 1 else 0)"
proof -
  let ?k = "host_key (conn_uri c)"
  consider (none) "?k = None" | (fresh) "?k \<noteq> None" "get_host_connection c hs = None"
    | (old) h where "get_host_connection c hs = Some h" by (cases "get_host_connection c hs") auto
  then have "good_hosts (add_host_connection c hs) \<and> host_refs (add_host_connection c hs) k
      = host_refs hs k + (if k = ?k \<and> k \<noteq> None then 1 else 0)"
  proof cases
    case none
    then have "get_host_connection c hs = None" by (simp add: get_host_connection_def flip: host_key_None)
    then show ?thesis using none g by (auto simp: add_host_connection_def simp flip: host_key_None)
  next
    case fresh
    have z: "host_refs hs ?k = 0" by (rule get_host_connection_refs(1) [OF g fresh(2)])
    then have "?k \<notin> (\<lambda>h. host_key (hc_uri h)) ` set hs" using host_refs_present [OF g, of ?k] by auto
    then show ?thesis using fresh g z by (auto simp: add_host_connection_def good_hosts_def simp flip: host_key_None)
  next
    case old
    note gh = get_host_connection_refs(2) [OF g old]
    then have "?k \<in> (\<lambda>h. host_key (hc_uri h)) ` set hs" using host_refs_absent [of ?k hs] by force
    then show ?thesis using old g gh
      by (auto simp: add_host_connection_def add_host_refcount_refs intro!: add_host_refcount_good)
  qed
  then show "good_hosts (add_host_connection c hs)" "host_refs (add_host_connection c hs) k
      = host_refs hs k + (if k = ?k \<and> k \<noteq> None then 1 else 0)" by auto
qed

lemma done_host_connection_refs:
  assumes g: "good_hosts hs"
    and used: "host_key (conn_uri c) \<noteq> None \<Longrightarrow> 0 < host_refs hs (host_key (conn_uri c))"
  shows "good_hosts (done_host_connection c hs)"
    and "host_refs (done_host_connection c hs) k
      = host_refs hs k - (if k = host_key (conn_uri c) \<and> k \<noteq> None then 1 else 0)"
proof -
  let ?k = "host_key (conn_uri c)"
  have "good_hosts (done_host_connection c hs) \<and> host_refs (done_host_connection c hs) k
      = host_refs hs k - (if k = ?k \<and> k \<noteq> None then 1 else 0)"
  proof (cases "get_host_connection c hs")
    case None
    then have "?k = None" using get_host_connection_refs(1) [OF g None] used by force
    then show ?thesis using None g by (auto simp: done_host_connection_def)
  next
    case (Some h)
    note gh = get_host_connection_refs(2) [OF g Some]
    then have "?k \<in> (\<lambda>h. host_key (hc_uri h)) ` set hs" using host_refs_absent [of ?k hs] by force
    then show ?thesis using Some g gh
      by (auto simp: done_host_connection_def add_host_refcount_refs del_host_refs
          intro!: add_host_refcount_good del_host_good)
  qed
  then show "good_hosts (done_host_connection c hs)" "host_refs (done_host_connection c hs) k
      = host_refs hs k - (if k = ?k \<and> k \<noteq> None then 1 else 0)" by auto
qed


subsection \<open>The invariant\<close>

text \<open>
  Every download is counted in the priorities of its connection, and a connection has an
  owner; the references of hosts count the running connections, and so does the counter of active
  connections, but that it is up to \<open>lost\<close> too small; a connection that is not running waits.
\<close>

definition owners_ok :: "connection \<Rightarrow> bool" where
  "owners_ok c \<longleftrightarrow> length (pri c) = PRIORITIES
     \<and> (\<forall>p < PRIORITIES. int (length (filter (\<lambda>d. dl_pri d = p) (downloads c))) \<le> pri c ! p)
     \<and> (\<exists>p < PRIORITIES. 0 < pri c ! p) \<and> (\<forall>d \<in> set (downloads c). dl_pri d < PRIORITIES)"

definition running_count :: "connection list \<Rightarrow> int" where
  "running_count q = int (length (filter running q))"

definition host_count :: "string option \<Rightarrow> connection list \<Rightarrow> int" where
  "host_count k q = int (length (filter (\<lambda>c. running c \<and> host_key (conn_uri c) = k) q))"

definition queue_counts :: "nat \<Rightarrow> conn_queue \<Rightarrow> bool" where
  "queue_counts lost s \<longleftrightarrow> distinct (map conn_addr (connection_queue s))
     \<and> (\<forall>c \<in> set (connection_queue s). conn_addr c < next_addr s \<and> owners_ok c)
     \<and> 0 \<le> active_connections s \<and> active_connections s \<le> running_count (connection_queue s)
     \<and> running_count (connection_queue s) \<le> active_connections s + int lost
     \<and> good_hosts (host_connections s)
     \<and> (\<forall>k. k \<noteq> None \<longrightarrow> host_refs (host_connections s) k = host_count k (connection_queue s))"

definition queue_waits :: "conn_queue \<Rightarrow> bool" where
  "queue_waits s \<longleftrightarrow> (\<forall>c \<in> set (connection_queue s). \<not> running c \<longrightarrow> conn_state c = S_WAIT)"

definition queue_sorted :: "conn_queue \<Rightarrow> bool" where
  "queue_sorted s \<longleftrightarrow> sorted (map get_priority (connection_queue s))"

definition queue_ok :: "nat \<Rightarrow> conn_queue \<Rightarrow> bool" where
  "queue_ok lost s \<longleftrightarrow> queue_counts lost s \<and> queue_waits s \<and> queue_sorted s"

lemma owners_ok_priority: "owners_ok c \<Longrightarrow> get_priority c < PRIORITIES"
proof -
  assume o: "owners_ok c"
  then obtain p where p: "p < PRIORITIES" "0 < pri c ! p" by (auto simp: owners_ok_def)
  then have "pri c ! p \<in> set (take PRIORITIES (pri c))" "pri c ! p \<noteq> 0"
    using o by (auto simp: owners_ok_def in_set_conv_nth)
  then have "length (takeWhile (\<lambda>p. p = 0) (take PRIORITIES (pri c))) < length (take PRIORITIES (pri c))"
    by (metis (mono_tags, lifting) length_takeWhile_le nat_less_le takeWhile_eq_all_conv takeWhile_eq_take take_all)
  then show ?thesis using o by (simp add: get_priority_def owners_ok_def)
qed

subsection \<open>Counting over the queue\<close>

lemma conn_atD: "conn_at cid s = Some c \<Longrightarrow> c \<in> set (connection_queue s) \<and> conn_addr c = cid"
  by (auto simp: conn_at_def find_Some_iff)

lemma conn_at_mem:
  "queue_counts lost s \<Longrightarrow> c \<in> set (connection_queue s) \<Longrightarrow> conn_at (conn_addr c) s = Some c"
proof -
  assume q: "queue_counts lost s" and c: "c \<in> set (connection_queue s)"
  have "List.find (\<lambda>d. conn_addr d = conn_addr c) cs = Some c"
    if "distinct (map conn_addr cs)" "c \<in> set cs" for cs
    using that by (induction cs) auto
  then show ?thesis using q c by (simp add: conn_at_def queue_counts_def)
qed

lemma conn_at_none_upd: "conn_at cid s = None \<Longrightarrow> upd_conn cid f s = s"
proof -
  assume "conn_at cid s = None"
  then have "map (\<lambda>c. if conn_addr c = cid then f c else c) (connection_queue s) = connection_queue s"
    by (intro map_idI) (auto simp: conn_at_def find_None_iff)
  then show ?thesis by (simp add: upd_conn_def)
qed

lemma count_update:
  "distinct (map conn_addr q) \<Longrightarrow> c \<in> set q \<Longrightarrow>
   int (length (filter P (map (\<lambda>d. if conn_addr d = conn_addr c then f d else d) q)))
    = int (length (filter P q)) - of_bool (P c) + of_bool (P (f c))"
proof (induction q)
  case (Cons d q)
  show ?case
  proof (cases "d = c")
    case True
    have "conn_addr e \<noteq> conn_addr c" if "e \<in> set q" for e
      using Cons.prems(1) imageI [OF that, of conn_addr] True by auto
    then have "map (\<lambda>d. if conn_addr d = conn_addr c then f d else d) q = q" by (intro map_idI) simp
    then show ?thesis using True by simp
  next
    case False
    then have "c \<in> set q" "conn_addr d \<noteq> conn_addr c" using Cons.prems by force+
    then show ?thesis using Cons by simp
  qed
qed simp

lemma count_delete:
  "distinct (map conn_addr q) \<Longrightarrow> c \<in> set q \<Longrightarrow>
   int (length (filter P (filter (\<lambda>d. conn_addr d \<noteq> conn_addr c) q))) = int (length (filter P q)) - of_bool (P c)"
proof (induction q)
  case (Cons d q)
  show ?case
  proof (cases "d = c")
    case True
    have "conn_addr e \<noteq> conn_addr c" if "e \<in> set q" for e
      using Cons.prems(1) imageI [OF that, of conn_addr] True by auto
    then have "filter (\<lambda>d. conn_addr d \<noteq> conn_addr c) q = q" by (simp add: filter_id_conv)
    then show ?thesis using True by simp
  next
    case False
    then have "c \<in> set q" "conn_addr d \<noteq> conn_addr c" using Cons.prems by force+
    then show ?thesis using Cons by simp
  qed
qed simp

lemma upd_queue [simp]:
  "connection_queue (upd_conn cid f s) = map (\<lambda>c. if conn_addr c = cid then f c else c) (connection_queue s)"
  "active_connections (upd_conn cid f s) = active_connections s"
  "host_connections (upd_conn cid f s) = host_connections s"
  "next_addr (upd_conn cid f s) = next_addr s"
  by (simp_all add: upd_conn_def)

lemma upd_mem:
  "d \<in> set (connection_queue (upd_conn cid f s)) \<Longrightarrow>
    (d \<in> set (connection_queue s) \<and> conn_addr d \<noteq> cid)
    \<or> (\<exists>c \<in> set (connection_queue s). conn_addr c = cid \<and> d = f c)"
  by auto

text \<open>An update of one connection, with what it does to the counts of running connections.\<close>

lemma upd_counts:
  assumes q: "queue_counts lost s" and c: "conn_at cid s = Some c"
    and f: "conn_addr (f c) = cid" "owners_ok (f c)" "conn_uri (f c) = conn_uri c"
    and active: "act = max 0 (active_connections s - of_bool (running c) + of_bool (running (f c)))"
    and hosts: "good_hosts hs" "\<And>k. k \<noteq> None \<Longrightarrow> host_refs hs k = host_refs (host_connections s) k
      + (if k = host_key (conn_uri c) then of_bool (running (f c)) - of_bool (running c) else 0)"
  shows "queue_counts lost (upd_conn cid f s\<lparr>active_connections := act, host_connections := hs\<rparr>)"
proof -
  have mem: "c \<in> set (connection_queue s)" "conn_addr c = cid" using conn_atD [OF c] by simp_all
  have dist: "distinct (map conn_addr (connection_queue s))" using q by (simp add: queue_counts_def)
  have only: "d = c" if "d \<in> set (connection_queue s)" "conn_addr d = cid" for d
    using dist that mem by (auto simp: distinct_map inj_on_def)
  have ids: "map conn_addr (map (\<lambda>d. if conn_addr d = cid then f d else d) (connection_queue s))
    = map conn_addr (connection_queue s)"
    using only f(1) by (auto simp: mem)
  have queue: "connection_queue (upd_conn cid f s\<lparr>active_connections := act, host_connections := hs\<rparr>)
    = map (\<lambda>d. if conn_addr d = cid then f d else d) (connection_queue s)" by simp
  note cnt = count_update [OF dist mem(1), of _ f, unfolded mem(2)]
  show ?thesis unfolding queue_counts_def
  proof (intro conjI ballI allI impI)
    show "distinct (map conn_addr (connection_queue (upd_conn cid f s\<lparr>active_connections := act, host_connections := hs\<rparr>)))"
      unfolding queue ids by (rule dist)
    fix d assume "d \<in> set (connection_queue (upd_conn cid f s\<lparr>active_connections := act, host_connections := hs\<rparr>))"
    then consider "d \<in> set (connection_queue s)" | "d = f c" using only by auto
    then show "conn_addr d < next_addr (upd_conn cid f s\<lparr>active_connections := act, host_connections := hs\<rparr>)" "owners_ok d"
      using q f mem by (cases; force simp: queue_counts_def)+
  next
    let ?s = "upd_conn cid f s\<lparr>active_connections := act, host_connections := hs\<rparr>"
    have run: "running_count (connection_queue ?s)
      = running_count (connection_queue s) - of_bool (running c) + of_bool (running (f c))"
      using cnt [of running] by (simp add: running_count_def)
    have nonneg: "0 \<le> running_count (connection_queue ?s)" by (simp add: running_count_def)
    have old: "active_connections s \<le> running_count (connection_queue s)"
      "running_count (connection_queue s) \<le> active_connections s + int lost"
      using q by (simp_all add: queue_counts_def)
    have act: "active_connections ?s = max 0 (active_connections s - of_bool (running c) + of_bool (running (f c)))"
      using active by simp
    show "0 \<le> active_connections ?s" unfolding act by simp
    show "active_connections ?s \<le> running_count (connection_queue ?s)" unfolding act using run nonneg old(1) by linarith
    show "running_count (connection_queue ?s) \<le> active_connections ?s + int lost" unfolding act using run old(2) by linarith
    fix k assume k: "k \<noteq> (None :: string option)"
    show "host_refs (host_connections (upd_conn cid f s\<lparr>active_connections := act, host_connections := hs\<rparr>)) k
      = host_count k (connection_queue (upd_conn cid f s\<lparr>active_connections := act, host_connections := hs\<rparr>))"
      using cnt [of "\<lambda>c. running c \<and> host_key (conn_uri c) = k"] q hosts(2) [OF k] k f(3)
      by (auto simp: host_count_def queue_counts_def)
  qed (use hosts in simp)
qed

lemma upd_counts_same:
  assumes "queue_counts lost s" "conn_at cid s = Some c" "conn_addr (f c) = cid" "owners_ok (f c)"
    "conn_uri (f c) = conn_uri c" "running (f c) = running c"
  shows "queue_counts lost (upd_conn cid f s)"
proof -
  have same: "upd_conn cid f s\<lparr>active_connections := active_connections s, host_connections := host_connections s\<rparr>
    = upd_conn cid f s" by (simp add: upd_conn_def)
  have g: "good_hosts (host_connections s)" using assms(1) by (simp add: queue_counts_def)
  have "queue_counts lost (upd_conn cid f s\<lparr>active_connections := active_connections s, host_connections := host_connections s\<rparr>)"
    by (rule upd_counts [OF assms(1,2) _ _ _ _ g]) (use assms(1,3-6) in \<open>simp_all add: queue_counts_def\<close>)
  then show ?thesis by (simp only: same)
qed


subsection \<open>The operations\<close>

lemma conn_at_upd:
  assumes "conn_at cid s = Some c" "conn_addr (f c) = cid"
  shows "conn_at cid (upd_conn cid f s) = Some (f c)"
proof -
  have "List.find (\<lambda>c. conn_addr c = cid) (map (\<lambda>c. if conn_addr c = cid then f c else c) q) = Some (f c)"
    if "List.find (\<lambda>c. conn_addr c = cid) q = Some c" for q
    using that assms(2) by (induction q) (auto split: if_splits)
  then show ?thesis using assms(1) by (simp add: conn_at_def)
qed

lemma set_state_fields:
  "conn_addr ((\<lambda>c. let pe = (if is_in_result_state (conn_state c) \<and> is_in_progress_state st then conn_state c else prev_error c)
     in c\<lparr>prev_error := pe, conn_state := st,
          downloads := map (\<lambda>d. d\<lparr>dl_state := st, dl_prev_error := pe\<rparr>) (downloads c)\<rparr>) c) = conn_addr c"
  by (simp add: Let_def)

lemma owners_ok_map:
  assumes "owners_ok c" "pri c' = pri c" "map dl_pri (downloads c') = map dl_pri (downloads c)"
  shows "owners_ok c'"
proof -
  have cnt: "length (filter (\<lambda>d. dl_pri d = p) ds) = length (filter (\<lambda>x. x = p) (map dl_pri ds))" for p ds
    by (simp add: filter_map comp_def)
  have "(\<forall>d \<in> set ds. dl_pri d < PRIORITIES) \<longleftrightarrow> (\<forall>x \<in> set (map dl_pri ds). x < PRIORITIES)" for ds by auto
  then show ?thesis using assms unfolding owners_ok_def cnt by metis
qed

lemma set_connection_state_counts:
  assumes "queue_counts lost s"
  shows "queue_counts lost (set_connection_state cid st s)"
proof (cases "conn_at cid s")
  case None
  then show ?thesis using assms by (simp add: set_connection_state_def conn_at_none_upd)
next
  case (Some c)
  have mem: "c \<in> set (connection_queue s)" "conn_addr c = cid" using conn_atD [OF Some] by simp_all
  then have o: "owners_ok c" using assms by (simp add: queue_counts_def)
  show ?thesis unfolding set_connection_state_def
    by (rule upd_counts_same [OF assms Some])
      (use mem(2) owners_ok_map [OF o] in \<open>simp_all add: Let_def comp_def\<close>)
qed

lemma set_connection_state_at:
  "conn_at cid s = Some c \<Longrightarrow> \<exists>c'. conn_at cid (set_connection_state cid st s) = Some c'
    \<and> conn_state c' = st \<and> running c' = running c \<and> conn_uri c' = conn_uri c \<and> pri c' = pri c"
  unfolding set_connection_state_def
  using conn_atD [of cid s c]
  by (auto simp: conn_at_upd Let_def)

text \<open>Stopping a running connection that is past its wait, and starting a connection.\<close>

lemma free_connection_data_counts:
  assumes q: "queue_counts lost s" and c: "conn_at cid s = Some c" "running c" "conn_state c \<noteq> S_WAIT"
  shows "queue_counts lost (free_connection_data cid s)"
    and "connection_queue (free_connection_data cid s)
      = map (\<lambda>c. if conn_addr c = cid then c\<lparr>running := False\<rparr> else c) (connection_queue s)"
    and "active_connections (free_connection_data cid s) = max 0 (active_connections s - 1)"
proof -
  have mem: "c \<in> set (connection_queue s)" "conn_addr c = cid" using conn_atD [OF c(1)] by simp_all
  then have o: "owners_ok c" using q by (simp add: queue_counts_def)
  have g: "good_hosts (host_connections s)" using q by (simp add: queue_counts_def)
  have used: "0 < host_refs (host_connections s) (host_key (conn_uri c))" if "host_key (conn_uri c) \<noteq> None"
  proof -
    have "c \<in> set (filter (\<lambda>d. running d \<and> host_key (conn_uri d) = host_key (conn_uri c)) (connection_queue s))"
      using mem c(2) by simp
    then have "0 < host_count (host_key (conn_uri c)) (connection_queue s)"
      unfolding host_count_def using length_pos_if_in_set by (metis of_nat_0_less_iff)
    then show ?thesis using q that by (simp add: queue_counts_def)
  qed
  note dh = done_host_connection_refs [OF g used]
  have eq: "free_connection_data cid s = upd_conn cid (\<lambda>c. c\<lparr>running := False\<rparr>) s
      \<lparr>active_connections := max 0 (active_connections s - 1), host_connections := done_host_connection c (host_connections s)\<rparr>"
    using c by (simp add: free_connection_data_def Let_def upd_conn_def)
  show "queue_counts lost (free_connection_data cid s)" unfolding eq
    by (rule upd_counts [OF q c(1)]) (use mem o c(2) dh owners_ok_map [OF o] in auto)
  show "connection_queue (free_connection_data cid s)
      = map (\<lambda>c. if conn_addr c = cid then c\<lparr>running := False\<rparr> else c) (connection_queue s)"
    "active_connections (free_connection_data cid s) = max 0 (active_connections s - 1)"
    unfolding eq by simp_all
qed

lemma run_connection_counts:
  assumes q: "queue_counts lost s"
  shows "queue_counts lost (run_connection cid s)"
proof (cases "conn_at cid s")
  case (Some c)
  have mem: "c \<in> set (connection_queue s)" "conn_addr c = cid" using conn_atD [OF Some] by simp_all
  then have o: "owners_ok c" using q by (simp add: queue_counts_def)
  have g: "good_hosts (host_connections s)" using q by (simp add: queue_counts_def)
  note ah = add_host_connection_refs [OF g, of c]
  show ?thesis
  proof (cases "running c")
    case False
    have eq: "run_connection cid s = upd_conn cid (\<lambda>c. c\<lparr>running := True\<rparr>) s
      \<lparr>active_connections := active_connections s + 1, host_connections := add_host_connection c (host_connections s)\<rparr>"
      using Some False by (simp add: run_connection_def upd_conn_def)
    show ?thesis unfolding eq
      by (rule upd_counts [OF q Some]) (use mem o False ah q owners_ok_map [OF o] in \<open>auto simp: queue_counts_def\<close>)
  qed (use Some q in \<open>simp add: run_connection_def\<close>)
qed (use q in \<open>simp add: run_connection_def\<close>)

text \<open>A connection that does not run leaves and enters the queue without a trace in the counts.\<close>

lemma del_conn_counts:
  assumes q: "queue_counts lost s" and c: "conn_at cid s = Some c" "\<not> running c"
  shows "queue_counts lost (del_conn cid s)"
proof -
  have mem: "c \<in> set (connection_queue s)" "conn_addr c = cid" using conn_atD [OF c(1)] by simp_all
  have dist: "distinct (map conn_addr (connection_queue s))" using q by (simp add: queue_counts_def)
  note cnt = count_delete [OF dist mem(1), unfolded mem(2)]
  show ?thesis using q cnt [of running] cnt [of "\<lambda>c. running c \<and> host_key (conn_uri c) = k" for k] c(2)
    by (simp add: queue_counts_def del_conn_def running_count_def host_count_def distinct_map_filter)
qed

lemma add_to_queue_counts:
  assumes q: "queue_counts lost s" and c: "conn_addr c \<notin> conn_addr ` set (connection_queue s)"
    "conn_addr c < next_addr s" "owners_ok c" "\<not> running c"
  shows "queue_counts lost (add_to_queue c s)"
proof -
  have len: "length (filter P (insert_conn c cs)) = length (filter P (c # cs))" for P cs
    by (rule filter_mset_length) simp
  have "mset (map conn_addr (insert_conn c (connection_queue s))) = mset (map conn_addr (c # connection_queue s))"
    by simp
  then have "distinct (map conn_addr (insert_conn c (connection_queue s))) \<longleftrightarrow> distinct (map conn_addr (c # connection_queue s))"
    by (rule mset_eq_imp_distinct_iff)
  then show ?thesis using q c
    by (simp add: queue_counts_def add_to_queue_def running_count_def host_count_def len)
qed


subsection \<open>Waiting connections and the order\<close>

definition waits_but :: "nat \<Rightarrow> conn_queue \<Rightarrow> bool" where
  "waits_but cid s \<longleftrightarrow> (\<forall>c \<in> set (connection_queue s). conn_addr c \<noteq> cid \<longrightarrow> \<not> running c \<longrightarrow> conn_state c = S_WAIT)"

lemma queue_waits_but: "queue_waits s \<Longrightarrow> waits_but cid s"
  by (simp add: queue_waits_def waits_but_def)

lemma waits_but_upd: "waits_but cid s \<Longrightarrow> (\<And>c. conn_addr (f c) = conn_addr c) \<Longrightarrow> waits_but cid (upd_conn cid f s)"
  by (auto simp: waits_but_def)

lemma waits_but_del: "waits_but cid s \<Longrightarrow> queue_waits (del_conn cid s)"
  by (simp add: waits_but_def queue_waits_def del_conn_def)

lemma waits_but_full:
  "waits_but cid s \<Longrightarrow> conn_at cid s = Some c \<Longrightarrow> queue_counts lost s \<Longrightarrow> running c \<or> conn_state c = S_WAIT \<Longrightarrow> queue_waits s"
  unfolding queue_waits_def
proof (intro ballI impI)
  fix d
  assume w: "waits_but cid s" "conn_at cid s = Some c" "queue_counts lost s" "running c \<or> conn_state c = S_WAIT"
    and d: "d \<in> set (connection_queue s)" "\<not> running d"
  show "conn_state d = S_WAIT"
  proof (cases "conn_addr d = cid")
    case True
    then have "d = c" using conn_at_mem [OF w(3) d(1)] w(2) by simp
    then show ?thesis using w(4) d(2) by simp
  qed (use w(1) d in \<open>simp add: waits_but_def\<close>)
qed

lemma get_priority_pri: "pri c' = pri c \<Longrightarrow> get_priority c' = get_priority c"
  by (simp add: get_priority_def)

lemma upd_sorted:
  "queue_sorted s \<Longrightarrow> (\<And>c. pri (f c) = pri c) \<Longrightarrow> queue_sorted (upd_conn cid f s)"
proof -
  assume s: "queue_sorted s" and f: "\<And>c. pri (f c) = pri c"
  have "get_priority (f c) = get_priority c" for c by (rule get_priority_pri [OF f])
  then have m: "map get_priority (map (\<lambda>c. if conn_addr c = cid then f c else c) (connection_queue s))
    = map get_priority (connection_queue s)" by simp
  show ?thesis using s unfolding queue_sorted_def upd_queue m .
qed

lemma del_sorted: "queue_sorted s \<Longrightarrow> queue_sorted (del_conn cid s)"
  by (simp add: queue_sorted_def del_conn_def sorted_filter)

lemma set_connection_state_sorted: "queue_sorted s \<Longrightarrow> queue_sorted (set_connection_state cid st s)"
  unfolding set_connection_state_def by (rule upd_sorted) (simp_all add: Let_def)

lemma set_connection_state_waits: "waits_but cid s \<Longrightarrow> waits_but cid (set_connection_state cid st s)"
  unfolding set_connection_state_def by (rule waits_but_upd) (simp_all add: Let_def)

lemma free_connection_data_waits: "waits_but cid s \<Longrightarrow> waits_but cid (free_connection_data cid s)"
  by (auto simp: free_connection_data_def waits_but_def Let_def split: option.splits)

lemma free_connection_data_sorted: "queue_sorted s \<Longrightarrow> queue_sorted (free_connection_data cid s)"
  using upd_sorted [of s "\<lambda>c. c\<lparr>running := False\<rparr>" cid]
  by (auto simp: free_connection_data_def queue_sorted_def Let_def split: option.splits)

lemma run_connection_sorted: "queue_sorted s \<Longrightarrow> queue_sorted (run_connection cid s)"
  using upd_sorted [of s "\<lambda>c. c\<lparr>running := True\<rparr>" cid]
  by (auto simp: run_connection_def queue_sorted_def Let_def split: option.splits)


lemma free_connection_data_at:
  assumes "queue_counts lost s" "conn_at cid s = Some c" "running c" "conn_state c \<noteq> S_WAIT"
  shows "conn_at cid (free_connection_data cid s) = Some (c\<lparr>running := False\<rparr>)"
  using conn_at_upd [OF assms(2), of "\<lambda>c. c\<lparr>running := False\<rparr>"] conn_atD [OF assms(2)]
    free_connection_data_counts(2) [OF assms] by (simp add: conn_at_def)

lemma run_connection_at:
  assumes "conn_at cid s = Some c"
  shows "\<exists>c'. conn_at cid (run_connection cid s) = Some c' \<and> running c'"
proof (cases "running c")
  case False
  have "conn_at cid (upd_conn cid (\<lambda>c. c\<lparr>running := True\<rparr>) s) = Some (c\<lparr>running := True\<rparr>)"
    using conn_at_upd [OF assms, of "\<lambda>c. c\<lparr>running := True\<rparr>"] conn_atD [OF assms] by simp
  then show ?thesis using assms False by (simp add: run_connection_def conn_at_def)
qed (use assms in \<open>simp add: run_connection_def\<close>)

lemma run_connection_waits: "waits_but cid s \<Longrightarrow> waits_but cid (run_connection cid s)"
  by (auto simp: run_connection_def waits_but_def Let_def split: option.splits)

text \<open>Removing a stopped connection makes up for any state it was in.\<close>

lemma done_connection_ok:
  assumes q: "queue_counts lost s" "waits_but cid s" and c: "conn_at cid s = Some c" "\<not> running c"
  shows "queue_counts lost (done_connection cid s)" "queue_waits (done_connection cid s)"
    "queue_sorted s \<Longrightarrow> queue_sorted (done_connection cid s)"
proof -
  define s1 where "s1 = (if \<not> is_in_result_state (conn_state c) then set_connection_state cid S_INTERNAL s else s)"
  have d: "done_connection cid s = del_conn cid s1" using c(1) by (simp add: done_connection_def s1_def)
  have q1: "queue_counts lost s1" "waits_but cid s1"
    using q by (simp_all add: s1_def set_connection_state_counts set_connection_state_waits)
  obtain c' where c': "conn_at cid s1 = Some c'" "\<not> running c'"
    using c set_connection_state_at [OF c(1), of S_INTERNAL] by (cases "is_in_result_state (conn_state c)") (auto simp: s1_def)
  show "queue_counts lost (done_connection cid s)" unfolding d by (rule del_conn_counts [OF q1(1) c'])
  show "queue_waits (done_connection cid s)" unfolding d by (rule waits_but_del [OF q1(2)])
  show "queue_sorted (done_connection cid s)" if "queue_sorted s"
    unfolding d by (rule del_sorted) (use that in \<open>simp add: s1_def set_connection_state_sorted\<close>)
qed

lemma release_connection_ok:
  assumes q: "queue_counts lost s" "waits_but cid s" and c: "conn_at cid s = Some c" "running c" "conn_state c \<noteq> S_WAIT"
  shows "queue_counts lost (release_connection cid s)" "queue_waits (release_connection cid s)"
    "queue_sorted s \<Longrightarrow> queue_sorted (release_connection cid s)"
  unfolding release_connection_def
  using done_connection_ok [OF free_connection_data_counts(1) [OF q(1) c] free_connection_data_waits [OF q(2)]
      free_connection_data_at [OF q(1) c]] free_connection_data_sorted [of s] by simp_all

lemma abort_connection_ok:
  assumes q: "queue_counts lost s" "queue_waits s" and st: "st < 0"
  shows "queue_counts lost (abort_connection terminate cid st s)" "queue_waits (abort_connection terminate cid st s)"
    "queue_sorted s \<Longrightarrow> queue_sorted (abort_connection terminate cid st s)"
proof -
  have "queue_counts lost (abort_connection terminate cid st s) \<and> queue_waits (abort_connection terminate cid st s)
    \<and> (queue_sorted s \<longrightarrow> queue_sorted (abort_connection terminate cid st s))"
  proof (cases "conn_at cid s")
    case None
    then show ?thesis using q by (simp add: abort_connection_def)
  next
    case (Some c)
    have mem: "c \<in> set (connection_queue s)" "conn_addr c = cid" using conn_atD [OF Some] by simp_all
    have o: "owners_ok c" using q(1) mem by (simp add: queue_counts_def)
    show ?thesis
    proof (cases "curl c \<and> st = S_INTERRUPTED \<and> \<not> terminate")
      case True
      have "queue_counts lost (upd_conn cid (\<lambda>c. c\<lparr>is_aborted := True\<rparr>) s)"
        by (rule upd_counts_same [OF q(1) Some]) (use mem owners_ok_map [OF o] in simp_all)
      moreover have "queue_waits (upd_conn cid (\<lambda>c. c\<lparr>is_aborted := True\<rparr>) s)"
        using q(2) by (auto simp: queue_waits_def)
      moreover have "queue_sorted s \<longrightarrow> queue_sorted (upd_conn cid (\<lambda>c. c\<lparr>is_aborted := True\<rparr>) s)"
        by (simp add: upd_sorted)
      ultimately show ?thesis using Some True by (simp add: abort_connection_def)
    next
      case False
      let ?s = "set_connection_state cid st s"
      obtain c' where c': "conn_at cid ?s = Some c'" "conn_state c' = st" "running c' = running c"
        using set_connection_state_at [OF Some, of st] by blast
      have q': "queue_counts lost ?s" "waits_but cid ?s"
        using q by (simp_all add: set_connection_state_counts set_connection_state_waits queue_waits_but)
      have "abort_connection terminate cid st s = (if running c then release_connection cid ?s else done_connection cid ?s)"
        using Some False by (auto simp: abort_connection_def release_connection_def Let_def)
      then show ?thesis
        using release_connection_ok [OF q' c'(1)] done_connection_ok [OF q' c'(1)] c'(2,3) st
          set_connection_state_sorted [of s cid st] by (cases "running c") (auto simp: S_WAIT_def)
    qed
  qed
  then show "queue_counts lost (abort_connection terminate cid st s)" "queue_waits (abort_connection terminate cid st s)"
    "queue_sorted s \<Longrightarrow> queue_sorted (abort_connection terminate cid st s)" by simp_all
qed

lemma retry_connection_ok:
  assumes q: "queue_ok lost s" and c: "conn_at cid s = Some c" "running c" and st: "st < 0"
  shows "queue_ok lost (retry_connection max_tries cid st s)"
proof -
  let ?s1 = "set_connection_state cid st s"
  let ?s2 = "free_connection_data cid ?s1"
  obtain c1 where c1: "conn_at cid ?s1 = Some c1" "conn_state c1 = st" "running c1" "conn_uri c1 = conn_uri c"
    using set_connection_state_at [OF c(1), of st] c(2) by blast
  have w: "conn_state c1 \<noteq> S_WAIT" using c1(2) st by (simp add: S_WAIT_def)
  have q1: "queue_counts lost ?s1" "waits_but cid ?s1" "queue_sorted ?s1"
    using q by (simp_all add: queue_ok_def set_connection_state_counts set_connection_state_waits
        set_connection_state_sorted queue_waits_but)
  note fc = free_connection_data_counts(1) [OF q1(1) c1(1,3) w]
  note c2 = free_connection_data_at [OF q1(1) c1(1,3) w]
  have q2: "queue_counts lost ?s2" "waits_but cid ?s2" "queue_sorted ?s2"
    using fc q1 by (simp_all add: free_connection_data_waits free_connection_data_sorted)
  define n where "n = (if max_tries \<noteq> 0 then tries c + 1 else tries c)"
  define s3 where "s3 = upd_conn cid (\<lambda>c. c\<lparr>tries := n\<rparr>) ?s2"
  have o2: "owners_ok (c1\<lparr>running := False\<rparr>)" "conn_addr c1 = cid"
    using conn_atD [OF c2] q2(1) by (simp_all add: queue_counts_def)
  have q3: "queue_counts lost s3" "waits_but cid s3" "queue_sorted s3"
    unfolding s3_def
    by (rule upd_counts_same [OF q2(1) c2], use o2 owners_ok_map [OF o2(1)] in simp_all)
      (use q2 in \<open>simp_all add: waits_but_upd upd_sorted\<close>)
  have c3: "conn_at cid s3 = Some (c1\<lparr>running := False, tries := n\<rparr>)"
    unfolding s3_def using conn_at_upd [OF c2, of "\<lambda>c. c\<lparr>tries := n\<rparr>"] o2(2) by simp
  define s4 where "s4 = upd_conn cid (\<lambda>c. c\<lparr>prev_error := conn_state c\<rparr>) s3"
  have o3: "owners_ok (c1\<lparr>running := False, tries := n\<rparr>)" by (rule owners_ok_map [OF o2(1)]) simp_all
  have q4: "queue_counts lost s4" "waits_but cid s4" "queue_sorted s4"
    unfolding s4_def
    by (rule upd_counts_same [OF q3(1) c3], use o2 owners_ok_map [OF o3] in simp_all)
      (use q3 in \<open>simp_all add: waits_but_upd upd_sorted\<close>)
  have c4: "conn_at cid s4 = Some (c1\<lparr>running := False, tries := n, prev_error := st\<rparr>)"
    unfolding s4_def using conn_at_upd [OF c3, of "\<lambda>c. c\<lparr>prev_error := conn_state c\<rparr>"] o2(2) c1(2) by simp
  have r: "queue_ok lost (run_connection cid s4)"
  proof -
    obtain c5 where c5: "conn_at cid (run_connection cid s4) = Some c5" "running c5"
      using run_connection_at [OF c4] by blast
    have "queue_waits (run_connection cid s4)"
      by (rule waits_but_full [OF run_connection_waits [OF q4(2)] c5(1) run_connection_counts [OF q4(1)]]) (simp add: c5(2))
    then show ?thesis using q4 by (simp add: queue_ok_def run_connection_counts run_connection_sorted)
  qed
  have d2: "queue_ok lost (done_connection cid ?s2)" and d3: "queue_ok lost (done_connection cid s3)"
    using done_connection_ok [OF q2(1,2) c2] done_connection_ok [OF q3(1,2) c3] q2(3) q3(3) by (simp_all add: queue_ok_def)
  have "retry_connection max_tries cid st s =
    (if post (conn_uri c) \<noteq> None then done_connection cid ?s2
     else if max_tries \<noteq> 0 \<and> n \<ge> max_tries then done_connection cid s3 else run_connection cid s4)"
    using c(1) by (simp add: retry_connection_def Let_def n_def s3_def s4_def)
  then show ?thesis using d2 d3 r by simp
qed

end
