(* ===== verification/Conn_Requests.thy ===== *)
theory Conn_Requests
  imports Conn_Invariant
begin

text \<open>
  Requests, images and downloads that come and go keep the queue of connections consistent:
  every connection has an owner, and the priorities count the downloads.
\<close>

subsection \<open>Owners and priorities\<close>

lemma get_priority_first:
  assumes "k < PRIORITIES" "k < length (pri c)" "pri c ! k \<noteq> 0" "\<And>j. j < k \<Longrightarrow> pri c ! j = 0"
  shows "get_priority c = k"
proof -
  have "takeWhile (\<lambda>p. p = 0) (take PRIORITIES (pri c)) = take k (take PRIORITIES (pri c))"
    by (rule takeWhile_eq_take_P_nth) (use assms in auto)
  then show ?thesis using assms(1,2) by (simp add: get_priority_def)
qed

lemma get_priority_nth:
  assumes "owners_ok c"
  shows "pri c ! get_priority c \<noteq> 0" "\<And>j. j < get_priority c \<Longrightarrow> pri c ! j = 0"
proof -
  let ?t = "take PRIORITIES (pri c)"
  have len: "length ?t = PRIORITIES" using assms by (simp add: owners_ok_def)
  have lt: "get_priority c < length ?t" using owners_ok_priority [OF assms] len by simp
  then show "pri c ! get_priority c \<noteq> 0"
    using nth_length_takeWhile [of "\<lambda>p. p = 0" ?t] by (simp add: get_priority_def)
  show "pri c ! j = 0" if "j < get_priority c" for j
  proof -
    have j: "j < length (takeWhile (\<lambda>p. p = 0) ?t)" using that by (simp add: get_priority_def)
    then have "takeWhile (\<lambda>p. p = 0) ?t ! j \<in> set (takeWhile (\<lambda>p. p = 0) ?t)" by (rule nth_mem)
    then have "?t ! j = 0" using set_takeWhileD takeWhile_nth [OF j] by metis
    then show ?thesis using that lt by simp
  qed
qed

definition add_owner :: "nat \<Rightarrow> connection \<Rightarrow> connection" where
  "add_owner p c = c\<lparr>pri := (pri c)[p := pri c ! p + 1]\<rparr>"

lemma add_owner_fields [simp]:
  "conn_addr (add_owner p c) = conn_addr c" "conn_uri (add_owner p c) = conn_uri c" "running (add_owner p c) = running c"
  "conn_state (add_owner p c) = conn_state c" "downloads (add_owner p c) = downloads c"
  "prev_error (add_owner p c) = prev_error c"
  by (simp_all add: add_owner_def)

lemma owners_nonneg: "owners_ok c \<Longrightarrow> p < PRIORITIES \<Longrightarrow> 0 \<le> pri c ! p"
  unfolding owners_ok_def by (metis of_nat_0_le_iff order_trans)

text \<open>One owner more, with a download of that priority or without one.\<close>

lemma add_owner_ok:
  assumes o: "owners_ok c" and p: "p < PRIORITIES"
    and d: "map dl_pri (downloads c') = map dl_pri (downloads c)
      \<or> map dl_pri (downloads c') = p # map dl_pri (downloads c)"
    and pri: "pri c' = pri (add_owner p c)"
  shows "owners_ok c'"
proof -
  have cnt: "int (length (filter (\<lambda>d. dl_pri d = q) (downloads c')))
      \<le> int (length (filter (\<lambda>d. dl_pri d = q) (downloads c))) + of_bool (q = p)" for q
  proof -
    have f: "length (filter (\<lambda>d. dl_pri d = q) ds) = length (filter (\<lambda>x. x = q) (map dl_pri ds))" for ds
      by (simp add: filter_map comp_def)
    from d show ?thesis unfolding f by (elim disjE) (simp_all del: filter_map)
  qed
  have len: "length (pri c) = PRIORITIES" using o by (simp add: owners_ok_def)
  have new: "pri c' ! q = pri c ! q + of_bool (q = p)" if "q < PRIORITIES" for q
    using that p len pri by (simp add: add_owner_def nth_list_update)
  have "0 < pri c' ! p" using new [OF p] owners_nonneg [OF o p] by simp
  moreover have "int (length (filter (\<lambda>d. dl_pri d = q) (downloads c'))) \<le> pri c' ! q" if "q < PRIORITIES" for q
    using cnt [of q] new [OF that] o that unfolding owners_ok_def by fastforce
  moreover have "\<forall>d \<in> set (downloads c'). dl_pri d < PRIORITIES"
  proof -
    have old: "set (map dl_pri (downloads c)) \<subseteq> {..<PRIORITIES}" using o by (auto simp: owners_ok_def)
    have "set (map dl_pri (downloads c')) \<subseteq> insert p (set (map dl_pri (downloads c)))"
      using d by (elim disjE) (simp_all only: list.set subset_insertI subset_refl)
    with old p have "set (map dl_pri (downloads c')) \<subseteq> {..<PRIORITIES}" by blast
    then show ?thesis by (simp add: image_subset_iff)
  qed
  moreover have "length (pri c') = PRIORITIES" using pri len by (simp add: add_owner_def)
  ultimately show ?thesis using p unfolding owners_ok_def by blast
qed

lemma add_owner_priority:
  assumes o: "owners_ok c" and p: "p < PRIORITIES"
  shows "get_priority (add_owner p c) = min (get_priority c) p"
proof (rule get_priority_first)
  have len: "length (pri c) = PRIORITIES" using o by (simp add: owners_ok_def)
  have g: "get_priority c < PRIORITIES" by (rule owners_ok_priority [OF o])
  show "min (get_priority c) p < PRIORITIES" using p by simp
  show "min (get_priority c) p < length (pri (add_owner p c))" using p len by (simp add: add_owner_def)
  show "pri (add_owner p c) ! min (get_priority c) p \<noteq> 0"
    using get_priority_nth(1) [OF o] owners_nonneg [OF o p] owners_nonneg [OF o g] p len g
    by (auto simp: add_owner_def nth_list_update min_def)
  show "pri (add_owner p c) ! j = 0" if "j < min (get_priority c) p" for j
    using get_priority_nth(2) [OF o, of j] that by (simp add: add_owner_def)
qed

lemma init_connection_ok: "p < PRIORITIES \<Longrightarrow> owners_ok (init_connection cid n u v r p)"
  by (auto simp: owners_ok_def init_connection_def nth_list_update)

subsection \<open>Reordering the queue\<close>

lemma reorder_counts:
  assumes "queue_counts lost s" "mset q = mset (connection_queue s)"
  shows "queue_counts lost (s\<lparr>connection_queue := q\<rparr>)"
proof -
  have "distinct (map conn_addr q) = distinct (map conn_addr (connection_queue s))"
    by (rule mset_eq_imp_distinct_iff) (simp add: assms(2))
  moreover have "set q = set (connection_queue s)" using assms(2) by (rule mset_eq_setD)
  moreover have "length (filter P q) = length (filter P (connection_queue s))" for P
    by (rule filter_mset_length [OF assms(2)])
  ultimately show ?thesis using assms(1) by (simp add: queue_counts_def running_count_def host_count_def)
qed

lemma reorder_waits:
  assumes "queue_waits s" "mset q = mset (connection_queue s)"
  shows "queue_waits (s\<lparr>connection_queue := q\<rparr>)"
  using assms mset_eq_setD [OF assms(2)] by (simp add: queue_waits_def)

lemma sort_queue_ok:
  assumes "queue_counts lost s" "queue_waits s" "sort_queue s = Some s'"
  shows "queue_ok lost s'"
proof -
  have s': "s' = s\<lparr>connection_queue := sort_key get_priority (connection_queue s)\<rparr>"
    using assms(3) by (simp add: sort_queue_stable)
  show ?thesis unfolding s' queue_ok_def
    using reorder_counts [OF assms(1)] reorder_waits [OF assms(2)] by (simp add: queue_sorted_def)
qed

lemma move_in_queue:
  assumes "distinct (map conn_addr q)" "c \<in> set q" "conn_addr c = cid"
  shows "mset (insert_conn (f c) (filter (\<lambda>d. conn_addr d \<noteq> cid) q))
    = mset (map (\<lambda>d. if conn_addr d = cid then f d else d) q)"
  using assms
proof (induction q)
  case (Cons d q)
  show ?case
  proof (cases "d = c")
    case True
    have ne: "conn_addr e \<noteq> cid" if "e \<in> set q" for e
      using Cons.prems(1,3) imageI [OF that, of conn_addr] True by auto
    then have "filter (\<lambda>d. conn_addr d \<noteq> cid) q = q" "map (\<lambda>d. if conn_addr d = cid then f d else d) q = q"
      by (simp_all add: filter_id_conv map_idI)
    then show ?thesis using True Cons.prems(3) by simp
  next
    case False
    then have "c \<in> set q" "conn_addr d \<noteq> cid" using Cons.prems by force+
    then show ?thesis using Cons by simp
  qed
qed simp


subsection \<open>Requests\<close>

lemma add_to_queue_sorted: "queue_sorted s \<Longrightarrow> queue_sorted (add_to_queue c s)"
  by (simp add: queue_sorted_def add_to_queue_def insert_conn_sorted)

lemma add_to_queue_at:
  assumes "queue_counts lost (add_to_queue c s)"
  shows "conn_at (conn_addr c) (add_to_queue c s) = Some c"
  by (rule conn_at_mem [OF assms]) (simp add: add_to_queue_def)

lemma upd_ok:
  assumes q: "queue_ok lost s" and c: "conn_at cid s = Some c"
    and f: "\<And>c. conn_addr (f c) = conn_addr c" "\<And>c. conn_uri (f c) = conn_uri c" "\<And>c. running (f c) = running c"
      "\<And>c. conn_state (f c) = conn_state c" "owners_ok (f c)" "get_priority (f c) = get_priority c"
  shows "queue_ok lost (upd_conn cid f s)"
proof -
  have qc: "queue_counts lost s" using q by (simp add: queue_ok_def)
  have mem: "conn_addr c = cid" using conn_atD [OF c] by simp
  have only: "d = c" if "d \<in> set (connection_queue s)" "conn_addr d = cid" for d
    using conn_at_mem [OF qc that(1)] that(2) c by simp
  have m: "map get_priority (map (\<lambda>d. if conn_addr d = cid then f d else d) (connection_queue s))
    = map get_priority (connection_queue s)"
    using only f(6) by auto
  have "queue_counts lost (upd_conn cid f s)" by (rule upd_counts_same [OF qc c]) (simp_all add: f mem)
  moreover have "queue_waits (upd_conn cid f s)" using q f by (auto simp: queue_ok_def queue_waits_def)
  moreover have "queue_sorted (upd_conn cid f s)"
    using q unfolding queue_ok_def queue_sorted_def upd_queue m by simp
  ultimately show ?thesis by (simp add: queue_ok_def)
qed

lemma set_connection_state_ok:
  assumes q: "queue_ok lost s" and st: "\<And>c. conn_at cid s = Some c \<Longrightarrow> running c \<or> st = S_WAIT"
  shows "queue_ok lost (set_connection_state cid st s)"
proof -
  have w: "waits_but cid (set_connection_state cid st s)" "queue_counts lost (set_connection_state cid st s)"
    "queue_sorted (set_connection_state cid st s)"
    using q by (simp_all add: queue_ok_def set_connection_state_counts set_connection_state_sorted
        set_connection_state_waits queue_waits_but)
  have "queue_waits (set_connection_state cid st s)"
  proof (cases "conn_at cid s")
    case None
    then show ?thesis using q by (simp add: set_connection_state_def conn_at_none_upd queue_ok_def)
  next
    case (Some c)
    then obtain c' where "conn_at cid (set_connection_state cid st s) = Some c'" "conn_state c' = st" "running c' = running c"
      using set_connection_state_at by blast
    then show ?thesis using waits_but_full [OF w(1) _ w(2)] st [OF Some] by auto
  qed
  with w show ?thesis by (simp add: queue_ok_def)
qed

lemma set_same_state_ok: "queue_ok lost s \<Longrightarrow> conn_at cid s = Some c \<Longrightarrow> queue_ok lost (set_connection_state cid (conn_state c) s)"
  by (rule set_connection_state_ok)
    (use conn_atD [of cid s c] in \<open>auto simp: queue_ok_def queue_waits_def\<close>)

lemma queue_fresh_conn:
  assumes q: "queue_ok lost s" and c: "conn_addr c = next_addr s" "owners_ok c" "\<not> running c"
  shows "queue_counts lost (add_to_queue c (s\<lparr>next_addr := next_addr s + 1, connection_id := connection_id s + 1\<rparr>))"
    "waits_but (next_addr s) (add_to_queue c (s\<lparr>next_addr := next_addr s + 1, connection_id := connection_id s + 1\<rparr>))"
    "queue_sorted (add_to_queue c (s\<lparr>next_addr := next_addr s + 1, connection_id := connection_id s + 1\<rparr>))"
    "conn_at (next_addr s) (add_to_queue c (s\<lparr>next_addr := next_addr s + 1, connection_id := connection_id s + 1\<rparr>)) = Some c"
proof -
  let ?s1 = "s\<lparr>next_addr := next_addr s + 1, connection_id := connection_id s + 1\<rparr>"
  have "queue_counts lost ?s1" using q by (auto simp: queue_ok_def queue_counts_def)
  moreover have "conn_addr c \<notin> conn_addr ` set (connection_queue ?s1)" "conn_addr c < next_addr ?s1"
    using q c(1) by (auto simp: queue_ok_def queue_counts_def)
  ultimately show q2: "queue_counts lost (add_to_queue c ?s1)" using add_to_queue_counts c(2,3) by blast
  show "conn_at (next_addr s) (add_to_queue c ?s1) = Some c" using add_to_queue_at [OF q2] c(1) by simp
  show "waits_but (next_addr s) (add_to_queue c ?s1)"
    using q c(1) by (auto simp: queue_ok_def queue_waits_def waits_but_def add_to_queue_def)
  show "queue_sorted (add_to_queue c ?s1)" using q by (intro add_to_queue_sorted) (simp add: queue_ok_def queue_sorted_def)
qed

lemma queue_new_conn:
  assumes q: "queue_ok lost s" and c: "conn_addr c = next_addr s" "owners_ok c" "\<not> running c"
  shows "queue_ok lost (set_connection_state (next_addr s) S_WAIT (add_to_queue c (s\<lparr>next_addr := next_addr s + 1, connection_id := connection_id s + 1\<rparr>)))"
    and "\<exists>c'. conn_at (next_addr s) (set_connection_state (next_addr s) S_WAIT
          (add_to_queue c (s\<lparr>next_addr := next_addr s + 1, connection_id := connection_id s + 1\<rparr>))) = Some c' \<and> conn_uri c' = conn_uri c
        \<and> \<not> running c' \<and> pri c' = pri c"
proof -
  let ?s2 = "add_to_queue c (s\<lparr>next_addr := next_addr s + 1, connection_id := connection_id s + 1\<rparr>)"
  note s2 = queue_fresh_conn [OF q c]
  obtain c' where c': "conn_at (next_addr s) (set_connection_state (next_addr s) S_WAIT ?s2) = Some c'"
    "conn_state c' = S_WAIT" "running c' = running c" "conn_uri c' = conn_uri c" "pri c' = pri c"
    using set_connection_state_at [OF s2(4)] by blast
  have "queue_waits (set_connection_state (next_addr s) S_WAIT ?s2)"
    by (rule waits_but_full [OF set_connection_state_waits [OF s2(2)] c'(1) set_connection_state_counts [OF s2(1)]]) (simp add: c'(2))
  then show "queue_ok lost (set_connection_state (next_addr s) S_WAIT ?s2)"
    using s2(1,3) by (simp add: queue_ok_def set_connection_state_counts set_connection_state_sorted)
  show "\<exists>c'. conn_at (next_addr s) (set_connection_state (next_addr s) S_WAIT ?s2) = Some c'
      \<and> conn_uri c' = conn_uri c \<and> \<not> running c' \<and> pri c' = pri c"
    using c' c(3) by auto
qed

lemma attach_fields [simp]:
  "conn_addr (attach_download dl p st pe c) = conn_addr c" "conn_uri (attach_download dl p st pe c) = conn_uri c"
  "running (attach_download dl p st pe c) = running c" "conn_state (attach_download dl p st pe c) = conn_state c"
  "pri (attach_download dl p st pe c) = pri c"
  by (simp_all add: attach_download_def split: option.splits)

lemma attach_downloads:
  "map dl_pri (downloads (attach_download dl p st pe c)) = map dl_pri (downloads c)
    \<or> map dl_pri (downloads (attach_download dl p st pe c)) = p # map dl_pri (downloads c)"
  by (simp add: attach_download_def split: option.splits)

lemma init_attach_ok:
  assumes "p < PRIORITIES"
  shows "owners_ok (attach_download dl p st pe (init_connection cid n u v r p))"
proof -
  have "downloads (init_connection cid n u v r p) = []" "pri (init_connection cid n u v r p) = (replicate PRIORITIES 0)[p := 1]"
    by (simp_all add: init_connection_def)
  then show ?thesis using assms
    by (auto simp: owners_ok_def attach_download_def nth_list_update split: option.splits)
qed

lemma init_fields [simp]: "conn_addr (init_connection cid n u v r p) = cid" "running (init_connection cid n u v r p) = False"
  "conn_uri (init_connection cid n u v r p) = u"
  by (simp_all add: init_connection_def)

text \<open>Attaching a request to a connection that is already there.\<close>

lemma bump_ok:
  assumes q: "queue_ok lost s" and c: "c \<in> set (connection_queue s)" and p: "p < PRIORITIES"
    and s': "s' = (if get_priority c > p then add_to_queue (add_owner p c) (del_conn (conn_addr c) s)
                   else upd_conn (conn_addr c) (add_owner p) s)"
  shows "queue_ok lost s'" "conn_at (conn_addr c) s' = Some (add_owner p c)"
proof -
  have qc: "queue_counts lost s" and qw: "queue_waits s" and qs: "queue_sorted s" using q by (simp_all add: queue_ok_def)
  have o: "owners_ok c" using qc c by (simp add: queue_counts_def)
  have at: "conn_at (conn_addr c) s = Some c" by (rule conn_at_mem [OF qc c])
  have ob: "owners_ok (add_owner p c)" by (rule add_owner_ok [OF o p]) simp_all
  have cu: "queue_counts lost (upd_conn (conn_addr c) (add_owner p) s)"
    by (rule upd_counts_same [OF qc at]) (simp_all add: ob)
  have wu: "queue_waits (upd_conn (conn_addr c) (add_owner p) s)" using qw by (auto simp: queue_waits_def)
  have "queue_ok lost s' \<and> conn_at (conn_addr c) s' = Some (add_owner p c)"
  proof (cases "get_priority c > p")
    case True
    have "distinct (map conn_addr (connection_queue s))" using qc by (simp add: queue_counts_def)
    from move_in_queue [OF this c refl, of "add_owner p"]
    have m: "mset (connection_queue s') = mset (connection_queue (upd_conn (conn_addr c) (add_owner p) s))"
      using True s' by (simp add: add_to_queue_def del_conn_def)
    have e: "s' = upd_conn (conn_addr c) (add_owner p) s\<lparr>connection_queue := connection_queue s'\<rparr>"
      using True s' by (simp add: add_to_queue_def del_conn_def upd_conn_def)
    have cn: "queue_counts lost s'" by (subst e) (rule reorder_counts [OF cu m])
    moreover have "queue_waits s'" by (subst e) (rule reorder_waits [OF wu m])
    moreover have "queue_sorted s'" using True s' by (simp add: add_to_queue_sorted del_sorted qs)
    moreover have "conn_at (conn_addr c) s' = Some (add_owner p c)"
      using conn_at_mem [OF cn, of "add_owner p c"] True s' by (simp add: add_to_queue_def)
    ultimately show ?thesis by (simp add: queue_ok_def)
  next
    case False
    have "get_priority (add_owner p c) = get_priority c" using add_owner_priority [OF o p] False by simp
    then have "queue_ok lost s'" using upd_ok [OF q at, of "add_owner p"] False s' ob by simp
    moreover have "conn_at (conn_addr c) s' = Some (add_owner p c)"
      using conn_at_upd [OF at, of "add_owner p"] False s' by simp
    ultimately show ?thesis by blast
  qed
  then show "queue_ok lost s'" "conn_at (conn_addr c) s' = Some (add_owner p c)" by simp_all
qed

lemma load_uri_ok:
  assumes q: "queue_ok lost s" and p: "p < PRIORITIES"
  shows "queue_ok lost (load_uri u v r dl p found s)"
proof (cases "List.find (\<lambda>c. \<not> detached c \<and> compare_uri (conn_uri c = u) (conn_uri c) u URI_NONE) (connection_queue s)")
  case None
  let ?c = "attach_download dl p S_OK 0 (init_connection (next_addr s) (connection_id s) u v r p)"
  have "queue_ok lost (set_connection_state (next_addr s) S_WAIT (add_to_queue ?c (s\<lparr>next_addr := next_addr s + 1, connection_id := connection_id s + 1\<rparr>)))"
    by (rule queue_new_conn(1) [OF q]) (simp_all add: init_attach_ok [OF p])
  then show ?thesis using None q by (simp add: load_uri_def Let_def)
next
  case (Some c)
  then have mem: "c \<in> set (connection_queue s)" by (auto simp: find_Some_iff)
  then have o: "owners_ok c" using q by (simp add: queue_ok_def queue_counts_def)
  define s1 where "s1 = (if get_priority c > p then add_to_queue (add_owner p c) (del_conn (conn_addr c) s)
                   else upd_conn (conn_addr c) (add_owner p) s)"
  note b = bump_ok [OF q mem p s1_def]
  let ?f = "attach_download dl p (conn_state c) (prev_error c)"
  have of: "owners_ok (?f (add_owner p c))"
    by (rule add_owner_ok [OF o p]) (use attach_downloads [of dl p "conn_state c" "prev_error c" "add_owner p c"] in simp_all)
  have q2: "queue_ok lost (upd_conn (conn_addr c) ?f s1)"
    by (rule upd_ok [OF b]) (simp_all add: of get_priority_def)
  have at: "conn_at (conn_addr c) (upd_conn (conn_addr c) ?f s1) = Some (?f (add_owner p c))"
    using conn_at_upd [OF b(2), of ?f] by simp
  have e: "load_uri u v r dl p found s
    = (if dl = None then s1 else set_connection_state (conn_addr c) (conn_state c) (upd_conn (conn_addr c) ?f s1))"
    using Some by (simp add: load_uri_def Let_def s1_def add_owner_def [abs_def])
  show ?thesis unfolding e using b(1) set_same_state_ok [OF q2 at] by simp
qed


lemma try_to_load_image_ok: "queue_ok lost s \<Longrightarrow> queue_ok lost (try_to_load_image u v r s)"
proof -
  assume q: "queue_ok lost s"
  let ?c = "init_connection (next_addr s) (connection_id s) u v r PRI_IMG"
  let ?s = "set_connection_state (next_addr s) S_WAIT (add_to_queue ?c (s\<lparr>next_addr := next_addr s + 1, connection_id := connection_id s + 1\<rparr>))"
  have o: "owners_ok ?c" by (rule init_connection_ok) (simp add: PRI_IMG_def PRIORITIES_def)
  have n: "queue_ok lost ?s" by (rule queue_new_conn(1) [OF q]) (simp_all add: o)
  obtain c where c: "conn_at (next_addr s) ?s = Some c"
    using queue_new_conn(2) [OF q, of ?c] o by auto
  obtain c' where c': "conn_at (next_addr s) (run_connection (next_addr s) ?s) = Some c'" "running c'"
    using run_connection_at [OF c] by blast
  have qc: "queue_counts lost (run_connection (next_addr s) ?s)" using n by (simp add: queue_ok_def run_connection_counts)
  have "queue_waits (run_connection (next_addr s) ?s)"
    by (rule waits_but_full [OF run_connection_waits c'(1) qc]) (use n c'(2) in \<open>simp_all add: queue_ok_def queue_waits_but\<close>)
  then show ?thesis using qc n by (simp add: try_to_load_image_def Let_def queue_ok_def run_connection_sorted)
qed

text \<open>An image starts its connection at once, whatever the limits on connections.\<close>

lemma try_to_load_image_unlimited:
  assumes q: "queue_ok lost s"
  shows "active_connections (try_to_load_image u v r s) = active_connections s + 1"
proof -
  let ?c = "init_connection (next_addr s) (connection_id s) u v r PRI_IMG"
  have o: "owners_ok ?c" by (rule init_connection_ok) (simp add: PRI_IMG_def PRIORITIES_def)
  have nr: "\<not> running ?c" by simp
  obtain c where c: "conn_at (next_addr s) (set_connection_state (next_addr s) S_WAIT
      (add_to_queue ?c (s\<lparr>next_addr := next_addr s + 1, connection_id := connection_id s + 1\<rparr>))) = Some c" "\<not> running c"
    using queue_new_conn(2) [OF q init_fields(1) o nr] by blast
  then show ?thesis by (simp add: try_to_load_image_def Let_def run_connection_def upd_conn_def set_connection_state_def add_to_queue_def)
qed

text \<open>Dropping a download: its connection keeps an owner, if only \<open>PRI_CANCEL\<close>.\<close>

definition drop_owner :: "download \<Rightarrow> connection \<Rightarrow> connection" where
  "drop_owner d c = c\<lparr>downloads := filter (\<lambda>d'. dl_id d' \<noteq> dl_id d) (downloads c),
     pri := (pri c)[dl_pri d := pri c ! dl_pri d - 1]\<rparr>"

lemma filter_other: "length (filter P (filter Q xs)) \<le> length (filter P xs)"
  by (induction xs) auto

lemma filter_removed: "d \<in> set xs \<Longrightarrow> P d \<Longrightarrow> \<not> Q d \<Longrightarrow> length (filter P (filter Q xs)) < length (filter P xs)"
proof (induction xs)
  case (Cons x xs)
  then show ?case using filter_other [of P Q xs] by (auto intro: le_imp_less_Suc)
qed simp

lemma drop_owner_pri:
  assumes o: "owners_ok c" and d: "d \<in> set (downloads c)"
  shows "1 \<le> pri c ! dl_pri d" "length (pri (drop_owner d c)) = PRIORITIES"
    "\<And>p. p < PRIORITIES \<Longrightarrow> int (length (filter (\<lambda>d. dl_pri d = p) (downloads (drop_owner d c)))) \<le> pri (drop_owner d c) ! p"
proof -
  have dp: "dl_pri d < PRIORITIES" using o d by (simp add: owners_ok_def)
  have len: "length (pri c) = PRIORITIES" using o by (simp add: owners_ok_def)
  have le: "int (length (filter (\<lambda>d. dl_pri d = p) (downloads c))) \<le> pri c ! p" if "p < PRIORITIES" for p
    using o that by (simp add: owners_ok_def)
  have "d \<in> set (filter (\<lambda>e. dl_pri e = dl_pri d) (downloads c))" using d by simp
  then have "0 < length (filter (\<lambda>e. dl_pri e = dl_pri d) (downloads c))" by (rule length_pos_if_in_set)
  then show "1 \<le> pri c ! dl_pri d" using le [OF dp] by linarith
  show "length (pri (drop_owner d c)) = PRIORITIES" using len by (simp add: drop_owner_def)
  show "int (length (filter (\<lambda>d. dl_pri d = p) (downloads (drop_owner d c)))) \<le> pri (drop_owner d c) ! p"
    if p: "p < PRIORITIES" for p
  proof (cases "p = dl_pri d")
    case True
    have "length (filter (\<lambda>e. dl_pri e = p) (downloads (drop_owner d c))) < length (filter (\<lambda>e. dl_pri e = p) (downloads c))"
      unfolding drop_owner_def using filter_removed [OF d, of "\<lambda>e. dl_pri e = p" "\<lambda>e. dl_id e \<noteq> dl_id d"] True by simp
    moreover have "pri (drop_owner d c) ! p = pri c ! p - 1" using True p len by (simp add: drop_owner_def)
    ultimately show ?thesis using le [OF p] by linarith
  next
    case False
    have "length (filter (\<lambda>e. dl_pri e = p) (downloads (drop_owner d c))) \<le> length (filter (\<lambda>e. dl_pri e = p) (downloads c))"
      unfolding drop_owner_def using filter_other [of "\<lambda>e. dl_pri e = p" "\<lambda>e. dl_id e \<noteq> dl_id d"] by simp
    moreover have "pri (drop_owner d c) ! p = pri c ! p" using False by (simp add: drop_owner_def)
    ultimately show ?thesis using le [OF p] by linarith
  qed
qed

lemma drop_owner_left:
  assumes o: "owners_ok c" and d: "d \<in> set (downloads c)" and left: "downloads (drop_owner d c) \<noteq> []"
  shows "owners_ok (drop_owner d c)"
proof -
  note dp = drop_owner_pri [OF o d]
  have sub: "set (downloads (drop_owner d c)) \<subseteq> set (downloads c)" by (auto simp: drop_owner_def)
  obtain e where e: "e \<in> set (downloads (drop_owner d c))" using left by (cases "downloads (drop_owner d c)") auto
  then have ep: "dl_pri e < PRIORITIES" using sub o by (auto simp: owners_ok_def)
  have "e \<in> set (filter (\<lambda>d. dl_pri d = dl_pri e) (downloads (drop_owner d c)))" using e by simp
  then have "0 < length (filter (\<lambda>d. dl_pri d = dl_pri e) (downloads (drop_owner d c)))" by (rule length_pos_if_in_set)
  then have "0 < pri (drop_owner d c) ! dl_pri e" using dp(3) [OF ep] by linarith
  then show ?thesis unfolding owners_ok_def using dp(2,3) ep sub o by (auto simp: owners_ok_def)
qed

lemma drop_owner_last:
  assumes o: "owners_ok c" and d: "d \<in> set (downloads c)" and left: "downloads (drop_owner d c) = []"
  shows "owners_ok (add_owner PRI_CANCEL (drop_owner d c))"
proof -
  note dp = drop_owner_pri [OF o d]
  have c: "PRI_CANCEL < PRIORITIES" by (simp add: PRI_CANCEL_def PRIORITIES_def)
  have nn: "0 \<le> pri (drop_owner d c) ! p" if "p < PRIORITIES" for p using dp(3) [OF that] by linarith
  have "0 < pri (add_owner PRI_CANCEL (drop_owner d c)) ! PRI_CANCEL"
    using nn [OF c] c dp(2) by (simp add: add_owner_def)
  moreover have "0 \<le> pri (add_owner PRI_CANCEL (drop_owner d c)) ! p" if "p < PRIORITIES" for p
    using nn [OF that] nn [OF c] dp(2) c that by (simp add: add_owner_def nth_list_update)
  ultimately show ?thesis unfolding owners_ok_def using left dp(2) c by (auto simp: add_owner_def)
qed

lemma drop_owner_fields [simp]:
  "conn_addr (drop_owner d c) = conn_addr c" "conn_uri (drop_owner d c) = conn_uri c"
  "running (drop_owner d c) = running c" "conn_state (drop_owner d c) = conn_state c"
  "detached (drop_owner d c) = detached c"
  by (simp_all add: drop_owner_def)

lemma upd_const_ok:
  assumes q: "queue_counts lost s" "queue_waits s" and c: "conn_at cid s = Some c"
    and c': "conn_addr c' = cid" "conn_uri c' = conn_uri c" "running c' = running c" "conn_state c' = conn_state c" "owners_ok c'"
  shows "queue_counts lost (upd_conn cid (\<lambda>_. c') s)" "queue_waits (upd_conn cid (\<lambda>_. c') s)"
proof -
  show "queue_counts lost (upd_conn cid (\<lambda>_. c') s)" by (rule upd_counts_same [OF q(1) c]) (simp_all add: c')
  have "running c \<or> conn_state c = S_WAIT" using q(2) conn_atD [OF c] by (auto simp: queue_waits_def)
  then show "queue_waits (upd_conn cid (\<lambda>_. c') s)" using q(2) c' by (auto simp: queue_waits_def)
qed

lemma cancel_download_ok:
  assumes q: "queue_ok lost s" and r: "cancel_download terminate cid did interrupt s = Some s'"
  shows "queue_ok lost s'"
proof (cases "conn_at cid s")
  case (Some c)
  show ?thesis
  proof (cases "List.find (\<lambda>d. dl_id d = did) (downloads c)")
    case None
    then show ?thesis using Some q r by (simp add: cancel_download_def)
  next
    case d: (Some d)
    then have dm: "d \<in> set (downloads c)" "dl_id d = did" by (auto simp: find_Some_iff)
    show ?thesis
    proof (cases "is_in_result_state (dl_state d)")
      case False
      have qc: "queue_counts lost s" "queue_waits s" using q by (simp_all add: queue_ok_def)
      have mem: "conn_addr c = cid" "owners_ok c" using conn_atD [OF Some] qc(1) by (auto simp: queue_counts_def)
      have pos: "0 \<le> pri c ! dl_pri d - 1" using drop_owner_pri(1) [OF mem(2) dm(1)] by simp
      define s1 where "s1 = (if downloads (drop_owner d c) = []
        then let s = upd_conn cid (\<lambda>_. add_owner PRI_CANCEL (drop_owner d c)) s
             in if detached c \<or> interrupt then abort_connection terminate cid S_INTERRUPTED s else s
        else upd_conn cid (\<lambda>_. drop_owner d c) s)"
      have "queue_counts lost s1 \<and> queue_waits s1"
      proof (cases "downloads (drop_owner d c) = []")
        case True
        note u = upd_const_ok [OF qc Some, of "add_owner PRI_CANCEL (drop_owner d c)"]
        have "queue_counts lost (upd_conn cid (\<lambda>_. add_owner PRI_CANCEL (drop_owner d c)) s)"
          "queue_waits (upd_conn cid (\<lambda>_. add_owner PRI_CANCEL (drop_owner d c)) s)"
          using u drop_owner_last [OF mem(2) dm(1) True] mem(1) by simp_all
        then show ?thesis using True abort_connection_ok(1,2) [of lost _ S_INTERRUPTED]
          by (simp add: s1_def Let_def S_INTERRUPTED_def)
      next
        case no: False
        then show ?thesis using upd_const_ok [OF qc Some, of "drop_owner d c"] drop_owner_left [OF mem(2) dm(1) no] mem(1)
          by (simp add: s1_def)
      qed
      moreover have "sort_queue s1 = Some s'"
        using r Some d False pos dm(2)
        by (simp add: cancel_download_def Let_def s1_def drop_owner_def add_owner_def cong: if_cong)
      ultimately show ?thesis using sort_queue_ok by blast
    qed (use Some d q r in \<open>simp add: cancel_download_def\<close>)
  qed
qed (use q r in \<open>simp add: cancel_download_def\<close>)

lemma move_download_ok:
  assumes q: "queue_ok lost s" and p: "newpri < PRIORITIES" and r: "move_download terminate cid old new newpri s = Some s'"
  shows "queue_ok lost s'"
proof (cases "conn_at cid s")
  case (Some c)
  show ?thesis
  proof (cases "List.find (\<lambda>d. dl_id d = old) (downloads c)")
    case None
    then show ?thesis using Some q r by (simp add: move_download_def)
  next
    case d: (Some d)
    show ?thesis
    proof (cases "is_in_result_state (dl_state d)")
      case False
      have qc: "queue_counts lost s" "queue_waits s" using q by (simp_all add: queue_ok_def)
      have mem: "conn_addr c = cid" "owners_ok c" using conn_atD [OF Some] qc(1) by (auto simp: queue_counts_def)
      define f where "f = (\<lambda>c :: connection. c\<lparr>pri := (pri c)[newpri := pri c ! newpri + 1],
                           downloads := d\<lparr>dl_id := new, dl_pri := newpri\<rparr> # downloads c\<rparr>)"
      have of: "owners_ok (f c)"
        by (rule add_owner_ok [OF mem(2) p]) (simp_all add: f_def add_owner_def)
      have "queue_counts lost (upd_conn cid f s)"
        by (rule upd_counts_same [OF qc(1) Some]) (use mem of in \<open>simp_all add: f_def\<close>)
      moreover have "queue_waits (upd_conn cid f s)" using qc(2) by (auto simp: queue_waits_def f_def)
      moreover obtain s1 where s1: "sort_queue (upd_conn cid f s) = Some s1" by (simp add: sort_queue_stable)
      ultimately have "queue_ok lost s1" using sort_queue_ok by blast
      moreover have "cancel_download terminate cid old False s1 = Some s'"
        using r Some d False s1 by (simp add: move_download_def f_def [abs_def])
      ultimately show ?thesis using cancel_download_ok by blast
    qed (use Some d q r in \<open>simp add: move_download_def\<close>)
  qed
qed (use q r in \<open>simp add: move_download_def\<close>)

end
