(* ===== verification/Conn_Scheduler.thy ===== *)
theory Conn_Scheduler
  imports Conn_Requests
begin

text \<open>
  The scheduler of the connection queue: what \<open>try_connection\<close> decides, which connection it
  suspends, and that a round of \<open>check_queue\<close> keeps the queue consistent.
\<close>

subsection \<open>The scheduler\<close>

lemma try_to_suspend_result:
  "try_to_suspend_connection conn u s = (r, s') \<Longrightarrow>
    r = -1 \<and> s' = s \<and> suspend_victim (get_priority conn) u (rev (connection_queue s)) = None
    \<or> r = 0 \<and> (\<exists>v. suspend_victim (get_priority conn) u (rev (connection_queue s)) = Some v
          \<and> s' = suspend_connection (conn_addr v) s)"
  by (auto simp: try_to_suspend_connection_def split: option.splits)

text \<open>What the three outcomes of \<open>try_connection\<close> mean, with the counts of the invariant.\<close>

definition host_full :: "connection \<Rightarrow> int \<Rightarrow> conn_queue \<Rightarrow> bool" where
  "host_full c mh s \<longleftrightarrow> host_key (conn_uri c) \<noteq> None \<and> 0 < host_count (host_key (conn_uri c)) (connection_queue s)
     \<and> mh \<le> host_count (host_key (conn_uri c)) (connection_queue s)"

definition victim_of :: "connection \<Rightarrow> int \<Rightarrow> conn_queue \<Rightarrow> connection option" where
  "victim_of c mh s = suspend_victim (get_priority c)
     (if host_full c mh s then map_option hc_uri (get_host_connection c (host_connections s)) else None)
     (rev (connection_queue s))"

lemma try_connection_cases:
  assumes q: "queue_counts lost s" and r: "try_connection c mh mc s = (r, s')"
  obtains (run) "r = 1" "s' = run_connection (conn_addr c) s" "\<not> host_full c mh s"
      "active_connections s < mc"
  | (suspend) v where "r = -1" "victim_of c mh s = Some v" "s' = suspend_connection (conn_addr v) s"
      "host_full c mh s \<or> mc \<le> active_connections s"
  | (blocked) "r = 0" "s' = s" "victim_of c mh s = None" "host_full c mh s \<or> mc \<le> active_connections s"
proof -
  have g: "good_hosts (host_connections s)" and act: "active_connections s = active_connections s"
    and refs: "\<And>k. k \<noteq> None \<Longrightarrow> host_refs (host_connections s) k = host_count k (connection_queue s)"
    using q by (simp_all add: queue_counts_def)
  show thesis
  proof (cases "get_host_connection c (host_connections s)")
    case None
    have nf: "\<not> host_full c mh s"
      using get_host_connection_refs(1) [OF g None] refs [of "host_key (conn_uri c)"] by (auto simp: host_full_def)
    show thesis
    proof (cases "active_connections s \<ge> mc")
      case True
      obtain r0 where t: "try_to_suspend_connection c None s = (r0, s')" "r = (if r0 \<noteq> 0 then 0 else -1)"
        using r None True by (auto simp: try_connection_def split: prod.splits)
      from try_to_suspend_result [OF t(1)] show thesis
        using t(2) nf True act suspend blocked by (auto simp: victim_of_def)
    next
      case False
      then show thesis using r None nf act run by (simp add: try_connection_def)
    qed
  next
    case (Some h)
    note gh = get_host_connection_refs(2) [OF g Some]
    have hf: "host_full c mh s \<longleftrightarrow> mh \<le> hc_refcount h"
      using gh refs [of "host_key (conn_uri c)"] by (auto simp: host_full_def)
    show thesis
    proof (cases "hc_refcount h \<ge> mh")
      case True
      obtain r0 where t: "try_to_suspend_connection c (Some (hc_uri h)) s = (r0, s')" "r = (if r0 \<noteq> 0 then 0 else -1)"
        using r Some True by (auto simp: try_connection_def split: prod.splits)
      from try_to_suspend_result [OF t(1)] show thesis
        using t(2) hf True Some suspend blocked by (auto simp: victim_of_def)
    next
      case nf: False
      show thesis
      proof (cases "active_connections s \<ge> mc")
        case True
        obtain r0 where t: "try_to_suspend_connection c None s = (r0, s')" "r = (if r0 \<noteq> 0 then 0 else -1)"
          using r Some nf True by (auto simp: try_connection_def split: prod.splits)
        from try_to_suspend_result [OF t(1)] show thesis
          using t(2) hf nf True act suspend blocked by (auto simp: victim_of_def)
      next
        case False
        then show thesis using r Some nf hf act run by (simp add: try_connection_def)
      qed
    qed
  qed
qed

lemma try_group_some:
  "queue_counts lost s \<Longrightarrow> try_group want p mh mc cs s = Some s' \<Longrightarrow>
    \<exists>c \<in> set cs. get_priority c = p \<and> conn_state c = S_WAIT \<and> (\<exists>r. try_connection c mh mc s = (r, s') \<and> r \<noteq> 0)"
proof (induction cs)
  case (Cons c cs)
  obtain r s1 where t: "try_connection c mh mc s = (r, s1)" by fastforce
  have same: "s1 = s" if "r = 0" using try_connection_cases [OF Cons.prems(1) t] that by auto
  show ?case
  proof (cases "get_priority c = p \<and> conn_state c = S_WAIT \<and> want c \<and> r \<noteq> 0")
    case True
    then show ?thesis using Cons.prems(2) t by auto
  next
    case False
    then have "try_group want p mh mc cs s = Some s'"
      using Cons.prems(2) t same by (auto split: if_splits)
    then show ?thesis using Cons.IH [OF Cons.prems(1)] by auto
  qed
qed simp

lemma try_group_none:
  "queue_counts lost s \<Longrightarrow> try_group want p mh mc cs s = None \<Longrightarrow>
    \<forall>c \<in> set (takeWhile (\<lambda>c. get_priority c = p) cs). conn_state c = S_WAIT \<longrightarrow> want c \<longrightarrow> fst (try_connection c mh mc s) = 0"
proof (induction cs)
  case (Cons c cs)
  obtain r s1 where t: "try_connection c mh mc s = (r, s1)" by fastforce
  have same: "s1 = s" if "r = 0" using try_connection_cases [OF Cons.prems(1) t] that by auto
  show ?case
  proof (cases "get_priority c = p")
    case True
    have "conn_state c = S_WAIT \<longrightarrow> want c \<longrightarrow> r = 0" using True Cons.prems(2) t by (auto split: if_splits)
    moreover from this have "try_group want p mh mc cs s = None"
      using Cons.prems(2) t same True by (auto split: if_splits)
    ultimately show ?thesis using Cons.IH [OF Cons.prems(1)] True t by auto
  qed simp
qed simp

lemma try_groups_some:
  "queue_counts lost s \<Longrightarrow> try_groups kept mh mc cs s = Some s' \<Longrightarrow>
    \<exists>c \<in> set cs. conn_state c = S_WAIT \<and> (\<exists>r. try_connection c mh mc s = (r, s') \<and> r \<noteq> 0)"
proof (induction kept mh mc cs s rule: try_groups.induct)
  case (2 kept mh mc c cs s)
  consider (kept) "try_group kept (get_priority c) mh mc (c # cs) s = Some s'"
    | (any) "try_group (\<lambda>_. True) (get_priority c) mh mc (c # cs) s = Some s'"
    | (later) "try_group kept (get_priority c) mh mc (c # cs) s = None"
        "try_group (\<lambda>_. True) (get_priority c) mh mc (c # cs) s = None"
        "try_groups kept mh mc (dropWhile (\<lambda>c'. get_priority c' = get_priority c) cs) s = Some s'"
    using 2(3) by (simp only: try_groups.simps) (auto split: option.splits)
  then show ?case
  proof cases
    case later
    have sub: "set (dropWhile (\<lambda>c'. get_priority c' = get_priority c) cs) \<subseteq> set (c # cs)"
      using set_dropWhileD by fastforce
    show ?thesis using 2(1) [OF later(1,2) 2(2) later(3)] sub by blast
  qed (use try_group_some [OF 2(2)] in blast)+
qed simp

lemma try_groups_none:
  "queue_counts lost s \<Longrightarrow> try_groups kept mh mc cs s = None \<Longrightarrow>
    \<forall>c \<in> set cs. conn_state c = S_WAIT \<longrightarrow> fst (try_connection c mh mc s) = 0"
proof (induction kept mh mc cs s rule: try_groups.induct)
  case (2 kept mh mc c cs s)
  have n: "try_group kept (get_priority c) mh mc (c # cs) s = None"
    "try_group (\<lambda>_. True) (get_priority c) mh mc (c # cs) s = None"
    "try_groups kept mh mc (dropWhile (\<lambda>c'. get_priority c' = get_priority c) cs) s = None"
    using 2(3) by (simp_all only: try_groups.simps) (auto split: option.splits)
  have "set (c # cs) = set (takeWhile (\<lambda>c'. get_priority c' = get_priority c) (c # cs))
    \<union> set (dropWhile (\<lambda>c'. get_priority c' = get_priority c) cs)"
    by simp (metis set_append takeWhile_dropWhile_id)
  moreover note try_group_none [OF 2(2) n(2)] 2(1) [OF n(1,2) 2(2) n(3)]
  ultimately show ?case by blast
qed simp

text \<open>The connections that may be suspended for another one.\<close>

definition suspendable :: "nat \<Rightarrow> uri option \<Rightarrow> connection \<Rightarrow> bool" where
  "suspendable priority u c \<longleftrightarrow> priority < get_priority c \<and> conn_state c \<noteq> S_WAIT
     \<and> (post (conn_uri c) = None \<or> PRI_CANCEL \<le> get_priority c)
     \<and> (case u of Some u \<Rightarrow> host_key (conn_uri c) = host_key u | None \<Rightarrow> True)"

lemma suspend_victim_back:
  "sorted (rev (map get_priority q)) \<Longrightarrow>
    suspend_victim p u q = List.find (suspendable p u) q"
proof (induction q)
  case (Cons c q)
  have s: "sorted (rev (map get_priority q))" and le: "\<forall>d \<in> set q. get_priority d \<le> get_priority c"
    using Cons.prems by (auto simp: sorted_append)
  show ?case
  proof (cases "get_priority c \<le> p")
    case True
    then have "\<forall>d \<in> set (c # q). \<not> suspendable p u d" using le by (fastforce simp: suspendable_def)
    then have "List.find (suspendable p u) (c # q) = None" by (simp only: find_None_iff) blast
    then show ?thesis using True by simp
  next
    case False
    then show ?thesis using Cons.IH [OF s] by (auto simp: suspendable_def same_host_key split: option.splits)
  qed
qed simp

text \<open>In the sorted queue, the victim is the last one, so one of the least priority.\<close>

lemma find_rev_last:
  assumes "sorted (map f q)" "List.find P (rev q) = Some v"
  shows "v \<in> set q" "P v" "\<And>d. d \<in> set q \<Longrightarrow> P d \<Longrightarrow> f d \<le> f v"
proof -
  obtain i where i: "i < length (rev q)" "P (rev q ! i)" "v = rev q ! i" "\<And>j. j < i \<Longrightarrow> \<not> P (rev q ! j)"
    using assms(2) by (auto simp: find_Some_iff)
  show "v \<in> set q" using i(1,3) nth_mem [OF i(1)] by simp
  show "P v" using i by simp
  show "f d \<le> f v" if d: "d \<in> set q" "P d" for d
  proof -
    obtain j where j: "j < length (rev q)" "d = rev q ! j" using d(1) by (metis in_set_conv_nth set_rev)
    have "i \<le> j" using i(4) [of j] d(2) j(2) by (meson not_le)
    then have "length q - Suc j \<le> length q - Suc i" by simp
    moreover have "d = q ! (length q - Suc j)" "v = q ! (length q - Suc i)"
      using j i(1,3) by (simp_all add: rev_nth)
    ultimately show ?thesis using sorted_nth_mono [OF assms(1), of "length q - Suc j" "length q - Suc i"] i(1) by simp
  qed
qed

lemma suspend_victim_some:
  assumes "queue_sorted s" "suspend_victim p u (rev (connection_queue s)) = Some v"
  shows "v \<in> set (connection_queue s)" "suspendable p u v"
    "\<And>d. d \<in> set (connection_queue s) \<Longrightarrow> suspendable p u d \<Longrightarrow> get_priority d \<le> get_priority v"
proof -
  have s: "sorted (map get_priority (connection_queue s))" using assms(1) by (simp add: queue_sorted_def)
  have "List.find (suspendable p u) (rev (connection_queue s)) = Some v"
    using assms(2) s suspend_victim_back [of "rev (connection_queue s)" p u] by (simp add: rev_map)
  note f = find_rev_last [OF s this]
  show "v \<in> set (connection_queue s)" "suspendable p u v"
    "\<And>d. d \<in> set (connection_queue s) \<Longrightarrow> suspendable p u d \<Longrightarrow> get_priority d \<le> get_priority v"
    using f by blast+
qed

lemma suspend_victim_none:
  assumes "queue_sorted s" "suspend_victim p u (rev (connection_queue s)) = None" "d \<in> set (connection_queue s)"
  shows "\<not> suspendable p u d"
proof -
  have s: "sorted (map get_priority (connection_queue s))" using assms(1) by (simp add: queue_sorted_def)
  have "List.find (suspendable p u) (rev (connection_queue s)) = None"
    using assms(2) s suspend_victim_back [of "rev (connection_queue s)" p u] by (simp add: rev_map)
  then show ?thesis using assms(3) by (simp add: find_None_iff)
qed

lemma suspend_connection_ok:
  assumes q: "queue_ok lost s" and c: "conn_at cid s = Some c" "conn_state c \<noteq> S_WAIT"
  shows "queue_ok lost (suspend_connection cid s)"
    "\<exists>c'. conn_at cid (suspend_connection cid s) = Some c' \<and> \<not> running c' \<and> conn_state c' = S_WAIT"
proof -
  have qc: "queue_counts lost s" "queue_waits s" "queue_sorted s" using q by (simp_all add: queue_ok_def)
  have r: "running c" using qc(2) c conn_atD [OF c(1)] by (auto simp: queue_waits_def)
  note fc = free_connection_data_counts(1) [OF qc(1) c(1) r c(2)] free_connection_data_at [OF qc(1) c(1) r c(2)]
  have w: "waits_but cid (free_connection_data cid s)" by (rule free_connection_data_waits [OF queue_waits_but [OF qc(2)]])
  obtain c' where c': "conn_at cid (suspend_connection cid s) = Some c'" "conn_state c' = S_WAIT" "\<not> running c'"
    using set_connection_state_at [OF fc(2), of S_WAIT] by (auto simp: suspend_connection_def)
  have k: "queue_counts lost (suspend_connection cid s)" by (simp add: suspend_connection_def set_connection_state_counts fc(1))
  have "queue_waits (suspend_connection cid s)"
    by (rule waits_but_full [OF _ c'(1) k]) (simp_all add: suspend_connection_def set_connection_state_waits w c'(2))
  then show "queue_ok lost (suspend_connection cid s)"
    using k qc(3) by (simp add: queue_ok_def suspend_connection_def set_connection_state_sorted free_connection_data_sorted)
  show "\<exists>c'. conn_at cid (suspend_connection cid s) = Some c' \<and> \<not> running c' \<and> conn_state c' = S_WAIT"
    using c' by blast
qed

lemma run_connection_ok:
  assumes q: "queue_ok lost s"
  shows "queue_ok lost (run_connection cid s)"
proof (cases "conn_at cid s")
  case (Some c)
  have qc: "queue_counts lost (run_connection cid s)" using q by (simp add: queue_ok_def run_connection_counts)
  obtain c' where c': "conn_at cid (run_connection cid s) = Some c'" "running c'" using run_connection_at [OF Some] by blast
  have "queue_waits (run_connection cid s)"
    by (rule waits_but_full [OF run_connection_waits c'(1) qc]) (use q c'(2) in \<open>simp_all add: queue_ok_def queue_waits_but\<close>)
  then show ?thesis using qc q by (simp add: queue_ok_def run_connection_sorted)
qed (use q in \<open>simp add: run_connection_def\<close>)

text \<open>The host of \<open>victim_of\<close>, as the host of the connection that wants to run.\<close>

lemma victim_of_suspendable:
  assumes q: "queue_counts lost s"
  obtains u where "\<And>p. suspendable p u = suspendable p (if host_full c mh s then Some (conn_uri c) else None)"
    "victim_of c mh s = suspend_victim (get_priority c) u (rev (connection_queue s))"
proof (cases "host_full c mh s")
  case False
  then show thesis by (intro that [of None]) (simp_all add: victim_of_def)
next
  case True
  have g: "good_hosts (host_connections s)"
    and refs: "host_refs (host_connections s) (host_key (conn_uri c)) = host_count (host_key (conn_uri c)) (connection_queue s)"
    using q True by (simp_all add: queue_counts_def host_full_def)
  obtain h where h: "get_host_connection c (host_connections s) = Some h"
    using get_host_connection_refs(1) [OF g, of c] refs True by (cases "get_host_connection c (host_connections s)") (auto simp: host_full_def)
  have k: "host_key (hc_uri h) = host_key (conn_uri c)" using get_host_connection_refs(2) [OF g h] by simp
  have "suspendable p (Some (hc_uri h)) = suspendable p (Some (conn_uri c))" for p
    by (rule ext) (simp add: suspendable_def k)
  then show thesis using True h by (intro that [of "Some (hc_uri h)"]) (simp_all add: victim_of_def)
qed

lemma victim_of_ok:
  assumes q: "queue_ok lost s" and v: "victim_of c mh s = Some v"
  shows "conn_at (conn_addr v) s = Some v" "conn_state v \<noteq> S_WAIT" "running v"
    "suspendable (get_priority c) (if host_full c mh s then Some (conn_uri c) else None) v"
    "\<And>d. d \<in> set (connection_queue s) \<Longrightarrow>
      suspendable (get_priority c) (if host_full c mh s then Some (conn_uri c) else None) d \<Longrightarrow> get_priority d \<le> get_priority v"
proof -
  have qc: "queue_counts lost s" and qw: "queue_waits s" and qs: "queue_sorted s" using q by (simp_all add: queue_ok_def)
  obtain u where u: "\<And>p. suspendable p u = suspendable p (if host_full c mh s then Some (conn_uri c) else None)"
    "victim_of c mh s = suspend_victim (get_priority c) u (rev (connection_queue s))"
    by (rule victim_of_suspendable [OF qc, of c mh]) blast
  have "suspend_victim (get_priority c) u (rev (connection_queue s)) = Some v" using u(2) v by simp
  note sv = suspend_victim_some [OF qs this, unfolded u(1)]
  show "conn_at (conn_addr v) s = Some v" by (rule conn_at_mem [OF qc sv(1)])
  show w: "conn_state v \<noteq> S_WAIT" using sv(2) by (simp add: suspendable_def)
  show "running v" using qw sv(1) w by (auto simp: queue_waits_def)
  show "suspendable (get_priority c) (if host_full c mh s then Some (conn_uri c) else None) v" by (rule sv(2))
  show "get_priority d \<le> get_priority v" if "d \<in> set (connection_queue s)"
    "suspendable (get_priority c) (if host_full c mh s then Some (conn_uri c) else None) d" for d
    using that by (rule sv(3))
qed

lemma victim_of_none:
  assumes q: "queue_ok lost s" and v: "victim_of c mh s = None" and d: "d \<in> set (connection_queue s)"
  shows "\<not> suspendable (get_priority c) (if host_full c mh s then Some (conn_uri c) else None) d"
proof -
  have qc: "queue_counts lost s" and qs: "queue_sorted s" using q by (simp_all add: queue_ok_def)
  obtain u where u: "\<And>p. suspendable p u = suspendable p (if host_full c mh s then Some (conn_uri c) else None)"
    "victim_of c mh s = suspend_victim (get_priority c) u (rev (connection_queue s))"
    by (rule victim_of_suspendable [OF qc, of c mh]) blast
  have "suspend_victim (get_priority c) u (rev (connection_queue s)) = None" using u(2) v by simp
  from suspend_victim_none [OF qs this d] show ?thesis unfolding u(1) .
qed

lemma try_connection_ok:
  assumes q: "queue_ok lost s" and t: "try_connection c mh mc s = (r, s')"
  shows "queue_ok lost s'"
proof -
  have qc: "queue_counts lost s" using q by (simp add: queue_ok_def)
  show ?thesis
  proof (rule try_connection_cases [OF qc t])
    fix v assume v: "victim_of c mh s = Some v" "s' = suspend_connection (conn_addr v) s"
    then show ?thesis using suspend_connection_ok(1) [OF q victim_of_ok(1,2) [OF q v(1)]] by simp
  qed (use q run_connection_ok in simp_all)
qed

lemma check_queue_round_step:
  assumes "queue_ok lost s" "check_queue_round kept mh mc s = Some s'"
  obtains c r where "c \<in> set (connection_queue s)" "conn_state c = S_WAIT" "try_connection c mh mc s = (r, s')" "r \<noteq> 0"
proof -
  have "queue_counts lost s" using assms(1) by (simp add: queue_ok_def)
  from try_groups_some [OF this assms(2) [unfolded check_queue_round_def]] that show thesis by blast
qed

lemma check_queue_round_ok:
  assumes "queue_ok lost s" "check_queue_round kept mh mc s = Some s'"
  shows "queue_ok lost s'"
proof (rule check_queue_round_step [OF assms])
  fix c r assume "try_connection c mh mc s = (r, s')"
  then show ?thesis by (rule try_connection_ok [OF assms(1)])
qed

text \<open>The interrupted connections, one after the other; a running one in its wait state stays.\<close>

lemma cancelled_conn_some:
  "cancelled_conn q = Some c \<Longrightarrow> c \<in> set q \<and> PRI_CANCEL \<le> get_priority c \<and> conn_state c = S_WAIT"
  by (induction q) (auto split: if_splits)

lemma cancelled_conn_none:
  "sorted (rev (map get_priority q)) \<Longrightarrow> cancelled_conn q = None \<Longrightarrow> c \<in> set q \<Longrightarrow> PRI_CANCEL \<le> get_priority c
    \<Longrightarrow> conn_state c \<noteq> S_WAIT"
proof (induction q)
  case (Cons d q)
  have s: "sorted (rev (map get_priority q))" and le: "\<forall>e \<in> set q. get_priority e \<le> get_priority d"
    using Cons.prems(1) by (auto simp: sorted_append)
  have "PRI_CANCEL \<le> get_priority d" using Cons.prems(3,4) le by auto
  then show ?case using Cons.prems(2,3,4) Cons.IH [OF s] by (auto split: if_splits)
qed simp

lemma interrupt_cancelled_ok:
  assumes q: "queue_ok lost s" and r: "interrupt_cancelled s = Some s'"
    and run: "\<And>c. c \<in> set (connection_queue s) \<Longrightarrow> running c \<Longrightarrow> conn_state c \<noteq> S_WAIT"
  shows "queue_ok lost s'" "length (connection_queue s') < length (connection_queue s)"
proof -
  have qc: "queue_counts lost s" "queue_waits s" "queue_sorted s" using q by (simp_all add: queue_ok_def)
  obtain c where c: "cancelled_conn (rev (connection_queue s)) = Some c"
    "s' = done_connection (conn_addr c) (set_connection_state (conn_addr c) S_INTERRUPTED s)"
    using r by (auto simp: interrupt_cancelled_def split: option.splits)
  have mem: "c \<in> set (connection_queue s)" "conn_state c = S_WAIT" using cancelled_conn_some [OF c(1)] by simp_all
  have nr: "\<not> running c" using run [OF mem(1)] mem(2) by blast
  note at = conn_at_mem [OF qc(1) mem(1)]
  let ?s = "set_connection_state (conn_addr c) S_INTERRUPTED s"
  obtain c' where c': "conn_at (conn_addr c) ?s = Some c'" "conn_state c' = S_INTERRUPTED" "\<not> running c'"
    using set_connection_state_at [OF at, of S_INTERRUPTED] nr by auto
  show "queue_ok lost s'" unfolding queue_ok_def c(2)
    using done_connection_ok [OF set_connection_state_counts [OF qc(1)] set_connection_state_waits [OF queue_waits_but [OF qc(2)]] c'(1,3)]
      set_connection_state_sorted [OF qc(3)] by blast
  have "done_connection (conn_addr c) ?s = del_conn (conn_addr c) ?s"
    using c'(1,2) by (simp add: done_connection_def is_in_result_state_def S_INTERRUPTED_def)
  moreover have "length (filter (\<lambda>d. conn_addr d \<noteq> conn_addr c) (connection_queue ?s)) < length (connection_queue ?s)"
    using conn_atD [OF c'(1)] by (intro length_filter_less [of c']) simp_all
  moreover have "length (connection_queue ?s) = length (connection_queue s)" by (simp add: set_connection_state_def)
  ultimately show "length (connection_queue s') < length (connection_queue s)" by (simp add: c(2) del_conn_def)
qed

end
