(* ===== verification/Conn_Loop.thy ===== *)
theory Conn_Loop
  imports Conn_Scheduler
begin

text \<open>
  \<open>check_queue\<close> comes to an end: within one priority, it starts waiting connections and suspends
  connections of the priorities behind, and a priority it has left stays blocked.
\<close>

subsection \<open>Blocked connections\<close>

definition settled :: "conn_queue \<Rightarrow> bool" where
  "settled s \<longleftrightarrow> (\<forall>c \<in> set (connection_queue s). running c \<longleftrightarrow> conn_state c \<noteq> S_WAIT)"

definition blocked :: "connection \<Rightarrow> int \<Rightarrow> int \<Rightarrow> conn_queue \<Rightarrow> bool" where
  "blocked c mh mc s \<longleftrightarrow> (host_full c mh s \<or> mc \<le> active_connections s)
     \<and> (\<forall>d \<in> set (connection_queue s).
          \<not> suspendable (get_priority c) (if host_full c mh s then Some (conn_uri c) else None) d)"

lemma try_connection_blocked:
  assumes q: "queue_ok lost s" and t: "try_connection c mh mc s = (r, s')"
  shows "r = 0 \<longleftrightarrow> blocked c mh mc s"
proof -
  have qc: "queue_counts lost s" using q by (simp add: queue_ok_def)
  show ?thesis
  proof (rule try_connection_cases [OF qc t])
    fix v assume v: "r = -1" "victim_of c mh s = Some v"
    have "v \<in> set (connection_queue s)" using conn_atD [OF victim_of_ok(1) [OF q v(2)]] by simp
    then have "\<not> blocked c mh mc s" using victim_of_ok(4) [OF q v(2)] unfolding blocked_def by blast
    with v(1) show ?thesis by simp
  next
    assume b: "r = 0" "victim_of c mh s = None" "host_full c mh s \<or> mc \<le> active_connections s"
    then show ?thesis using victim_of_none [OF q b(2)] unfolding blocked_def by simp
  qed (auto simp: blocked_def)
qed

definition blocked_below :: "nat \<Rightarrow> int \<Rightarrow> int \<Rightarrow> conn_queue \<Rightarrow> bool" where
  "blocked_below k mh mc s \<longleftrightarrow> (\<forall>c \<in> set (connection_queue s).
     conn_state c = S_WAIT \<longrightarrow> get_priority c < k \<longrightarrow> blocked c mh mc s)"

lemma try_groups_first:
  assumes q: "queue_ok lost s"
  shows "sorted (map get_priority cs) \<Longrightarrow> try_groups kept mh mc cs s = Some s' \<Longrightarrow>
    \<exists>c r. c \<in> set cs \<and> conn_state c = S_WAIT \<and> try_connection c mh mc s = (r, s') \<and> r \<noteq> 0
      \<and> (\<forall>d \<in> set cs. conn_state d = S_WAIT \<longrightarrow> get_priority d < get_priority c \<longrightarrow> blocked d mh mc s)"
proof (induction "length cs" arbitrary: cs rule: less_induct)
  case less
  have qc: "queue_counts lost s" using q by (simp add: queue_ok_def)
  show ?case
  proof (cases cs)
    case Nil
    then show ?thesis using less.prems by simp
  next
    case (Cons c0 cs0)
    let ?p = "get_priority c0" and ?later = "dropWhile (\<lambda>c'. get_priority c' = get_priority c0) cs0"
    have least: "?p \<le> get_priority d" if "d \<in> set cs" for d using less.prems(1) that Cons by auto
    have group: ?thesis if g: "try_group want ?p mh mc cs s = Some s'" for want
    proof -
      obtain c r where c: "c \<in> set cs" "get_priority c = ?p" "conn_state c = S_WAIT" "try_connection c mh mc s = (r, s')" "r \<noteq> 0"
        using try_group_some [OF qc g] by blast
      then show ?thesis using least by (intro exI [of _ c] exI [of _ r]) fastforce
    qed
    consider "try_group kept ?p mh mc cs s = Some s'" | "try_group (\<lambda>_. True) ?p mh mc cs s = Some s'"
      | (later) "try_group (\<lambda>_. True) ?p mh mc cs s = None" "try_groups kept mh mc ?later s = Some s'"
      using less.prems(2) unfolding Cons by (simp only: try_groups.simps) (auto split: option.splits)
    then show ?thesis
    proof cases
      case later
      have split: "cs = takeWhile (\<lambda>c. get_priority c = ?p) cs @ ?later" by (simp add: Cons)
      have "length ?later < length cs" using length_dropWhile_le [of "\<lambda>c'. get_priority c' = ?p" cs0] by (simp add: Cons le_imp_less_Suc)
      moreover have "sorted (map get_priority ?later)"
        using less.prems(1) by (subst (asm) split) (simp only: map_append sorted_append)
      ultimately obtain c r where c: "c \<in> set ?later" "conn_state c = S_WAIT" "try_connection c mh mc s = (r, s')" "r \<noteq> 0"
        and b: "\<forall>d \<in> set ?later. conn_state d = S_WAIT \<longrightarrow> get_priority d < get_priority c \<longrightarrow> blocked d mh mc s"
        using less.hyps later(2) by blast
      have "blocked d mh mc s" if "d \<in> set (takeWhile (\<lambda>c. get_priority c = ?p) cs)" "conn_state d = S_WAIT" for d
        using try_group_none [OF qc later(1)] that try_connection_blocked [OF q, of d mh mc]
        by (metis prod.collapse)
      moreover have "set cs = set (takeWhile (\<lambda>c. get_priority c = ?p) cs) \<union> set ?later"
        using arg_cong [OF split, of set] by simp
      ultimately show ?thesis using c b by blast
    qed (use group in blast)+
  qed
qed

subsection \<open>The two events of a round\<close>

lemma set_connection_state_queue:
  "\<exists>f. connection_queue (set_connection_state cid st s)
      = map (\<lambda>d. if conn_addr d = cid then f d else d) (connection_queue s)
    \<and> (\<forall>d. conn_addr (f d) = conn_addr d \<and> conn_uri (f d) = conn_uri d \<and> pri (f d) = pri d
        \<and> running (f d) = running d \<and> conn_state (f d) = st)"
  unfolding set_connection_state_def
  by (rule exI, rule conjI, rule upd_queue(1)) (simp add: Let_def)

lemma run_connection_queue:
  assumes "conn_at cid s = Some c" "\<not> running c"
  shows "connection_queue (run_connection cid s)
    = map (\<lambda>d. if conn_addr d = cid then d\<lparr>running := True\<rparr> else d) (connection_queue s)"
  using assms by (simp add: run_connection_def upd_conn_def)

lemma filter_changed: "(\<And>d. conn_addr (f d) = conn_addr d) \<Longrightarrow>
    filter (\<lambda>d. conn_addr d \<noteq> cid) (map (\<lambda>d. if conn_addr d = cid then f d else d) q) = filter (\<lambda>d. conn_addr d \<noteq> cid) q"
  by (induction q) auto

lemma done_connection_queue:
  "conn_at cid s = Some c \<Longrightarrow> connection_queue (done_connection cid s) = filter (\<lambda>d. conn_addr d \<noteq> cid) (connection_queue s)"
  using set_connection_state_queue [of cid S_INTERNAL s]
  by (auto simp: done_connection_def del_conn_def filter_changed)

lemma abort_connection_queue:
  assumes q: "queue_ok lost s" and c: "conn_at cid s = Some c" and st: "st < 0" "terminate \<or> st \<noteq> S_INTERRUPTED"
  shows "connection_queue (abort_connection terminate cid st s) = filter (\<lambda>d. conn_addr d \<noteq> cid) (connection_queue s)"
proof -
  let ?s = "set_connection_state cid st s"
  obtain c' where c': "conn_at cid ?s = Some c'" "conn_state c' = st" "running c' = running c"
    using set_connection_state_at [OF c, of st] by auto
  have qc: "queue_counts lost ?s" using q by (simp add: queue_ok_def set_connection_state_counts)
  have w: "conn_state c' \<noteq> S_WAIT" using c'(2) st(1) by (simp add: S_WAIT_def)
  obtain f where f: "connection_queue ?s = map (\<lambda>d. if conn_addr d = cid then f d else d) (connection_queue s)"
    "\<And>d. conn_addr (f d) = conn_addr d"
    using set_connection_state_queue by blast
  have a: "abort_connection terminate cid st s = done_connection cid (if running c then free_connection_data cid ?s else ?s)"
    using c st(2) by (auto simp: abort_connection_def Let_def)
  have "connection_queue (abort_connection terminate cid st s) = filter (\<lambda>d. conn_addr d \<noteq> cid) (connection_queue ?s)"
  proof (cases "running c")
    case True
    then have r: "running c'" using c'(3) by simp
    have "connection_queue (abort_connection terminate cid st s)
      = filter (\<lambda>d. conn_addr d \<noteq> cid) (connection_queue (free_connection_data cid ?s))"
      using done_connection_queue [OF free_connection_data_at [OF qc c'(1) r w]] a True by simp
    also have "\<dots> = filter (\<lambda>d. conn_addr d \<noteq> cid) (connection_queue ?s)"
      unfolding free_connection_data_counts(2) [OF qc c'(1) r w]
      by (rule filter_changed [of "\<lambda>d. d\<lparr>running := False\<rparr>"]) simp
    finally show ?thesis .
  qed (use done_connection_queue [OF c'(1)] a in simp)
  also have "\<dots> = filter (\<lambda>d. conn_addr d \<noteq> cid) (connection_queue s)"
    unfolding f(1) by (rule filter_changed [OF f(2)])
  finally show ?thesis .
qed

text \<open>A waiting connection that runs: it leaves its wait or the queue.\<close>

lemma run_effect:
  assumes q: "queue_ok lost s" "settled s" and c: "c \<in> set (connection_queue s)" "conn_state c = S_WAIT"
    and st: "\<And>c. st c \<noteq> S_WAIT" "\<And>c. st c \<noteq> S_INTERRUPTED"
  shows "queue_ok lost (start_protocol st (run_connection (conn_addr c) s))"
    and "\<exists>f. connection_queue (start_protocol st (run_connection (conn_addr c) s))
          = map (\<lambda>d. if conn_addr d = conn_addr c then f d else d) (connection_queue s)
          \<and> (\<forall>d. conn_addr (f d) = conn_addr d \<and> conn_uri (f d) = conn_uri d \<and> pri (f d) = pri d
            \<and> running (f d) \<and> conn_state (f d) \<noteq> S_WAIT)
        \<or> connection_queue (start_protocol st (run_connection (conn_addr c) s))
          = filter (\<lambda>d. conn_addr d \<noteq> conn_addr c) (connection_queue s)"
proof -
  let ?cid = "conn_addr c" and ?s1 = "run_connection (conn_addr c) s" and ?c1 = "c\<lparr>running := True\<rparr>"
  have qc: "queue_counts lost s" using q(1) by (simp add: queue_ok_def)
  note at = conn_at_mem [OF qc c(1)]
  have nr: "\<not> running c" using q(2) c by (simp add: settled_def)
  have only: "d = c" if "d \<in> set (connection_queue s)" "conn_addr d = ?cid" for d
    using conn_at_mem [OF qc that(1)] that(2) at by simp
  have q1: "queue_ok lost ?s1" by (rule run_connection_ok [OF q(1)])
  note queue1 = run_connection_queue [OF at nr]
  have at1: "conn_at ?cid ?s1 = Some ?c1"
  proof -
    have "?c1 \<in> set (connection_queue ?s1)" unfolding queue1 using c(1) by force
    then show ?thesis using conn_at_mem [of lost ?s1 ?c1] q1 by (simp add: queue_ok_def)
  qed
  have "List.find (\<lambda>d. running d \<and> conn_state d = S_WAIT) (connection_queue ?s1)
    = List.find (\<lambda>d. conn_addr d = ?cid) (connection_queue ?s1)"
  proof (rule find_cong [OF refl])
    fix d assume "d \<in> set (connection_queue ?s1)"
    then obtain e where e: "e \<in> set (connection_queue s)" "d = (if conn_addr e = ?cid then e\<lparr>running := True\<rparr> else e)"
      unfolding queue1 by auto
    show "(running d \<and> conn_state d = S_WAIT) = (conn_addr d = ?cid)"
      using e(2) only [OF e(1)] q(2) e(1) c(2) by (cases "conn_addr e = ?cid") (auto simp: settled_def)
  qed
  then have found: "List.find (\<lambda>d. running d \<and> conn_state d = S_WAIT) (connection_queue ?s1) = Some ?c1"
    using at1 by (simp add: conn_at_def)
  show "queue_ok lost (start_protocol st ?s1)"
  proof (cases "is_in_result_state (st ?c1)")
    case True
    then show ?thesis using found abort_connection_ok [of lost ?s1 "st ?c1"] q1
      by (simp add: start_protocol_def is_in_result_state_def queue_ok_def)
  next
    case False
    have "queue_ok lost (set_connection_state ?cid (st ?c1) ?s1)"
      by (rule set_connection_state_ok [OF q1]) (simp add: at1)
    then show ?thesis using found False by (simp add: start_protocol_def)
  qed
  let ?post = "connection_queue (start_protocol st ?s1)"
  show "\<exists>f. ?post = map (\<lambda>d. if conn_addr d = ?cid then f d else d) (connection_queue s)
          \<and> (\<forall>d. conn_addr (f d) = conn_addr d \<and> conn_uri (f d) = conn_uri d \<and> pri (f d) = pri d
            \<and> running (f d) \<and> conn_state (f d) \<noteq> S_WAIT)
        \<or> ?post = filter (\<lambda>d. conn_addr d \<noteq> ?cid) (connection_queue s)"
  proof (cases "is_in_result_state (st ?c1)")
    case True
    then have "?post = filter (\<lambda>d. conn_addr d \<noteq> ?cid) (connection_queue ?s1)"
      using found abort_connection_queue [OF q1 at1, of "st ?c1"] st(2)
      by (simp add: start_protocol_def is_in_result_state_def)
    then have "?post = filter (\<lambda>d. conn_addr d \<noteq> ?cid) (connection_queue s)"
      using filter_changed [of "\<lambda>d. d\<lparr>running := True\<rparr>" ?cid] by (simp add: queue1)
    then show ?thesis by blast
  next
    case False
    obtain f where f: "connection_queue (set_connection_state ?cid (st ?c1) ?s1)
        = map (\<lambda>d. if conn_addr d = ?cid then f d else d) (connection_queue ?s1)"
      "\<forall>d. conn_addr (f d) = conn_addr d \<and> conn_uri (f d) = conn_uri d \<and> pri (f d) = pri d
        \<and> running (f d) = running d \<and> conn_state (f d) = st ?c1"
      using set_connection_state_queue by blast
    have "?post = map (\<lambda>d. if conn_addr d = ?cid then f (d\<lparr>running := True\<rparr>) else d) (connection_queue s)"
      using found False f(1) queue1 by (simp add: start_protocol_def comp_def cong: if_cong)
    then show ?thesis using f(2) st(1) by (intro exI [of _ "\<lambda>d. f (d\<lparr>running := True\<rparr>)"] disjI1) simp
  qed
qed

lemma suspend_effect:
  assumes q: "queue_ok lost s" "settled s" and v: "conn_at cid s = Some v" "conn_state v \<noteq> S_WAIT"
  shows "start_protocol st (suspend_connection cid s) = suspend_connection cid s"
    and "\<exists>f. connection_queue (suspend_connection cid s)
          = map (\<lambda>d. if conn_addr d = cid then f d else d) (connection_queue s)
          \<and> (\<forall>d. conn_addr (f d) = conn_addr d \<and> conn_uri (f d) = conn_uri d \<and> pri (f d) = pri d
            \<and> \<not> running (f d) \<and> conn_state (f d) = S_WAIT)"
proof -
  have qc: "queue_counts lost s" using q(1) by (simp add: queue_ok_def)
  have r: "running v" using q(2) conn_atD [OF v(1)] v(2) by (simp add: settled_def)
  note queue1 = free_connection_data_counts(2) [OF qc v(1) r v(2)]
  obtain f where f: "connection_queue (suspend_connection cid s)
      = map (\<lambda>d. if conn_addr d = cid then f d else d) (connection_queue (free_connection_data cid s))"
    "\<forall>d. conn_addr (f d) = conn_addr d \<and> conn_uri (f d) = conn_uri d \<and> pri (f d) = pri d
      \<and> running (f d) = running d \<and> conn_state (f d) = S_WAIT"
    unfolding suspend_connection_def using set_connection_state_queue by blast
  have e: "connection_queue (suspend_connection cid s)
    = map (\<lambda>d. if conn_addr d = cid then f (d\<lparr>running := False\<rparr>) else d) (connection_queue s)"
    using f(1) queue1 by (simp add: comp_def cong: if_cong)
  then show "\<exists>f. connection_queue (suspend_connection cid s)
          = map (\<lambda>d. if conn_addr d = cid then f d else d) (connection_queue s)
          \<and> (\<forall>d. conn_addr (f d) = conn_addr d \<and> conn_uri (f d) = conn_uri d \<and> pri (f d) = pri d
            \<and> \<not> running (f d) \<and> conn_state (f d) = S_WAIT)"
    using f(2) by (intro exI [of _ "\<lambda>d. f (d\<lparr>running := False\<rparr>)"]) simp
  have "List.find (\<lambda>c. running c \<and> conn_state c = S_WAIT) (connection_queue (suspend_connection cid s)) = None"
    unfolding find_None_iff e using f(2) q(2) by (auto simp: settled_def)
  then show "start_protocol st (suspend_connection cid s) = suspend_connection cid s" by (simp add: start_protocol_def)
qed


subsection \<open>A priority that is left stays blocked\<close>

lemma host_count_changed:
  assumes "distinct (map conn_addr q)" "c \<in> set q" "\<And>d. conn_uri (f d) = conn_uri d" "host_key (conn_uri c) \<noteq> k"
  shows "host_count k (map (\<lambda>d. if conn_addr d = conn_addr c then f d else d) q) = host_count k q"
    and "host_count k (filter (\<lambda>d. conn_addr d \<noteq> conn_addr c) q) = host_count k q"
  using count_update [OF assms(1,2), of "\<lambda>d. running d \<and> host_key (conn_uri d) = k" f]
    count_delete [OF assms(1,2), of "\<lambda>d. running d \<and> host_key (conn_uri d) = k"] assms(3,4)
  by (simp_all add: host_count_def)

lemma keeps_blocked:
  assumes b: "blocked c mh mc s" "host_full c mh s"
    and cnt: "host_count (host_key (conn_uri c)) (connection_queue s') = host_count (host_key (conn_uri c)) (connection_queue s)"
    and d: "\<And>d. d \<in> set (connection_queue s') \<Longrightarrow> d \<in> set (connection_queue s) \<or> \<not> suspendable (get_priority c) (Some (conn_uri c)) d"
  shows "blocked c mh mc s'"
proof -
  have "host_full c mh s'" using b(2) cnt by (simp add: host_full_def)
  moreover have "\<not> suspendable (get_priority c) (Some (conn_uri c)) e" if "e \<in> set (connection_queue s')" for e
    using d [OF that] b by (auto simp: blocked_def)
  ultimately show ?thesis by (simp add: blocked_def)
qed

lemma run_step:
  assumes q: "queue_ok lost s" "settled s" and c: "c \<in> set (connection_queue s)" "conn_state c = S_WAIT"
    and st: "\<And>c. st c \<noteq> S_WAIT" "\<And>c. st c \<noteq> S_INTERRUPTED"
    and free: "\<not> host_full c mh s" "active_connections s < mc"
    and below: "blocked_below k mh mc s"
  defines "s' \<equiv> start_protocol st (run_connection (conn_addr c) s)"
  shows "queue_ok lost s'" "settled s'" "blocked_below k mh mc s'"
    "length (filter (\<lambda>d. get_priority d = get_priority c \<and> conn_state d = S_WAIT) (connection_queue s'))
      < length (filter (\<lambda>d. get_priority d = get_priority c \<and> conn_state d = S_WAIT) (connection_queue s))"
proof -
  let ?q = "connection_queue s" and ?q' = "connection_queue s'" and ?cid = "conn_addr c"
  show "queue_ok lost s'" unfolding s'_def by (rule run_effect(1) [where st = st, OF q c st])
  have dist: "distinct (map conn_addr ?q)" using q(1) by (simp add: queue_ok_def queue_counts_def)
  obtain f where f: "?q' = map (\<lambda>d. if conn_addr d = ?cid then f d else d) ?q \<or> ?q' = filter (\<lambda>d. conn_addr d \<noteq> ?cid) ?q"
    "\<And>d. conn_uri (f d) = conn_uri d" "\<And>d. running (f d)" "\<And>d. conn_state (f d) \<noteq> S_WAIT" "\<And>d. pri (f d) = pri d"
  proof -
    from run_effect(2) [where st = st, OF q c st] show thesis unfolding s'_def
    proof (elim exE disjE conjE)
      assume "connection_queue (start_protocol st (run_connection ?cid s)) = filter (\<lambda>d. conn_addr d \<noteq> ?cid) ?q"
      then show thesis by (intro that [of "\<lambda>d. d\<lparr>running := True, conn_state := S_OK\<rparr>"])
        (simp_all add: s'_def S_OK_def S_WAIT_def)
    qed (use that s'_def in blast)
  qed
  have old: "d \<in> set ?q \<and> conn_addr d \<noteq> ?cid \<or> (\<exists>e \<in> set ?q. conn_addr e = ?cid \<and> d = f e)" if "d \<in> set ?q'" for d
    using f(1) that by auto
  have only: "e = c" if "e \<in> set ?q" "conn_addr e = ?cid" for e
    using dist that c(1) by (auto simp: distinct_map dest: inj_onD)
  show "settled s'" unfolding settled_def
    using old q(2) f(3,4) by (fastforce simp: settled_def)
  show "blocked_below k mh mc s'" unfolding blocked_below_def
  proof (intro ballI impI)
    fix d assume d: "d \<in> set ?q'" "conn_state d = S_WAIT" "get_priority d < k"
    then have dq: "d \<in> set ?q" using old [OF d(1)] f(4) by auto
    then have b: "blocked d mh mc s" using below d by (simp add: blocked_below_def)
    then have hf: "host_full d mh s" using free(2) by (auto simp: blocked_def)
    have ne: "host_key (conn_uri c) \<noteq> host_key (conn_uri d)"
    proof
      assume "host_key (conn_uri c) = host_key (conn_uri d)"
      then have "host_full c mh s" using hf by (simp add: host_full_def)
      then show False using free(1) by simp
    qed
    show "blocked d mh mc s'"
    proof (rule keeps_blocked [OF b hf])
      show "host_count (host_key (conn_uri d)) ?q' = host_count (host_key (conn_uri d)) ?q"
        using f(1) host_count_changed [OF dist c(1) f(2) ne] by auto
      show "e \<in> set ?q \<or> \<not> suspendable (get_priority d) (Some (conn_uri d)) e" if "e \<in> set ?q'" for e
        using old [OF that] f(2) ne by (auto simp: suspendable_def dest!: only)
    qed
  qed
  let ?P = "\<lambda>d. get_priority d = get_priority c \<and> conn_state d = S_WAIT"
  have "int (length (filter ?P ?q')) = int (length (filter ?P ?q)) - 1"
    using f(1) count_update [OF dist c(1), of ?P f] count_delete [OF dist c(1), of ?P] c(2) f(4) by auto
  then show "length (filter ?P ?q') < length (filter ?P ?q)" by simp
qed

lemma suspend_step:
  fixes st :: "connection \<Rightarrow> int"
  assumes q: "queue_ok lost s" "settled s" and v: "victim_of c mh s = Some v"
    and below: "blocked_below k mh mc s" and k: "k \<le> get_priority c"
  defines "s' \<equiv> start_protocol st (suspend_connection (conn_addr v) s)"
  shows "queue_ok lost s'" "settled s'" "blocked_below k mh mc s'"
    "length (filter (\<lambda>d. get_priority d = get_priority c \<and> conn_state d = S_WAIT) (connection_queue s'))
      = length (filter (\<lambda>d. get_priority d = get_priority c \<and> conn_state d = S_WAIT) (connection_queue s))"
    "length (filter (\<lambda>d. get_priority c < get_priority d \<and> conn_state d \<noteq> S_WAIT) (connection_queue s'))
      < length (filter (\<lambda>d. get_priority c < get_priority d \<and> conn_state d \<noteq> S_WAIT) (connection_queue s))"
proof -
  let ?q = "connection_queue s" and ?q' = "connection_queue s'" and ?vid = "conn_addr v"
  note vo = victim_of_ok [OF q(1) v]
  note e = suspend_effect [OF q vo(1,2)]
  have s': "s' = suspend_connection ?vid s" unfolding s'_def by (rule e(1))
  show "queue_ok lost s'" unfolding s' by (rule suspend_connection_ok(1) [OF q(1) vo(1,2)])
  have dist: "distinct (map conn_addr ?q)" using q(1) by (simp add: queue_ok_def queue_counts_def)
  have vq: "v \<in> set ?q" using conn_atD [OF vo(1)] by simp
  have low: "get_priority c < get_priority v" using vo(4) by (simp add: suspendable_def)
  obtain f where f: "?q' = map (\<lambda>d. if conn_addr d = ?vid then f d else d) ?q"
    "\<And>d. conn_uri (f d) = conn_uri d" "\<And>d. \<not> running (f d)" "\<And>d. conn_state (f d) = S_WAIT" "\<And>d. pri (f d) = pri d"
    using e(2) unfolding s' by blast
  have fp: "get_priority (f d) = get_priority d" for d by (rule get_priority_pri [OF f(5)])
  have old: "d \<in> set ?q \<and> conn_addr d \<noteq> ?vid \<or> (\<exists>e \<in> set ?q. conn_addr e = ?vid \<and> d = f e)" if "d \<in> set ?q'" for d
    using f(1) that by auto
  have only: "e = v" if "e \<in> set ?q" "conn_addr e = ?vid" for e
    using dist that vq by (auto simp: distinct_map dest: inj_onD)
  show "settled s'" unfolding settled_def
    using old q(2) f(3,4) by (fastforce simp: settled_def)
  show "blocked_below k mh mc s'" unfolding blocked_below_def
  proof (intro ballI impI)
    fix d assume d: "d \<in> set ?q'" "conn_state d = S_WAIT" "get_priority d < k"
    have dq: "d \<in> set ?q" using old [OF d(1)] only fp low d(3) k by fastforce
    then have b: "blocked d mh mc s" using below d by (simp add: blocked_below_def)
    have sus: "suspendable (get_priority d) u v" if "case u of Some u \<Rightarrow> host_key (conn_uri v) = host_key u | None \<Rightarrow> True" for u
      using vo(4) low d(3) k that by (auto simp: suspendable_def)
    have hf: "host_full d mh s"
      using b vq sus [of None] by (cases "host_full d mh s") (auto simp: blocked_def)
    have ne: "host_key (conn_uri v) \<noteq> host_key (conn_uri d)"
      using b vq hf sus [of "Some (conn_uri d)"] by (auto simp: blocked_def)
    show "blocked d mh mc s'"
    proof (rule keeps_blocked [OF b hf])
      show "host_count (host_key (conn_uri d)) ?q' = host_count (host_key (conn_uri d)) ?q"
        unfolding f(1) by (rule host_count_changed(1) [OF dist vq f(2) ne])
      show "e \<in> set ?q \<or> \<not> suspendable (get_priority d) (Some (conn_uri d)) e" if "e \<in> set ?q'" for e
        using old [OF that] f(4) by (auto simp: suspendable_def)
    qed
  qed
  show "length (filter (\<lambda>d. get_priority d = get_priority c \<and> conn_state d = S_WAIT) ?q')
      = length (filter (\<lambda>d. get_priority d = get_priority c \<and> conn_state d = S_WAIT) ?q)"
    using count_update [OF dist vq, of "\<lambda>d. get_priority d = get_priority c \<and> conn_state d = S_WAIT" f] low fp
    unfolding f(1) by simp
  show "length (filter (\<lambda>d. get_priority c < get_priority d \<and> conn_state d \<noteq> S_WAIT) ?q')
      < length (filter (\<lambda>d. get_priority c < get_priority d \<and> conn_state d \<noteq> S_WAIT) ?q)"
    using count_update [OF dist vq, of "\<lambda>d. get_priority c < get_priority d \<and> conn_state d \<noteq> S_WAIT" f] low vo(2) f(4)
    unfolding f(1) by simp
qed

subsection \<open>The loops end\<close>

definition round_measures :: "(nat \<times> conn_queue \<Rightarrow> nat) list" where
  "round_measures = [\<lambda>(k, s). PRIORITIES - k,
     \<lambda>(k, s). length (filter (\<lambda>d. get_priority d = k \<and> conn_state d = S_WAIT) (connection_queue s)),
     \<lambda>(k, s). length (filter (\<lambda>d. k < get_priority d \<and> conn_state d \<noteq> S_WAIT) (connection_queue s))]"

lemma check_starts_returns:
  assumes st: "\<And>c. st c \<noteq> S_WAIT" "\<And>c. st c \<noteq> S_INTERRUPTED"
  shows "queue_ok lost s \<Longrightarrow> settled s \<Longrightarrow> blocked_below k mh mc s \<Longrightarrow>
    \<exists>s'. check_starts st kept mh mc s = Some s' \<and> queue_ok lost s' \<and> settled s'
      \<and> check_queue_round (kept s') mh mc s' = None"
proof (induction "(k, s)" arbitrary: k s rule: wf_induct_rule [OF wf_measures [of round_measures]])
  case 1
  note IH = 1(1) and q = 1(2) and se = 1(3) and below = 1(4)
  show ?case
  proof (cases "check_queue_round (kept s) mh mc s")
    case None
    then show ?thesis using q se by (intro exI [of _ s]) (simp add: check_starts.simps [of st kept mh mc s])
  next
    case (Some s1)
    have so: "sorted (map get_priority (connection_queue s))" using q by (simp add: queue_ok_def queue_sorted_def)
    have qc: "queue_counts lost s" using q by (simp add: queue_ok_def)
    obtain c r where c: "c \<in> set (connection_queue s)" "conn_state c = S_WAIT" "try_connection c mh mc s = (r, s1)" "r \<noteq> 0"
      and first: "\<And>d. d \<in> set (connection_queue s) \<Longrightarrow> conn_state d = S_WAIT \<Longrightarrow> get_priority d < get_priority c \<Longrightarrow> blocked d mh mc s"
      using try_groups_first [OF q so Some [unfolded check_queue_round_def]] by blast
    have cp: "get_priority c < PRIORITIES" using qc c(1) by (intro owners_ok_priority) (simp add: queue_counts_def)
    have kc: "k \<le> get_priority c"
    proof (rule ccontr)
      assume "\<not> k \<le> get_priority c"
      then have "blocked c mh mc s" using below c(1,2) by (simp add: blocked_below_def)
      then show False using try_connection_blocked [OF q c(3)] c(4) by simp
    qed
    show ?thesis
    proof (cases "k = get_priority c")
      case False
      have "blocked_below (get_priority c) mh mc s" using first by (simp add: blocked_below_def)
      moreover have "((get_priority c, s), (k, s)) \<in> measures round_measures"
        using diff_less_mono2 [of k "get_priority c" PRIORITIES] kc cp False by (simp add: round_measures_def)
      ultimately show ?thesis using IH q se by blast
    next
      case k: True
      let ?s = "start_protocol st s1"
      have "queue_ok lost ?s \<and> settled ?s \<and> blocked_below k mh mc ?s \<and> ((k, ?s), (k, s)) \<in> measures round_measures"
      proof (rule try_connection_cases [OF qc c(3)])
        assume r: "s1 = run_connection (conn_addr c) s" "\<not> host_full c mh s" "active_connections s < mc"
        from run_step [where st = st, OF q se c(1,2) st r(2,3) below] show ?thesis unfolding r(1)
          by (simp add: round_measures_def k)
      next
        fix v assume v: "victim_of c mh s = Some v" "s1 = suspend_connection (conn_addr v) s"
        from suspend_step [OF q se v(1) below kc, of st] show ?thesis unfolding v(2)
          by (simp add: round_measures_def k)
      qed (use c(4) in simp)
      then have "\<exists>s'. check_starts st kept mh mc ?s = Some s' \<and> queue_ok lost s' \<and> settled s'
          \<and> check_queue_round (kept s') mh mc s' = None"
        using IH by blast
      then show ?thesis using Some by (simp add: check_starts.simps [of st kept mh mc s])
    qed
  qed
qed


lemma interrupt_cancelled_queue:
  assumes q: "queue_ok lost s" and r: "interrupt_cancelled s = Some s'"
  shows "\<exists>c \<in> set (connection_queue s). conn_state c = S_WAIT
    \<and> connection_queue s' = filter (\<lambda>d. conn_addr d \<noteq> conn_addr c) (connection_queue s)
    \<and> active_connections s' = active_connections s"
proof -
  have qc: "queue_counts lost s" using q by (simp add: queue_ok_def)
  obtain c where c: "cancelled_conn (rev (connection_queue s)) = Some c"
    "s' = done_connection (conn_addr c) (set_connection_state (conn_addr c) S_INTERRUPTED s)"
    using r by (auto simp: interrupt_cancelled_def split: option.splits)
  have mem: "c \<in> set (connection_queue s)" "conn_state c = S_WAIT" using cancelled_conn_some [OF c(1)] by simp_all
  obtain c' where c': "conn_at (conn_addr c) (set_connection_state (conn_addr c) S_INTERRUPTED s) = Some c'"
    using set_connection_state_at [OF conn_at_mem [OF qc mem(1)]] by blast
  obtain f where f: "connection_queue (set_connection_state (conn_addr c) S_INTERRUPTED s)
      = map (\<lambda>d. if conn_addr d = conn_addr c then f d else d) (connection_queue s)"
    "\<And>d. conn_addr (f d) = conn_addr d"
    using set_connection_state_queue by blast
  have "connection_queue s' = filter (\<lambda>d. conn_addr d \<noteq> conn_addr c) (connection_queue s)"
    unfolding c(2) done_connection_queue [OF c'] f(1) by (rule filter_changed [OF f(2)])
  moreover have "active_connections s' = active_connections s"
    unfolding c(2) using c' by (simp add: done_connection_def del_conn_def set_connection_state_def)
  ultimately show ?thesis using mem by blast
qed

lemma interrupt_all_returns:
  "queue_ok lost s \<Longrightarrow> settled s \<Longrightarrow> (\<And>s'. P s' \<Longrightarrow> queue_ok lost s' \<Longrightarrow> settled s' \<Longrightarrow> interrupt_cancelled s' \<noteq> None \<Longrightarrow> P (the (interrupt_cancelled s')))
    \<Longrightarrow> P s \<Longrightarrow> \<exists>s'. interrupt_all s = Some s' \<and> queue_ok lost s' \<and> settled s' \<and> P s' \<and> interrupt_cancelled s' = None"
proof (induction "length (connection_queue s)" arbitrary: s rule: less_induct)
  case less
  show ?case
  proof (cases "interrupt_cancelled s")
    case None
    then show ?thesis using less.prems by (intro exI [of _ s]) (simp add: interrupt_all.simps [of s])
  next
    case (Some s1)
    have run: "\<And>c. c \<in> set (connection_queue s) \<Longrightarrow> running c \<Longrightarrow> conn_state c \<noteq> S_WAIT"
      using less.prems(2) by (simp add: settled_def)
    note ok = interrupt_cancelled_ok [OF less.prems(1) Some run]
    have "set (connection_queue s1) \<subseteq> set (connection_queue s)"
      using interrupt_cancelled_queue [OF less.prems(1) Some] filter_is_subset by metis
    then have se: "settled s1" using less.prems(2) unfolding settled_def by blast
    have p: "P s1" using less.prems(3) [OF less.prems(4,1,2)] Some by simp
    have "\<exists>s'. interrupt_all s1 = Some s' \<and> queue_ok lost s' \<and> settled s' \<and> P s' \<and> interrupt_cancelled s' = None"
      by (rule less.hyps [OF ok(2,1) se less.prems(3) p])
    then show ?thesis using Some by (simp add: interrupt_all.simps [of s])
  qed
qed

end
