(* ===== verification/Conn_Claims.thy ===== *)
theory Conn_Claims
  imports Conn_Loop
begin

text \<open>
  The reachable states of the connection queue, in any order of requests, callbacks, protocol
  events and rounds of the scheduler, and what the scheduler does in them.
\<close>

subsection \<open>Reachable states\<close>

definition init_queue :: conn_queue where
  "init_queue = \<lparr>next_addr = 0, connection_id = 0, active_connections = 0, connection_queue = [], host_connections = []\<rparr>"

text \<open>
  The steps. A protocol handler reports states of its running connection, but never that it
  waits; it ends the connection with a result, retries it, or hands its socket over. The last
  loop of \<open>check_queue\<close> runs when the handlers have left the wait state of their connections.
\<close>

inductive conn_step :: "nat \<Rightarrow> conn_queue \<Rightarrow> conn_queue \<Rightarrow> bool" where
  step_load: "p < PRIORITIES \<Longrightarrow> conn_step 0 s (load_uri u v r dl p found s)"
| step_image: "conn_step 0 s (try_to_load_image u v r s)"
| step_cancel: "cancel_download terminate cid did interrupt s = Some s' \<Longrightarrow> conn_step 0 s s'"
| step_move: "newpri < PRIORITIES \<Longrightarrow> move_download terminate cid old new newpri s = Some s' \<Longrightarrow> conn_step 0 s s'"
| step_detach: "conn_step 0 s (detach_conn cid s)"
| step_curl: "conn_step 0 s (upd_conn cid (\<lambda>c. c\<lparr>curl := True\<rparr>) s)"
| step_state: "conn_at cid s = Some c \<Longrightarrow> running c \<Longrightarrow> st \<noteq> S_WAIT \<Longrightarrow> conn_step 0 s (set_connection_state cid st s)"
| step_abort: "st < 0 \<Longrightarrow> conn_step 0 s (abort_connection terminate cid st s)"
| step_retry: "conn_at cid s = Some c \<Longrightarrow> running c \<Longrightarrow> st < 0 \<Longrightarrow> conn_step 0 s (retry_connection max_tries cid st s)"
| step_release: "conn_at cid s = Some c \<Longrightarrow> running c \<Longrightarrow> conn_state c \<noteq> S_WAIT \<Longrightarrow> conn_step 0 s (release_connection cid s)"
| step_keepalive: "do_keepalive_connection_callback u v True s = (1, s') \<Longrightarrow> conn_step 0 s s'"
| step_lost: "do_keepalive_connection_callback u v False s = (0, s') \<Longrightarrow> conn_step 1 s s'"
| step_background: "conn_step 0 s (abort_background_connections terminate s)"
| step_round: "check_queue_round kept mh mc s = Some s' \<Longrightarrow> conn_step 0 s s'"
| step_interrupt: "(\<And>c. c \<in> set (connection_queue s) \<Longrightarrow> running c \<Longrightarrow> conn_state c \<noteq> S_WAIT) \<Longrightarrow>
    interrupt_cancelled s = Some s' \<Longrightarrow> conn_step 0 s s'"

text \<open>The number counts the steps so far in which the connection for a callback was not found.\<close>

inductive conn_reachable :: "nat \<Rightarrow> conn_queue \<Rightarrow> bool" where
  reach_init: "conn_reachable 0 init_queue"
| reach_step: "conn_reachable lost s \<Longrightarrow> conn_step n s s' \<Longrightarrow> conn_reachable (lost + n) s'"

lemma reach_step_0: "conn_reachable lost s \<Longrightarrow> conn_step 0 s s' \<Longrightarrow> conn_reachable lost s'"
  using reach_step [of lost s 0 s'] by simp

lemma init_queue_ok: "queue_ok 0 init_queue"
  by (simp add: init_queue_def queue_ok_def queue_counts_def queue_waits_def queue_sorted_def
      running_count_def host_count_def good_hosts_def)

lemma release_queue_ok:
  "queue_ok lost s \<Longrightarrow> conn_at cid s = Some c \<Longrightarrow> running c \<Longrightarrow> conn_state c \<noteq> S_WAIT \<Longrightarrow> queue_ok lost (release_connection cid s)"
  using release_connection_ok [of lost s cid c] by (simp add: queue_ok_def queue_waits_but)

lemma abort_queue_ok: "queue_ok lost s \<Longrightarrow> st < 0 \<Longrightarrow> queue_ok lost (abort_connection terminate cid st s)"
  using abort_connection_ok [of lost s st] by (simp add: queue_ok_def)

lemma flag_ok:
  assumes q: "queue_ok lost s" and f: "\<And>c. conn_addr (f c) = conn_addr c" "\<And>c. conn_uri (f c) = conn_uri c" "\<And>c. running (f c) = running c"
      "\<And>c. conn_state (f c) = conn_state c" "\<And>c. pri (f c) = pri c" "\<And>c. downloads (f c) = downloads c"
  shows "queue_ok lost (upd_conn cid f s)"
proof (cases "conn_at cid s")
  case (Some c)
  have "c \<in> set (connection_queue s)" using conn_atD [OF Some] by simp
  then have "owners_ok c" using q by (simp add: queue_ok_def queue_counts_def)
  then have "owners_ok (f c)" by (rule owners_ok_map) (simp_all add: f)
  then show ?thesis by (intro upd_ok [OF q Some]) (simp_all add: f get_priority_pri [OF f(5)])
qed (use q in \<open>simp add: conn_at_none_upd\<close>)

text \<open>The connection that quits a keepalive session, and the one that does not find it any more.\<close>

lemma keepalive_callback_ok:
  assumes q: "queue_ok lost s" and r: "do_keepalive_connection_callback u v True s = (1, s')"
  shows "queue_ok lost s'"
proof -
  let ?c = "init_connection (next_addr s) (connection_id s) u v None PRI_CANCEL"
  let ?s = "add_to_queue ?c (s\<lparr>next_addr := next_addr s + 1, connection_id := connection_id s + 1\<rparr>)"
  have o: "owners_ok ?c" by (rule init_connection_ok) (simp add: PRI_CANCEL_def PRIORITIES_def)
  have nr: "\<not> running ?c" by simp
  note f = queue_fresh_conn [OF q init_fields(1) o nr]
  have "s' = run_connection (next_addr s) ?s"
    using r f(4) by (simp add: do_keepalive_connection_callback_def run_connection_def Let_def)
  moreover have "queue_waits ?s"
    by (rule waits_but_full [OF f(2,4,1)]) (simp add: init_connection_def S_WAIT_def)
  ultimately show ?thesis using run_connection_ok [of lost ?s] f(1,3) by (simp add: queue_ok_def)
qed

lemma keepalive_callback_lost:
  assumes q: "queue_ok lost s" and r: "do_keepalive_connection_callback u v False s = (0, s')"
  shows "connection_queue s' = connection_queue s" "active_connections s' = max 0 (active_connections s - 1)"
    "queue_ok (lost + 1) s'"
proof -
  let ?a = "next_addr s"
  let ?c = "init_connection ?a (connection_id s) u v None PRI_CANCEL"
  let ?s = "add_to_queue ?c (s\<lparr>next_addr := ?a + 1, connection_id := connection_id s + 1\<rparr>)"
  have o: "owners_ok ?c" by (rule init_connection_ok) (simp add: PRI_CANCEL_def PRIORITIES_def)
  have nr: "\<not> running ?c" by simp
  note f = queue_fresh_conn [OF q init_fields(1) o nr]
  have old: "filter (\<lambda>d. conn_addr d \<noteq> ?a) (connection_queue s) = connection_queue s"
    using q by (auto simp: filter_id_conv queue_ok_def queue_counts_def)
  have new: "filter (\<lambda>d. conn_addr d \<noteq> ?a) (insert_conn ?c cs) = filter (\<lambda>d. conn_addr d \<noteq> ?a) cs" for cs
    by (induction cs) auto
  have fr: "free_connection_data ?a ?s
    = upd_conn ?a (\<lambda>c. c\<lparr>running := False\<rparr>) ?s\<lparr>active_connections := max 0 (active_connections s - 1)\<rparr>"
    using f(4) by (simp add: free_connection_data_def Let_def init_connection_def S_WAIT_def add_to_queue_def)
  have at: "conn_at ?a (free_connection_data ?a ?s) = Some (?c\<lparr>running := False\<rparr>)"
    using conn_at_upd [OF f(4), of "\<lambda>c. c\<lparr>running := False\<rparr>"] unfolding fr by (simp add: conn_at_def)
  have e: "s' = done_connection ?a (free_connection_data ?a ?s)"
    using r by (simp add: do_keepalive_connection_callback_def Let_def)
  have "connection_queue s' = filter (\<lambda>d. conn_addr d \<noteq> ?a) (connection_queue (free_connection_data ?a ?s))"
    unfolding e by (rule done_connection_queue [OF at])
  also have "\<dots> = filter (\<lambda>d. conn_addr d \<noteq> ?a) (connection_queue ?s)"
    unfolding fr by (simp add: filter_changed)
  finally show queue: "connection_queue s' = connection_queue s" using new old by (simp add: add_to_queue_def)
  have rest: "active_connections s' = active_connections (free_connection_data ?a ?s)"
    "host_connections s' = host_connections (free_connection_data ?a ?s)"
    "next_addr s' = next_addr (free_connection_data ?a ?s)"
    unfolding e using at by (simp_all add: done_connection_def del_conn_def set_connection_state_def)
  then have fields: "active_connections s' = max 0 (active_connections s - 1)" "host_connections s' = host_connections s"
    "next_addr s' = next_addr s + 1" unfolding fr by (simp_all add: add_to_queue_def)
  show "active_connections s' = max 0 (active_connections s - 1)" by (rule fields(1))
  have "queue_counts (lost + 1) s'"
    using q unfolding queue_ok_def queue_counts_def queue fields by (auto simp: less_SucI)
  then show "queue_ok (lost + 1) s'" using q by (simp add: queue_ok_def queue_waits_def queue_sorted_def queue)
qed

lemma abort_background_ok: "queue_ok lost s \<Longrightarrow> queue_ok lost (abort_background_connections terminate s)"
proof -
  assume q: "queue_ok lost s"
  have "queue_ok lost (foldl (\<lambda>s c. if get_priority c \<ge> PRI_CANCEL then abort_connection terminate (conn_addr c) S_INTERRUPTED s else s) s cs)"
    if "queue_ok lost s" for cs s
    using that by (induction cs arbitrary: s) (simp_all add: abort_queue_ok S_INTERRUPTED_def)
  then show ?thesis using q by (simp add: abort_background_connections_def)
qed

text \<open>At the end of the program, the loop over the queue empties it.\<close>

lemma abort_all_connections_empties:
  "queue_ok lost s \<Longrightarrow> \<exists>s'. abort_all_connections True s = Some s' \<and> queue_ok lost s' \<and> connection_queue s' = []"
proof (induction "length (connection_queue s)" arbitrary: s rule: less_induct)
  case less
  show ?case
  proof (cases "connection_queue s")
    case Nil
    then show ?thesis using less.prems by (simp add: abort_all_connections.simps [of True s])
  next
    case (Cons c cs)
    let ?s = "abort_connection True (conn_addr c) S_INTERRUPTED s"
    have "conn_at (conn_addr c) s = Some c" using less.prems Cons by (intro conn_at_mem [of lost]) (simp_all add: queue_ok_def)
    then have "connection_queue ?s = filter (\<lambda>d. conn_addr d \<noteq> conn_addr c) (connection_queue s)"
      by (rule abort_connection_queue [OF less.prems]) (simp_all add: S_INTERRUPTED_def)
    then have "length (connection_queue ?s) < length (connection_queue s)" using Cons by (simp add: le_imp_less_Suc)
    moreover have "queue_ok lost ?s" by (rule abort_queue_ok [OF less.prems]) (simp add: S_INTERRUPTED_def)
    ultimately show ?thesis using less.hyps Cons by (simp add: abort_all_connections.simps [of True s])
  qed
qed

text \<open>The loop would not end for a connection of curl if the program were to go on.\<close>

lemma abort_all_curl:
  assumes "conn_at (conn_addr c) s = Some c" "curl c"
  shows "connection_queue (abort_connection False (conn_addr c) S_INTERRUPTED s)
    = map (\<lambda>d. if conn_addr d = conn_addr c then d\<lparr>is_aborted := True\<rparr> else d) (connection_queue s)"
  using assms by (simp add: abort_connection_def)

lemma conn_step_ok: "conn_step n s s' \<Longrightarrow> queue_ok lost s \<Longrightarrow> queue_ok (lost + n) s'"
proof (induction rule: conn_step.induct)
  case (step_detach s cid)
  then show ?case unfolding detach_conn_def add_0_right by (rule flag_ok) simp_all
next
  case (step_curl s cid)
  then show ?case unfolding add_0_right by (rule flag_ok) simp_all
next
  case (step_state cid s c st)
  then show ?case unfolding add_0_right by (intro set_connection_state_ok) simp_all
next
  case step_load
  then show ?case unfolding add_0_right by (blast intro: load_uri_ok)
next
  case step_image
  then show ?case unfolding add_0_right by (blast intro: try_to_load_image_ok)
next
  case step_cancel
  then show ?case unfolding add_0_right by (blast intro: cancel_download_ok)
next
  case step_move
  then show ?case unfolding add_0_right by (blast intro: move_download_ok)
next
  case step_abort
  then show ?case unfolding add_0_right by (blast intro: abort_queue_ok)
next
  case step_retry
  then show ?case unfolding add_0_right by (blast intro: retry_connection_ok)
next
  case step_release
  then show ?case unfolding add_0_right by (blast intro: release_queue_ok)
next
  case step_keepalive
  then show ?case unfolding add_0_right by (blast intro: keepalive_callback_ok)
next
  case step_lost
  then show ?case by (blast intro: keepalive_callback_lost(3))
next
  case step_background
  then show ?case unfolding add_0_right by (blast intro: abort_background_ok)
next
  case step_round
  then show ?case unfolding add_0_right by (blast intro: check_queue_round_ok)
next
  case step_interrupt
  then show ?case unfolding add_0_right by (blast intro: interrupt_cancelled_ok(1))
qed

lemma conn_reachable_ok: "conn_reachable lost s \<Longrightarrow> queue_ok lost s"
  by (induction rule: conn_reachable.induct) (use init_queue_ok conn_step_ok in blast)+

lemma blocked_waiting:
  assumes "blocked c mh mc s"
  shows "host_full c mh s \<or> mc \<le> active_connections s"
    and "d \<in> set (connection_queue s) \<Longrightarrow>
      \<not> suspendable (get_priority c) (if host_full c mh s then Some (conn_uri c) else None) d"
  using assms by (simp_all add: blocked_def)

text \<open>Interrupting waiting connections opens no way for the others.\<close>

lemma interrupt_blocked:
  assumes q: "queue_ok lost s" "settled s" and r: "interrupt_cancelled s = Some s'" and b: "blocked_below k mh mc s"
  shows "blocked_below k mh mc s'"
proof -
  obtain c where c: "c \<in> set (connection_queue s)" "conn_state c = S_WAIT"
    "connection_queue s' = filter (\<lambda>d. conn_addr d \<noteq> conn_addr c) (connection_queue s)"
    and act: "active_connections s' = active_connections s"
    using interrupt_cancelled_queue [OF q(1) r] by blast
  have dist: "distinct (map conn_addr (connection_queue s))" using q(1) by (simp add: queue_ok_def queue_counts_def)
  have nr: "\<not> running c" using q(2) c(1,2) by (simp add: settled_def)
  have cnt: "host_count k (connection_queue s') = host_count k (connection_queue s)" for k
    using nr count_delete [OF dist c(1), of "\<lambda>d. running d \<and> host_key (conn_uri d) = k"]
    unfolding host_count_def c(3) by simp
  have sub: "set (connection_queue s') \<subseteq> set (connection_queue s)" unfolding c(3) by (rule filter_is_subset)
  have "blocked d mh mc s'" if "blocked d mh mc s" for d
    using that sub unfolding blocked_def host_full_def cnt act by blast
  then show ?thesis using b sub unfolding blocked_below_def by blast
qed

lemma check_queue_ends:
  assumes q: "queue_ok lost s" "settled s" and st: "\<And>c. st c \<noteq> S_WAIT" "\<And>c. st c \<noteq> S_INTERRUPTED"
  shows "\<exists>s'. check_queue st kept mh mc s = Some s' \<and> queue_ok lost s' \<and> settled s'
    \<and> blocked_below PRIORITIES mh mc s' \<and> interrupt_cancelled s' = None"
proof -
  have "blocked_below 0 mh mc s" by (simp add: blocked_below_def)
  from check_starts_returns [where st = st and kept = kept, OF st q this]
  obtain s1 where s1: "check_starts st kept mh mc s = Some s1" "queue_ok lost s1" "settled s1"
    "check_queue_round (kept s1) mh mc s1 = None"
    by blast
  have qc: "queue_counts lost s1" using s1(2) by (simp add: queue_ok_def)
  have "blocked_below PRIORITIES mh mc s1" unfolding blocked_below_def
  proof (intro ballI impI)
    fix c assume c: "c \<in> set (connection_queue s1)" "conn_state c = S_WAIT"
    then have "fst (try_connection c mh mc s1) = 0"
      using try_groups_none [OF qc s1(4) [unfolded check_queue_round_def]] by blast
    then show "blocked c mh mc s1" using try_connection_blocked [OF s1(2), of c mh mc] by (metis prod.collapse)
  qed
  moreover have "blocked_below PRIORITIES mh mc (the (interrupt_cancelled s'))"
    if "blocked_below PRIORITIES mh mc s'" "queue_ok lost s'" "settled s'" "interrupt_cancelled s' \<noteq> None" for s'
    using interrupt_blocked [OF that(2,3) _ that(1)] that(4) by auto
  ultimately obtain s2 where "interrupt_all s1 = Some s2" "queue_ok lost s2" "settled s2"
    "blocked_below PRIORITIES mh mc s2" "interrupt_cancelled s2 = None"
    using interrupt_all_returns [of lost s1 "blocked_below PRIORITIES mh mc"] s1(2,3) by blast
  then show ?thesis using s1(1) by (simp add: check_queue_def)
qed


subsection \<open>What holds in every reachable state\<close>

lemma host_refs_same_host:
  "host_refs hs (host_key u) = (case List.find (\<lambda>h. same_host (hc_uri h) u) hs of None \<Rightarrow> 0 | Some h \<Rightarrow> hc_refcount h)"
  unfolding host_refs_def same_host_key by (rule refl)

lemma host_count_same_host:
  "host_count (host_key u) q = int (length (filter (\<lambda>c. running c \<and> same_host (conn_uri c) u) q))"
  by (simp add: host_count_def same_host_key)

text \<open>
  C38: Whatever requests, images, cancelled and moved downloads, protocol events, aborts, retries,
  callbacks of keepalive connections and rounds of the scheduler come in whatever order, the queue
  stays sorted by priority and no connection is in it twice; \<open>active_connections\<close> is at most the
  number of running connections, and too small by at most the number \<open>lost\<close> of callbacks for
  keepalive connections that were not found any more, so exact without these; the entry of a host has
  as its count the number of running connections to it, and there is no entry with count zero; and
  a connection has a priority, has at least as many owners of each priority as downloads of this
  priority, and either runs or waits.
\<close>

theorem conn_queue_consistent:
  assumes "conn_reachable lost s"
  shows "sorted (map get_priority (connection_queue s)) \<and> distinct (map conn_addr (connection_queue s))
    \<and> 0 \<le> active_connections s
    \<and> active_connections s \<le> int (length (filter running (connection_queue s)))
    \<and> int (length (filter running (connection_queue s))) \<le> active_connections s + int lost
    \<and> (\<forall>u. host u \<noteq> None \<longrightarrow>
        (case List.find (\<lambda>h. same_host (hc_uri h) u) (host_connections s) of None \<Rightarrow> 0 | Some h \<Rightarrow> hc_refcount h)
          = int (length (filter (\<lambda>c. running c \<and> same_host (conn_uri c) u) (connection_queue s))))
    \<and> (\<forall>h \<in> set (host_connections s). 0 < hc_refcount h)
    \<and> (\<forall>c \<in> set (connection_queue s). get_priority c < PRIORITIES \<and> (running c \<or> conn_state c = S_WAIT)
        \<and> (\<forall>p < PRIORITIES. int (length (filter (\<lambda>d. dl_pri d = p) (downloads c))) \<le> pri c ! p))"
proof -
  have q: "queue_counts lost s" "queue_waits s" "queue_sorted s"
    using conn_reachable_ok [OF assms] by (simp_all add: queue_ok_def)
  have "host_refs (host_connections s) (host_key u) = host_count (host_key u) (connection_queue s)" if "host u \<noteq> None" for u
    using q(1) that unfolding queue_counts_def host_key_None [symmetric] by blast
  moreover have "get_priority c < PRIORITIES" "owners_ok c" if "c \<in> set (connection_queue s)" for c
    using q(1) that owners_ok_priority [of c] by (simp_all add: queue_counts_def)
  ultimately show ?thesis
    using q unfolding host_refs_same_host host_count_same_host
    by (auto simp: queue_counts_def queue_waits_def queue_sorted_def running_count_def good_hosts_def owners_ok_def)
qed

text \<open>An example: a connection of priority 2 runs, then one of priority 0 to its host is wanted.\<close>

definition sample_uri :: uri where
  "sample_uri = snd (parse_uri (\<lambda>_. False) ''http://a.b/'')"

definition sample_idle :: conn_queue where
  "sample_idle = load_uri sample_uri sample_uri None (Some \<lparr>dl_id = 7, dl_pri = 0, dl_state = 0, dl_prev_error = 0\<rparr>) 2 False init_queue"

definition sample_busy :: conn_queue where
  "sample_busy = load_uri (snd (parse_uri (\<lambda>_. False) ''http://a.b/c'')) sample_uri None None PRI_MAIN False
     (set_connection_state 0 5 (the (check_queue_round (\<lambda>_. False) 1 9 sample_idle)))"

lemma sample_idle_reachable: "conn_reachable 0 sample_idle"
  unfolding sample_idle_def by (rule reach_step_0 [OF reach_init step_load]) (simp add: PRIORITIES_def)

lemma sample_busy_reachable: "conn_reachable 0 sample_busy"
proof -
  let ?s = "the (check_queue_round (\<lambda>_. False) 1 9 sample_idle)"
  have "check_queue_round (\<lambda>_. False) 1 9 sample_idle \<noteq> None" by code_simp
  then have "check_queue_round (\<lambda>_. False) 1 9 sample_idle = Some ?s" by simp
  then have r: "conn_reachable 0 ?s" by (rule reach_step_0 [OF sample_idle_reachable step_round])
  have "case conn_at 0 ?s of None \<Rightarrow> False | Some c \<Rightarrow> running c" by code_simp
  then obtain c where c: "conn_at 0 ?s = Some c" "running c" by (auto split: option.splits)
  have "conn_reachable 0 (set_connection_state 0 5 ?s)"
    by (rule reach_step_0 [OF r step_state [OF c]]) (simp add: S_WAIT_def)
  then show ?thesis unfolding sample_busy_def
    by (rule reach_step_0 [OF _ step_load]) (simp add: PRI_MAIN_def PRIORITIES_def)
qed

text \<open>A session that ends while no keepalive connection is left to quit it: one connection runs uncounted.\<close>

definition sample_lost :: conn_queue where
  "sample_lost = snd (do_keepalive_connection_callback sample_uri sample_uri False sample_busy)"

lemma sample_lost_reachable: "conn_reachable 1 sample_lost"
proof -
  have "do_keepalive_connection_callback sample_uri sample_uri False sample_busy = (0, sample_lost)"
    by (simp add: sample_lost_def do_keepalive_connection_callback_def Let_def)
  from reach_step [OF sample_busy_reachable step_lost [OF this]] show ?thesis by simp
qed

theorem conn_queue_consistent_witness:
  "map get_priority (connection_queue sample_busy) = [0, 2] \<and> active_connections sample_busy = 1
    \<and> sorted (map get_priority (connection_queue sample_busy)) \<and> list_all (\<lambda>h. 0 < hc_refcount h) (host_connections sample_busy)
    \<and> active_connections sample_lost = 0 \<and> map running (connection_queue sample_lost) = [False, True]
    \<and> sorted (map get_priority (connection_queue sample_lost))"
proof -
  have "map get_priority (connection_queue sample_busy) = [0, 2]" "active_connections sample_busy = 1"
    "active_connections sample_lost = 0" "map running (connection_queue sample_lost) = [False, True]" by code_simp+
  with conn_queue_consistent [OF sample_busy_reachable] conn_queue_consistent [OF sample_lost_reachable]
  show ?thesis by (simp add: list_all_iff)
qed

subsection \<open>The scheduler\<close>

lemma try_connection_event:
  assumes q: "queue_ok lost s" and t: "try_connection c mh mc s = (r, s')" "r \<noteq> 0"
  shows "\<not> host_full c mh s \<and> active_connections s < mc \<and> s' = run_connection (conn_addr c) s
    \<or> (host_full c mh s \<or> mc \<le> active_connections s)
      \<and> (\<exists>v \<in> set (connection_queue s). running v \<and> s' = suspend_connection (conn_addr v) s
          \<and> suspendable (get_priority c) (if host_full c mh s then Some (conn_uri c) else None) v
          \<and> (\<forall>d \<in> set (connection_queue s). suspendable (get_priority c) (if host_full c mh s then Some (conn_uri c) else None) d
              \<longrightarrow> get_priority d \<le> get_priority v))"
proof -
  have qc: "queue_counts lost s" using q by (simp add: queue_ok_def)
  show ?thesis
  proof (rule try_connection_cases [OF qc t(1)])
    fix v assume v: "victim_of c mh s = Some v" "s' = suspend_connection (conn_addr v) s"
      "host_full c mh s \<or> mc \<le> active_connections s"
    note vo = victim_of_ok [OF q v(1)]
    have "v \<in> set (connection_queue s)" using conn_atD [OF vo(1)] by simp
    then show ?thesis using v(2,3) vo(3-5) by blast
  qed (use t(2) in simp_all)
qed

text \<open>
  C39: A round of \<open>check_queue\<close> does something only for a waiting connection \<open>c\<close>, when every
  waiting connection before its priority can neither run nor get another one suspended. It starts
  \<open>c\<close> if the host of \<open>c\<close> has fewer than \<open>max_connections_to_host\<close> running connections (or none)
  and \<open>active_connections\<close> is below \<open>max_connections\<close>; this counter is exact up to the lost callbacks
  of keepalive connections (C38). Otherwise it suspends a running connection of lower priority,
  one of the lowest there are: never one that posts a form, unless it is cancelled
  (\<open>PRI_CANCEL\<close>: nobody wants it any more), and one to the same host if it is the host that is full.
\<close>

theorem check_queue_round_decides:
  assumes "conn_reachable lost s" "check_queue_round kept mh mc s = Some s'"
  shows "\<exists>c \<in> set (connection_queue s). conn_state c = S_WAIT
    \<and> (\<forall>d \<in> set (connection_queue s). conn_state d = S_WAIT \<longrightarrow> get_priority d < get_priority c \<longrightarrow> blocked d mh mc s)
    \<and> (\<not> host_full c mh s \<and> active_connections s < mc \<and> s' = run_connection (conn_addr c) s
      \<or> (host_full c mh s \<or> mc \<le> active_connections s)
        \<and> (\<exists>v \<in> set (connection_queue s). running v \<and> s' = suspend_connection (conn_addr v) s
            \<and> suspendable (get_priority c) (if host_full c mh s then Some (conn_uri c) else None) v
            \<and> (\<forall>d \<in> set (connection_queue s). suspendable (get_priority c) (if host_full c mh s then Some (conn_uri c) else None) d
                \<longrightarrow> get_priority d \<le> get_priority v)))"
proof -
  have q: "queue_ok lost s" by (rule conn_reachable_ok [OF assms(1)])
  then have so: "sorted (map get_priority (connection_queue s))" by (simp add: queue_ok_def queue_sorted_def)
  obtain c r where c: "c \<in> set (connection_queue s)" "conn_state c = S_WAIT" "try_connection c mh mc s = (r, s')" "r \<noteq> 0"
    "\<forall>d \<in> set (connection_queue s). conn_state d = S_WAIT \<longrightarrow> get_priority d < get_priority c \<longrightarrow> blocked d mh mc s"
    using try_groups_first [OF q so assms(2) [unfolded check_queue_round_def]] by blast
  with try_connection_event [OF q c(3,4)] show ?thesis by blast
qed

theorem check_queue_round_decides_witness:
  "\<exists>s'. check_queue_round (\<lambda>_. False) 1 9 sample_busy = Some s' \<and> map running (connection_queue s') = [False, False]
    \<and> (\<exists>c \<in> set (connection_queue sample_busy). conn_state c = S_WAIT)"
proof -
  have e: "map_option (\<lambda>s'. map running (connection_queue s')) (check_queue_round (\<lambda>_. False) 1 9 sample_busy) = Some [False, False]"
    by code_simp
  then obtain s' where s': "check_queue_round (\<lambda>_. False) 1 9 sample_busy = Some s'" by (auto simp: map_option_case split: option.splits)
  show ?thesis using check_queue_round_decides [OF sample_busy_reachable s'] e s' by auto
qed

text \<open>
  C40: \<open>check_queue\<close> comes to an end, from any reachable state in which the handlers of running
  connections have left the wait state behind, whatever keepalive connections there are: if each
  handler it starts leaves its connection in some state other than the wait state or aborts it,
  and no callback asks for more meanwhile, the loop over the rounds is not repeated forever, although suspended connections wait again.
  At its end no cancelled connection waits, and every connection that waits has a full host or
  all connections in use, and no running connection it could replace. The timeouts of keepalive
  connections, which \<open>check_keepalive_connections\<close> handles at the start of a round, are steps of
  their own (\<open>step_keepalive\<close>, \<open>step_lost\<close>) and not part of these rounds.
\<close>

theorem check_queue_returns:
  assumes "conn_reachable lost s" "\<forall>c \<in> set (connection_queue s). running c \<longrightarrow> conn_state c \<noteq> S_WAIT"
    and "\<forall>c. st c \<noteq> S_WAIT \<and> st c \<noteq> S_INTERRUPTED"
  shows "\<exists>s'. check_queue st kept mh mc s = Some s'
    \<and> active_connections s' \<le> running_count (connection_queue s')
    \<and> (\<forall>c \<in> set (connection_queue s'). running c \<longleftrightarrow> conn_state c \<noteq> S_WAIT)
    \<and> (\<forall>c \<in> set (connection_queue s'). conn_state c = S_WAIT \<longrightarrow>
        get_priority c < PRI_CANCEL \<and> (host_full c mh s' \<or> mc \<le> active_connections s')
        \<and> (\<forall>d \<in> set (connection_queue s').
            \<not> suspendable (get_priority c) (if host_full c mh s' then Some (conn_uri c) else None) d))"
proof -
  have q: "queue_ok lost s" by (rule conn_reachable_ok [OF assms(1)])
  then have se: "settled s" using assms(2) by (auto simp: settled_def queue_ok_def queue_waits_def)
  obtain s' where s': "check_queue st kept mh mc s = Some s'" "queue_ok lost s'" "settled s'"
    "blocked_below PRIORITIES mh mc s'" "interrupt_cancelled s' = None"
    using check_queue_ends [where st = st, OF q se] assms(3) by blast
  have "get_priority c < PRI_CANCEL" "blocked c mh mc s'" if c: "c \<in> set (connection_queue s')" "conn_state c = S_WAIT" for c
  proof -
    have "cancelled_conn (rev (connection_queue s')) = None" using s'(5) by (simp add: interrupt_cancelled_def split: option.splits)
    then show "get_priority c < PRI_CANCEL"
      using cancelled_conn_none [of "rev (connection_queue s')" c] s'(2) c
      by (force simp: queue_ok_def queue_sorted_def rev_map)
    have "get_priority c < PRIORITIES" using s'(2) c(1) by (intro owners_ok_priority) (simp add: queue_ok_def queue_counts_def)
    then show "blocked c mh mc s'" using s'(4) c by (simp add: blocked_below_def)
  qed
  then show ?thesis using s'(1,3) by (intro exI [of _ s']) (use s'(2) in \<open>simp add: blocked_def settled_def queue_ok_def queue_counts_def\<close>)
qed

theorem check_queue_returns_witness:
  "\<exists>s'. check_queue (\<lambda>_. 5) (\<lambda>_ _. False) 1 9 sample_busy = Some s'
    \<and> list_all (\<lambda>c. running c \<longleftrightarrow> conn_state c \<noteq> S_WAIT) (connection_queue s')"
proof -
  have "\<forall>c \<in> set (connection_queue sample_busy). running c \<longrightarrow> conn_state c \<noteq> S_WAIT" by code_simp
  then show ?thesis
    using check_queue_returns [OF sample_busy_reachable, of "\<lambda>_. 5" "\<lambda>_ _. False" 1 9]
    by (auto simp: S_WAIT_def S_INTERRUPTED_def list_all_iff)
qed

end
