(* ===== verification/Spec2Isabelle.thy ===== *)
theory Spec2Isabelle
  imports Conv_Text Base64 Uri_Translate Uri_Roundtrip Uri_Repair Uri_Edge_Cases Uri_Cache Cache_Add Cache_Policy Timer Utf8_Steps Date_Calendar Cookie_Claims Cookie_File
    Bencoding_Meta History Http_Claims Fastfind_Claims Conn_Claims
begin

text \<open>
  A verification library for the core of the ELinks web browser (\<open>src/src\<close> of the repository).

  ELinks fetches a document named by a URI, keeps its bytes in a memory cache, decodes and lays it
  out, and shows it in a text terminal. Underneath the network code, the renderer and the widgets
  lies a core of plain data structures and text processing, and it is this core the theories model,
  one theory (or a few) for each source file, in the order the files use each other.

  \<^bold>\<open>Foundations.\<close> \<open>Prelude\<close>: bytes, C strings and the generic lemmas. \<open>Util_String\<close> is
  \<open>util/string.[ch]\<close> and the character classes; \<open>Conv\<close> and \<open>Conv_Text\<close> are \<open>util/conv.[ch]\<close>
  (numbers to text, shell and HTML quoting, clean-up of titles and addresses); \<open>Base64\<close> is
  \<open>util/base64.c\<close>. Their lemmas are round trips: what one function quotes or prints is read back.
  \<open>Hash\<close> is \<open>util/hash.c\<close>, with the locale of a dictionary of which the table is an
  interpretation: whatever is added (also twice) and deleted, a lookup finds the latest item of its
  key that is left. \<open>Refcount\<close> is the locale of a
  store of shared, counted objects; the cookie servers are its interpretation.

  \<^bold>\<open>Addresses.\<close> \<open>Protocol\<close> is the table and the binary search of \<open>protocol/protocol.c\<close>. \<open>Uri\<close>,
  \<open>Uri_String\<close>, \<open>Uri_Encode\<close>, \<open>Uri_Normalize\<close> and \<open>Uri_Translate\<close> are \<open>protocol/uri.c\<close>: the
  parser, comparison and composition of URIs, percent encoding, the in-place removal of dot
  segments, the guesses \<open>translate_url\<close> makes and \<open>join_urls\<close>. \<open>Uri_Roundtrip\<close> proves that a URI
  built from parts parses to these parts and composes to itself, \<open>Uri_Repair\<close> that the repair loop
  of \<open>translate_url\<close> finds the URI that was meant, \<open>Uri_Paths\<close> that the in-place loop
  computes the segment-wise specification, \<open>Uri_Edge_Cases\<close> the corner cases. \<open>Uri_Cache\<close> is the
  table of shared \<open>struct uri\<close> objects (\<open>get_uri\<close>, \<open>done_uri\<close>) over \<open>Hash\<close>: the counts are exact.

  \<^bold>\<open>Memory cache.\<close> \<open>Cache_Fragments\<close>, \<open>Cache_Content\<close> and \<open>Cache_Add\<close> are the fragments of a cache
  entry (\<open>cache/cache.c\<close>): the list stays sorted and disjoint, adding and cutting change the bytes
  of the document as they should, and the size counters move with them. \<open>Cache_Lookup\<close> is the list
  of entries with lookup, validation and redirects, \<open>Cache_Collect\<close> the garbage collector pass by pass
  and the theorem that it frees neither too much nor too little, \<open>Cache_Policy\<close> what lookups promise.

  \<^bold>\<open>Time.\<close> \<open>Time\<close> is the arithmetic of \<open>util/time.c\<close>; \<open>Timer\<close> is \<open>main/timer.c\<close>, with the locale
  of a queue of timed events: expired timers run in order, once each. \<open>Date\<close> and \<open>Date_Calendar\<close>
  are \<open>protocol/date.c\<close>: reading the dates of HTTP headers and their number of seconds.

  \<^bold>\<open>Text.\<close> \<open>Width\<close> is \<open>intl/width.c\<close>, the width of a character in cells. \<open>Utf8\<close>, \<open>Utf8_Codec\<close> and
  \<open>Utf8_Steps\<close> are the UTF-8 part of \<open>intl/charsets.c\<close>: the codec is a bijection on code points and
  the functions that step through a text move by whole characters.

  \<^bold>\<open>HTTP data.\<close> \<open>Header\<close> is \<open>protocol/header.c\<close>. \<open>Cookies\<close>, \<open>Cookie_Jar\<close>, \<open>Cookie_Properties\<close>,
  \<open>Cookie_Claims\<close> and \<open>Cookie_File\<close> are \<open>cookies/\<close>: parsing, the security check, storing, sending and
  the file of cookies, with the inductive set of reachable jars and its invariant. The user may edit
  every field of a cookie; an edited domain is not entered into \<open>c_domains\<close>, so reachable jars carry
  a flag for it and the properties say what the edit costs.

  \<^bold>\<open>The keyword index.\<close> \<open>Fastfind\<close> is \<open>util/fastfind.c\<close>: the tree of arrays (\<open>struct ff_node\<close>, a
  record over memory blocks with addresses) that finds the names of HTML elements, colours and
  character sets. \<open>Fastfind_Tree\<close> reads the arrays as the steps of a tree and proves the search on
  them, \<open>Fastfind_Build\<close> proves that entering keys builds the map from folded keys to data, and
  \<open>Fastfind_Claims\<close> that compression keeps the steps; the fuel of \<open>compress_tree\<close> is the number of
  leafsets, which bounds the depth of the tree.

  \<^bold>\<open>The connection queue.\<close> \<open>Conn_Queue\<close> is the queue of \<open>network/connection.c\<close> with its priorities,
  the references of hosts, the downloads attached to connections and the scheduler \<open>check_queue\<close>.
  An operation ends where the code calls back into the program, so any interleaving of callbacks
  is a sequence of operations. \<open>Conn_Sort\<close> proves \<open>sort_queue\<close> a stable sort that ends,
  \<open>Conn_Invariant\<close> that the operations keep the counts of running connections and of hosts,
  \<open>Conn_Requests\<close> the same for requests and downloads. \<open>Conn_Scheduler\<close> says what
  \<open>try_connection\<close> decides and which connection it suspends, and \<open>Conn_Loop\<close> that \<open>check_queue\<close>
  comes to an end although it suspends connections it started: the loops are partial functions, and
  the measure is the priority still to be served, the connections that wait in it and those that run
  behind it. \<open>Conn_Claims\<close> holds the step relation and the invariant of every reachable queue,
  which contains two of the three assertions of \<open>check_queue_bugs\<close>: the queue is sorted, and
  \<open>active_connections\<close> counts the running connections, up to the number of callbacks for keepalive
  connections that were not found any more, each of which takes one away. Connections are named by
  their addresses; their ids come from a counter of 32 bits that wraps.

  \<^bold>\<open>HTTP bodies.\<close> \<open>Http_Body\<close> is the part of \<open>protocol/http/http.c\<close> that reads the body of a response
  from the socket buffer into the cache entry, chunked or plain, turn by turn of its loop.
  \<open>Http_Chunked\<close> has the decoder of a whole chunked text and proves that the loop agrees with it for
  every division into packets; \<open>Http_Claims\<close> the properties, and the inputs that break the decoder.

  \<^bold>\<open>Metainfo files.\<close> \<open>Decimal\<close> is \<open>atol\<close> with its lemmas. \<open>Scanner\<close> is \<open>util/scanner.[ch]\<close>, the token
  table with one token of lookahead, with the locale \<open>token_reader\<close> of what fills it: a parser that uses
  the accessors sees a plain list of tokens. \<open>Bencoding\<close> is \<open>protocol/bittorrent/bencoding.c\<close>, the reader
  of the BitTorrent format and the parser of metainfo files as functions on that list;
  \<open>Bencoding_Scan\<close> makes the reader an interpretation of the locale and proves the round trip of
  encoded values, \<open>Bencoding_Paths\<close> computes what becomes of a file name and shows the gap in it, and
  \<open>Bencoding_Meta\<close> proves that every token lies in the buffer and every accepted file is sane.

  \<^bold>\<open>Sessions.\<close> \<open>History\<close> is \<open>session/history.c\<close> with the part of \<open>ses_forward\<close> that changes the
  history: every reachable history is a zipper, and moving in it is computed exactly.

  \<^bold>\<open>Conventions.\<close> A NUL terminated string is the list of its bytes; positions in it are numbers.
  Errors are options, sums or the source's own codes. Offsets and lengths are natural numbers where
  the code keeps them non-negative; machine integers are written out modulo \<open>2 ^ w\<close> where a
  wrap-around can be observed (bit fields of \<open>struct uri\<close>, \<open>int\<close> seconds, \<open>cache_size\<close>), signed
  overflow, where it is undefined in C, taken as wrapping. Loops are structural recursion or
  \<open>function\<close>s with a termination proof; the only fuel is the number of passes of
  \<open>translate_url\<close>, whose \<open>goto parse_uri\<close> is bounded by a counter in the source itself.

  \<^bold>\<open>Build assumed.\<close> \<open>CONFIG_UTF8\<close>, IPv6, SSL, gopher and IDN are on, \<open>CONFIG_CODEPOINT\<close>, libevent
  and libev are off, neither DOS nor Windows; \<open>char\<close> is signed, \<open>int\<close> has 32 bits, \<open>long\<close> and
  \<open>off_t\<close> have 64; the C library's character classes are those of the C locale for bytes above 127;
  allocations succeed. Options and the clock are parameters; the file system enters as the
  predicate that a file exists.

  \<^bold>\<open>Not modelled.\<close> Sockets, TLS, DNS and most of the transfer protocols (event handlers around
  system calls); the HTML renderer and the CSS engine; the three JavaScript bindings; terminals, dialogs
  and widgets; the vendored and generated files.
\<close>

end
